(* ===== verification/Prelude.thy ===== *)
theory Prelude
  imports Main "HOL-Library.Word"
begin

unbundle bit_operations_syntax

text \<open>
  Shared vocabulary of the development: the machine integers of the C sources, IPv6
  addresses as sixteen bytes (\<open>struct in6_addr\<close>), the \<open>timespec\<close> arithmetic of
  \<open>src/src/util.h\<close>, the faults that C leaves undefined, and the generic list lemmas the
  components use.  The host is little-endian, as the sources assume (see the comment in
  \<open>src/src/pmip/pmip_pcap.c\<close>), so the 32-bit view of an address reads its bytes from the
  least significant one.
\<close>

section \<open>Collections of facts\<close>

named_theorems ts_simps \<open>unfolding rules of the timespec macros\<close>
named_theorems byte_simps \<open>rules that evaluate byte-level encodings\<close>

section \<open>Machine integers and faults\<close>

type_synonym byte = "8 word"
type_synonym u8 = "8 word"
type_synonym u16 = "16 word"
type_synonym u32 = "32 word"

text \<open>What the C code does when it leaves the defined part of the language.\<close>

datatype fault =
    NullDeref
  | UseAfterFree
  | AssertFail
  | OutOfBounds
  | Deadlock

datatype 'a outcome = Fault fault | Done 'a

definition andThen :: "'a outcome \<Rightarrow> ('a \<Rightarrow> 'b outcome) \<Rightarrow> 'b outcome" where
  "andThen m f = (case m of Fault e \<Rightarrow> Fault e | Done x \<Rightarrow> f x)"

lemma andThen_simps [simp]:
  "andThen (Fault e) f = Fault e"
  "andThen (Done x) f = f x"
  by (simp_all add: andThen_def)

lemma andThen_Done_iff:
  "andThen m f = Done y \<longleftrightarrow> (\<exists>x. m = Done x \<and> f x = Done y)"
  by (cases m) auto

lemma andThen_assoc: "andThen (andThen m f) g = andThen m (\<lambda>x. andThen (f x) g)"
  by (cases m) simp_all

text \<open>Error numbers the modelled functions return (Linux values).\<close>

abbreviation (input) ENOENT :: int where "ENOENT \<equiv> 2"
abbreviation (input) ENOMEM :: int where "ENOMEM \<equiv> 12"
abbreviation (input) EEXIST :: int where "EEXIST \<equiv> 17"
abbreviation (input) EINVAL :: int where "EINVAL \<equiv> 22"

section \<open>Byte order\<close>

definition le16 :: "byte \<Rightarrow> byte \<Rightarrow> u16" where
  "le16 b0 b1 = ucast b0 OR push_bit 8 (ucast b1)"

definition le32 :: "byte \<Rightarrow> byte \<Rightarrow> byte \<Rightarrow> byte \<Rightarrow> u32" where
  "le32 b0 b1 b2 b3 = ucast b0 OR push_bit 8 (ucast b1) OR push_bit 16 (ucast b2) OR push_bit 24 (ucast b3)"

definition bytes16 :: "u16 \<Rightarrow> byte list" where
  "bytes16 w = [ucast w, ucast (drop_bit 8 w)]"

definition bytes32 :: "u32 \<Rightarrow> byte list" where
  "bytes32 w = [ucast w, ucast (drop_bit 8 w), ucast (drop_bit 16 w), ucast (drop_bit 24 w)]"

text \<open>\<open>htons\<close> and \<open>ntohs\<close> swap the two bytes on a little-endian host.\<close>

definition htons :: "u16 \<Rightarrow> u16" where
  "htons w = push_bit 8 w OR drop_bit 8 w"

abbreviation ntohs :: "u16 \<Rightarrow> u16" where
  "ntohs \<equiv> htons"

lemma ntohs_htons [simp]: "ntohs (htons w) = w"
  unfolding htons_def
  by (rule bit_word_eqI) (auto simp: bit_simps)

lemma le16_bytes16 [simp]: "le16 (ucast w) (ucast (drop_bit 8 w)) = w"
  unfolding le16_def
  by (rule bit_word_eqI) (auto simp: bit_simps)

lemma le32_bytes32 [simp]:
  "le32 (ucast w) (ucast (drop_bit 8 w)) (ucast (drop_bit 16 w)) (ucast (drop_bit 24 w)) = w"
  unfolding le32_def
proof (rule bit_word_eqI)
  fix n assume "n < LENGTH(32)"
  then consider "n < 8" | "8 \<le> n" "n < 16" | "16 \<le> n" "n < 24" | "24 \<le> n" "n < 32"
    by fastforce
  then show "bit (ucast (ucast w :: byte) OR push_bit 8 (ucast (ucast (drop_bit 8 w) :: byte)) OR
      push_bit 16 (ucast (ucast (drop_bit 16 w) :: byte)) OR
      push_bit 24 (ucast (ucast (drop_bit 24 w) :: byte)) :: u32) n = bit w n"
    by cases (auto simp: bit_simps)
qed

lemma length_bytes16 [simp]: "length (bytes16 w) = 2"
  by (simp add: bytes16_def)

lemma length_bytes32 [simp]: "length (bytes32 w) = 4"
  by (simp add: bytes32_def)

section \<open>IPv6 addresses\<close>

datatype in6_addr =
  In6 byte byte byte byte byte byte byte byte byte byte byte byte byte byte byte byte

fun s6_addr :: "in6_addr \<Rightarrow> byte list" where
  "s6_addr (In6 b0 b1 b2 b3 b4 b5 b6 b7 b8 b9 b10 b11 b12 b13 b14 b15) =
     [b0, b1, b2, b3, b4, b5, b6, b7, b8, b9, b10, b11, b12, b13, b14, b15]"

definition in6_of :: "byte list \<Rightarrow> in6_addr" where
  "in6_of bs = In6 (bs ! 0) (bs ! 1) (bs ! 2) (bs ! 3) (bs ! 4) (bs ! 5) (bs ! 6) (bs ! 7)
     (bs ! 8) (bs ! 9) (bs ! 10) (bs ! 11) (bs ! 12) (bs ! 13) (bs ! 14) (bs ! 15)"

definition in6addr_any :: in6_addr where
  "in6addr_any = In6 0 0 0 0 0 0 0 0 0 0 0 0 0 0 0 0"

definition s6_addr32 :: "in6_addr \<Rightarrow> nat \<Rightarrow> u32" where
  "s6_addr32 a i = le32 (s6_addr a ! (4 * i)) (s6_addr a ! (4 * i + 1))
     (s6_addr a ! (4 * i + 2)) (s6_addr a ! (4 * i + 3))"

text \<open>\<open>IN6_ARE_ADDR_EQUAL\<close> compares the sixteen bytes, which is equality of the model's
  addresses; \<open>IN6_IS_ADDR_UNSPECIFIED\<close> compares with the all-zero address.\<close>

abbreviation IN6_IS_ADDR_UNSPECIFIED :: "in6_addr \<Rightarrow> bool" where
  "IN6_IS_ADDR_UNSPECIFIED a \<equiv> a = in6addr_any"

lemma length_s6_addr [simp]: "length (s6_addr a) = 16"
  by (cases a) simp

lemma in6_of_s6_addr [simp]: "in6_of (s6_addr a) = a"
  by (cases a) (simp add: in6_of_def)

lemma in6_of_append [simp]: "in6_of (s6_addr a @ xs) = a"
  by (cases a) (simp add: in6_of_def)

lemma s6_addr_inject [simp]: "s6_addr a = s6_addr b \<longleftrightarrow> a = b"
  by (metis in6_of_s6_addr)

lemma s6_addr_in6_of: "length bs = 16 \<Longrightarrow> s6_addr (in6_of bs) = bs"
  by (auto simp: in6_of_def numeral_eq_Suc length_Suc_conv)

section \<open>The timespec macros of util.h\<close>

datatype timespec = TS (tv_sec: int) (tv_nsec: int)

abbreviation (input) TIME_SEC_NSEC :: int where "TIME_SEC_NSEC \<equiv> 1000000000"

definition tsisset :: "timespec \<Rightarrow> bool" where
  [ts_simps]: "tsisset t \<longleftrightarrow> tv_sec t \<noteq> 0 \<or> tv_nsec t \<noteq> 0"

definition tszero :: timespec where
  [ts_simps]: "tszero = TS 0 0"

definition tsadd :: "timespec \<Rightarrow> timespec \<Rightarrow> timespec" where
  [ts_simps]: "tsadd a b =
     (let s = tv_sec a + tv_sec b; n = tv_nsec a + tv_nsec b
      in if n \<ge> TIME_SEC_NSEC then TS (s + 1) (n - TIME_SEC_NSEC) else TS s n)"

definition tssub :: "timespec \<Rightarrow> timespec \<Rightarrow> timespec" where
  [ts_simps]: "tssub a b =
     (let s = tv_sec a - tv_sec b; n = tv_nsec a - tv_nsec b
      in if n < 0 then TS (s - 1) (n + TIME_SEC_NSEC) else TS s n)"

definition tsafter :: "timespec \<Rightarrow> timespec \<Rightarrow> bool" where
  [ts_simps]: "tsafter a b \<longleftrightarrow>
     (if tv_sec a = tv_sec b then tv_nsec a < tv_nsec b else tv_sec a < tv_sec b)"

definition tsbefore :: "timespec \<Rightarrow> timespec \<Rightarrow> bool" where
  [ts_simps]: "tsbefore a b \<longleftrightarrow>
     (if tv_sec a = tv_sec b then tv_nsec a > tv_nsec b else tv_sec a > tv_sec b)"

definition ts_norm :: "timespec \<Rightarrow> bool" where
  [ts_simps]: "ts_norm t \<longleftrightarrow> 0 \<le> tv_nsec t \<and> tv_nsec t < TIME_SEC_NSEC"

definition ts_ns :: "timespec \<Rightarrow> int" where
  [ts_simps]: "ts_ns t = tv_sec t * TIME_SEC_NSEC + tv_nsec t"

text \<open>The order of instants: \<open>tsafter a b\<close> says that \<open>b\<close> is after \<open>a\<close>.\<close>

instantiation timespec :: linorder
begin

definition less_timespec :: "timespec \<Rightarrow> timespec \<Rightarrow> bool" where
  "less_timespec a b = tsafter a b"

definition less_eq_timespec :: "timespec \<Rightarrow> timespec \<Rightarrow> bool" where
  "less_eq_timespec a b = (\<not> tsafter b a)"

instance
proof
  fix a b c :: timespec
  show "(a < b) = (a \<le> b \<and> \<not> b \<le> a)"
    by (auto simp: less_timespec_def less_eq_timespec_def ts_simps)
  show "a \<le> a"
    by (simp add: less_eq_timespec_def ts_simps)
  show "a \<le> b \<Longrightarrow> b \<le> c \<Longrightarrow> a \<le> c"
    by (auto simp: less_eq_timespec_def ts_simps split: if_splits)
  show "a \<le> b \<Longrightarrow> b \<le> a \<Longrightarrow> a = b"
    by (cases a; cases b) (auto simp: less_eq_timespec_def ts_simps split: if_splits)
  show "a \<le> b \<or> b \<le> a"
    by (auto simp: less_eq_timespec_def ts_simps)
qed

end

lemma tsafter_less [simp]: "tsafter a b \<longleftrightarrow> a < b"
  by (simp add: less_timespec_def)

lemma tsbefore_greater [simp]: "tsbefore a b \<longleftrightarrow> b < a"
  by (auto simp: less_timespec_def ts_simps simp del: tsafter_less)

lemma ts_less_ns:
  "ts_norm a \<Longrightarrow> ts_norm b \<Longrightarrow> a < b \<longleftrightarrow> ts_ns a < ts_ns b"
  by (auto simp: less_timespec_def ts_simps simp del: tsafter_less tsbefore_greater)

lemma tsadd_norm: "ts_norm a \<Longrightarrow> ts_norm b \<Longrightarrow> ts_norm (tsadd a b)"
  by (auto simp: ts_simps Let_def)

lemma tsadd_ns: "ts_ns (tsadd a b) = ts_ns a + ts_ns b"
  by (auto simp: ts_simps Let_def algebra_simps)

lemma tssub_norm: "ts_norm a \<Longrightarrow> ts_norm b \<Longrightarrow> ts_norm (tssub a b)"
  by (auto simp: ts_simps Let_def)

lemma tssub_ns: "ts_ns (tssub a b) = ts_ns a - ts_ns b"
  by (auto simp: ts_simps Let_def algebra_simps)

lemma tsisset_tsadd: "0 < tv_sec a \<Longrightarrow> 0 \<le> tv_sec b \<Longrightarrow> tsisset (tsadd a b)"
  by (auto simp: ts_simps Let_def)

lemma tsadd_later:
  assumes "ts_norm a" "ts_norm b" "0 < ts_ns b"
  shows "a < tsadd a b"
  using assms by (simp add: ts_less_ns tsadd_norm tsadd_ns)

section \<open>Lists\<close>

lemma filter_remove1_same: "\<not> P x \<Longrightarrow> filter P (remove1 x xs) = filter P xs"
  by (induction xs) auto

lemma sorted_map_remove1: "sorted (map f xs) \<Longrightarrow> sorted (map f (remove1 x xs))"
  by (induction xs) (auto dest: notin_set_remove1)

lemma nth_list_update_set: "i < length xs \<Longrightarrow> y \<in> set (xs[i := x]) \<Longrightarrow> y = x \<or> y \<in> set xs"
  using set_update_subset_insert by fastforce

end
