(* ===== verification/Chained_Hash.thy ===== *)
theory Chained_Hash
  imports Prelude "HOL-Library.Multiset"
begin

text \<open>
  The chained hash table.  The loops over buckets and chains are textually the same in
  \<open>src/src/hash.c\<close>, \<open>src/src/pmip/pmip_hash.c\<close> and
  \<open>src/src/pmip/fmpmip/fmpmip_flowmob_hash.c\<close>; they are modelled once here, over a
  predicate (the file's \<open>match\<close> on one entry) and an index (the file's \<open>calc_hash\<close>), and
  then for \<open>hash.c\<close> itself.  An entry holds \<^emph>\<open>pointers\<close> to its key inside the data, so the
  key of an entry is read through the store at the time of the call: every operation takes
  the reading function \<open>key\<close>.

  The contract of a table is the locale \<open>keyed_table\<close>; \<open>chained\<close> proves it for the loops.
\<close>

section \<open>Loops over one chain\<close>

fun chain_get :: "('e \<Rightarrow> bool) \<Rightarrow> 'e list \<Rightarrow> 'e option" where
  "chain_get m [] = None"
| "chain_get m (e # es) = (if m e then Some e else chain_get m es)"

text \<open>The insertion loop stops at the last entry without testing it: the test is on
  \<open>hptr\<close> while \<open>hptr->next\<close> is not null.\<close>

fun chain_append :: "('e \<Rightarrow> bool) \<Rightarrow> 'e list \<Rightarrow> 'e \<Rightarrow> 'e list option" where
  "chain_append m [] new = Some [new]"
| "chain_append m [e] new = Some [e, new]"
| "chain_append m (e # e' # es) new =
     (if m e then None else map_option ((#) e) (chain_append m (e' # es) new))"

fun chain_delete :: "('e \<Rightarrow> bool) \<Rightarrow> 'e list \<Rightarrow> 'e list" where
  "chain_delete m [] = []"
| "chain_delete m (e # es) = (if m e then es else e # chain_delete m es)"

fun chain_iterate :: "('e \<Rightarrow> 's \<Rightarrow> int \<times> 's) \<Rightarrow> 'e list \<Rightarrow> 's \<Rightarrow> int \<times> 's" where
  "chain_iterate f [] s = (0, s)"
| "chain_iterate f (e # es) s =
     (case f e s of (err, s') \<Rightarrow> if err \<noteq> 0 then (err, s') else chain_iterate f es s')"

section \<open>The table\<close>

record 'e htable =
  buckets :: nat
  hash_buckets :: "'e list list"

definition table_get :: "('e, 'z) htable_scheme \<Rightarrow> nat \<Rightarrow> ('e \<Rightarrow> bool) \<Rightarrow> 'e option" where
  "table_get h i m = chain_get m (hash_buckets h ! i)"

definition table_add ::
  "('e, 'z) htable_scheme \<Rightarrow> nat \<Rightarrow> ('e \<Rightarrow> bool) \<Rightarrow> 'e \<Rightarrow> ('e, 'z) htable_scheme option" where
  "table_add h i m new =
     map_option (\<lambda>c. h\<lparr>hash_buckets := (hash_buckets h)[i := c]\<rparr>)
       (chain_append m (hash_buckets h ! i) new)"

definition table_delete ::
  "('e, 'z) htable_scheme \<Rightarrow> nat \<Rightarrow> ('e \<Rightarrow> bool) \<Rightarrow> ('e, 'z) htable_scheme" where
  "table_delete h i m =
     h\<lparr>hash_buckets := (hash_buckets h)[i := chain_delete m (hash_buckets h ! i)]\<rparr>"

fun buckets_iterate :: "('e \<Rightarrow> 's \<Rightarrow> int \<times> 's) \<Rightarrow> 'e list list \<Rightarrow> 's \<Rightarrow> int \<times> 's" where
  "buckets_iterate f [] s = (0, s)"
| "buckets_iterate f (c # cs) s =
     (case chain_iterate f c s of (err, s') \<Rightarrow>
        if err \<noteq> 0 then (err, s') else buckets_iterate f cs s')"

text \<open>\<open>nptr\<close> is read before the callback runs, so a callback may delete the entry it is
  given; callbacks delete no other entry, which is why the iteration may run over the chains
  as they were at its start.\<close>

definition table_iterate ::
  "('e \<Rightarrow> 's \<Rightarrow> int \<times> 's) \<Rightarrow> ('e, 'z) htable_scheme \<Rightarrow> 's \<Rightarrow> int \<times> 's" where
  "table_iterate f h s = buckets_iterate f (hash_buckets h) s"

definition table_elems :: "('e, 'z) htable_scheme \<Rightarrow> 'e list" where
  "table_elems h = concat (hash_buckets h)"

section \<open>Lemmas on chains\<close>

lemma chain_get_None_iff: "chain_get m es = None \<longleftrightarrow> (\<forall>e \<in> set es. \<not> m e)"
  by (induction es) auto

lemma chain_get_SomeD: "chain_get m es = Some e \<Longrightarrow> e \<in> set es \<and> m e"
  by (induction es) (auto split: if_splits)

lemma chain_get_append:
  "chain_get m (xs @ ys) = (case chain_get m xs of None \<Rightarrow> chain_get m ys | Some e \<Rightarrow> Some e)"
  by (induction xs) auto

lemma chain_append_iff:
  "chain_append m es new =
     (if \<exists>e \<in> set (butlast es). m e then None else Some (es @ [new]))"
  by (induction m es new rule: chain_append.induct) auto

lemma chain_delete_id: "\<forall>e \<in> set es. \<not> m e \<Longrightarrow> chain_delete m es = es"
  by (induction es) auto

lemma mset_chain_delete:
  "mset (chain_delete m es) =
     (case chain_get m es of None \<Rightarrow> mset es | Some e \<Rightarrow> mset es - {#e#})"
  by (induction es) (auto split: option.splits dest: chain_get_SomeD)

lemma chain_iterate_append:
  "chain_iterate f (xs @ ys) s =
     (case chain_iterate f xs s of (err, s') \<Rightarrow>
        if err \<noteq> 0 then (err, s') else chain_iterate f ys s')"
  by (induction xs arbitrary: s) (auto split: prod.splits)

lemma table_iterate_elems: "table_iterate f h s = chain_iterate f (table_elems h) s"
proof -
  have "buckets_iterate f cs s = chain_iterate f (concat cs) s" for cs
    by (induction cs arbitrary: s) (auto simp: chain_iterate_append split: prod.splits)
  then show ?thesis by (simp add: table_iterate_def table_elems_def)
qed

text \<open>A callback that never reports an error sees every entry once, in table order.\<close>

lemma chain_iterate_total:
  assumes "\<And>e s. fst (f e s) = 0"
  shows "chain_iterate f es s = (0, fold (\<lambda>e s. snd (f e s)) es s)"
proof (induction es arbitrary: s)
  case (Cons e es)
  then show ?case using assms [of e s] by (cases "f e s") simp
qed simp

lemma chain_iterate_cases:
  assumes "chain_iterate f es s = (err, s')" "err \<noteq> 0"
  shows "\<exists>e \<in> set es. \<exists>t. f e t = (err, s')"
  using assms by (induction es arbitrary: s) (auto split: prod.splits if_splits)

section \<open>The contract of a table\<close>

locale keyed_table =
  fixes get :: "'t \<Rightarrow> 'k \<Rightarrow> 'e option"
    and add :: "'t \<Rightarrow> 'e \<Rightarrow> 't option"
    and del :: "'t \<Rightarrow> 'k \<Rightarrow> 't"
    and key :: "'e \<Rightarrow> 'k"
    and elems :: "'t \<Rightarrow> 'e multiset"
    and invar :: "'t \<Rightarrow> bool"
  assumes get_key: "get t k = Some e \<Longrightarrow> key e = k"
    and get_elems: "invar t \<Longrightarrow> get t (key e) = Some e \<longleftrightarrow> e \<in># elems t"
    and add_fresh: "invar t \<Longrightarrow> get t (key e) = None \<Longrightarrow>
        \<exists>t'. add t e = Some t' \<and> invar t' \<and> elems t' = add_mset e (elems t)
           \<and> get t' = (get t)(key e \<mapsto> e)"
    and get_del: "invar t \<Longrightarrow> get (del t k) = (get t)(k := None)"
    and invar_del: "invar t \<Longrightarrow> invar (del t k)"
    and elems_del: "invar t \<Longrightarrow> elems (del t k) =
        (case get t k of None \<Rightarrow> elems t | Some e \<Rightarrow> elems t - {#e#})"
begin

lemma add_lookup:
  assumes "invar t" "get t (key e) = None" "add t e = Some t'"
  shows "get t' k = (if k = key e then Some e else get t k)"
  using add_fresh [OF assms(1,2)] assms(3) by auto

lemma add_invar:
  assumes "invar t" "get t (key e) = None" "add t e = Some t'"
  shows "invar t'" "elems t' = add_mset e (elems t)"
  using add_fresh [OF assms(1,2)] assms(3) by auto

lemma add_del_restores:
  assumes "invar t" "get t (key e) = None" "add t e = Some t'"
  shows "get (del t' (key e)) = get t" "elems (del t' (key e)) = elems t"
proof -
  have inv': "invar t'" and el: "elems t' = add_mset e (elems t)"
    using add_invar [OF assms] by auto
  have get': "get t' = (get t)(key e \<mapsto> e)"
    using add_fresh [OF assms(1,2)] assms(3) by auto
  show "get (del t' (key e)) = get t"
    using assms(2) by (simp add: get_del [OF inv'] get' fun_upd_idem)
  show "elems (del t' (key e)) = elems t"
    by (simp add: elems_del [OF inv'] get' el)
qed

lemma size_add:
  assumes "invar t" "get t (key e) = None" "add t e = Some t'"
  shows "size (elems t') = Suc (size (elems t))"
  using add_invar(2) [OF assms] by simp

lemma size_del:
  assumes "invar t" "get t k = Some e"
  shows "Suc (size (elems (del t k))) = size (elems t)"
proof -
  have "e \<in># elems t" using assms get_key get_elems by blast
  then show ?thesis using elems_del [OF assms(1), of k] assms(2)
    by (simp add: size_Suc_Diff1)
qed

lemma elems_unique_key:
  assumes "invar t" "a \<in># elems t" "b \<in># elems t" "key a = key b"
  shows "a = b"
  using assms get_elems by (metis option.inject)

end

section \<open>The loops meet the contract\<close>

locale chained =
  fixes idx :: "nat \<Rightarrow> 'k \<Rightarrow> nat"
    and key :: "'e \<Rightarrow> 'k"
  assumes idx_less: "0 < n \<Longrightarrow> idx n k < n"
begin

definition cget :: "('e, 'z) htable_scheme \<Rightarrow> 'k \<Rightarrow> 'e option" where
  "cget h k = table_get h (idx (buckets h) k) (\<lambda>e. key e = k)"

definition cadd :: "('e, 'z) htable_scheme \<Rightarrow> 'e \<Rightarrow> ('e, 'z) htable_scheme option" where
  "cadd h e = table_add h (idx (buckets h) (key e)) (\<lambda>e'. key e' = key e) e"

definition cdel :: "('e, 'z) htable_scheme \<Rightarrow> 'k \<Rightarrow> ('e, 'z) htable_scheme" where
  "cdel h k = table_delete h (idx (buckets h) k) (\<lambda>e. key e = k)"

definition cinv :: "('e, 'z) htable_scheme \<Rightarrow> bool" where
  "cinv h \<longleftrightarrow> 0 < buckets h \<and> length (hash_buckets h) = buckets h
     \<and> (\<forall>i < buckets h. \<forall>e \<in> set (hash_buckets h ! i). idx (buckets h) (key e) = i)
     \<and> (\<forall>i < buckets h. distinct (map key (hash_buckets h ! i)))"

lemma cinvD:
  assumes "cinv h"
  shows "0 < buckets h" "length (hash_buckets h) = buckets h"
    and "i < buckets h \<Longrightarrow> e \<in> set (hash_buckets h ! i) \<Longrightarrow> idx (buckets h) (key e) = i"
    and "i < buckets h \<Longrightarrow> distinct (map key (hash_buckets h ! i))"
  using assms by (auto simp: cinv_def)

lemma cinv_distinct:
  assumes "cinv h"
  shows "distinct (table_elems h)"
proof -
  have "distinct (concat cs)" if "\<forall>i < length cs. distinct (cs ! i) \<and> (\<forall>e \<in> set (cs ! i). tag e = i)" for cs and tag :: "'e \<Rightarrow> nat"
    using that
  proof (induction cs rule: rev_induct)
    case (snoc c cs)
    have "\<forall>i < length cs. distinct (cs ! i) \<and> (\<forall>e \<in> set (cs ! i). tag e = i)" "distinct c" "\<forall>e \<in> set c. tag e = length cs"
      using snoc.prems by (auto simp: nth_append less_Suc_eq)
    with snoc.IH show ?case by (force simp: in_set_conv_nth [of _ cs])
  qed simp
  from this [of "hash_buckets h" "\<lambda>e. idx (buckets h) (key e)"] show ?thesis
    using cinvD [OF assms] by (auto simp: table_elems_def distinct_map)
qed

lemma chain_get_distinct:
  "distinct (map key es) \<Longrightarrow> chain_get (\<lambda>e. key e = k) es = Some e \<longleftrightarrow> e \<in> set es \<and> key e = k"
proof (induction es)
  case (Cons a es)
  then show ?case by (cases "key a = k") (auto simp: image_iff)
qed simp

lemma cget_Some_iff:
  assumes "cinv h"
  shows "cget h k = Some e \<longleftrightarrow> e \<in> set (table_elems h) \<and> key e = k"
proof -
  note inv = cinvD [OF assms]
  have i: "idx (buckets h) k < buckets h" using inv(1) idx_less by blast
  have "cget h k = Some e \<longleftrightarrow> e \<in> set (hash_buckets h ! idx (buckets h) k) \<and> key e = k"
    unfolding cget_def table_get_def by (rule chain_get_distinct [OF inv(4) [OF i]])
  also have "\<dots> \<longleftrightarrow> e \<in> set (table_elems h) \<and> key e = k"
  proof
    assume "e \<in> set (hash_buckets h ! idx (buckets h) k) \<and> key e = k"
    with i inv(2) show "e \<in> set (table_elems h) \<and> key e = k"
      by (auto simp: table_elems_def intro!: bexI [OF _ nth_mem])
  next
    assume a: "e \<in> set (table_elems h) \<and> key e = k"
    then obtain j where "j < buckets h" "e \<in> set (hash_buckets h ! j)"
      using inv(2) by (auto simp: table_elems_def in_set_conv_nth [of _ "hash_buckets h"])
    with a inv(3) show "e \<in> set (hash_buckets h ! idx (buckets h) k) \<and> key e = k" by auto
  qed
  finally show ?thesis .
qed

text \<open>Looking into one bucket finds what a search through the whole table finds.\<close>

lemma cget_find:
  assumes "cinv h"
  shows "cget h k = find (\<lambda>e. key e = k) (table_elems h)"
proof (cases "find (\<lambda>e. key e = k) (table_elems h)")
  case None
  then have "cget h k \<noteq> Some e" for e using cget_Some_iff [OF assms] by (auto simp: find_None_iff)
  then show ?thesis using None by (cases "cget h k") auto
next
  case (Some e)
  then have "e \<in> set (table_elems h)" "key e = k" by (auto simp: find_Some_iff in_set_conv_nth)
  then show ?thesis using Some cget_Some_iff [OF assms] by simp
qed

lemma cget_update_bucket:
  assumes "cinv h" "i < buckets h"
    and "\<And>k'. idx (buckets h) k' = i \<Longrightarrow> chain_get (\<lambda>e. key e = k') c = g k'"
    and "\<And>k'. idx (buckets h) k' \<noteq> i \<Longrightarrow> g k' = cget h k'"
  shows "cget (h\<lparr>hash_buckets := (hash_buckets h)[i := c]\<rparr>) k = g k"
proof (cases "idx (buckets h) k = i")
  case True
  then show ?thesis
    using assms(2,3) cinvD(2) [OF assms(1)] by (simp add: cget_def table_get_def)
next
  case False
  then show ?thesis using assms(4) by (simp add: cget_def table_get_def)
qed

lemma mset_update_bucket:
  assumes "i < length cs"
  shows "mset (concat (cs[i := c])) + mset (cs ! i) = mset (concat cs) + mset c"
  using assms
proof (induction cs arbitrary: i)
  case (Cons x xs)
  then show ?case by (cases i) (auto simp: ac_simps add.assoc)
qed simp

lemma cadd_fresh:
  assumes inv: "cinv h" and fresh: "cget h (key e) = None"
  shows "\<exists>h'. cadd h e = Some h' \<and> cinv h'
     \<and> mset (table_elems h') = add_mset e (mset (table_elems h))
     \<and> cget h' = (cget h)(key e \<mapsto> e)"
proof -
  note D = cinvD [OF inv]
  define i where "i = idx (buckets h) (key e)"
  define c where "c = hash_buckets h ! i"
  define h' where "h' = h\<lparr>hash_buckets := (hash_buckets h)[i := c @ [e]]\<rparr>"
  have i: "i < buckets h" using D(1) idx_less by (simp add: i_def)
  have nomatch: "\<forall>e' \<in> set c. key e' \<noteq> key e"
    using fresh by (simp add: cget_def table_get_def chain_get_None_iff i_def c_def)
  then have add: "cadd h e = Some h'"
    by (auto simp: cadd_def table_add_def chain_append_iff h'_def c_def i_def dest: in_set_butlastD)
  have inv': "cinv h'"
    using i D nomatch by (auto simp: cinv_def h'_def c_def i_def nth_list_update)
  have "mset (table_elems h') + mset c = mset (table_elems h) + mset (c @ [e])"
    using mset_update_bucket [of i "hash_buckets h" "c @ [e]"] i D(2)
    by (simp add: h'_def table_elems_def c_def)
  then have el: "mset (table_elems h') = add_mset e (mset (table_elems h))"
    by (simp add: add.assoc)
  have "cget h' k = ((cget h)(key e \<mapsto> e)) k" for k
    unfolding h'_def
  proof (rule cget_update_bucket [OF inv i])
    fix k' assume k': "idx (buckets h) k' = i"
    have "chain_get (\<lambda>e. key e = k') c = cget h k'"
      by (simp add: cget_def table_get_def k' c_def)
    then show "chain_get (\<lambda>e. key e = k') (c @ [e]) = ((cget h)(key e \<mapsto> e)) k'"
      using fresh by (auto simp: chain_get_append split: option.splits)
  qed (auto simp: i_def)
  then show ?thesis using add inv' el by auto
qed

lemma chain_get_delete:
  "distinct (map key c) \<Longrightarrow> chain_get (\<lambda>e. key e = k') (chain_delete (\<lambda>e. key e = k) c) =
     (if k' = k then None else chain_get (\<lambda>e. key e = k') c)"
  by (induction c) (auto simp: chain_get_None_iff image_iff)

lemma set_chain_delete: "set (chain_delete m es) \<subseteq> set es"
  by (induction es) auto

lemma distinct_chain_delete: "distinct (map key es) \<Longrightarrow> distinct (map key (chain_delete m es))"
proof (induction es)
  case (Cons a es)
  then show ?case using set_chain_delete [of m es] by (auto simp: image_iff)
qed simp

lemma cget_del:
  assumes inv: "cinv h"
  shows "cget (cdel h k) = (cget h)(k := None)"
proof
  fix k0
  note D = cinvD [OF inv]
  define i where "i = idx (buckets h) k"
  define c where "c = hash_buckets h ! i"
  have i: "i < buckets h" using D(1) idx_less by (simp add: i_def)
  have dc: "distinct (map key c)" using D(4) [OF i] by (simp add: c_def)
  have "cget (cdel h k) k0 = ((cget h)(k := None)) k0"
    unfolding cdel_def table_delete_def i_def [symmetric] c_def [symmetric]
  proof (rule cget_update_bucket [OF inv i])
    fix k' assume "idx (buckets h) k' = i"
    then show "chain_get (\<lambda>e. key e = k') (chain_delete (\<lambda>e. key e = k) c) = ((cget h)(k := None)) k'"
      using chain_get_delete [OF dc] by (simp add: cget_def table_get_def c_def)
  qed (auto simp: i_def)
  then show "cget (cdel h k) k0 = ((cget h)(k := None)) k0" .
qed

lemma cdel_inv:
  assumes inv: "cinv h"
  shows "cinv (cdel h k)"
proof -
  note D = cinvD [OF inv]
  define i where "i = idx (buckets h) k"
  define c where "c = chain_delete (\<lambda>e. key e = k) (hash_buckets h ! i)"
  have i: "i < buckets h" using D(1) idx_less by (simp add: i_def)
  have "\<forall>e \<in> set c. idx (buckets h) (key e) = i"
    using D(3) [OF i] set_chain_delete by (fastforce simp: c_def)
  moreover have "distinct (map key c)"
    using distinct_chain_delete D(4) [OF i] by (simp add: c_def)
  ultimately show ?thesis using i D
    by (auto simp: cinv_def cdel_def table_delete_def nth_list_update
        simp flip: i_def c_def)
qed

lemma cdel_elems:
  assumes inv: "cinv h"
  shows "mset (table_elems (cdel h k)) =
    (case cget h k of None \<Rightarrow> mset (table_elems h) | Some e \<Rightarrow> mset (table_elems h) - {#e#})"
proof -
  note D = cinvD [OF inv]
  define i where "i = idx (buckets h) k"
  define c where "c = hash_buckets h ! i"
  have i: "i < buckets h" using D(1) idx_less by (simp add: i_def)
  have eq: "mset (table_elems (cdel h k)) + mset c
      = mset (table_elems h) + mset (chain_delete (\<lambda>e. key e = k) c)"
    using mset_update_bucket [of i "hash_buckets h" "chain_delete (\<lambda>e. key e = k) c"] i D(2)
    by (simp add: cdel_def table_delete_def table_elems_def c_def i_def)
  have get: "cget h k = chain_get (\<lambda>e. key e = k) c"
    by (simp add: cget_def table_get_def c_def i_def)
  show ?thesis
  proof (cases "cget h k")
    case None
    with eq get show ?thesis by (simp add: mset_chain_delete)
  next
    case (Some e)
    with get have cg: "chain_get (\<lambda>e. key e = k) c = Some e" by simp
    then have ec: "e \<in># mset c" using chain_get_SomeD by fastforce
    have eh: "e \<in># mset (table_elems h)" using Some cget_Some_iff [OF inv] by simp
    have "mset (table_elems (cdel h k)) + mset c = mset (table_elems h) + (mset c - {#e#})"
      using eq cg by (simp add: mset_chain_delete)
    also have "\<dots> = mset (table_elems h) - {#e#} + mset c"
      using multi_member_split [OF ec] multi_member_split [OF eh] by auto
    finally show ?thesis using Some by simp
  qed
qed

sublocale table: keyed_table cget cadd cdel key "\<lambda>h. mset (table_elems h)" cinv
proof (unfold_locales, goal_cases)
  case (1 t k e)
  then show ?case by (auto simp: cget_def table_get_def dest: chain_get_SomeD)
next
  case (2 t e)
  then show ?case by (simp add: cget_Some_iff)
next
  case (3 t e)
  then show ?case by (rule cadd_fresh)
next
  case (4 t k)
  then show ?case by (rule cget_del)
next
  case (5 t k)
  then show ?case by (rule cdel_inv)
next
  case (6 t k)
  then show ?case by (rule cdel_elems)
qed

text \<open>When the key is already present, the insertion notices it only if the present entry is
  not the last one of its chain.\<close>

lemma cadd_None_iff:
  "cadd h e = None \<longleftrightarrow>
     (\<exists>e' \<in> set (butlast (hash_buckets h ! idx (buckets h) (key e))). key e' = key e)"
  by (auto simp: cadd_def table_add_def chain_append_iff)

lemma cadd_Some_iff:
  "cadd h e = Some h' \<longleftrightarrow>
     (\<forall>e' \<in> set (butlast (hash_buckets h ! idx (buckets h) (key e))). key e' \<noteq> key e) \<and>
     h' = h\<lparr>hash_buckets := (hash_buckets h)[idx (buckets h) (key e) :=
             hash_buckets h ! idx (buckets h) (key e) @ [e]]\<rparr>"
  by (auto simp: cadd_def table_add_def chain_append_iff)

lemma cinv_empty: "0 < n \<Longrightarrow> buckets h = n \<Longrightarrow> hash_buckets h = replicate n [] \<Longrightarrow> cinv h"
  by (simp add: cinv_def)

end

section \<open>Reading keys through another store\<close>

text \<open>Two stores that agree on the keys of the entries of a table give the same lookups.\<close>

lemma chain_get_cong:
  "(\<And>e. e \<in> set es \<Longrightarrow> m e = m' e) \<Longrightarrow> chain_get m es = chain_get m' es"
  by (induction es) auto

context chained
begin

lemma cinv_cong:
  fixes h :: "('e, 'z) htable_scheme"
  assumes "cinv h" "\<And>e. e \<in> set (table_elems h) \<Longrightarrow> key' e = key e"
  shows "chained.cinv idx key' h"
proof -
  have "key' e = key e" if "i < buckets h" "e \<in> set (hash_buckets h ! i)" for i e
    using assms(1) that by (intro assms(2)) (auto simp: table_elems_def cinv_def intro!: bexI [OF _ nth_mem])
  then show ?thesis
    using assms(1) by (simp add: chained.cinv_def [OF chained_axioms] cong: map_cong)
qed

lemma cget_cong:
  fixes h :: "('e, 'z) htable_scheme"
  assumes "cinv h" "\<And>e. e \<in> set (table_elems h) \<Longrightarrow> key' e = key e"
  shows "chained.cget idx key' h k = cget h k"
proof -
  have "idx (buckets h) k < length (hash_buckets h)"
    using assms(1) idx_less by (simp add: cinv_def)
  then have "key' e = key e" if "e \<in> set (hash_buckets h ! idx (buckets h) k)" for e
    using that by (intro assms(2)) (auto simp: table_elems_def intro!: bexI [OF _ nth_mem])
  then show ?thesis
    unfolding chained.cget_def [OF chained_axioms] table_get_def by (intro chain_get_cong) simp
qed

end

end
