(* ===== verification/Addr_Hash.thy ===== *)
theory Addr_Hash
  imports Chained_Hash
begin

text \<open>
  \<open>src/src/hash.c\<close>: the hash table of the MIPL core, keyed by one or two IPv6 addresses.
  An entry is represented by its data; \<open>rd e\<close> reads the two address pointers
  \<open>(our_addr, peer_addr)\<close> of the entry, which point into the data.
\<close>

section \<open>Model\<close>

datatype hash_kind = DOUBLE_ADDR | SINGLE_ADDR

record 'e hash = "'e htable" +
  hash_type :: hash_kind

definition calc_hash2 :: "nat \<Rightarrow> in6_addr \<Rightarrow> in6_addr \<Rightarrow> nat" where
  "calc_hash2 s our_addr peer_addr =
     unat (s6_addr32 our_addr 0 XOR s6_addr32 our_addr 1 XOR
           s6_addr32 our_addr 2 XOR s6_addr32 our_addr 3 XOR
           s6_addr32 peer_addr 0 XOR s6_addr32 peer_addr 1 XOR
           s6_addr32 peer_addr 2 XOR s6_addr32 peer_addr 3) mod s"

definition calc_hash1 :: "nat \<Rightarrow> in6_addr \<Rightarrow> in6_addr \<Rightarrow> nat" where
  "calc_hash1 s dummy peer_addr =
     unat (s6_addr32 peer_addr 0 XOR s6_addr32 peer_addr 1 XOR
           s6_addr32 peer_addr 2 XOR s6_addr32 peer_addr 3) mod s"

definition match2 :: "in6_addr \<times> in6_addr \<Rightarrow> in6_addr \<Rightarrow> in6_addr \<Rightarrow> bool" where
  "match2 h our_addr peer_addr \<longleftrightarrow> snd h = peer_addr \<and> fst h = our_addr"

definition match1 :: "in6_addr \<times> in6_addr \<Rightarrow> in6_addr \<Rightarrow> in6_addr \<Rightarrow> bool" where
  "match1 h dummy peer_addr \<longleftrightarrow> snd h = peer_addr"

text \<open>The function pointers \<open>calc_hash\<close> and \<open>match\<close> that \<open>hash_init\<close> stores are
  determined by the type of the table.\<close>

definition hash_calc :: "('e, 'z) hash_scheme \<Rightarrow> in6_addr \<Rightarrow> in6_addr \<Rightarrow> nat" where
  "hash_calc h our_addr peer_addr =
     (case hash_type h of
        DOUBLE_ADDR \<Rightarrow> calc_hash2 (buckets h) our_addr peer_addr
      | SINGLE_ADDR \<Rightarrow> calc_hash1 (buckets h) our_addr peer_addr)"

definition hash_match ::
  "('e, 'z) hash_scheme \<Rightarrow> in6_addr \<times> in6_addr \<Rightarrow> in6_addr \<Rightarrow> in6_addr \<Rightarrow> bool" where
  "hash_match h a our_addr peer_addr =
     (case hash_type h of
        DOUBLE_ADDR \<Rightarrow> match2 a our_addr peer_addr
      | SINGLE_ADDR \<Rightarrow> match1 a our_addr peer_addr)"

definition hash_init :: "bool \<Rightarrow> hash_kind \<Rightarrow> nat \<Rightarrow> (int \<times> 'e hash option) outcome" where
  "hash_init mem kind n =
     (if n = 0 then Fault AssertFail
      else if \<not> mem then Done (- ENOMEM, None)
      else Done (0, Some \<lparr>buckets = n, hash_buckets = replicate n [], hash_type = kind\<rparr>))"

definition hash_get ::
  "('e \<Rightarrow> in6_addr \<times> in6_addr) \<Rightarrow> ('e, 'z) hash_scheme \<Rightarrow> in6_addr \<Rightarrow> in6_addr \<Rightarrow> 'e option" where
  "hash_get rd h our_addr peer_addr =
     table_get h (hash_calc h our_addr peer_addr) (\<lambda>e. hash_match h (rd e) our_addr peer_addr)"

definition hash_add ::
  "bool \<Rightarrow> ('e \<Rightarrow> in6_addr \<times> in6_addr) \<Rightarrow> ('e, 'z) hash_scheme \<Rightarrow> 'e \<Rightarrow> int \<times> ('e, 'z) hash_scheme" where
  "hash_add mem rd h data =
     (if \<not> mem then (- ENOMEM, h)
      else case table_add h (hash_calc h (fst (rd data)) (snd (rd data)))
                  (\<lambda>e. hash_match h (rd e) (fst (rd data)) (snd (rd data))) data of
             None \<Rightarrow> (- EEXIST, h)
           | Some h' \<Rightarrow> (0, h'))"

definition hash_iterate ::
  "('e, 'z) hash_scheme \<Rightarrow> ('e \<Rightarrow> 's \<Rightarrow> int \<times> 's) \<Rightarrow> 's \<Rightarrow> int \<times> 's" where
  "hash_iterate h f s = table_iterate f h s"

definition hash_delete ::
  "('e \<Rightarrow> in6_addr \<times> in6_addr) \<Rightarrow> ('e, 'z) hash_scheme \<Rightarrow> in6_addr \<Rightarrow> in6_addr \<Rightarrow> ('e, 'z) hash_scheme" where
  "hash_delete rd h our_addr peer_addr =
     table_delete h (hash_calc h our_addr peer_addr) (\<lambda>e. hash_match h (rd e) our_addr peer_addr)"

section \<open>The contract\<close>

lemma addr_hash_less: "0 < n \<Longrightarrow> calc_hash2 n a b < n" "0 < n \<Longrightarrow> calc_hash1 n a b < n"
  by (simp_all add: calc_hash2_def calc_hash1_def)

interpretation dbl: chained "\<lambda>n k. calc_hash2 n (fst k) (snd k)" rd
  for rd :: "'e \<Rightarrow> in6_addr \<times> in6_addr"
  by unfold_locales (simp add: addr_hash_less)

interpretation sgl: chained "\<lambda>n k. calc_hash1 n in6addr_any k" "\<lambda>e. snd (rd e)"
  for rd :: "'e \<Rightarrow> in6_addr \<times> in6_addr"
  by unfold_locales (simp add: addr_hash_less)

lemma hash_double:
  assumes "hash_type h = DOUBLE_ADDR"
  shows "hash_get rd h our peer = dbl.cget rd h (our, peer)"
    and "hash_delete rd h our peer = dbl.cdel rd h (our, peer)"
    and "hash_add True rd h e = (case dbl.cadd rd h e of None \<Rightarrow> (- EEXIST, h) | Some h' \<Rightarrow> (0, h'))"
proof -
  have m: "(\<lambda>e. snd (rd e) = peer \<and> fst (rd e) = our) = (\<lambda>e. rd e = (our, peer))" for our peer
    by (auto simp: prod_eq_iff)
  show "hash_get rd h our peer = dbl.cget rd h (our, peer)"
    using assms by (simp add: hash_get_def dbl.cget_def hash_calc_def hash_match_def match2_def m)
  show "hash_delete rd h our peer = dbl.cdel rd h (our, peer)"
    using assms by (simp add: hash_delete_def dbl.cdel_def hash_calc_def hash_match_def match2_def m)
  show "hash_add True rd h e = (case dbl.cadd rd h e of None \<Rightarrow> (- EEXIST, h) | Some h' \<Rightarrow> (0, h'))"
    using assms m [of "snd (rd e)" "fst (rd e)"]
    by (simp add: hash_add_def dbl.cadd_def hash_calc_def hash_match_def match2_def)
qed

lemma hash_single:
  assumes "hash_type h = SINGLE_ADDR"
  shows "hash_get rd h our peer = sgl.cget rd h peer"
    and "hash_delete rd h our peer = sgl.cdel rd h peer"
    and "hash_add True rd h e = (case sgl.cadd rd h e of None \<Rightarrow> (- EEXIST, h) | Some h' \<Rightarrow> (0, h'))"
proof -
  have d: "calc_hash1 n a k = calc_hash1 n in6addr_any k" for n a k
    by (simp add: calc_hash1_def)
  show "hash_get rd h our peer = sgl.cget rd h peer"
    using assms by (simp add: hash_get_def sgl.cget_def hash_calc_def hash_match_def match1_def d [of _ our])
  show "hash_delete rd h our peer = sgl.cdel rd h peer"
    using assms by (simp add: hash_delete_def sgl.cdel_def hash_calc_def hash_match_def match1_def d [of _ our])
  show "hash_add True rd h e = (case sgl.cadd rd h e of None \<Rightarrow> (- EEXIST, h) | Some h' \<Rightarrow> (0, h'))"
    using assms by (simp add: hash_add_def sgl.cadd_def hash_calc_def hash_match_def match1_def d [of _ "fst (rd e)"])
qed

lemma hash_add_type [simp]: "hash_type (snd (hash_add mem rd h e)) = hash_type h"
  by (auto simp: hash_add_def table_add_def split: option.splits)

lemma hash_delete_type [simp]: "hash_type (hash_delete rd h a b) = hash_type h"
  by (simp add: hash_delete_def table_delete_def)

definition hash_wf :: "('e \<Rightarrow> in6_addr \<times> in6_addr) \<Rightarrow> ('e, 'z) hash_scheme \<Rightarrow> bool" where
  "hash_wf rd h \<longleftrightarrow> hash_type h = DOUBLE_ADDR \<and> dbl.cinv rd h"

lemma hash_init_wf: "hash_init True DOUBLE_ADDR n = Done (0, Some h) \<Longrightarrow> hash_wf rd h"
  by (auto simp: hash_init_def hash_wf_def intro!: dbl.cinv_empty split: if_splits)

text \<open>Lookup in a table of address pairs is a search through the table, and insertion and deletion change one key.\<close>

lemma hash_get_find:
  assumes "hash_wf rd h"
  shows "hash_get rd h our peer = find (\<lambda>e. rd e = (our, peer)) (table_elems h)"
  using assms dbl.cget_find [of rd h "(our, peer)"] by (simp add: hash_wf_def hash_double)

lemma hash_delete_get:
  assumes "hash_wf rd h"
  shows "hash_wf rd (hash_delete rd h our peer)"
    and "hash_get rd (hash_delete rd h our peer) a b = (if (a, b) = (our, peer) then None else hash_get rd h a b)"
proof -
  have w: "hash_type h = DOUBLE_ADDR" "dbl.cinv rd h" using assms by (simp_all add: hash_wf_def)
  note d = hash_double(2) [OF w(1), of rd our peer]
  have t: "hash_type (hash_delete rd h our peer) = DOUBLE_ADDR" using w(1) by simp
  have i: "dbl.cinv rd (hash_delete rd h our peer)" unfolding d by (rule dbl.table.invar_del [OF w(2)])
  show "hash_wf rd (hash_delete rd h our peer)" using t i by (simp add: hash_wf_def)
  have "hash_get rd (hash_delete rd h our peer) a b = ((dbl.cget rd h)((our, peer) := None)) (a, b)"
    unfolding hash_double(1) [OF t] unfolding d by (simp only: dbl.table.get_del [OF w(2)])
  then show "hash_get rd (hash_delete rd h our peer) a b = (if (a, b) = (our, peer) then None else hash_get rd h a b)"
    by (simp add: hash_double(1) [OF w(1)])
qed

end
