(* ===== verification/Pmip_Hash.thy ===== *)
theory Pmip_Hash
  imports Chained_Hash
begin

text \<open>
  \<open>src/src/pmip/pmip_hash.c\<close>: the hash table of the proxy binding cache, keyed by the
  network access identifier of the mobile node and the address of its serving MAG.
  \<open>rd e\<close> reads the pointers \<open>(mn_nai, mag_address)\<close> of an entry, which point into the
  binding cache entry itself.
\<close>

section \<open>Model\<close>

text \<open>\<open>ip6mn_nai_t\<close> is an array of \<open>NAI_SIZE\<close> bytes.\<close>

type_synonym ip6mn_nai = "byte list"

abbreviation (input) NAI_SIZE :: nat where "NAI_SIZE \<equiv> 63"

definition nai_zero :: ip6mn_nai where
  "nai_zero = replicate NAI_SIZE 0"

type_synonym 'e pmip_hash = "'e htable"

text \<open>\<open>char\<close> is signed: each byte is sign-extended before the exclusive or.\<close>

definition calc_hash :: "nat \<Rightarrow> ip6mn_nai \<Rightarrow> in6_addr \<Rightarrow> nat" where
  "calc_hash s mn_nai mag_address =
     (let hash = foldl (\<lambda>hash c. scast c XOR hash) (0 :: u32) mn_nai;
          hash = hash XOR s6_addr32 mag_address 0 XOR s6_addr32 mag_address 1
                      XOR s6_addr32 mag_address 2 XOR s6_addr32 mag_address 3
      in unat hash mod s)"

definition match :: "ip6mn_nai \<times> in6_addr \<Rightarrow> ip6mn_nai \<Rightarrow> in6_addr \<Rightarrow> bool" where
  "match h mn_nai mag_address \<longleftrightarrow> mn_nai = fst h \<and> snd h = mag_address"

definition pmip_hash_init :: "bool \<Rightarrow> nat \<Rightarrow> (int \<times> 'e pmip_hash option) outcome" where
  "pmip_hash_init mem n =
     (if n = 0 then Fault AssertFail
      else if \<not> mem then Done (- ENOMEM, None)
      else Done (0, Some \<lparr>buckets = n, hash_buckets = replicate n []\<rparr>))"

definition pmip_hash_get ::
  "('e \<Rightarrow> ip6mn_nai \<times> in6_addr) \<Rightarrow> 'e pmip_hash \<Rightarrow> ip6mn_nai \<Rightarrow> in6_addr \<Rightarrow> 'e option" where
  "pmip_hash_get rd h mn_nai mag_address =
     table_get h (calc_hash (buckets h) mn_nai mag_address) (\<lambda>e. match (rd e) mn_nai mag_address)"

definition pmip_hash_add ::
  "bool \<Rightarrow> ('e \<Rightarrow> ip6mn_nai \<times> in6_addr) \<Rightarrow> 'e pmip_hash \<Rightarrow> 'e \<Rightarrow> int \<times> 'e pmip_hash" where
  "pmip_hash_add mem rd h data =
     (if \<not> mem then (- ENOMEM, h)
      else case table_add h (calc_hash (buckets h) (fst (rd data)) (snd (rd data)))
                  (\<lambda>e. match (rd e) (fst (rd data)) (snd (rd data))) data of
             None \<Rightarrow> (- EEXIST, h)
           | Some h' \<Rightarrow> (0, h'))"

definition pmip_hash_iterate :: "'e pmip_hash \<Rightarrow> ('e \<Rightarrow> 's \<Rightarrow> int \<times> 's) \<Rightarrow> 's \<Rightarrow> int \<times> 's" where
  "pmip_hash_iterate h f s = table_iterate f h s"

definition pmip_hash_delete ::
  "('e \<Rightarrow> ip6mn_nai \<times> in6_addr) \<Rightarrow> 'e pmip_hash \<Rightarrow> ip6mn_nai \<Rightarrow> in6_addr \<Rightarrow> 'e pmip_hash" where
  "pmip_hash_delete rd h mn_nai mag_address =
     table_delete h (calc_hash (buckets h) mn_nai mag_address) (\<lambda>e. match (rd e) mn_nai mag_address)"

section \<open>The contract\<close>

lemma calc_hash_less: "0 < n \<Longrightarrow> calc_hash n a b < n"
  by (simp add: calc_hash_def Let_def)

interpretation ph: chained "\<lambda>n k. calc_hash n (fst k) (snd k)" rd
  for rd :: "'e \<Rightarrow> ip6mn_nai \<times> in6_addr"
  by unfold_locales (simp add: calc_hash_less)

lemma match_key: "match (rd e) a b \<longleftrightarrow> rd e = (a, b)"
  by (auto simp: match_def prod_eq_iff)

lemma pmip_hash_chained:
  "pmip_hash_get rd h a b = ph.cget rd h (a, b)"
  "pmip_hash_delete rd h a b = ph.cdel rd h (a, b)"
  "pmip_hash_add True rd h e = (case ph.cadd rd h e of None \<Rightarrow> (- EEXIST, h) | Some h' \<Rightarrow> (0, h'))"
  by (simp_all add: pmip_hash_get_def pmip_hash_delete_def pmip_hash_add_def
      ph.cget_def ph.cdel_def ph.cadd_def match_key)

lemma pmip_hash_get_key: "pmip_hash_get rd h a b = Some e \<Longrightarrow> rd e = (a, b)"
  using ph.table.get_key by (fastforce simp: pmip_hash_chained)

lemma pmip_hash_get_mem:
  assumes "pmip_hash_get rd h a b = Some e" "calc_hash (buckets h) a b < length (hash_buckets h)"
  shows "e \<in> set (table_elems h)"
  using assms
  by (auto simp: pmip_hash_get_def table_get_def table_elems_def dest!: chain_get_SomeD
      intro!: bexI [OF _ nth_mem])

abbreviation pmip_hash_wf :: "('e \<Rightarrow> ip6mn_nai \<times> in6_addr) \<Rightarrow> 'e pmip_hash \<Rightarrow> bool" where
  "pmip_hash_wf \<equiv> ph.cinv"

lemma pmip_hash_init_wf: "pmip_hash_init True n = Done (0, Some h) \<Longrightarrow> pmip_hash_wf rd h"
  by (auto simp: pmip_hash_init_def intro!: ph.cinv_empty split: if_splits)

text \<open>Reading keys through two stores that agree on the entries of a table makes no difference.\<close>

lemma pmip_hash_wf_cong:
  assumes "pmip_hash_wf rd h" "\<And>e. e \<in> set (table_elems h) \<Longrightarrow> rd' e = rd e"
  shows "pmip_hash_wf rd' h"
  using ph.cinv_cong assms by blast

lemma pmip_hash_get_cong:
  assumes "pmip_hash_wf rd h" "\<And>e. e \<in> set (table_elems h) \<Longrightarrow> rd' e = rd e"
  shows "pmip_hash_get rd' h a b = pmip_hash_get rd h a b"
  unfolding pmip_hash_chained using ph.cget_cong assms by blast

lemma calc_hash_1 [simp]: "calc_hash (Suc 0) a b = 0"
  using calc_hash_less [of "Suc 0" a b] by simp

lemma pmip_hash_wf_single: "pmip_hash_wf rd \<lparr>buckets = 1, hash_buckets = [[e]]\<rparr>"
  by (simp add: ph.cinv_def)

section \<open>Properties\<close>

text \<open>In every table that is reached by insertions of absent keys and deletions, the lookup, which
  compares only the entries of one bucket, gives the same result as a search through all entries
  of the table.\<close>

lemma pmip_hash_get_find:
  assumes "pmip_hash_wf rd h"
  shows "pmip_hash_get rd h mn_nai mag = find (\<lambda>e. rd e = (mn_nai, mag)) (table_elems h)"
  unfolding pmip_hash_chained by (rule ph.cget_find [OF assms])

lemma pmip_hash_get_find_witness:
  "pmip_hash_get id \<lparr>buckets = 1, hash_buckets = [[(nai_zero, in6addr_any)]]\<rparr> nai_zero in6addr_any = Some (nai_zero, in6addr_any)"
  using pmip_hash_get_find [OF pmip_hash_wf_single, of id "(nai_zero, in6addr_any)" nai_zero in6addr_any]
  by (simp add: table_elems_def)

text \<open>Inserting an entry whose key is absent succeeds, keeps the table well formed, and makes
  the entry the one found under its key, while every other key keeps its entry.\<close>

lemma pmip_hash_add_get:
  assumes "pmip_hash_wf rd h"
    and "pmip_hash_get rd h (fst (rd e)) (snd (rd e)) = None"
  shows "\<exists>h'. pmip_hash_add True rd h e = (0, h') \<and> pmip_hash_wf rd h'
    \<and> (\<forall>a b. pmip_hash_get rd h' a b = (if rd e = (a, b) then Some e else pmip_hash_get rd h a b))"
proof -
  have "ph.cget rd h (rd e) = None" using assms(2) by (simp add: pmip_hash_chained)
  from ph.table.add_fresh [OF assms(1) this]
  obtain h' where "ph.cadd rd h e = Some h'" "pmip_hash_wf rd h'" "ph.cget rd h' = (ph.cget rd h)(rd e \<mapsto> e)"
    by blast
  then show ?thesis by (auto simp: pmip_hash_chained)
qed

lemma pmip_hash_add_get_witness:
  "\<exists>h'. pmip_hash_add True id \<lparr>buckets = 2, hash_buckets = [[], []]\<rparr> (nai_zero, in6addr_any) = (0, h')
     \<and> pmip_hash_get id h' nai_zero in6addr_any = Some (nai_zero, in6addr_any)"
proof -
  let ?h = "\<lparr>buckets = 2, hash_buckets = replicate 2 []\<rparr> :: (ip6mn_nai \<times> in6_addr) pmip_hash"
  have wf: "pmip_hash_wf id ?h" by (rule ph.cinv_empty [of 2]) simp_all
  have "pmip_hash_get id ?h (fst (id (nai_zero, in6addr_any))) (snd (id (nai_zero, in6addr_any))) = None"
    using calc_hash_less [of 2] by (simp add: pmip_hash_get_def table_get_def)
  from pmip_hash_add_get [OF wf this] show ?thesis by (auto simp: numeral_2_eq_2)
qed

text \<open>Deleting a key removes the entry found under it and no other, and keeps the table well
  formed.\<close>

lemma pmip_hash_delete_get:
  assumes "pmip_hash_wf rd h"
  shows "pmip_hash_wf rd (pmip_hash_delete rd h a b)
    \<and> (\<forall>c d. pmip_hash_get rd (pmip_hash_delete rd h a b) c d =
          (if (c, d) = (a, b) then None else pmip_hash_get rd h c d))"
  using ph.table.get_del [OF assms, of "(a, b)"] ph.table.invar_del [OF assms, of "(a, b)"]
  by (simp add: pmip_hash_chained)

lemma pmip_hash_delete_get_witness:
  "pmip_hash_get id (pmip_hash_delete id \<lparr>buckets = 1, hash_buckets = [[(nai_zero, in6addr_any)]]\<rparr>
     nai_zero in6addr_any) nai_zero in6addr_any = None"
proof -
  let ?h = "\<lparr>buckets = 1, hash_buckets = [[(nai_zero, in6addr_any)]]\<rparr> :: (ip6mn_nai \<times> in6_addr) pmip_hash"
  have "pmip_hash_wf id ?h" by (rule pmip_hash_wf_single)
  from pmip_hash_delete_get [OF this, of nai_zero in6addr_any] show ?thesis by simp
qed

text \<open>When the key is already present, the insertion reports \<open>-EEXIST\<close> exactly when the
  present entry is not the last of its chain; when it is the last one, a second entry with the
  same key is stored and 0 returned.\<close>

lemma pmip_hash_add_present:
  assumes "pmip_hash_wf rd h"
    and "pmip_hash_get rd h (fst (rd e)) (snd (rd e)) = Some e'"
  shows "pmip_hash_add True rd h e =
    (let i = calc_hash (buckets h) (fst (rd e)) (snd (rd e)); c = hash_buckets h ! i
     in if e' = last c then (0, h\<lparr>hash_buckets := (hash_buckets h)[i := c @ [e]]\<rparr>) else (- EEXIST, h))"
proof -
  let ?i = "calc_hash (buckets h) (fst (rd e)) (snd (rd e))"
  let ?c = "hash_buckets h ! ?i"
  have "?i < buckets h" using assms(1) calc_hash_less by (simp add: ph.cinv_def)
  then have dist: "distinct (map rd ?c)" using assms(1) by (simp add: ph.cinv_def)
  have "chain_get (\<lambda>x. rd x = rd e) ?c = Some e'"
    using assms(2) by (simp add: pmip_hash_get_def table_get_def match_key)
  then have e': "e' \<in> set ?c" "rd e' = rd e" using chain_get_SomeD by fastforce+
  then obtain ys z where c: "?c = ys @ [z]" by (cases ?c rule: rev_cases) auto
  have "(\<exists>x \<in> set (butlast ?c). rd x = rd e) \<longleftrightarrow> e' \<noteq> last ?c"
    using e' dist by (auto simp: c image_iff)
  then show ?thesis
    by (simp add: pmip_hash_add_def table_add_def chain_append_iff match_key Let_def)
qed

lemma pmip_hash_add_present_witness:
  "fst (pmip_hash_add True id \<lparr>buckets = 1, hash_buckets = [[(nai_zero, in6addr_any)]]\<rparr>
     (nai_zero, in6addr_any)) = 0"
proof -
  let ?h = "\<lparr>buckets = 1, hash_buckets = [[(nai_zero, in6addr_any)]]\<rparr> :: (ip6mn_nai \<times> in6_addr) pmip_hash"
  have wf: "pmip_hash_wf id ?h" by (rule pmip_hash_wf_single)
  have "pmip_hash_get id ?h (fst (id (nai_zero, in6addr_any))) (snd (id (nai_zero, in6addr_any)))
      = Some (nai_zero, in6addr_any)"
    by (simp add: pmip_hash_get_def table_get_def match_key)
  from pmip_hash_add_present [OF wf this] show ?thesis by (simp add: Let_def)
qed

end
