(* ===== verification/Flow_Hash.thy ===== *)
theory Flow_Hash
  imports Chained_Hash
begin

text \<open>
  \<open>src/src/pmip/fmpmip/fmpmip_flowmob_hash.c\<close>: the hash table of the flow mobility cache.
  A flow is identified by its addresses, transport protocol, ports, traffic class and flow
  label.  An entry keeps pointers to the two addresses in the cache entry and copies of the
  other fields; \<open>rd e\<close> reads all of them as one \<open>flow_key\<close>.
\<close>

section \<open>Model\<close>

record flow_key =
  ip6_source :: in6_addr
  ip6_dest :: in6_addr
  proto :: u32
  source_port :: u16
  destination_port :: u16
  tclass :: u8
  label :: u32

definition flow_calc_hash :: "nat \<Rightarrow> in6_addr \<Rightarrow> nat" where
  "flow_calc_hash s ip6_destination =
     unat (s6_addr ip6_destination ! 0 XOR s6_addr ip6_destination ! 1 XOR
           s6_addr ip6_destination ! 2 XOR s6_addr ip6_destination ! 3) mod s"

definition flow_match :: "flow_key \<Rightarrow> flow_key \<Rightarrow> bool" where
  "flow_match h k \<longleftrightarrow> ip6_source h = ip6_source k \<and> ip6_dest h = ip6_dest k
     \<and> proto h = proto k \<and> source_port h = source_port k
     \<and> destination_port h = destination_port k \<and> label h = label k \<and> tclass h = tclass k"

definition flow_mob_hash_init :: "bool \<Rightarrow> nat \<Rightarrow> (int \<times> 'e htable option) outcome" where
  "flow_mob_hash_init mem n =
     (if n = 0 then Fault AssertFail
      else if \<not> mem then Done (- ENOMEM, None)
      else Done (0, Some \<lparr>buckets = n, hash_buckets = replicate n []\<rparr>))"

definition flow_mob_hash_get :: "('e \<Rightarrow> flow_key) \<Rightarrow> 'e htable \<Rightarrow> flow_key \<Rightarrow> 'e option" where
  "flow_mob_hash_get rd h k =
     table_get h (flow_calc_hash (buckets h) (ip6_dest k)) (\<lambda>e. flow_match (rd e) k)"

definition flow_mob_hash_add :: "bool \<Rightarrow> ('e \<Rightarrow> flow_key) \<Rightarrow> 'e htable \<Rightarrow> 'e \<Rightarrow> int \<times> 'e htable" where
  "flow_mob_hash_add mem rd h data =
     (if \<not> mem then (- ENOMEM, h)
      else case table_add h (flow_calc_hash (buckets h) (ip6_dest (rd data)))
                  (\<lambda>e. flow_match (rd e) (rd data)) data of
             None \<Rightarrow> (- EEXIST, h)
           | Some h' \<Rightarrow> (0, h'))"

definition flow_mob_hash_iterate :: "'e htable \<Rightarrow> ('e \<Rightarrow> 's \<Rightarrow> int \<times> 's) \<Rightarrow> 's \<Rightarrow> int \<times> 's" where
  "flow_mob_hash_iterate h f s = table_iterate f h s"

definition flow_mob_hash_delete :: "('e \<Rightarrow> flow_key) \<Rightarrow> 'e htable \<Rightarrow> flow_key \<Rightarrow> 'e htable" where
  "flow_mob_hash_delete rd h k =
     table_delete h (flow_calc_hash (buckets h) (ip6_dest k)) (\<lambda>e. flow_match (rd e) k)"

section \<open>The contract\<close>

lemma flow_calc_hash_less: "0 < n \<Longrightarrow> flow_calc_hash n a < n"
  by (simp add: flow_calc_hash_def)

interpretation fh: chained "\<lambda>n k. flow_calc_hash n (ip6_dest k)" rd
  for rd :: "'e \<Rightarrow> flow_key"
  by unfold_locales (simp add: flow_calc_hash_less)

lemma flow_match_eq: "flow_match h k \<longleftrightarrow> h = k"
  by (cases h; cases k) (auto simp: flow_match_def)

lemma flow_hash_chained:
  "flow_mob_hash_get rd h k = fh.cget rd h k"
  "flow_mob_hash_delete rd h k = fh.cdel rd h k"
  "flow_mob_hash_add True rd h e = (case fh.cadd rd h e of None \<Rightarrow> (- EEXIST, h) | Some h' \<Rightarrow> (0, h'))"
  by (simp_all add: flow_mob_hash_get_def flow_mob_hash_delete_def flow_mob_hash_add_def
      fh.cget_def fh.cdel_def fh.cadd_def flow_match_eq)

abbreviation flow_hash_wf :: "('e \<Rightarrow> flow_key) \<Rightarrow> 'e htable \<Rightarrow> bool" where
  "flow_hash_wf \<equiv> fh.cinv"

lemma flow_hash_init_wf: "flow_mob_hash_init True n = Done (0, Some h) \<Longrightarrow> flow_hash_wf rd h"
  by (auto simp: flow_mob_hash_init_def intro!: fh.cinv_empty split: if_splits)

lemma flow_calc_hash_1 [simp]: "flow_calc_hash (Suc 0) a = 0"
  using flow_calc_hash_less [of "Suc 0" a] by simp

lemma flow_hash_wf_single: "flow_hash_wf rd \<lparr>buckets = 1, hash_buckets = [[e]]\<rparr>"
  by (simp add: fh.cinv_def)

section \<open>Properties\<close>

text \<open>The flow table behaves as a partial map from six-tuples to flows: inserting a flow whose key is
  absent succeeds and binds exactly that key, deleting a key unbinds exactly that key, and both
  keep the table well formed.\<close>

lemma flow_hash_map:
  assumes "flow_hash_wf rd h"
  shows "flow_hash_wf rd (flow_mob_hash_delete rd h k)
    \<and> flow_mob_hash_get rd (flow_mob_hash_delete rd h k) = (flow_mob_hash_get rd h)(k := None)
    \<and> (flow_mob_hash_get rd h (rd e) = None \<longrightarrow>
        (\<exists>h'. flow_mob_hash_add True rd h e = (0, h') \<and> flow_hash_wf rd h'
          \<and> flow_mob_hash_get rd h' = (flow_mob_hash_get rd h)(rd e \<mapsto> e)))"
proof -
  have g: "flow_mob_hash_get rd x = fh.cget rd x" for x by (simp add: flow_hash_chained fun_eq_iff)
  show ?thesis
    using fh.table.get_del [OF assms, of k] fh.table.invar_del [OF assms, of k] fh.table.add_fresh [OF assms, of e]
    by (auto simp: g flow_hash_chained(2,3))
qed

lemma flow_hash_map_witness:
  "let k = \<lparr>ip6_source = in6addr_any, ip6_dest = in6addr_any, proto = 6, source_port = 80, destination_port = 81,
            tclass = 0, label = 0\<rparr>
   in flow_mob_hash_get id (flow_mob_hash_delete id \<lparr>buckets = 2, hash_buckets = [[], []]\<rparr> k) k = None"
proof -
  have "flow_hash_wf id \<lparr>buckets = 2, hash_buckets = replicate 2 []\<rparr>"
    by (rule fh.cinv_empty [of 2]) simp_all
  from flow_hash_map [OF this] show ?thesis by (simp add: numeral_2_eq_2)
qed

end
