(* ===== verification/Task_Queue.thy ===== *)
theory Task_Queue
  imports Prelude
begin

text \<open>
  \<open>src/src/tqueue.c\<close>: the timer queue.  A \<open>struct tq_elem\<close> is embedded in the object the
  timer belongs to; here it is named by an identifier \<open>'id\<close> and its fields \<open>expires\<close> and
  \<open>task\<close> are kept in the queue's state.  \<open>list_del\<close> re-initialises the node it removes, so
  removing a node that is in no list does nothing.  \<open>tsbefore(a, b)\<close> holds when \<open>b\<close> is
  before \<open>a\<close>.

  The contract \<open>timer_queue\<close> describes the queue by its pending timers.
\<close>

section \<open>Model\<close>

record ('id, 'task) tqueue =
  tq_list :: "'id list"
  expires :: "'id \<Rightarrow> timespec"
  task :: "'id \<Rightarrow> 'task option"
  curr :: "'id option"
  killed :: bool
  signalled :: bool

definition tq_init :: "('id, 'task) tqueue" where
  "tq_init = \<lparr>tq_list = [], expires = (\<lambda>_. tszero), task = (\<lambda>_. None),
     curr = None, killed = False, signalled = False\<rparr>"

fun insert_before :: "('id \<Rightarrow> timespec) \<Rightarrow> 'id \<Rightarrow> 'id list \<Rightarrow> 'id list" where
  "insert_before e tqi [] = [tqi]"
| "insert_before e tqi (cur # l) =
     (if tsbefore (e cur) (e tqi) then tqi # cur # l else cur # insert_before e tqi l)"

definition sorted_insert :: "'id \<Rightarrow> ('id, 'task) tqueue \<Rightarrow> ('id, 'task) tqueue" where
  "sorted_insert tqi q = q\<lparr>tq_list := insert_before (expires q) tqi (tq_list q)\<rparr>"

definition is_first_task :: "'id \<Rightarrow> ('id, 'task) tqueue \<Rightarrow> bool" where
  "is_first_task tqe q \<longleftrightarrow> (case tq_list q of [] \<Rightarrow> False | first # _ \<Rightarrow> first = tqe)"

definition del_task :: "'id \<Rightarrow> ('id, 'task) tqueue \<Rightarrow> ('id, 'task) tqueue" where
  "del_task elem q = q\<lparr>tq_list := remove1 elem (tq_list q),
     expires := (expires q)(elem := tszero),
     curr := (if curr q = Some elem then None else curr q)\<rparr>"

definition add_task_abs ::
  "timespec \<Rightarrow> 'id \<Rightarrow> 'task \<Rightarrow> ('id, 'task) tqueue \<Rightarrow> ('id, 'task) tqueue" where
  "add_task_abs exp tqi t q =
     (let q1 = (if tsisset (expires q tqi) then q\<lparr>tq_list := remove1 tqi (tq_list q)\<rparr> else q);
          q2 = q1\<lparr>curr := (if curr q1 = Some tqi then None else curr q1),
                  expires := (expires q1)(tqi := exp),
                  task := (task q1)(tqi \<mapsto> t)\<rparr>;
          q3 = sorted_insert tqi q2
      in if is_first_task tqi q3 then q3\<lparr>signalled := True\<rparr> else q3)"

definition add_task_rel ::
  "timespec \<Rightarrow> timespec \<Rightarrow> 'id \<Rightarrow> 'task \<Rightarrow> ('id, 'task) tqueue \<Rightarrow> ('id, 'task) tqueue" where
  "add_task_rel now expires_in tqi t q = add_task_abs (tsadd now expires_in) tqi t q"

definition task_interrupted :: "('id, 'task) tqueue \<Rightarrow> bool" where
  "task_interrupted q \<longleftrightarrow> curr q = None"

definition taskqueue_destroy :: "('id, 'task) tqueue \<Rightarrow> ('id, 'task) tqueue" where
  "taskqueue_destroy q = q\<lparr>tq_list := [],
     expires := (\<lambda>i. if i \<in> set (tq_list q) then tszero else expires q i),
     killed := True, signalled := True\<rparr>"

text \<open>One turn of the runner's inner loop: take the first task when it is due.\<close>

definition runner_pop :: "timespec \<Rightarrow> ('id, 'task) tqueue \<Rightarrow> ('id \<times> ('id, 'task) tqueue) option" where
  "runner_pop now q =
     (case tq_list q of
        [] \<Rightarrow> None
      | first # rest \<Rightarrow>
          if tsbefore (expires q first) now then None
          else Some (first, q\<lparr>tq_list := rest, expires := (expires q)(first := tszero),
                              curr := Some first\<rparr>))"

text \<open>The inner loop: pop a due task, run it (\<open>run\<close> stands for the task's effect on the
  queue), clear \<open>curr\<close>, until no task is due.\<close>

partial_function (option) runner_loop ::
  "('id \<Rightarrow> ('id, 'task) tqueue \<Rightarrow> ('id, 'task) tqueue) \<Rightarrow> timespec
    \<Rightarrow> ('id, 'task) tqueue \<Rightarrow> ('id, 'task) tqueue option" where
  "runner_loop run now q =
     (case runner_pop now q of
        None \<Rightarrow> Some q
      | Some (first, q') \<Rightarrow> runner_loop run now ((run first q')\<lparr>curr := None\<rparr>))"

section \<open>The invariant\<close>

definition tq_inv :: "('id, 'task) tqueue \<Rightarrow> bool" where
  "tq_inv q \<longleftrightarrow> distinct (tq_list q) \<and> sorted (map (expires q) (tq_list q))
     \<and> (\<forall>i. i \<in> set (tq_list q) \<longleftrightarrow> tsisset (expires q i))"

definition pending :: "('id, 'task) tqueue \<Rightarrow> 'id \<Rightarrow> timespec option" where
  "pending q i = (if i \<in> set (tq_list q) then Some (expires q i) else None)"

lemma tsisset_tszero [simp]: "\<not> tsisset tszero"
  by (simp add: ts_simps)

lemma tq_inv_init: "tq_inv tq_init"
  by (simp add: tq_inv_def tq_init_def)

lemma set_insert_before [simp]: "set (insert_before e i l) = insert i (set l)"
  by (induction l) auto

lemma distinct_insert_before [simp]: "distinct (insert_before e i l) \<longleftrightarrow> i \<notin> set l \<and> distinct l"
  by (induction l) auto

lemma sorted_insert_before: "sorted (map e l) \<Longrightarrow> sorted (map e (insert_before e i l))"
  by (induction l) (auto simp: not_less)

lemma insert_before_hd:
  "sorted (map e l) \<Longrightarrow> \<forall>j \<in> set l. e i < e j \<Longrightarrow> insert_before e i l = i # l"
  by (cases l) auto

lemma map_upd_notin: "i \<notin> set l \<Longrightarrow> map (f(i := x)) l = map f l"
  by (induction l) auto

lemma add_task_abs_fields:
  "tq_list (add_task_abs e i t q) =
     insert_before ((expires q)(i := e)) i
       (if tsisset (expires q i) then remove1 i (tq_list q) else tq_list q)"
  "expires (add_task_abs e i t q) = (expires q)(i := e)"
  "task (add_task_abs e i t q) = (task q)(i \<mapsto> t)"
  "curr (add_task_abs e i t q) = (if curr q = Some i then None else curr q)"
  "killed (add_task_abs e i t q) = killed q"
  by (simp_all add: add_task_abs_def sorted_insert_def Let_def)

lemma add_task_abs_inv:
  assumes inv: "tq_inv q" and e: "tsisset e"
  shows "tq_inv (add_task_abs e i t q)"
proof -
  let ?l = "if tsisset (expires q i) then remove1 i (tq_list q) else tq_list q"
  have l: "distinct ?l" "i \<notin> set ?l" "set ?l = set (tq_list q) - {i}"
    using inv by (auto simp: tq_inv_def)
  have "sorted (map (expires q) ?l)"
    using inv by (auto simp: tq_inv_def sorted_map_remove1)
  then have "sorted (map ((expires q)(i := e)) ?l)"
    using l(2) by (metis map_upd_notin)
  then have "sorted (map ((expires q)(i := e)) (insert_before ((expires q)(i := e)) i ?l))"
    by (rule sorted_insert_before)
  moreover have "(j \<in> set (insert_before ((expires q)(i := e)) i ?l)) =
      tsisset (((expires q)(i := e)) j)" for j
    using l(3) e inv by (cases "j = i") (auto simp: tq_inv_def)
  moreover have "distinct (insert_before ((expires q)(i := e)) i ?l)"
    using l by simp
  ultimately show ?thesis
    unfolding tq_inv_def add_task_abs_fields by blast
qed

lemma add_task_abs_pending:
  assumes "tq_inv q"
  shows "pending (add_task_abs e i t q) = (pending q)(i \<mapsto> e)"
  using assms by (auto simp: pending_def add_task_abs_fields tq_inv_def fun_eq_iff)

lemma del_task_inv: "tq_inv q \<Longrightarrow> tq_inv (del_task i q)"
  by (auto simp: tq_inv_def del_task_def map_upd_notin sorted_map_remove1)

lemma del_task_pending: "tq_inv q \<Longrightarrow> pending (del_task i q) = (pending q)(i := None)"
  by (auto simp: pending_def del_task_def tq_inv_def fun_eq_iff)

lemma runner_pop_inv: "tq_inv q \<Longrightarrow> runner_pop now q = Some (i, q') \<Longrightarrow> tq_inv q'"
  by (auto simp: runner_pop_def tq_inv_def map_upd_notin split: list.splits if_splits)

lemma runner_pop_pending:
  assumes "tq_inv q" "runner_pop now q = Some (i, q')"
  shows "\<exists>e. pending q i = Some e \<and> e \<le> now \<and> (\<forall>j e'. pending q j = Some e' \<longrightarrow> e \<le> e')
      \<and> pending q' = (pending q)(i := None)"
  using assms
  by (auto simp: runner_pop_def tq_inv_def pending_def fun_eq_iff not_less
      split: list.splits if_splits)

lemma runner_pop_None_iff:
  assumes "tq_inv q"
  shows "runner_pop now q = None \<longleftrightarrow> (\<forall>j e. pending q j = Some e \<longrightarrow> now < e)"
proof (cases "tq_list q")
  case Nil
  then show ?thesis by (simp add: runner_pop_def pending_def)
next
  case (Cons i l)
  then have "\<forall>j \<in> set l. expires q i \<le> expires q j"
    using assms by (simp add: tq_inv_def)
  then have "now < expires q i \<longleftrightarrow> (\<forall>j \<in> set (tq_list q). now < expires q j)"
    using Cons by auto
  moreover have "runner_pop now q = None \<longleftrightarrow> now < expires q i"
    by (simp add: runner_pop_def Cons)
  moreover have "(\<forall>j e. pending q j = Some e \<longrightarrow> now < e) \<longleftrightarrow> (\<forall>j \<in> set (tq_list q). now < expires q j)"
    by (metis option.inject option.distinct(1) pending_def)
  ultimately show ?thesis by blast
qed

section \<open>The contract\<close>

locale timer_queue =
  fixes pend :: "'q \<Rightarrow> 'id \<Rightarrow> timespec option"
    and add :: "timespec \<Rightarrow> 'id \<Rightarrow> 'task \<Rightarrow> 'q \<Rightarrow> 'q"
    and del :: "'id \<Rightarrow> 'q \<Rightarrow> 'q"
    and pop :: "timespec \<Rightarrow> 'q \<Rightarrow> ('id \<times> 'q) option"
    and invar :: "'q \<Rightarrow> bool"
  assumes pend_add: "invar q \<Longrightarrow> pend (add e i t q) = (pend q)(i \<mapsto> e)"
    and pend_del: "invar q \<Longrightarrow> pend (del i q) = (pend q)(i := None)"
    and pop_Some: "invar q \<Longrightarrow> pop now q = Some (i, q') \<Longrightarrow>
        \<exists>e. pend q i = Some e \<and> e \<le> now \<and> (\<forall>j e'. pend q j = Some e' \<longrightarrow> e \<le> e')
          \<and> pend q' = (pend q)(i := None)"
    and pop_None: "invar q \<Longrightarrow> pop now q = None \<longleftrightarrow> (\<forall>j e. pend q j = Some e \<longrightarrow> now < e)"
    and invar_add: "invar q \<Longrightarrow> tsisset e \<Longrightarrow> invar (add e i t q)"
    and invar_del: "invar q \<Longrightarrow> invar (del i q)"
    and invar_pop: "invar q \<Longrightarrow> pop now q = Some (i, q') \<Longrightarrow> invar q'"
begin

text \<open>A re-armed timer replaces the pending one; a deleted timer never fires.\<close>

lemma rearm:
  assumes "invar q" "tsisset e"
  shows "pend (add e' i t' (add e i t q)) i = Some e'"
  using assms pend_add invar_add by simp

lemma del_never_pops:
  assumes "invar q" "pop now (del i q) = Some (j, q')"
  shows "j \<noteq> i"
  using pop_Some [OF invar_del [OF assms(1)] assms(2)] pend_del [OF assms(1)] by auto

lemma add_del_same: "invar q \<Longrightarrow> tsisset e \<Longrightarrow> pend (del i (add e i t q)) = (pend q)(i := None)"
  by (simp add: pend_add pend_del invar_add)

text \<open>Timers fire in the order of their expiry times.\<close>

lemma pop_pop_ordered:
  assumes "invar q" "pop now q = Some (i, q1)" "pop now' q1 = Some (j, q2)"
  shows "\<exists>e e'. pend q i = Some e \<and> pend q j = Some e' \<and> e \<le> e' \<and> i \<noteq> j"
proof -
  obtain e where e: "pend q i = Some e" "\<forall>j e'. pend q j = Some e' \<longrightarrow> e \<le> e'"
      "pend q1 = (pend q)(i := None)"
    using pop_Some [OF assms(1,2)] by blast
  obtain e' where "pend q1 j = Some e'"
    using pop_Some [OF invar_pop [OF assms(1,2)] assms(3)] by blast
  with e show ?thesis by (metis fun_upd_apply option.distinct(1))
qed

end

interpretation tq: timer_queue pending add_task_abs del_task runner_pop tq_inv
  by unfold_locales
    (auto simp: add_task_abs_pending del_task_pending runner_pop_None_iff add_task_abs_inv del_task_inv
      intro: runner_pop_inv runner_pop_pending)

section \<open>The runner\<close>

definition due :: "timespec \<Rightarrow> ('id, 'task) tqueue \<Rightarrow> nat" where
  "due now q = length (filter (\<lambda>i. expires q i \<le> now) (tq_list q))"

lemma runner_pop_due:
  assumes "tq_inv q" "runner_pop now q = Some (i, q')"
  shows "due now q = Suc (due now q')"
proof -
  obtain rest where q: "tq_list q = i # rest" "expires q i \<le> now"
      "tq_list q' = rest" "expires q' = (expires q)(i := tszero)"
    using assms(2) by (auto simp: runner_pop_def not_less split: list.splits if_splits)
  have "i \<notin> set rest" using assms(1) q(1) by (simp add: tq_inv_def)
  then have "filter (\<lambda>j. expires q' j \<le> now) rest = filter (\<lambda>j. expires q j \<le> now) rest"
    by (intro filter_cong) (auto simp: q(4))
  then show ?thesis using q by (simp add: due_def)
qed

lemma tq_inv_curr [simp]: "tq_inv (q\<lparr>curr := c\<rparr>) = tq_inv q"
  by (simp add: tq_inv_def)

lemma due_curr [simp]: "due now (q\<lparr>curr := c\<rparr>) = due now q"
  by (simp add: due_def)

text \<open>The runner's loop ends when the tasks do not add timers that are already due, and then
  no due timer is left.\<close>

lemma runner_loop_stops:
  assumes "tq_inv q"
    and "\<And>i q. tq_inv q \<Longrightarrow> tq_inv (run i q) \<and> due now (run i q) \<le> due now q"
  shows "\<exists>q'. runner_loop run now q = Some q' \<and> tq_inv q' \<and> due now q' = 0"
  using assms(1)
proof (induction "due now q" arbitrary: q rule: less_induct)
  case less
  show ?case
  proof (cases "runner_pop now q")
    case None
    then have "\<forall>j \<in> set (tq_list q). now < expires q j"
      using runner_pop_None_iff [OF less.prems] by (metis pending_def)
    then have "due now q = 0" by (auto simp: due_def filter_empty_conv)
    with None less.prems show ?thesis by (simp add: runner_loop.simps)
  next
    case (Some p)
    then obtain i q1 where p: "runner_pop now q = Some (i, q1)" by (cases p) auto
    let ?q2 = "(run i q1)\<lparr>curr := None\<rparr>"
    have "tq_inv q1" using runner_pop_inv [OF less.prems p] .
    then have "tq_inv ?q2" "due now ?q2 < due now q"
      using assms(2) [of q1 i] runner_pop_due [OF less.prems p] by auto
    then obtain q' where "runner_loop run now ?q2 = Some q'" "tq_inv q'" "due now q' = 0"
      using less.hyps by blast
    with p show ?thesis by (subst runner_loop.simps) auto
  qed
qed

lemma due_pending:
  assumes "tq_inv q"
  shows "due now q = card {i. \<exists>e. pending q i = Some e \<and> e \<le> now}"
proof -
  have "{i. \<exists>e. pending q i = Some e \<and> e \<le> now} = set (filter (\<lambda>i. expires q i \<le> now) (tq_list q))"
    by (auto simp: pending_def)
  moreover have "distinct (filter (\<lambda>i. expires q i \<le> now) (tq_list q))"
    using assms by (simp add: tq_inv_def)
  ultimately show ?thesis by (simp only: due_def distinct_card)
qed

lemma due_finite: "finite {i. \<exists>e. pending q i = Some e \<and> e \<le> now}"
  by (rule finite_subset [of _ "set (tq_list q)"]) (auto simp: pending_def split: if_splits)

text \<open>Arming a timer for a later time, or deleting one, makes no timer due.\<close>

lemma add_task_abs_due:
  assumes "tq_inv q" "now < e" "tsisset e"
  shows "due now (add_task_abs e i t q) \<le> due now q"
  unfolding due_pending [OF assms(1)] due_pending [OF add_task_abs_inv [OF assms(1,3)]]
  using assms by (intro card_mono due_finite) (auto simp: add_task_abs_pending)

lemma del_task_due:
  assumes "tq_inv q"
  shows "due now (del_task i q) \<le> due now q"
  unfolding due_pending [OF assms(1)] due_pending [OF del_task_inv [OF assms]]
  using assms by (intro card_mono due_finite) (auto simp: del_task_pending)

section \<open>Properties\<close>

text \<open>Arming a timer makes it pending at its expiry time and leaves the other timers alone, also
  when it was pending before; deleting a timer removes it alone; both keep the list sorted and
  free of duplicates.\<close>

lemma timer_update:
  assumes "tq_inv q" "tsisset e"
  shows "tq_inv (add_task_abs e i t q) \<and> pending (add_task_abs e i t q) = (pending q)(i \<mapsto> e)
    \<and> task (add_task_abs e i t q) i = Some t
    \<and> tq_inv (del_task i q) \<and> pending (del_task i q) = (pending q)(i := None)"
  by (simp add: assms tq.invar_add tq.pend_add tq.invar_del tq.pend_del add_task_abs_fields)

lemma timer_update_witness:
  "pending (add_task_abs (TS 5 0) (1 :: nat) ''expire'' tq_init) 1 = Some (TS 5 0)"
  using timer_update [OF tq_inv_init, of "TS 5 0" "1 :: nat" "''expire''"] by (simp add: ts_simps)

text \<open>C34: the runner takes the pending timer with the earliest expiry time, only when that time has
  come, and takes none exactly when no pending timer is due; of two timers taken one after the
  other the first one expires no later.\<close>

theorem runner_earliest_first:
  assumes "tq_inv q"
  shows "(runner_pop now q = None \<longleftrightarrow> (\<forall>j e. pending q j = Some e \<longrightarrow> now < e))
    \<and> (\<forall>i q1. runner_pop now q = Some (i, q1) \<longrightarrow> tq_inv q1 \<and> pending q1 = (pending q)(i := None)
         \<and> (\<exists>e. pending q i = Some e \<and> e \<le> now \<and> (\<forall>j e'. pending q j = Some e' \<longrightarrow> e \<le> e')))
    \<and> (\<forall>i q1 j q2. runner_pop now q = Some (i, q1) \<longrightarrow> runner_pop now' q1 = Some (j, q2) \<longrightarrow>
         (\<exists>e e'. pending q i = Some e \<and> pending q j = Some e' \<and> e \<le> e' \<and> i \<noteq> j))"
proof (intro conjI allI impI)
  show "runner_pop now q = None \<longleftrightarrow> (\<forall>j e. pending q j = Some e \<longrightarrow> now < e)" by (rule tq.pop_None [OF assms])
next
  fix i q1 assume p: "runner_pop now q = Some (i, q1)"
  show "tq_inv q1" by (rule tq.invar_pop [OF assms p])
  show "pending q1 = (pending q)(i := None)"
    "\<exists>e. pending q i = Some e \<and> e \<le> now \<and> (\<forall>j e'. pending q j = Some e' \<longrightarrow> e \<le> e')"
    using tq.pop_Some [OF assms p] by auto
next
  fix i q1 j q2 assume "runner_pop now q = Some (i, q1)" "runner_pop now' q1 = Some (j, q2)"
  then show "\<exists>e e'. pending q i = Some e \<and> pending q j = Some e' \<and> e \<le> e' \<and> i \<noteq> j"
    by (rule tq.pop_pop_ordered [OF assms])
qed

theorem runner_earliest_first_witness:
  "\<exists>q1. runner_pop (TS 9 0) (add_task_abs (TS 5 0) (1 :: nat) ''a'' tq_init) = Some (1, q1)"
proof -
  let ?q = "add_task_abs (TS 5 0) (1 :: nat) ''a'' tq_init"
  have "pending (tq_init :: (nat, string) tqueue) = Map.empty" by (simp add: pending_def tq_init_def fun_eq_iff)
  then have q: "tq_inv ?q" "pending ?q = [1 \<mapsto> TS 5 0]"
    by (simp_all add: tq.invar_add tq.pend_add tq_inv_init tsisset_def)
  have le: "TS 5 0 \<le> TS 9 0" by (simp add: less_eq_timespec_def ts_simps del: tsafter_less)
  obtain i q1 where r: "runner_pop (TS 9 0) ?q = Some (i, q1)"
    using runner_earliest_first [OF q(1), of "TS 9 0" "TS 9 0"] q(2) le
    by (cases "runner_pop (TS 9 0) ?q") (auto simp: not_less split: if_splits)
  then have "pending ?q i \<noteq> None" using runner_earliest_first [OF q(1), of "TS 9 0" "TS 9 0"] by blast
  then have "i = 1" using q(2) by (simp split: if_splits)
  with r show ?thesis by blast
qed

text \<open>C35: the runner's loop ends and leaves no due timer behind, whatever the tasks do, as long as a
  task keeps the queue well formed and arms no timer that is already due.\<close>

theorem runner_loop_ends:
  assumes "tq_inv q"
    and "\<And>i q. tq_inv q \<Longrightarrow> tq_inv (run i q) \<and> due now (run i q) \<le> due now q"
  shows "\<exists>q'. runner_loop run now q = Some q' \<and> tq_inv q' \<and> runner_pop now q' = None"
proof -
  obtain q' where q': "runner_loop run now q = Some q'" "tq_inv q'" "due now q' = 0"
    using runner_loop_stops [of q run now] assms by blast
  then have "\<forall>i \<in> set (tq_list q'). now < expires q' i"
    by (auto simp: due_def filter_empty_conv)
  then have "runner_pop now q' = None"
    using runner_pop_None_iff [OF q'(2)] by (auto simp: pending_def split: if_splits)
  with q' show ?thesis by blast
qed

theorem runner_loop_ends_witness:
  "\<exists>q'. runner_loop (\<lambda>i q. add_task_abs (TS 20 0) i ''again'' q) (TS 9 0)
     (add_task_abs (TS 5 0) (1 :: nat) ''a'' tq_init) = Some q' \<and> runner_pop (TS 9 0) q' = None"
proof -
  have "TS 9 0 < TS 20 0" "tsisset (TS 20 0)" "tsisset (TS 5 0)"
    by (simp_all add: less_timespec_def ts_simps del: tsafter_less)
  then show ?thesis
    using runner_loop_ends [OF add_task_abs_inv [OF tq_inv_init], of "TS 5 0"
        "\<lambda>i q. add_task_abs (TS 20 0) i ''again'' q" "TS 9 0" "1 :: nat" "''a''"]
      add_task_abs_inv add_task_abs_due by metis
qed

end
