(* ===== verification/Addr_Conv.thy ===== *)
theory Addr_Conv
  imports Prelude
begin

text \<open>
  Address conversions: the EUI-48/EUI-64 functions of \<open>src/src/pmip/pmip_hnp_cache.c\<close> and the
  address constructors and tests of \<open>src/src/pmip/pmip_handler.c\<close>.  The static buffers the C
  constructors return are replaced by the value they hold.
\<close>

section \<open>Model\<close>

fun EUI64_to_EUI48 :: "in6_addr \<Rightarrow> in6_addr" where
  "EUI64_to_EUI48 (In6 i0 i1 i2 i3 i4 i5 i6 i7 i8 i9 i10 i11 i12 i13 i14 i15) =
     In6 0 0 0 0 0 0 0 0 0 0 (i8 XOR 2) i9 i10 i13 i14 i15"

fun EUI48_to_EUI64 :: "in6_addr \<Rightarrow> in6_addr" where
  "EUI48_to_EUI64 (In6 m0 m1 m2 m3 m4 m5 m6 m7 m8 m9 m10 m11 m12 m13 m14 m15) =
     In6 0 0 0 0 0 0 0 0 (m10 XOR 2) m11 m12 0xFF 0xFE m13 m14 m15"

fun link_local_addr :: "in6_addr \<Rightarrow> in6_addr" where
  "link_local_addr (In6 _ _ _ _ _ _ _ _ i8 i9 i10 i11 i12 i13 i14 i15) =
     In6 0xFE 0x80 0 0 0 0 0 0 i8 i9 i10 i11 i12 i13 i14 i15"

fun CONVERT_ID2ADDR :: "in6_addr \<Rightarrow> in6_addr \<Rightarrow> in6_addr" where
  "CONVERT_ID2ADDR (In6 p0 p1 p2 p3 p4 p5 p6 p7 _ _ _ _ _ _ _ _)
                   (In6 _ _ _ _ _ _ _ _ i8 i9 i10 i11 i12 i13 i14 i15) =
     In6 p0 p1 p2 p3 p4 p5 p6 p7 i8 i9 i10 i11 i12 i13 i14 i15"

fun solicited_mcast :: "in6_addr \<Rightarrow> in6_addr" where
  "solicited_mcast (In6 _ _ _ _ _ _ _ _ _ _ _ _ _ i13 i14 i15) =
     In6 0xFF 0x02 0 0 0 0 0 0 0 0 0 1 0xFF i13 i14 i15"

text \<open>The tests compare 32-bit words with constants in network byte order.\<close>

definition ipv6_addr_is_solicited_mcast :: "in6_addr \<Rightarrow> bool" where
  "ipv6_addr_is_solicited_mcast addr \<longleftrightarrow>
     s6_addr32 addr 0 = le32 0xFF 0x02 0 0 \<and> s6_addr32 addr 1 = 0 \<and>
     s6_addr32 addr 2 = le32 0 0 0 1 \<and> s6_addr addr ! 12 = 0xFF"

definition ipv6_addr_is_multicast :: "in6_addr \<Rightarrow> bool" where
  "ipv6_addr_is_multicast addr \<longleftrightarrow> s6_addr32 addr 0 AND le32 0xFF 0 0 0 = le32 0xFF 0 0 0"

text \<open>\<open>IN6_IS_ADDR_LINKLOCAL\<close>: the first ten bits are those of \<open>fe80::/10\<close>.\<close>

definition ipv6_addr_is_linklocal :: "in6_addr \<Rightarrow> bool" where
  "ipv6_addr_is_linklocal addr \<longleftrightarrow>
     s6_addr32 addr 0 AND le32 0xFF 0xC0 0 0 = le32 0xFE 0x80 0 0"

definition same_prefix64 :: "in6_addr \<Rightarrow> in6_addr \<Rightarrow> bool" where
  "same_prefix64 a b \<longleftrightarrow> take 8 (s6_addr a) = take 8 (s6_addr b)"

definition same_iid64 :: "in6_addr \<Rightarrow> in6_addr \<Rightarrow> bool" where
  "same_iid64 a b \<longleftrightarrow> drop 8 (s6_addr a) = drop 8 (s6_addr b)"

section \<open>Lemmas\<close>

lemma xor_twice: "((x :: byte) XOR y) XOR y = x"
  by (simp add: xor.assoc)

lemma EUI48_left_inverse:
  "take 10 (s6_addr mac) = replicate 10 0 \<Longrightarrow> EUI64_to_EUI48 (EUI48_to_EUI64 mac) = mac"
  by (cases mac) (simp add: numeral_eq_Suc xor_twice)

lemma CONVERT_ID2ADDR_parts:
  "same_prefix64 (CONVERT_ID2ADDR p i) p" "same_iid64 (CONVERT_ID2ADDR p i) i"
  by (cases p; cases i; simp add: same_prefix64_def same_iid64_def)+

lemma CONVERT_ID2ADDR_idem [simp]:
  "CONVERT_ID2ADDR (CONVERT_ID2ADDR p i) j = CONVERT_ID2ADDR p j"
  "CONVERT_ID2ADDR p (CONVERT_ID2ADDR q i) = CONVERT_ID2ADDR p i"
  by (cases p; cases i; cases j; cases q; simp)+

lemma CONVERT_ID2ADDR_unique:
  "same_prefix64 a p \<and> same_iid64 a i \<longleftrightarrow> a = CONVERT_ID2ADDR p i"
proof
  assume a: "same_prefix64 a p \<and> same_iid64 a i"
  let ?c = "CONVERT_ID2ADDR p i"
  have "take 8 (s6_addr a) = take 8 (s6_addr ?c)" "drop 8 (s6_addr a) = drop 8 (s6_addr ?c)"
    using a CONVERT_ID2ADDR_parts [of p i] by (simp_all add: same_prefix64_def same_iid64_def)
  then have "s6_addr a = s6_addr ?c" by (metis append_take_drop_id)
  then show "a = ?c" by simp
qed (simp add: CONVERT_ID2ADDR_parts)

lemma le32_inject [simp]:
  "le32 a b c d = le32 a' b' c' d' \<longleftrightarrow> a = a' \<and> b = b' \<and> c = c' \<and> d = d'"
proof
  assume eq: "le32 a b c d = le32 a' b' c' d'"
  have b0: "ucast (le32 a b c d) = a" "ucast (drop_bit 8 (le32 a b c d)) = b"
    "ucast (drop_bit 16 (le32 a b c d)) = c" "ucast (drop_bit 24 (le32 a b c d)) = d" for a b c d
    by (rule bit_word_eqI, auto simp: le32_def bit_simps dest: bit_imp_le_length)+
  show "a = a' \<and> b = b' \<and> c = c' \<and> d = d'"
    using eq by (metis b0)
qed simp

lemma le32_0 [simp]: "le32 0 0 0 0 = 0"
  by (simp add: le32_def)

lemma le32_and: "le32 a b c d AND le32 a' b' c' d' = le32 (a AND a') (b AND b') (c AND c') (d AND d')"
proof (rule bit_word_eqI)
  fix n assume "n < LENGTH(32)"
  then consider "n < 8" | "8 \<le> n" "n < 16" | "16 \<le> n" "n < 24" | "24 \<le> n" "n < 32"
    by fastforce
  then show "bit (le32 a b c d AND le32 a' b' c' d') n =
      bit (le32 (a AND a') (b AND b') (c AND c') (d AND d')) n"
  proof cases
    case 2 then show ?thesis by (auto simp: le32_def bit_simps dest: bit_imp_le_length)
  next
    case 3 then show ?thesis by (auto simp: le32_def bit_simps dest: bit_imp_le_length)
  qed (auto simp: le32_def bit_simps dest: bit_imp_le_length)
qed

section \<open>Properties\<close>

text \<open>A 48-bit hardware address survives the conversion to the modified EUI-64 interface
  identifier and back, and the identifier has the FFFE filler in its middle.\<close>

lemma EUI_roundtrip:
  assumes "take 10 (s6_addr mac) = replicate 10 0"
  shows "EUI64_to_EUI48 (EUI48_to_EUI64 mac) = mac
    \<and> take 8 (s6_addr (EUI48_to_EUI64 mac)) = replicate 8 0
    \<and> s6_addr (EUI48_to_EUI64 mac) ! 11 = 0xFF \<and> s6_addr (EUI48_to_EUI64 mac) ! 12 = 0xFE"
  using assms by (cases mac) (simp add: numeral_eq_Suc xor_twice)

lemma EUI_roundtrip_witness:
  "EUI64_to_EUI48 (EUI48_to_EUI64 (In6 0 0 0 0 0 0 0 0 0 0 0x00 0x1B 0x63 0x84 0x45 0xE6)) =
     In6 0 0 0 0 0 0 0 0 0 0 0x00 0x1B 0x63 0x84 0x45 0xE6"
proof -
  have "take 10 (s6_addr (In6 0 0 0 0 0 0 0 0 0 0 0x00 0x1B 0x63 0x84 0x45 0xE6)) = replicate 10 0"
    by (simp add: numeral_eq_Suc)
  from EUI_roundtrip [OF this] show ?thesis by blast
qed

text \<open>The address built from a prefix and an identifier is the only one with these two halves;
  the addresses that \<open>solicited_mcast\<close> builds pass both multicast tests and fail the
  link-local one, and the addresses that \<open>link_local_addr\<close> builds pass the link-local test,
  fail the multicast tests and keep the identifier.\<close>

lemma address_kinds:
  "(same_prefix64 a p \<and> same_iid64 a i \<longleftrightarrow> a = CONVERT_ID2ADDR p i)
   \<and> ipv6_addr_is_solicited_mcast (solicited_mcast i) \<and> ipv6_addr_is_multicast (solicited_mcast i)
   \<and> \<not> ipv6_addr_is_linklocal (solicited_mcast i)
   \<and> ipv6_addr_is_linklocal (link_local_addr i) \<and> \<not> ipv6_addr_is_multicast (link_local_addr i)
   \<and> \<not> ipv6_addr_is_solicited_mcast (link_local_addr i) \<and> same_iid64 (link_local_addr i) i"
proof -
  have "ipv6_addr_is_solicited_mcast (solicited_mcast i)"
    by (cases i) (simp add: ipv6_addr_is_solicited_mcast_def s6_addr32_def)
  moreover have "ipv6_addr_is_multicast (solicited_mcast i)" "\<not> ipv6_addr_is_linklocal (solicited_mcast i)"
    by (cases i, simp add: ipv6_addr_is_multicast_def ipv6_addr_is_linklocal_def s6_addr32_def le32_and)+
  moreover have "ipv6_addr_is_linklocal (link_local_addr i)" "\<not> ipv6_addr_is_multicast (link_local_addr i)"
    by (cases i, simp add: ipv6_addr_is_multicast_def ipv6_addr_is_linklocal_def s6_addr32_def le32_and)+
  moreover have "\<not> ipv6_addr_is_solicited_mcast (link_local_addr i)" "same_iid64 (link_local_addr i) i"
    by (cases i, simp add: ipv6_addr_is_solicited_mcast_def same_iid64_def s6_addr32_def)+
  ultimately show ?thesis by (simp add: CONVERT_ID2ADDR_unique)
qed

end
