(* ===== verification/Hnp_Cache.thy ===== *)
theory Hnp_Cache
  imports Prelude Pmip_Hash
begin

text \<open>
  \<open>src/src/pmip/pmip_hnp_cache.c\<close>: the array that maps the interface identifier of a mobile
  node to its home network prefix and network access identifier, its loading from the mapping
  file (the build without RADIUS) and its filling from RADIUS answers.  The freeradius client
  library is a parameter (record \<open>radius\<close>); the C library functions the file uses
  (\<open>isspace\<close>, \<open>sscanf\<close> with \<open>%s\<close> and \<open>%02x\<close>) are modelled.
\<close>

section \<open>Model\<close>

abbreviation (input) MAX_MOBILES :: nat where "MAX_MOBILES \<equiv> 64"

record mnid_hnp =
  map_prefix :: in6_addr
  map_iid :: in6_addr
  map_nai :: ip6mn_nai

record hnp_cache =
  g_mn_hn_map :: "mnid_hnp list"
  g_mn_count :: nat

definition mnid_hnp_zero :: mnid_hnp where
  "mnid_hnp_zero = \<lparr>map_prefix = in6addr_any, map_iid = in6addr_any, map_nai = nai_zero\<rparr>"

text \<open>The \<open>memset\<close> of the array, which leaves the counter as it is.\<close>

definition pmip_lma_mn_to_hnp_cache_init :: "hnp_cache \<Rightarrow> hnp_cache" where
  "pmip_lma_mn_to_hnp_cache_init c = c\<lparr>g_mn_hn_map := replicate MAX_MOBILES mnid_hnp_zero\<rparr>"

definition hnp_cache_boot :: hnp_cache where
  "hnp_cache_boot = \<lparr>g_mn_hn_map = replicate MAX_MOBILES mnid_hnp_zero, g_mn_count = 0\<rparr>"

text \<open>The search loop that four functions of the file share.\<close>

function hnp_search :: "hnp_cache \<Rightarrow> in6_addr \<Rightarrow> nat \<Rightarrow> nat option" where
  "hnp_search c mnid j =
     (if j < g_mn_count c
      then if map_iid (g_mn_hn_map c ! j) = mnid then Some j else hnp_search c mnid (j + 1)
      else None)"
  by pat_completeness auto
termination
  by (relation "measure (\<lambda>(c, _, j). g_mn_count c - j)") auto

declare hnp_search.simps [simp del]

definition pmip_insert_into_hnp_cache ::
  "in6_addr \<Rightarrow> in6_addr \<Rightarrow> ip6mn_nai \<Rightarrow> hnp_cache \<Rightarrow> hnp_cache" where
  "pmip_insert_into_hnp_cache mn_iid addr nai c =
     (case hnp_search c mn_iid 0 of
        Some j \<Rightarrow> c\<lparr>g_mn_hn_map := (g_mn_hn_map c)[j := (g_mn_hn_map c ! j)\<lparr>map_prefix := addr\<rparr>]\<rparr>
      | None \<Rightarrow>
          if g_mn_count c < MAX_MOBILES then
            c\<lparr>g_mn_hn_map := (g_mn_hn_map c)[g_mn_count c :=
                 \<lparr>map_prefix = addr, map_iid = mn_iid, map_nai = nai\<rparr>],
              g_mn_count := g_mn_count c + 1\<rparr>
          else c)"

definition lma_mnid_hnp_map :: "in6_addr \<Rightarrow> hnp_cache \<Rightarrow> in6_addr \<times> int" where
  "lma_mnid_hnp_map mnid c =
     (case hnp_search c mnid 0 of
        Some j \<Rightarrow> (map_prefix (g_mn_hn_map c ! j), 1)
      | None \<Rightarrow> (in6addr_any, -1))"

definition mn_nai_hnp_map :: "in6_addr \<Rightarrow> hnp_cache \<Rightarrow> ip6mn_nai \<times> int" where
  "mn_nai_hnp_map mnid c =
     (case hnp_search c mnid 0 of
        Some j \<Rightarrow> (map_nai (g_mn_hn_map c ! j), 1)
      | None \<Rightarrow> (nai_zero, -1))"

subsection \<open>The RADIUS client\<close>

record value_pair =
  strvalue :: "nat \<Rightarrow> byte"
  lvalue :: nat

abbreviation (input) PW_USER_NAME :: nat where "PW_USER_NAME \<equiv> 1"
abbreviation (input) PW_USER_PASSWORD :: nat where "PW_USER_PASSWORD \<equiv> 2"
abbreviation (input) PW_SERVICE_TYPE :: nat where "PW_SERVICE_TYPE \<equiv> 6"
abbreviation (input) PW_FRAMED_INTERFACE_ID :: nat where "PW_FRAMED_INTERFACE_ID \<equiv> 96"
abbreviation (input) PW_FRAMED_IPV6_PREFIX :: nat where "PW_FRAMED_IPV6_PREFIX \<equiv> 97"
abbreviation (input) Mobile_Node_Identifier :: nat where "Mobile_Node_Identifier \<equiv> 145"

text \<open>\<open>rc_avpair_add\<close> succeeds or not for each attribute; \<open>rc_auth\<close> gives the received
  attribute list (\<open>None\<close> for a null pointer) for a user name.\<close>

record radius =
  rc_avpair_add :: "nat \<Rightarrow> bool"
  rc_auth :: "string \<Rightarrow> (nat \<Rightarrow> value_pair option) option"
  default_realm :: string

definition hex_digit :: "nat \<Rightarrow> char" where
  "hex_digit n = ''0123456789abcdef'' ! n"

definition hex_byte :: "byte \<Rightarrow> string" where
  "hex_byte b = [hex_digit (unat b div 16), hex_digit (unat b mod 16)]"

definition radius_username :: "radius \<Rightarrow> in6_addr \<Rightarrow> string" where
  "radius_username r mnid =
     (let u = concat (map hex_byte (drop 8 (s6_addr mnid)))
      in if default_realm r \<noteq> [] then u @ ''@'' @ take 238 (default_realm r) else u)"

text \<open>\<open>strvalue\<close> is an array of (signed) \<open>char\<close>; the copy loops run over the sixteen bytes of
  the local \<open>prefix\<close>, whose initial content \<open>junk\<close> is undefined in C.\<close>

definition radius_prefix :: "value_pair \<Rightarrow> in6_addr outcome" where
  "radius_prefix vp =
     (let netmask = sint (strvalue vp 1);
          num_bytes = sgn netmask * (\<bar>netmask\<bar> div 8)
      in if num_bytes < 0 \<or> 16 < num_bytes then Fault OutOfBounds
         else Done (in6_of (map (\<lambda>i. if i < nat num_bytes then strvalue vp (2 + i) else 0) [0..<16])))"

definition radius_iid :: "value_pair \<Rightarrow> in6_addr \<Rightarrow> in6_addr" where
  "radius_iid vp prefix =
     in6_of (map (\<lambda>i. if 8 \<le> i then s6_addr prefix ! i OR strvalue vp (i - 8)
                      else s6_addr prefix ! i) [0..<16])"

definition radius_nai :: "value_pair \<Rightarrow> ip6mn_nai \<Rightarrow> ip6mn_nai" where
  "radius_nai vp mn_nai =
     (let size = min (lvalue vp) NAI_SIZE in map (strvalue vp) [0..<size] @ drop size mn_nai)"

definition radius_received ::
  "(nat \<Rightarrow> value_pair option) \<Rightarrow> in6_addr \<Rightarrow> ip6mn_nai \<Rightarrow> (int \<times> in6_addr \<times> ip6mn_nai) outcome" where
  "radius_received get junk mn_nai =
     andThen (case get PW_FRAMED_IPV6_PREFIX of
                None \<Rightarrow> Done (0, junk)
              | Some vp \<Rightarrow> andThen (radius_prefix vp) (\<lambda>p. Done (1, p)))
       (\<lambda>(n1, p1).
         let (n2, p2) = (case get PW_FRAMED_INTERFACE_ID of
                           None \<Rightarrow> (n1, p1) | Some vp \<Rightarrow> (n1 + 1, radius_iid vp p1));
             (n3, nai) = (case get Mobile_Node_Identifier of
                            None \<Rightarrow> (n2, mn_nai) | Some vp \<Rightarrow> (n2 + 1, radius_nai vp mn_nai))
         in Done (n3, p2, nai))"

text \<open>\<open>mnid_hnp_map\<close>: \<open>use_radius\<close> tells the build (\<open>USE_RADIUS\<close>, which defines
  \<open>CACHE_RADIUS\<close>).  The result is the prefix, the NAI buffer, the result code and the cache.\<close>

definition mnid_hnp_map ::
  "radius option \<Rightarrow> in6_addr \<Rightarrow> in6_addr \<Rightarrow> ip6mn_nai \<Rightarrow> hnp_cache
     \<Rightarrow> (in6_addr \<times> ip6mn_nai \<times> int \<times> hnp_cache) outcome" where
  "mnid_hnp_map use_radius junk mnid mn_nai c =
     (case hnp_search c mnid 0 of
        Some j \<Rightarrow> Done (map_prefix (g_mn_hn_map c ! j), map_nai (g_mn_hn_map c ! j), 10, c)
      | None \<Rightarrow>
          (case use_radius of
             None \<Rightarrow> Done (in6addr_any, mn_nai, -1, c)
           | Some r \<Rightarrow>
               if rc_avpair_add r PW_USER_NAME \<and> rc_avpair_add r PW_USER_PASSWORD
                  \<and> rc_avpair_add r PW_SERVICE_TYPE
               then case rc_auth r (radius_username r mnid) of
                      None \<Rightarrow> Done (in6addr_any, mn_nai, -1, c)
                    | Some get \<Rightarrow>
                        andThen (radius_received get junk mn_nai) (\<lambda>(aaa_result, prefix, nai).
                          if aaa_result \<ge> 2
                          then Done (prefix, nai, aaa_result, pmip_insert_into_hnp_cache mnid prefix nai c)
                          else Done (in6addr_any, nai, -1, c))
               else Done (in6addr_any, mn_nai, -1, c)))"

subsection \<open>The mapping file\<close>

definition isspace :: "char \<Rightarrow> bool" where
  "isspace ch \<longleftrightarrow> ch = CHR '' '' \<or> (let n = of_char ch :: nat in 9 \<le> n \<and> n \<le> 13)"

text \<open>\<open>trim\<close>: the first loop runs down from the end of the string and reads \<open>p[l - 1]\<close> even
  when nothing is left, so a string of white space only is read before its first byte.\<close>

fun trim_right :: "string \<Rightarrow> string outcome" where
  "trim_right p =
     (if p = [] then Fault OutOfBounds
      else if isspace (last p) then trim_right (butlast p) else Done p)"

declare trim_right.simps [simp del]

definition trim :: "string \<Rightarrow> string outcome" where
  "trim s = andThen (trim_right s) (\<lambda>p. Done (dropWhile isspace p))"

text \<open>\<open>%ns\<close>: skip white space, then store at most \<open>n\<close> other characters and a terminator into
  the buffer; no conversion (\<open>None\<close>) at the end of the input.\<close>

definition scan_s :: "nat \<Rightarrow> string \<Rightarrow> string \<Rightarrow> (string \<times> string) option" where
  "scan_s n buf input =
     (let i = dropWhile isspace input; tok = take n (takeWhile (\<lambda>ch. \<not> isspace ch) i)
      in if tok = [] then None
         else Some (tok @ [CHR 0x00] @ drop (length tok + 1) buf, drop (length tok) i))"

definition hex_value :: "char \<Rightarrow> nat option" where
  "hex_value ch =
     (let n = of_char ch in
      if 48 \<le> n \<and> n \<le> 57 then Some (n - 48)
      else if 97 \<le> n \<and> n \<le> 102 then Some (n - 87)
      else if 65 \<le> n \<and> n \<le> 70 then Some (n - 55) else None)"

text \<open>\<open>sscanf(s, "%02x", &ap)\<close>: at most two characters, with the sign and the \<open>0x\<close> prefix the
  conversion allows; \<open>ap\<close> keeps its value when nothing matches.\<close>

definition scan_02x :: "string \<Rightarrow> u32 \<Rightarrow> u32" where
  "scan_02x s ap =
     (case dropWhile isspace (takeWhile (\<lambda>ch. ch \<noteq> CHR 0x00) s) of
        [] \<Rightarrow> ap
      | [c1] \<Rightarrow> (case hex_value c1 of None \<Rightarrow> ap | Some v \<Rightarrow> of_nat v)
      | c1 # c2 # _ \<Rightarrow>
          if c1 = CHR ''+'' then (case hex_value c2 of None \<Rightarrow> ap | Some v \<Rightarrow> of_nat v)
          else if c1 = CHR ''-'' then (case hex_value c2 of None \<Rightarrow> ap | Some v \<Rightarrow> - of_nat v)
          else if c1 = CHR ''0'' \<and> (c2 = CHR ''x'' \<or> c2 = CHR ''X'') then ap
          else case (hex_value c1, hex_value c2) of
                 (None, _) \<Rightarrow> ap
               | (Some v, None) \<Rightarrow> of_nat v
               | (Some v, Some w) \<Rightarrow> of_nat (16 * v + w))"

fun scan_bytes :: "nat \<Rightarrow> string \<Rightarrow> u32 \<Rightarrow> byte list \<times> u32" where
  "scan_bytes 0 buf ap = ([], ap)"
| "scan_bytes (Suc n) buf ap =
     (let ap' = scan_02x buf ap; (bs, ap'') = scan_bytes n (drop 2 buf) ap'
      in (ucast ap' # bs, ap''))"

record load_state =
  ld_cache :: hnp_cache
  ld_j :: nat
  ld_str_addr :: string
  ld_str_addr_iid :: string
  ld_ap :: u32
  ld_ap1 :: u32

definition load_entry :: "string \<Rightarrow> load_state \<Rightarrow> load_state" where
  "load_entry line s =
     (case scan_s 32 (ld_str_addr s) line of
        None \<Rightarrow> s
      | Some (str_addr, rest) \<Rightarrow>
          let str_addr_iid = (case scan_s 16 (ld_str_addr_iid s) rest of
                                None \<Rightarrow> ld_str_addr_iid s | Some (b, _) \<Rightarrow> b)
          in if ld_j s < MAX_MOBILES then
               let (addr, ap) = scan_bytes 16 str_addr (ld_ap s);
                   (iid, ap1) = scan_bytes 8 str_addr_iid (ld_ap1 s);
                   c = ld_cache s; e = g_mn_hn_map c ! ld_j s
               in \<lparr>ld_cache = \<lparr>g_mn_hn_map = (g_mn_hn_map c)[ld_j s :=
                       e\<lparr>map_prefix := in6_of addr, map_iid := in6_of (replicate 8 0 @ iid)\<rparr>],
                     g_mn_count = g_mn_count c + 1\<rparr>,
                   ld_j = ld_j s + 1, ld_str_addr = str_addr, ld_str_addr_iid = str_addr_iid,
                   ld_ap = ap, ld_ap1 = ap1\<rparr>
             else s\<lparr>ld_str_addr := str_addr, ld_str_addr_iid := str_addr_iid\<rparr>)"

fun load_lines :: "string list \<Rightarrow> load_state \<Rightarrow> load_state outcome" where
  "load_lines [] s = Done s"
| "load_lines (line # ls) s =
     andThen (trim (takeWhile (\<lambda>ch. ch \<noteq> CHR 0x00) line)) (\<lambda>t.
       load_lines ls (if take 1 t \<noteq> ''#'' then load_entry t s else s))"

text \<open>\<open>file\<close> is the sequence of buffers \<open>fgets\<close> fills, \<open>None\<close> when the file cannot be opened;
  the inner result \<open>None\<close> means that the process exits.\<close>

definition pmip_mn_to_hnp_cache_init ::
  "string list option \<Rightarrow> load_state \<Rightarrow> hnp_cache option outcome" where
  "pmip_mn_to_hnp_cache_init file s =
     (case file of
        None \<Rightarrow> Done None
      | Some ls \<Rightarrow>
          andThen (load_lines ls (s\<lparr>ld_cache := pmip_lma_mn_to_hnp_cache_init (ld_cache s), ld_j := 0\<rparr>))
            (\<lambda>s'. if ld_j s' \<ge> MAX_MOBILES then Done None else Done (Some (ld_cache s'))))"

section \<open>Invariant and lookups\<close>

definition hnp_inv :: "hnp_cache \<Rightarrow> bool" where
  "hnp_inv c \<longleftrightarrow> length (g_mn_hn_map c) = MAX_MOBILES \<and> g_mn_count c \<le> MAX_MOBILES
     \<and> (\<forall>i < g_mn_count c. \<forall>j < g_mn_count c.
          map_iid (g_mn_hn_map c ! i) = map_iid (g_mn_hn_map c ! j) \<longrightarrow> i = j)"

definition hnp_known :: "hnp_cache \<Rightarrow> in6_addr \<Rightarrow> bool" where
  "hnp_known c mnid \<longleftrightarrow> (\<exists>i < g_mn_count c. map_iid (g_mn_hn_map c ! i) = mnid)"

lemma hnp_search_Some:
  "hnp_search c mnid j = Some i \<Longrightarrow> j \<le> i \<and> i < g_mn_count c \<and> map_iid (g_mn_hn_map c ! i) = mnid"
proof (induction c mnid j rule: hnp_search.induct)
  case (1 c mnid j)
  then show ?case by (subst (asm) (2) hnp_search.simps) (auto split: if_splits)
qed

lemma hnp_search_None:
  "hnp_search c mnid j = None \<Longrightarrow> j \<le> i \<Longrightarrow> i < g_mn_count c \<Longrightarrow> map_iid (g_mn_hn_map c ! i) \<noteq> mnid"
proof (induction c mnid j rule: hnp_search.induct)
  case (1 c mnid j)
  show ?case
  proof (cases "j = i")
    case True
    then show ?thesis using "1.prems" by (subst (asm) hnp_search.simps) (auto split: if_splits)
  next
    case False
    then show ?thesis using 1 by (subst (asm) (2) hnp_search.simps) (auto split: if_splits)
  qed
qed

lemma hnp_search_iff:
  assumes "hnp_inv c"
  shows "hnp_search c mnid 0 = Some i \<longleftrightarrow> i < g_mn_count c \<and> map_iid (g_mn_hn_map c ! i) = mnid"
proof (cases "hnp_search c mnid 0")
  case None
  then show ?thesis using hnp_search_None [of c mnid 0 i] by auto
next
  case (Some k)
  then show ?thesis using hnp_search_Some [OF Some] assms by (auto simp: hnp_inv_def)
qed

lemma hnp_search_None_iff: "hnp_search c mnid 0 = None \<longleftrightarrow> \<not> hnp_known c mnid"
  using hnp_search_None [of c mnid 0] hnp_search_Some [of c mnid 0]
  by (auto simp: hnp_known_def) (metis not_None_eq)

lemma hnp_search_eqI:
  assumes "hnp_inv c" "hnp_inv c'"
    and "\<And>i. i < g_mn_count c' \<and> map_iid (g_mn_hn_map c' ! i) = m \<longleftrightarrow>
            i < g_mn_count c \<and> map_iid (g_mn_hn_map c ! i) = m"
  shows "hnp_search c' m 0 = hnp_search c m 0"
  using hnp_search_iff [OF assms(1)] hnp_search_iff [OF assms(2)] assms(3)
  by (metis not_None_eq)

lemma hnp_update_inv:
  assumes "hnp_inv c" "j < g_mn_count c" "map_iid e = map_iid (g_mn_hn_map c ! j)"
  shows "hnp_inv (c\<lparr>g_mn_hn_map := (g_mn_hn_map c)[j := e]\<rparr>)"
proof -
  have "map_iid ((g_mn_hn_map c)[j := e] ! i) = map_iid (g_mn_hn_map c ! i)" for i
    using assms(3) by (cases "i = j"; cases "j < length (g_mn_hn_map c)") (simp_all add: list_update_beyond)
  then show ?thesis using assms(1) by (simp add: hnp_inv_def)
qed

lemma hnp_append_inv:
  assumes "hnp_inv c" "g_mn_count c < MAX_MOBILES" "\<not> hnp_known c (map_iid e)"
  shows "hnp_inv (c\<lparr>g_mn_hn_map := (g_mn_hn_map c)[g_mn_count c := e], g_mn_count := g_mn_count c + 1\<rparr>)"
  using assms by (auto simp: hnp_inv_def hnp_known_def nth_list_update less_Suc_eq)

lemma insert_present:
  fixes addr nai
  assumes inv: "hnp_inv c" and known: "hnp_known c mn_iid"
  defines "c' \<equiv> pmip_insert_into_hnp_cache mn_iid addr nai c"
  shows "hnp_inv c'"
    and "lma_mnid_hnp_map m c' = (if m = mn_iid then (addr, 1) else lma_mnid_hnp_map m c)"
    and "mn_nai_hnp_map m c' = mn_nai_hnp_map m c"
proof -
  obtain j where j: "hnp_search c mn_iid 0 = Some j" using known hnp_search_None_iff by fastforce
  note J = hnp_search_Some [OF j]
  have c': "c' = c\<lparr>g_mn_hn_map := (g_mn_hn_map c)[j := (g_mn_hn_map c ! j)\<lparr>map_prefix := addr\<rparr>]\<rparr>"
    by (simp add: c'_def pmip_insert_into_hnp_cache_def j)
  show inv': "hnp_inv c'" unfolding c' using J by (intro hnp_update_inv [OF inv]) auto
  have len: "j < length (g_mn_hn_map c)" using J inv by (auto simp: hnp_inv_def)
  have "hnp_search c' m 0 = hnp_search c m 0" for m
    by (rule hnp_search_eqI [OF inv inv']) (use len in \<open>auto simp: c' nth_list_update\<close>)
  moreover have "hnp_search c m 0 = Some j \<longleftrightarrow> m = mn_iid" using hnp_search_iff [OF inv] J by auto
  ultimately show "lma_mnid_hnp_map m c' = (if m = mn_iid then (addr, 1) else lma_mnid_hnp_map m c)"
    "mn_nai_hnp_map m c' = mn_nai_hnp_map m c"
    using len
    by (auto simp: lma_mnid_hnp_map_def mn_nai_hnp_map_def c' nth_list_update split: option.splits)
qed

lemma insert_fresh:
  fixes addr nai
  assumes inv: "hnp_inv c" and new: "\<not> hnp_known c mn_iid" and room: "g_mn_count c < MAX_MOBILES"
  defines "c' \<equiv> pmip_insert_into_hnp_cache mn_iid addr nai c"
  shows "hnp_inv c'"
    and "lma_mnid_hnp_map m c' = (if m = mn_iid then (addr, 1) else lma_mnid_hnp_map m c)"
    and "mn_nai_hnp_map m c' = (if m = mn_iid then (nai, 1) else mn_nai_hnp_map m c)"
proof -
  let ?n = "g_mn_count c"
  have s: "hnp_search c mn_iid 0 = None" using new hnp_search_None_iff by blast
  have c': "c' = c\<lparr>g_mn_hn_map := (g_mn_hn_map c)[?n :=
      \<lparr>map_prefix = addr, map_iid = mn_iid, map_nai = nai\<rparr>], g_mn_count := ?n + 1\<rparr>"
    using room by (simp add: c'_def pmip_insert_into_hnp_cache_def s)
  show inv': "hnp_inv c'" unfolding c' using new room by (intro hnp_append_inv [OF inv]) auto
  have len: "?n < length (g_mn_hn_map c)" using room inv by (auto simp: hnp_inv_def)
  have "hnp_search c' mn_iid 0 = Some ?n"
    using len unfolding hnp_search_iff [OF inv'] by (simp add: c')
  moreover have "hnp_search c' m 0 = hnp_search c m 0" if "m \<noteq> mn_iid" for m
    by (rule hnp_search_eqI [OF inv inv']) (use len that in \<open>auto simp: c' nth_list_update less_Suc_eq\<close>)
  ultimately show "lma_mnid_hnp_map m c' = (if m = mn_iid then (addr, 1) else lma_mnid_hnp_map m c)"
    "mn_nai_hnp_map m c' = (if m = mn_iid then (nai, 1) else mn_nai_hnp_map m c)"
    using len hnp_search_Some [of c m 0]
    by (auto simp: lma_mnid_hnp_map_def mn_nai_hnp_map_def c' nth_list_update split: option.splits)
qed

lemma hnp_inv_boot: "hnp_inv hnp_cache_boot" "\<not> hnp_known hnp_cache_boot m"
  by (simp_all add: hnp_cache_boot_def hnp_inv_def hnp_known_def)

section \<open>Loading the mapping file\<close>

definition print_line :: "in6_addr \<times> in6_addr \<Rightarrow> string" where
  "print_line m = concat (map hex_byte (s6_addr (fst m))) @ '' '' @
     concat (map hex_byte (drop 8 (s6_addr (snd m)))) @ [CHR 0x0A]"

definition hexc :: "char \<Rightarrow> bool" where
  "hexc ch \<longleftrightarrow> ch \<in> set ''0123456789abcdef''"

lemma hexc_hex_digit: "n < 16 \<Longrightarrow> hexc (hex_digit n)"
  by (simp add: hexc_def hex_digit_def nth_mem del: set_simps)

lemma hex_value_digit: "n < 16 \<Longrightarrow> hex_value (hex_digit n) = Some n"
proof -
  assume "n < 16"
  then have "n \<in> set [0..<16]" by simp
  moreover have "\<forall>n \<in> set [0..<16]. hex_value (hex_digit n) = Some n" by code_simp
  ultimately show ?thesis by blast
qed

lemma hexc_chars:
  assumes "hexc ch"
  shows "\<not> isspace ch" "ch \<noteq> CHR 0x00" "ch \<noteq> CHR ''+''" "ch \<noteq> CHR ''-''" "ch \<noteq> CHR ''x''"
    "ch \<noteq> CHR ''X''" "ch \<noteq> CHR ''#''"
proof -
  have "\<forall>ch \<in> set ''0123456789abcdef''. \<not> isspace ch \<and> ch \<noteq> CHR 0x00 \<and> ch \<noteq> CHR ''+'' \<and> ch \<noteq> CHR ''-''
      \<and> ch \<noteq> CHR ''x'' \<and> ch \<noteq> CHR ''X'' \<and> ch \<noteq> CHR ''#''"
    by code_simp
  then show "\<not> isspace ch" "ch \<noteq> CHR 0x00" "ch \<noteq> CHR ''+''" "ch \<noteq> CHR ''-''" "ch \<noteq> CHR ''x''"
    "ch \<noteq> CHR ''X''" "ch \<noteq> CHR ''#''"
    using assms unfolding hexc_def by blast+
qed

lemma byte_div16: "unat (b :: byte) div 16 < 16"
proof -
  have "unat b < 2 ^ LENGTH(8)" by (rule unsigned_less)
  then show ?thesis by simp
qed

lemma hex_string:
  "\<forall>ch \<in> set (concat (map hex_byte bs)). hexc ch" "length (concat (map hex_byte bs)) = 2 * length bs"
proof -
  have "\<forall>ch \<in> set (hex_byte b). hexc ch" for b
    by (simp add: hex_byte_def hexc_hex_digit byte_div16)
  then show "\<forall>ch \<in> set (concat (map hex_byte bs)). hexc ch" by auto
  show "length (concat (map hex_byte bs)) = 2 * length bs"
    by (induction bs) (simp_all add: hex_byte_def)
qed

lemma scan_02x_hex: "scan_02x (hex_byte b @ s) ap = of_nat (unat b)"
proof -
  let ?d = "hex_digit (unat b div 16)" and ?m = "hex_digit (unat b mod 16)"
  have b: "unat b div 16 < 16" by (rule byte_div16)
  note d = hexc_chars [OF hexc_hex_digit [OF b]] hexc_chars [OF hexc_hex_digit [of "unat b mod 16"]]
  show ?thesis
    by (simp add: scan_02x_def hex_byte_def d hex_value_digit [OF b] hex_value_digit del: of_nat_add of_nat_mult)
qed

lemma scan_bytes_hex: "\<exists>ap'. scan_bytes (length bs) (concat (map hex_byte bs) @ s) ap = (bs, ap')"
proof (induction bs arbitrary: ap)
  case (Cons b bs)
  have "drop 2 (concat (map hex_byte (b # bs)) @ s) = concat (map hex_byte bs) @ s"
    by (simp add: hex_byte_def)
  moreover have "scan_02x (concat (map hex_byte (b # bs)) @ s) ap = of_nat (unat b)"
    using scan_02x_hex by simp
  moreover have "ucast (of_nat (unat b) :: u32) = b"
    by (rule bit_word_eqI) (auto simp: bit_simps)
  ultimately show ?case using Cons [of "of_nat (unat b)"] by (auto simp: Let_def split: prod.splits)
qed simp

lemma trim_hex:
  assumes "\<forall>ch \<in> set xs. hexc ch" "\<forall>ch \<in> set ys. hexc ch" "xs \<noteq> []" "ys \<noteq> []"
  shows "trim (xs @ CHR '' '' # ys @ [CHR 0x0A]) = Done (xs @ CHR '' '' # ys)"
proof -
  obtain x xs' where xs: "xs = x # xs'" using assms(3) by (cases xs) auto
  have sp: "\<not> isspace x" "\<not> isspace (last ys)"
    using assms hexc_chars(1) by (auto simp: xs)
  have nl: "isspace (CHR 0x0A)" by (simp add: isspace_def)
  have "trim_right (xs @ CHR '' '' # ys @ [CHR 0x0A]) = trim_right (xs @ CHR '' '' # ys)"
    by (subst trim_right.simps) (simp add: nl butlast_append)
  also have "\<dots> = Done (xs @ CHR '' '' # ys)"
    using assms(4) sp(2) by (subst trim_right.simps) simp
  finally show ?thesis using sp(1) by (simp add: trim_def xs)
qed

lemma isspace_blank [simp]: "isspace (CHR '' '')"
  by (simp add: isspace_def)

lemma takeWhile_hex:
  assumes "\<forall>ch \<in> set xs. hexc ch"
  shows "takeWhile (\<lambda>ch. \<not> isspace ch) xs = xs"
    and "takeWhile (\<lambda>ch. \<not> isspace ch) (xs @ CHR '' '' # ys) = xs"
    and "xs \<noteq> [] \<Longrightarrow> dropWhile isspace (xs @ ys) = xs @ ys"
  using assms hexc_chars(1) by (auto simp: takeWhile_eq_all_conv takeWhile_tail dropWhile_append neq_Nil_conv)

lemma scan_s_hex:
  assumes "\<forall>ch \<in> set xs. hexc ch" "length xs = n" "0 < n"
  shows "scan_s n buf (xs @ CHR '' '' # ys) = Some (xs @ CHR 0x00 # drop (n + 1) buf, CHR '' '' # ys)"
    and "scan_s n buf (CHR '' '' # xs) = Some (xs @ CHR 0x00 # drop (n + 1) buf, [])"
proof -
  have xs: "xs \<noteq> []" using assms by auto
  note tw = takeWhile_hex(1,2) [OF assms(1)] takeWhile_hex(3) [OF assms(1) xs]
  show "scan_s n buf (xs @ CHR '' '' # ys) = Some (xs @ CHR 0x00 # drop (n + 1) buf, CHR '' '' # ys)"
    using assms(2,3) xs by (simp add: scan_s_def tw Let_def)
  show "scan_s n buf (CHR '' '' # xs) = Some (xs @ CHR 0x00 # drop (n + 1) buf, [])"
    using assms(2,3) xs tw(3) [of "[]"] by (simp add: scan_s_def Let_def tw(1))
qed

definition loaded_entry :: "in6_addr \<times> in6_addr \<Rightarrow> mnid_hnp" where
  "loaded_entry m = mnid_hnp_zero\<lparr>map_prefix := fst m, map_iid := snd m\<rparr>"

lemma load_entry_hex:
  fixes a
  assumes "ld_j s < MAX_MOBILES" "take 8 (s6_addr iid) = replicate 8 0"
  defines "xs \<equiv> concat (map hex_byte (s6_addr a))"
    and "ys \<equiv> concat (map hex_byte (drop 8 (s6_addr iid)))"
  shows "\<exists>s'. load_entry (xs @ CHR '' '' # ys) s = s' \<and> ld_j s' = ld_j s + 1
    \<and> g_mn_count (ld_cache s') = g_mn_count (ld_cache s) + 1
    \<and> g_mn_hn_map (ld_cache s') = (g_mn_hn_map (ld_cache s))[ld_j s :=
         (g_mn_hn_map (ld_cache s) ! ld_j s)\<lparr>map_prefix := a, map_iid := iid\<rparr>]"
proof -
  have hex: "\<forall>ch \<in> set xs. hexc ch" "\<forall>ch \<in> set ys. hexc ch" "length xs = 32" "length ys = 16"
    using hex_string by (simp_all add: xs_def ys_def)
  obtain ap where ap: "scan_bytes 16 (xs @ CHR 0x00 # drop 33 (ld_str_addr s)) (ld_ap s) = (s6_addr a, ap)"
    using scan_bytes_hex [of "s6_addr a"] unfolding xs_def by fastforce
  obtain ap1 where ap1: "scan_bytes 8 (ys @ CHR 0x00 # drop 17 (ld_str_addr_iid s)) (ld_ap1 s)
      = (drop 8 (s6_addr iid), ap1)"
    using scan_bytes_hex [of "drop 8 (s6_addr iid)"] unfolding ys_def by fastforce
  have "replicate 8 0 @ drop 8 (s6_addr iid) = s6_addr iid"
    using assms(2) by (metis append_take_drop_id)
  then have iid: "in6_of (replicate 8 0 @ drop 8 (s6_addr iid)) = iid" by simp
  show ?thesis
    using assms(1) hex
    by (simp add: load_entry_def scan_s_hex ap ap1 iid Let_def)
qed

lemma load_lines_print:
  assumes "\<forall>m \<in> set ms. take 8 (s6_addr (snd m)) = replicate 8 0"
    and "length done + length ms \<le> MAX_MOBILES"
    and "g_mn_hn_map (ld_cache s) = map loaded_entry done @ replicate (MAX_MOBILES - length done) mnid_hnp_zero"
    and "ld_j s = length done" "g_mn_count (ld_cache s) = length done"
  shows "\<exists>s'. load_lines (map print_line ms) s = Done s' \<and> ld_j s' = length done + length ms
    \<and> ld_cache s' = \<lparr>g_mn_hn_map = map loaded_entry (done @ ms) @
          replicate (MAX_MOBILES - (length done + length ms)) mnid_hnp_zero,
        g_mn_count = length done + length ms\<rparr>"
  using assms
proof (induction ms arbitrary: "done" s)
  case Nil
  then show ?case by simp
next
  case (Cons m ms)
  obtain a iid where m: "m = (a, iid)" by (cases m)
  let ?xs = "concat (map hex_byte (s6_addr a))" and ?ys = "concat (map hex_byte (drop 8 (s6_addr iid)))"
  have hex: "\<forall>ch \<in> set ?xs. hexc ch" "\<forall>ch \<in> set ?ys. hexc ch" "length ?xs = 32" "length ?ys = 16"
    using hex_string by simp_all
  then have ne: "?xs \<noteq> []" "?ys \<noteq> []" by (metis list.size(3) zero_neq_numeral)+
  have line: "print_line m = ?xs @ CHR '' '' # ?ys @ [CHR 0x0A]" by (simp add: print_line_def m)
  have "\<forall>ch \<in> set (print_line m). ch \<noteq> CHR 0x00"
    using hex(1,2) hexc_chars(2) unfolding line by fastforce
  then have tw: "takeWhile (\<lambda>ch. ch \<noteq> CHR 0x00) (print_line m) = print_line m"
    by (simp add: takeWhile_eq_all_conv)
  have tr: "trim (print_line m) = Done (?xs @ CHR '' '' # ?ys)"
    unfolding line by (rule trim_hex [OF hex(1,2) ne])
  have first: "take 1 (?xs @ CHR '' '' # ?ys) \<noteq> ''#''"
    using ne(1) hex(1) hexc_chars(7) by (cases ?xs) auto
  obtain s1 where s1: "load_entry (?xs @ CHR '' '' # ?ys) s = s1" "ld_j s1 = ld_j s + 1"
      "g_mn_count (ld_cache s1) = g_mn_count (ld_cache s) + 1"
      "g_mn_hn_map (ld_cache s1) = (g_mn_hn_map (ld_cache s))[ld_j s :=
         (g_mn_hn_map (ld_cache s) ! ld_j s)\<lparr>map_prefix := a, map_iid := iid\<rparr>]"
    using load_entry_hex [of s iid a] Cons.prems by (auto simp: m)
  obtain k where k: "MAX_MOBILES - length done = Suc k" "MAX_MOBILES - Suc (length done) = k"
    using Cons.prems(2) by (cases "MAX_MOBILES - length done") auto
  have "g_mn_hn_map (ld_cache s1) = map loaded_entry (done @ [m]) @
      replicate (MAX_MOBILES - length (done @ [m])) mnid_hnp_zero"
    using s1(4) Cons.prems(3,4) k
    by (simp add: nth_append list_update_append loaded_entry_def m)
  then have "\<exists>s'. load_lines (map print_line ms) s1 = Done s' \<and> ld_j s' = length (done @ [m]) + length ms
      \<and> ld_cache s' = \<lparr>g_mn_hn_map = map loaded_entry ((done @ [m]) @ ms) @
            replicate (MAX_MOBILES - (length (done @ [m]) + length ms)) mnid_hnp_zero,
          g_mn_count = length (done @ [m]) + length ms\<rparr>"
    using Cons.prems s1 by (intro Cons.IH) auto
  then show ?case using first by (simp add: tw tr s1(1) del: One_nat_def)
qed

text \<open>A lookup in the loaded cache finds the first mapping for the identifier.\<close>

definition loaded_cache :: "(in6_addr \<times> in6_addr) list \<Rightarrow> hnp_cache" where
  "loaded_cache ms = \<lparr>g_mn_hn_map = map loaded_entry ms @ replicate (MAX_MOBILES - length ms) mnid_hnp_zero, g_mn_count = length ms\<rparr>"

lemma loaded_lookup_from:
  "map_option (\<lambda>j. map_prefix (g_mn_hn_map (loaded_cache (done @ ms)) ! j)) (hnp_search (loaded_cache (done @ ms)) mnid (length done))
     = map_of (map prod.swap ms) mnid"
proof (induction ms arbitrary: "done")
  case Nil
  then show ?case by (simp add: hnp_search.simps loaded_cache_def)
next
  case (Cons m ms)
  have "g_mn_hn_map (loaded_cache (done @ m # ms)) ! length done = loaded_entry m" by (simp add: loaded_cache_def nth_append)
  then show ?case using Cons [of "done @ [m]"]
    by (subst hnp_search.simps) (simp add: loaded_entry_def, simp add: loaded_cache_def split: prod.splits)
qed

lemma loaded_lookup:
  "lma_mnid_hnp_map mnid (loaded_cache ms) = (case map_of (map prod.swap ms) mnid of Some a \<Rightarrow> (a, 1) | None \<Rightarrow> (in6addr_any, -1))"
  using loaded_lookup_from [of "[]" ms mnid, symmetric] by (simp add: lma_mnid_hnp_map_def split: option.splits)

section \<open>Properties\<close>

text \<open>Inserting a mapping keeps the identifiers of the cache distinct and within its bound; the
  prefix is found afterwards whenever the identifier was known or there was room, other
  identifiers keep their prefix and NAI, a known identifier keeps its old NAI, and a full
  cache is left unchanged.\<close>

lemma hnp_insert_lookup:
  assumes "hnp_inv c"
  shows "hnp_inv (pmip_insert_into_hnp_cache i addr nai c)
   \<and> lma_mnid_hnp_map m (pmip_insert_into_hnp_cache i addr nai c) =
       (if m = i \<and> (hnp_known c i \<or> g_mn_count c < MAX_MOBILES) then (addr, 1) else lma_mnid_hnp_map m c)
   \<and> mn_nai_hnp_map m (pmip_insert_into_hnp_cache i addr nai c) =
       (if m = i \<and> \<not> hnp_known c i \<and> g_mn_count c < MAX_MOBILES then (nai, 1) else mn_nai_hnp_map m c)"
proof (cases "hnp_known c i \<or> g_mn_count c < MAX_MOBILES")
  case True
  then show ?thesis
    using insert_present [OF assms, of i] insert_fresh [OF assms, of i] by (cases "hnp_known c i") simp_all
next
  case False
  then have "pmip_insert_into_hnp_cache i addr nai c = c"
    using hnp_search_None_iff [of c i] by (simp add: pmip_insert_into_hnp_cache_def)
  with False assms show ?thesis by simp
qed

lemma hnp_insert_lookup_witness:
  "lma_mnid_hnp_map (In6 0 0 0 0 0 0 0 0 1 2 3 4 5 6 7 8)
     (pmip_insert_into_hnp_cache (In6 0 0 0 0 0 0 0 0 1 2 3 4 5 6 7 8) in6addr_any nai_zero hnp_cache_boot)
   = (in6addr_any, 1)"
  using hnp_insert_lookup [OF hnp_inv_boot(1)] by (simp add: hnp_cache_boot_def)

text \<open>C38: a mapping file that lists fewer than 64 mappings, one line with the 32 hexadecimal digits of the prefix, a
  blank and the 16 digits of the interface identifier each, is loaded into exactly the cache with
  these mappings in order, and a lookup afterwards returns the prefix of the first line for the
  identifier, or fails when no line is for it.\<close>

theorem mapping_file_roundtrip:
  assumes "length ms < MAX_MOBILES" "\<forall>m \<in> set ms. take 8 (s6_addr (snd m)) = replicate 8 0"
    and "g_mn_count (ld_cache s) = 0"
  shows "\<exists>c. pmip_mn_to_hnp_cache_init (Some (map print_line ms)) s = Done (Some c)
    \<and> g_mn_hn_map c = map loaded_entry ms @ replicate (MAX_MOBILES - length ms) mnid_hnp_zero \<and> g_mn_count c = length ms
    \<and> (\<forall>mnid. lma_mnid_hnp_map mnid c = (case map_of (map prod.swap ms) mnid of Some a \<Rightarrow> (a, 1) | None \<Rightarrow> (in6addr_any, -1)))"
proof -
  let ?s = "s\<lparr>ld_cache := pmip_lma_mn_to_hnp_cache_init (ld_cache s), ld_j := 0\<rparr>"
  have "\<exists>s'. load_lines (map print_line ms) ?s = Done s' \<and> ld_j s' = length ([] :: (in6_addr \<times> in6_addr) list) + length ms
    \<and> ld_cache s' = \<lparr>g_mn_hn_map = map loaded_entry ([] @ ms) @
          replicate (MAX_MOBILES - (length ([] :: (in6_addr \<times> in6_addr) list) + length ms)) mnid_hnp_zero,
        g_mn_count = length ([] :: (in6_addr \<times> in6_addr) list) + length ms\<rparr>"
    by (rule load_lines_print) (use assms in \<open>simp_all add: pmip_lma_mn_to_hnp_cache_init_def\<close>)
  then have "pmip_mn_to_hnp_cache_init (Some (map print_line ms)) s = Done (Some (loaded_cache ms))"
    using assms(1) by (auto simp: pmip_mn_to_hnp_cache_init_def loaded_cache_def)
  then show ?thesis using loaded_lookup by (intro exI [of _ "loaded_cache ms"]) (simp add: loaded_cache_def)
qed

theorem mapping_file_roundtrip_witness:
  "\<exists>c. pmip_mn_to_hnp_cache_init (Some [''20010db8000000000000000000000001 0000000000000011'' @ [CHR 0x0A], ''20010db8000000000000000000000002 0000000000000012'' @ [CHR 0x0A]])
     \<lparr>ld_cache = hnp_cache_boot, ld_j = 0, ld_str_addr = [], ld_str_addr_iid = [], ld_ap = 0, ld_ap1 = 0\<rparr> = Done (Some c)
   \<and> lma_mnid_hnp_map (In6 0 0 0 0 0 0 0 0 0 0 0 0 0 0 0 0x12) c = (In6 0x20 1 0xd 0xb8 0 0 0 0 0 0 0 0 0 0 0 2, 1)
   \<and> lma_mnid_hnp_map (In6 0 0 0 0 0 0 0 0 0 0 0 0 0 0 0 0x13) c = (in6addr_any, -1)"
proof -
  let ?s = "\<lparr>ld_cache = hnp_cache_boot, ld_j = 0, ld_str_addr = [], ld_str_addr_iid = [], ld_ap = 0, ld_ap1 = 0\<rparr>"
  let ?a = "\<lambda>b. In6 0x20 1 0xd 0xb8 0 0 0 0 0 0 0 0 0 0 0 b" and ?i = "\<lambda>b. In6 0 0 0 0 0 0 0 0 0 0 0 0 0 0 0 b"
  let ?ms = "[(?a 1, ?i 0x11), (?a 2, ?i 0x12)]"
  have p: "map print_line ?ms = [''20010db8000000000000000000000001 0000000000000011'' @ [CHR 0x0A], ''20010db8000000000000000000000002 0000000000000012'' @ [CHR 0x0A]]"
    by code_simp
  have "g_mn_count (ld_cache ?s) = 0" by (simp add: hnp_cache_boot_def)
  then have "\<exists>c. pmip_mn_to_hnp_cache_init (Some (map print_line ?ms)) ?s = Done (Some c)
    \<and> g_mn_hn_map c = map loaded_entry ?ms @ replicate (MAX_MOBILES - length ?ms) mnid_hnp_zero \<and> g_mn_count c = length ?ms
    \<and> (\<forall>mnid. lma_mnid_hnp_map mnid c = (case map_of (map prod.swap ?ms) mnid of Some a \<Rightarrow> (a, 1) | None \<Rightarrow> (in6addr_any, -1)))"
    by (intro mapping_file_roundtrip) (simp_all add: numeral_eq_Suc)
  then show ?thesis unfolding p by (elim exE) (rule exI, auto)
qed

text \<open>A line of the mapping file that holds white space only makes the loader read before the
  start of its line buffer.\<close>

lemma blank_line_out_of_bounds:
  assumes "\<forall>ch \<in> set line. isspace ch"
  shows "pmip_mn_to_hnp_cache_init (Some (line # ls)) s = Fault OutOfBounds"
proof -
  have "trim_right p = Fault OutOfBounds" if "\<forall>ch \<in> set p. isspace ch" for p
    using that
  proof (induction p rule: rev_induct)
    case Nil
    then show ?case by (simp add: trim_right.simps)
  next
    case (snoc x xs)
    then show ?case by (subst trim_right.simps) simp
  qed
  moreover have "\<forall>ch \<in> set (takeWhile (\<lambda>ch. ch \<noteq> CHR 0x00) line). isspace ch"
    using assms set_takeWhileD by fast
  ultimately show ?thesis by (simp add: pmip_mn_to_hnp_cache_init_def trim_def)
qed

lemma blank_line_out_of_bounds_witness:
  "pmip_mn_to_hnp_cache_init (Some [[CHR 0x0A]])
     \<lparr>ld_cache = hnp_cache_boot, ld_j = 0, ld_str_addr = [], ld_str_addr_iid = [], ld_ap = 0, ld_ap1 = 0\<rparr>
   = Fault OutOfBounds"
  by (rule blank_line_out_of_bounds) (simp add: isspace_def)

end
