(* ===== verification/Mobility_Header.thy ===== *)
theory Mobility_Header
  imports Prelude
begin

text \<open>
  \<open>src/src/mh.c\<close>, \<open>src/src/mh.h\<close> and \<open>src/include/netinet/ip6mh.h\<close>: creation of mobility
  headers and options, padding, parsing of the option area, and the table of message handlers.

  An \<open>iovec\<close> is the list of its bytes.  A received message is a buffer of bytes with the number
  of bytes received; the buffer of \<open>mh_listen\<close> has \<open>MAX_PKT_LEN\<close> bytes, and a read behind
  the received bytes but inside the buffer yields what the buffer held before.  A read behind the
  buffer is the fault \<open>OutOfBounds\<close>.
\<close>

section \<open>Constants and buffers\<close>

abbreviation (input) IP6_MHOPT_PAD1 :: byte where "IP6_MHOPT_PAD1 \<equiv> 0x00"
abbreviation (input) IP6_MHOPT_PADN :: byte where "IP6_MHOPT_PADN \<equiv> 0x01"
abbreviation (input) IP6_MHOPT_BREFRESH :: byte where "IP6_MHOPT_BREFRESH \<equiv> 0x02"
abbreviation (input) IP6_MHOPT_ALTCOA :: byte where "IP6_MHOPT_ALTCOA \<equiv> 0x03"
abbreviation (input) IP6_MHOPT_NONCEID :: byte where "IP6_MHOPT_NONCEID \<equiv> 0x04"
abbreviation (input) IP6_MHOPT_BAUTH :: byte where "IP6_MHOPT_BAUTH \<equiv> 0x05"
abbreviation (input) IP6_MHOPT_MOB_NET_PRFX :: byte where "IP6_MHOPT_MOB_NET_PRFX \<equiv> 0x06"
abbreviation (input) IP6_MHOPT_MAX :: byte where "IP6_MHOPT_MAX \<equiv> 0x1B"
abbreviation (input) IP6_MH_TYPE_MAX :: nat where "IP6_MH_TYPE_MAX \<equiv> 9"
abbreviation (input) IPPROTO_NONE :: byte where "IPPROTO_NONE \<equiv> 59"
abbreviation (input) MAX_PKT_LEN :: nat where "MAX_PKT_LEN \<equiv> 1540"

type_synonym iovec = "byte list"

definition read_bytes :: "byte list \<Rightarrow> nat \<Rightarrow> nat \<Rightarrow> byte list outcome" where
  "read_bytes buf off n =
     (if off + n \<le> length buf then Done (take n (drop off buf)) else Fault OutOfBounds)"

definition read_u8 :: "byte list \<Rightarrow> nat \<Rightarrow> u8 outcome" where
  "read_u8 buf off = (if off < length buf then Done (buf ! off) else Fault OutOfBounds)"

definition read_u16 :: "byte list \<Rightarrow> nat \<Rightarrow> u16 outcome" where
  "read_u16 buf off =
     (if off + 1 < length buf then Done (le16 (buf ! off) (buf ! (off + 1))) else Fault OutOfBounds)"

section \<open>Creating headers and options\<close>

text \<open>The sizes of the eight message structures; types 8 and 9 pass the test on
  \<open>IP6_MH_TYPE_MAX\<close> but have no entry in the table.\<close>

definition mh_len :: "nat list" where
  "mh_len = [8, 16, 16, 24, 24, 12, 12, 24]"

definition mh_create :: "bool \<Rightarrow> nat \<Rightarrow> iovec option outcome" where
  "mh_create mem type =
     (if type > IP6_MH_TYPE_MAX then Done None
      else if type \<ge> length mh_len then Fault OutOfBounds
      else if \<not> mem then Done None
      else Done (Some ([IPPROTO_NONE, 0, of_nat type, 0, 0, 0] @ replicate (mh_len ! type - 6) 0)))"

definition mh_create_opt_refresh_advice :: "u16 \<Rightarrow> iovec" where
  "mh_create_opt_refresh_advice interval = [IP6_MHOPT_BREFRESH, 2] @ bytes16 interval"

definition mh_create_opt_altcoa :: "in6_addr \<Rightarrow> iovec" where
  "mh_create_opt_altcoa addr = [IP6_MHOPT_ALTCOA, 16] @ s6_addr addr"

definition mh_create_opt_nonce_index :: "u16 \<Rightarrow> u16 \<Rightarrow> iovec" where
  "mh_create_opt_nonce_index home_nonce coa_nonce =
     [IP6_MHOPT_NONCEID, 4] @ bytes16 (htons home_nonce) @ bytes16 (htons coa_nonce)"

definition mh_create_opt_auth_data :: iovec where
  "mh_create_opt_auth_data = [IP6_MHOPT_BAUTH, 12] @ replicate 12 0"

definition pad_bytes :: "nat \<Rightarrow> byte list" where
  "pad_bytes pad =
     (case pad of 0 \<Rightarrow> [] | Suc 0 \<Rightarrow> [IP6_MHOPT_PAD1]
      | Suc (Suc n) \<Rightarrow> [IP6_MHOPT_PADN, of_nat n] @ replicate n 0)"

text \<open>\<open>create_opt_pad\<close> knows the pads of one to seven bytes; for any other value the base
  pointer of the vector stays as it was (null) and only the length is set.\<close>

definition create_opt_pad :: "nat \<Rightarrow> iovec" where
  "create_opt_pad pad =
     (if pad = 2 then [0x01, 0x00]
      else if pad = 4 then [0x01, 0x02, 0x00, 0x00]
      else if pad = 6 then [0x01, 0x04, 0x00, 0x00, 0x00, 0x00]
      else if pad = 1 then [0x00]
      else if pad = 3 then [0x01, 0x01, 0x00]
      else if pad = 5 then [0x01, 0x03, 0x00, 0x00, 0x00]
      else if pad = 7 then [0x01, 0x05, 0x00, 0x00, 0x00, 0x00, 0x00]
      else [])"

text \<open>Several network prefixes share one vector, with four bytes of padding between them.\<close>

fun mh_create_opt_mob_net_prefix :: "(in6_addr \<times> u8) list \<Rightarrow> iovec" where
  "mh_create_opt_mob_net_prefix [] = []"
| "mh_create_opt_mob_net_prefix [(prefix, plen)] = [IP6_MHOPT_MOB_NET_PRFX, 18, 0, plen] @ s6_addr prefix"
| "mh_create_opt_mob_net_prefix ((prefix, plen) # p # ps) =
     [IP6_MHOPT_MOB_NET_PRFX, 18, 0, plen] @ s6_addr prefix @ create_opt_pad 4
       @ mh_create_opt_mob_net_prefix (p # ps)"

section \<open>Padding\<close>

definition mh_length :: "iovec list \<Rightarrow> nat" where
  "mh_length vec = fold (\<lambda>v len. len + length v) vec 0"

definition optpad :: "int \<Rightarrow> int \<Rightarrow> int \<Rightarrow> int" where
  "optpad xn y offset = (y - offset) AND (xn - 1)"

text \<open>The loop of \<open>mh_try_pad\<close> over the options.  \<open>al\<close> is the \<open>switch\<close> on the option type: the
  alignment \<open>xn\<close>\<open>n + y\<close>, no padding (\<open>Some None\<close>), or no case at all, in which case \<open>pad\<close>
  keeps the value of the previous turn.\<close>

fun pad_loop :: "(byte \<Rightarrow> (int \<times> int) option option) \<Rightarrow> nat \<Rightarrow> nat \<Rightarrow> iovec list \<Rightarrow> iovec list" where
  "pad_loop al len pad [] = []"
| "pad_loop al len pad (v # vs) =
     (let pad' = (case al (hd v) of
                    Some (Some (xn, y)) \<Rightarrow> nat (optpad xn y (int len))
                  | Some None \<Rightarrow> 0
                  | None \<Rightarrow> pad)
      in if pad' > 0
         then create_opt_pad pad' # v # pad_loop al (len + pad' + length v) pad' vs
         else v # pad_loop al (len + length v) pad' vs)"

definition try_pad :: "(byte \<Rightarrow> (int \<times> int) option option) \<Rightarrow> iovec list \<Rightarrow> iovec list" where
  "try_pad al vec =
     (let out = hd vec # pad_loop al (length (hd vec)) 0 (tl vec)
      in if length vec = 1
         then out @ [create_opt_pad (nat (optpad 8 0 (int (length (hd vec)))))] else out)"

definition mh_align :: "byte \<Rightarrow> (int \<times> int) option option" where
  "mh_align t =
     (if t = IP6_MHOPT_BREFRESH then Some (Some (2, 0))
      else if t = IP6_MHOPT_ALTCOA then Some (Some (8, 6))
      else if t = IP6_MHOPT_NONCEID then Some (Some (2, 0))
      else if t = IP6_MHOPT_BAUTH then Some (Some (8, 2))
      else if t = IP6_MHOPT_MOB_NET_PRFX then Some (Some (8, 4))
      else None)"

definition mh_try_pad :: "iovec list \<Rightarrow> iovec list" where
  "mh_try_pad vec = try_pad mh_align vec"

section \<open>Parsing options\<close>

record mh_options =
  opts :: "nat \<Rightarrow> nat"
  opts_end :: "nat \<Rightarrow> nat"

definition mh_options_zero :: mh_options where
  "mh_options_zero = \<lparr>opts = (\<lambda>_. 0), opts_end = (\<lambda>_. 0)\<rparr>"

definition mh_opts_dup_ok :: "bool list" where
  "mh_opts_dup_ok = [True, True, False, False, False, False, True]"

definition mh_opt_len_chk :: "u8 \<Rightarrow> nat \<Rightarrow> bool" where
  "mh_opt_len_chk type len =
     (if type = IP6_MHOPT_BREFRESH then len \<noteq> 4
      else if type = IP6_MHOPT_ALTCOA then len \<noteq> 18
      else if type = IP6_MHOPT_NONCEID then len \<noteq> 6
      else if type = IP6_MHOPT_BAUTH then len \<noteq> 14
      else if type = IP6_MHOPT_MOB_NET_PRFX then len \<noteq> 20
      else False)"

text \<open>One turn of the loop of \<open>mh_opt_parse\<close> at position \<open>i\<close> with \<open>left\<close> bytes to go: an error
  or the bytes to skip and the updated table.  \<open>mh_opts_dup_ok\<close> has seven entries, but every
  type up to \<open>IP6_MHOPT_MAX\<close> may index it.\<close>

datatype opt_step = Einval | Advance nat bool mh_options bool

definition mh_opt_step :: "byte list \<Rightarrow> nat \<Rightarrow> int \<Rightarrow> bool \<Rightarrow> mh_options \<Rightarrow> opt_step outcome" where
  "mh_opt_step msg i left bauth mo =
     (if bauth then Done Einval
      else andThen (read_u8 msg i) (\<lambda>type.
        if type = IP6_MHOPT_PAD1 then Done (Advance 1 bauth mo False)
        else if left < 2 then Done Einval
        else andThen (read_u8 msg (i + 1)) (\<lambda>l.
          let sz = unat l + 2; t = unat type in
          if mh_opt_len_chk type sz then Done Einval
          else if type = IP6_MHOPT_PADN then Done (Advance sz bauth mo False)
          else if type \<le> IP6_MHOPT_MAX then
            (let b = (if type = IP6_MHOPT_BAUTH then True else bauth) in
             if opts mo t = 0 then Done (Advance sz b (mo\<lparr>opts := (opts mo)(t := i)\<rparr>) True)
             else if t \<ge> length mh_opts_dup_ok then Fault OutOfBounds
             else if mh_opts_dup_ok ! t
                  then Done (Advance sz b (mo\<lparr>opts_end := (opts_end mo)(t := i)\<rparr>) True)
             else Done Einval)
          else Done (Advance sz bauth mo False))))"

function mh_opt_loop ::
  "byte list \<Rightarrow> nat \<Rightarrow> int \<Rightarrow> bool \<Rightarrow> mh_options \<Rightarrow> int \<Rightarrow> (int \<times> mh_options) outcome" where
  "mh_opt_loop msg i left bauth mo ret =
     (if left > 0 then
        case mh_opt_step msg i left bauth mo of
          Fault e \<Rightarrow> Fault e
        | Done Einval \<Rightarrow> Done (- EINVAL, mo)
        | Done (Advance sz bauth' mo' counted) \<Rightarrow>
            mh_opt_loop msg (i + sz) (left - int sz) bauth' mo' (if counted then ret + 1 else ret)
      else Done (ret, mo))"
  by pat_completeness auto

lemma mh_opt_step_advance: "mh_opt_step msg i left bauth mo = Done (Advance sz b mo' c) \<Longrightarrow> 1 \<le> sz"
  by (auto simp: mh_opt_step_def andThen_Done_iff Let_def split: if_splits)

termination mh_opt_loop
  by (relation "measure (\<lambda>(msg, i, left, _). nat left)") (auto dest!: mh_opt_step_advance)

declare mh_opt_loop.simps [simp del]

definition mh_opt_parse :: "byte list \<Rightarrow> nat \<Rightarrow> nat \<Rightarrow> (int \<times> mh_options) outcome" where
  "mh_opt_parse msg len offset =
     mh_opt_loop msg offset (int len - int offset) False mh_options_zero 0"

text \<open>The position of an option, \<open>None\<close> for the null pointer.\<close>

definition mh_opt :: "mh_options \<Rightarrow> u8 \<Rightarrow> nat option" where
  "mh_opt mh_opts type = (if opts mh_opts (unat type) \<noteq> 0 then Some (opts mh_opts (unat type)) else None)"

section \<open>Message handlers\<close>

text \<open>\<open>handlers\<close> holds the first handler of each type and \<open>next\<close> the link field of the handlers.\<close>

record mh_handlers =
  handlers :: "nat \<Rightarrow> nat option"
  hnext :: "nat \<Rightarrow> nat option"

abbreviation (input) MH_SENTINEL :: nat where "MH_SENTINEL \<equiv> IP6_MH_TYPE_MAX + 1"

definition mh_type_map :: "u8 \<Rightarrow> nat" where
  "mh_type_map type = (if unat type < MH_SENTINEL then unat type else MH_SENTINEL)"

definition mh_handler_get :: "mh_handlers \<Rightarrow> u8 \<Rightarrow> nat option" where
  "mh_handler_get hs type = handlers hs (mh_type_map type)"

definition mh_handler_reg :: "u8 \<Rightarrow> nat \<Rightarrow> mh_handlers \<Rightarrow> mh_handlers outcome" where
  "mh_handler_reg type handler hs =
     (let i = mh_type_map type in
      if hnext hs handler \<noteq> None then Fault AssertFail
      else Done (hs\<lparr>hnext := (hnext hs)(handler := handlers hs i),
                     handlers := (handlers hs)(i \<mapsto> handler)\<rparr>))"

text \<open>The walk of \<open>mh_handler_dereg\<close>: the link that points to the handler, if one does
  (\<open>Some None\<close> for the head of the list).\<close>

partial_function (option) dereg_walk ::
  "(nat \<Rightarrow> nat option) \<Rightarrow> nat \<Rightarrow> nat option \<Rightarrow> nat option \<Rightarrow> nat option option option" where
  "dereg_walk nxt handler prev cur =
     (if cur = None then Some None
      else if cur = Some handler then Some (Some prev)
      else dereg_walk nxt handler cur (nxt (the cur)))"

definition mh_handler_dereg :: "u8 \<Rightarrow> nat \<Rightarrow> mh_handlers \<Rightarrow> mh_handlers option" where
  "mh_handler_dereg type handler hs =
     (let i = mh_type_map type in
      case dereg_walk (hnext hs) handler None (handlers hs i) of
        None \<Rightarrow> None
      | Some None \<Rightarrow> Some hs
      | Some (Some None) \<Rightarrow>
          Some (hs\<lparr>handlers := (handlers hs)(i := hnext hs handler), hnext := (hnext hs)(handler := None)\<rparr>)
      | Some (Some (Some p)) \<Rightarrow>
          Some (hs\<lparr>hnext := (hnext hs)(p := hnext hs handler, handler := None)\<rparr>))"

section \<open>Padding aligns the options\<close>

fun aligned :: "(byte \<Rightarrow> (int \<times> int) option option) \<Rightarrow> nat \<Rightarrow> iovec list \<Rightarrow> bool" where
  "aligned al len [] = True"
| "aligned al len (v # vs) =
     ((case al (hd v) of Some (Some (xn, y)) \<Rightarrow> int len mod xn = y | _ \<Rightarrow> True)
      \<and> aligned al (len + length v) vs)"

definition align_ok :: "(byte \<Rightarrow> (int \<times> int) option option) \<Rightarrow> bool" where
  "align_ok al \<longleftrightarrow> al IP6_MHOPT_PAD1 = None \<and> al IP6_MHOPT_PADN = None
     \<and> (\<forall>t xn y. al t = Some (Some (xn, y)) \<longrightarrow> (xn = 2 \<or> xn = 8) \<and> 0 \<le> y \<and> y < xn)"

lemma optpad_mod:
  "optpad 8 y off = (y - off) mod 8" "optpad 2 y off = (y - off) mod 2"
proof -
  have "x AND 7 = x mod 8" for x :: int
    using take_bit_eq_mask [of 3 x] by (simp add: take_bit_eq_mod mask_eq_exp_minus_1)
  moreover have "x AND 1 = x mod 2" for x :: int
    by (simp add: and_one_eq)
  ultimately show "optpad 8 y off = (y - off) mod 8" "optpad 2 y off = (y - off) mod 2"
    by (simp_all add: optpad_def)
qed

lemma optpad_range:
  assumes "xn = 2 \<or> xn = 8"
  shows "0 \<le> optpad xn y off" "optpad xn y off < 8" "(off + optpad xn y off) mod xn = y mod xn"
  using assms by (auto simp: optpad_mod mod_simps)

lemma optpad_zero_iff:
  assumes "xn = 2 \<or> xn = 8" "0 \<le> y" "y < xn"
  shows "optpad xn y off = 0 \<longleftrightarrow> off mod xn = y"
proof -
  have "optpad xn y off = 0 \<longleftrightarrow> (y - off) mod xn = 0" using assms(1) by (auto simp: optpad_mod)
  also have "\<dots> \<longleftrightarrow> y mod xn = off mod xn" by (simp add: mod_eq_dvd_iff mod_eq_0_iff_dvd)
  finally show ?thesis using assms by auto
qed

lemma create_opt_pad_props:
  assumes "0 < n" "n < 8"
  shows "length (create_opt_pad n) = n" "hd (create_opt_pad n) = IP6_MHOPT_PAD1 \<or> hd (create_opt_pad n) = IP6_MHOPT_PADN"
    "create_opt_pad n = pad_bytes n"
proof -
  consider "n = 1" | "n = 2" | "n = 3" | "n = 4" | "n = 5" | "n = 6" | "n = 7"
    using assms by fastforce
  then show "length (create_opt_pad n) = n" "hd (create_opt_pad n) = IP6_MHOPT_PAD1 \<or> hd (create_opt_pad n) = IP6_MHOPT_PADN"
    "create_opt_pad n = pad_bytes n"
    by (cases; simp add: create_opt_pad_def pad_bytes_def numeral_eq_Suc)+
qed

lemma pad_loop_aligned:
  assumes "align_ok al" "pad < 8"
  shows "aligned al len (pad_loop al len pad vs)"
  using assms(2)
proof (induction vs arbitrary: len pad)
  case (Cons v vs)
  define pad' where "pad' = (case al (hd v) of Some (Some (xn, y)) \<Rightarrow> nat (optpad xn y (int len))
      | Some None \<Rightarrow> 0 | None \<Rightarrow> pad)"
  have lt: "pad' < 8"
    using assms(1) Cons.prems unfolding align_ok_def pad'_def
    by (auto split: option.splits) (metis nat_less_iff of_nat_numeral optpad_range(1,2))
  have req: "int (len + pad') mod xn = y" if "al (hd v) = Some (Some (xn, y))" for xn y
  proof -
    have "xn = 2 \<or> xn = 8" "0 \<le> y" "y < xn" using assms(1) that unfolding align_ok_def by blast+
    then show ?thesis
      using optpad_range(1) [of xn y "int len"] optpad_range(3) [where xn = xn and y = y and off = "int len"] that
      by (simp add: pad'_def)
  qed
  show ?case
  proof (cases "pad' > 0")
    case True
    have pl: "pad_loop al len pad (v # vs) = create_opt_pad pad' # v # pad_loop al (len + pad' + length v) pad' vs"
      using True by (simp add: pad'_def Let_def)
    have "al (hd (create_opt_pad pad')) = None"
      using create_opt_pad_props(2) [OF True lt] assms(1) by (auto simp: align_ok_def)
    then show ?thesis
      using req Cons.IH [OF lt] create_opt_pad_props(1) [OF True lt]
      unfolding pl by (auto split: option.splits)
  next
    case False
    then have "pad_loop al len pad (v # vs) = v # pad_loop al (len + length v) pad' vs"
      by (simp add: pad'_def Let_def)
    then show ?thesis using req Cons.IH [OF lt] False by (auto split: option.splits)
  qed
qed simp

text \<open>Padding an aligned vector a second time changes nothing.\<close>

lemma pad_loop_aligned_id:
  assumes "align_ok al" "aligned al len vs"
  shows "pad_loop al len 0 vs = vs"
  using assms(2)
proof (induction vs arbitrary: len)
  case (Cons v vs)
  have "nat (optpad xn y (int len)) = 0" if "al (hd v) = Some (Some (xn, y))" for xn y
  proof -
    have "xn = 2 \<or> xn = 8" "0 \<le> y" "y < xn" using assms(1) that unfolding align_ok_def by blast+
    then have "optpad xn y (int len) = 0" using Cons.prems that by (subst optpad_zero_iff) simp_all
    then show ?thesis by simp
  qed
  then have "(case al (hd v) of Some (Some (xn, y)) \<Rightarrow> nat (optpad xn y (int len))
      | Some None \<Rightarrow> 0 | None \<Rightarrow> 0) = 0"
    by (auto split: option.splits)
  then show ?case using Cons by (simp add: Let_def)
qed simp

lemma mh_align_ok: "align_ok mh_align"
  by (auto simp: align_ok_def mh_align_def split: if_splits)

lemma mh_length_concat: "mh_length vec = length (concat vec)"
proof -
  have "fold (\<lambda>v len. len + length v) vec n = n + length (concat vec)" for n
    by (induction vec arbitrary: n) auto
  then show ?thesis by (simp add: mh_length_def)
qed

section \<open>What the option parser finds\<close>

text \<open>The length byte of the option at a position passes the check on lengths.\<close>

definition opt_sized :: "byte list \<Rightarrow> nat \<Rightarrow> bool" where
  "opt_sized msg i \<longleftrightarrow> \<not> mh_opt_len_chk (msg ! i) (unat (msg ! (i + 1)) + 2)"

text \<open>The options of a message as their type and length bytes delimit them: the starting positions, one behind
  the other.  Only the last option can run past the end.\<close>

definition opt_size :: "byte list \<Rightarrow> nat \<Rightarrow> nat" where
  "opt_size msg i = (if msg ! i = IP6_MHOPT_PAD1 then 1 else unat (msg ! (i + 1)) + 2)"

function opt_starts :: "byte list \<Rightarrow> nat \<Rightarrow> nat \<Rightarrow> nat list" where
  "opt_starts msg len i = (if i < len then i # opt_starts msg len (i + opt_size msg i) else [])"
  by pat_completeness auto

termination opt_starts
  by (relation "measure (\<lambda>(msg, len, i). len - i)") (auto simp: opt_size_def)

declare opt_starts.simps [simp del]

lemma opt_starts_ge: "p \<in> set (opt_starts msg len i) \<Longrightarrow> i \<le> p"
proof (induction msg len i rule: opt_starts.induct)
  case (1 msg len i)
  then show ?case by (subst (asm) (2) opt_starts.simps) (fastforce split: if_splits)
qed

lemma opt_starts_disjoint:
  "p \<in> set (opt_starts msg len i) \<Longrightarrow> q \<in> set (opt_starts msg len i) \<Longrightarrow> p < q \<Longrightarrow> p + opt_size msg p \<le> q"
proof (induction msg len i rule: opt_starts.induct)
  case (1 msg len i)
  have "i < len" using "1.prems"(1) by (subst (asm) opt_starts.simps) (simp split: if_splits)
  then have "set (opt_starts msg len i) = insert i (set (opt_starts msg len (i + opt_size msg i)))" by (subst opt_starts.simps) simp
  then have "p = i \<or> p \<in> set (opt_starts msg len (i + opt_size msg i))" "q = i \<or> q \<in> set (opt_starts msg len (i + opt_size msg i))"
    using "1.prems"(1,2) by blast+
  then consider "p = i" "q \<in> set (opt_starts msg len (i + opt_size msg i))" | "p \<in> set (opt_starts msg len (i + opt_size msg i))" "q \<le> i"
    | "p \<in> set (opt_starts msg len (i + opt_size msg i))" "q \<in> set (opt_starts msg len (i + opt_size msg i))"
    using "1.prems"(3) by fastforce
  then show ?case
  proof cases
    case 1
    then show ?thesis using opt_starts_ge by blast
  next
    case 2
    then show ?thesis using "1.prems"(3) opt_starts_ge [of p msg len "i + opt_size msg i"] by linarith
  next
    case 3
    then show ?thesis by (rule "1.IH" [OF \<open>i < len\<close> _ _ "1.prems"(3)])
  qed
qed

text \<open>What one turn of the loop may do to the table: nothing, or store the position of an option that has a
  type the table holds and whose slot is empty.\<close>

definition storable :: "u8 \<Rightarrow> bool" where
  "storable type \<longleftrightarrow> type \<noteq> IP6_MHOPT_PAD1 \<and> type \<noteq> IP6_MHOPT_PADN \<and> type \<le> IP6_MHOPT_MAX"

lemma opt_step_table:
  assumes "mh_opt_step msg i left b mo = Done (Advance sz b' mo' c)" "i < length msg" "left = int len - int i" "len \<le> length msg" "0 < left"
  shows "sz = opt_size msg i
    \<and> opts mo' = (if storable (msg ! i) \<and> opts mo (unat (msg ! i)) = 0 then (opts mo)(unat (msg ! i) := i) else opts mo)
    \<and> (storable (msg ! i) \<longrightarrow> i + 1 < len \<and> opt_sized msg i)"
  using assms by (auto simp: mh_opt_step_def opt_size_def storable_def opt_sized_def read_u8_def Let_def split: if_splits)

text \<open>A property of all stored positions is kept by the loop when it holds of every option met.\<close>

definition stored_ok :: "byte list \<Rightarrow> nat \<Rightarrow> nat \<Rightarrow> mh_options \<Rightarrow> bool" where
  "stored_ok msg len off mo \<longleftrightarrow> (\<forall>t. opts mo t \<noteq> 0 \<longrightarrow> opts mo t \<in> set (opt_starts msg len off) \<and> opts mo t + 1 < len
     \<and> storable (msg ! opts mo t) \<and> unat (msg ! opts mo t) = t \<and> opt_sized msg (opts mo t))"

lemma mh_opt_loop_sound:
  assumes "mh_opt_loop msg i left bauth mo ret = Done (r, mo')" "left = int len - int i" "len \<le> length msg"
    and "set (opt_starts msg len i) \<subseteq> set (opt_starts msg len off)" "stored_ok msg len off mo"
  shows "stored_ok msg len off mo'"
  using assms
proof (induction msg i left bauth mo ret rule: mh_opt_loop.induct)
  case (1 msg i left bauth mo ret)
  show ?case
  proof (cases "left > 0")
    case False
    then show ?thesis using "1.prems" by (subst (asm) mh_opt_loop.simps) simp
  next
    case True
    have i: "i < len" "i < length msg" using True "1.prems"(2,3) by simp_all
    show ?thesis
    proof (cases "mh_opt_step msg i left bauth mo")
      case (Fault e)
      then show ?thesis using "1.prems"(1) True by (subst (asm) mh_opt_loop.simps) simp
    next
      case (Done st)
      show ?thesis
      proof (cases st)
        case Einval
        then show ?thesis using "1.prems" True Done by (subst (asm) mh_opt_loop.simps) simp
      next
        case (Advance sz b mo1 c)
        note S = opt_step_table [OF Done [unfolded Advance] i(2) "1.prems"(2,3) True]
        have st: "opt_starts msg len i = i # opt_starts msg len (i + sz)" using S i(1) by (subst opt_starts.simps) simp
        have "stored_ok msg len off mo1" using "1.prems"(4,5) S st by (auto simp: stored_ok_def)
        moreover have "mh_opt_loop msg (i + sz) (left - int sz) b mo1 (if c then ret + 1 else ret) = Done (r, mo')"
          using "1.prems"(1) True Done Advance by (subst (asm) mh_opt_loop.simps) simp
        ultimately show ?thesis using "1.IH" [OF True Done Advance] "1.prems"(2-4) st by simp
      qed
    qed
  qed
qed

lemma mh_opt_found:
  assumes "mh_opt_parse msg len off = Done (ret, mo)" "len \<le> length msg" "0 < off"
    and "mh_opt mo type = Some pos"
  shows "off \<le> pos \<and> pos + 1 < len \<and> msg ! pos = type \<and> type \<le> IP6_MHOPT_MAX \<and> \<not> mh_opt_len_chk type (unat (msg ! (pos + 1)) + 2)"
    "pos \<in> set (opt_starts msg len off)" "opt_size msg pos = unat (msg ! (pos + 1)) + 2"
proof -
  have "stored_ok msg len off mo"
    by (rule mh_opt_loop_sound [OF assms(1) [unfolded mh_opt_parse_def] refl assms(2)]) (simp_all add: mh_options_zero_def stored_ok_def)
  moreover have "opts mo (unat type) = pos" "pos \<noteq> 0"
    using assms(4) by (auto simp: mh_opt_def split: if_splits)
  ultimately have P: "pos \<in> set (opt_starts msg len off)" "pos + 1 < len" "storable (msg ! pos)" "unat (msg ! pos) = unat type" "opt_sized msg pos"
    by (auto simp: stored_ok_def)
  then have "msg ! pos = type" by (simp add: unsigned_word_eqI)
  then show "off \<le> pos \<and> pos + 1 < len \<and> msg ! pos = type \<and> type \<le> IP6_MHOPT_MAX \<and> \<not> mh_opt_len_chk type (unat (msg ! (pos + 1)) + 2)"
    "pos \<in> set (opt_starts msg len off)" "opt_size msg pos = unat (msg ! (pos + 1)) + 2"
    using P opt_starts_ge [OF P(1)] by (auto simp: storable_def opt_sized_def opt_size_def)
qed

text \<open>When the parser does not refuse the message it has stored the first option of every type.\<close>

definition first_opt :: "byte list \<Rightarrow> nat list \<Rightarrow> u8 \<Rightarrow> nat option" where
  "first_opt msg ps type = (if storable type then find (\<lambda>p. msg ! p = type) ps else None)"

lemma mh_opt_loop_first:
  assumes "mh_opt_loop msg i left bauth mo ret = Done (r, mo')" "left = int len - int i" "len \<le> length msg" "0 < i" "0 \<le> r"
  shows "mh_opt mo' type = (case mh_opt mo type of Some p \<Rightarrow> Some p | None \<Rightarrow> first_opt msg (opt_starts msg len i) type)"
  using assms
proof (induction msg i left bauth mo ret rule: mh_opt_loop.induct)
  case (1 msg i left bauth mo ret)
  show ?case
  proof (cases "left > 0")
    case False
    then have "opt_starts msg len i = []" "mo' = mo" using "1.prems"(1,2) by (simp add: opt_starts.simps, subst (asm) mh_opt_loop.simps, simp)
    then show ?thesis by (simp add: first_opt_def split: option.splits)
  next
    case True
    have i: "i < len" "i < length msg" using True "1.prems"(2,3) by simp_all
    obtain sz b mo1 c where st: "mh_opt_step msg i left bauth mo = Done (Advance sz b mo1 c)"
        "mh_opt_loop msg (i + sz) (left - int sz) b mo1 (if c then ret + 1 else ret) = Done (r, mo')"
      using "1.prems"(1,5) True by (subst (asm) mh_opt_loop.simps) (auto split: outcome.splits opt_step.splits)
    note S = opt_step_table [OF st(1) i(2) "1.prems"(2,3) True]
    have o: "opt_starts msg len i = i # opt_starts msg len (i + sz)" using S i(1) by (subst opt_starts.simps) simp
    have "mh_opt mo' type = (case mh_opt mo1 type of Some p \<Rightarrow> Some p | None \<Rightarrow> first_opt msg (opt_starts msg len (i + sz)) type)"
      using "1.IH" [OF True st(1) refl st(2)] "1.prems"(2-5) by simp
    moreover have "unat type = unat (msg ! i) \<longleftrightarrow> msg ! i = type" by (auto simp: word_unat_eq_iff)
    then have "mh_opt mo1 type = (if storable type \<and> msg ! i = type \<and> mh_opt mo type = None then Some i else mh_opt mo type)"
      using S "1.prems"(4) by (auto simp: mh_opt_def)
    ultimately show ?thesis by (simp add: o first_opt_def split: option.splits)
  qed
qed

lemma mh_opt_first:
  assumes "mh_opt_parse msg len off = Done (ret, mo)" "len \<le> length msg" "0 < off" "0 \<le> ret"
  shows "mh_opt mo type = first_opt msg (opt_starts msg len off) type"
  using mh_opt_loop_first [OF assms(1) [unfolded mh_opt_parse_def] refl assms(2-4)] by (simp add: mh_opt_def mh_options_zero_def)

text \<open>Options laid out one after the other are all found at their positions.\<close>

definition padv :: "iovec \<Rightarrow> bool" where
  "padv v \<longleftrightarrow> v = [IP6_MHOPT_PAD1] \<or> (\<exists>n < 250. v = [IP6_MHOPT_PADN, of_nat n] @ replicate n 0)"

definition optv :: "iovec \<Rightarrow> bool" where
  "optv v \<longleftrightarrow> 2 \<le> length v \<and> 7 \<le> unat (hd v) \<and> unat (hd v) \<le> 27 \<and> length v = unat (v ! 1) + 2"

fun record_opts :: "nat \<Rightarrow> iovec list \<Rightarrow> mh_options \<Rightarrow> mh_options" where
  "record_opts i [] mo = mo"
| "record_opts i (v # vs) mo =
     record_opts (i + length v) vs
       (if padv v then mo else mo\<lparr>opts := (opts mo)(unat (hd v) := i)\<rparr>)"

lemma read_u8_append: "read_u8 (pre @ b # post) (length pre) = Done b"
  by (simp add: read_u8_def)

lemma read_u8_append1: "read_u8 (pre @ b # c # post) (Suc (length pre)) = Done c"
  by (simp add: read_u8_def nth_append)

lemma step_optv:
  assumes "optv v" "opts mo (unat (hd v)) = 0"
  shows "mh_opt_step (pre @ v @ post) (length pre) (int (length v) + left) False mo =
    (if left \<ge> 0 then Done (Advance (length v) False (mo\<lparr>opts := (opts mo)(unat (hd v) := length pre)\<rparr>) True)
     else mh_opt_step (pre @ v @ post) (length pre) (int (length v) + left) False mo)"
proof (cases "left \<ge> 0")
  case True
  obtain t l body where v: "v = t # l # body"
    using assms(1) by (auto simp: optv_def neq_Nil_conv numeral_2_eq_2 Suc_le_length_iff)
  have t: "7 \<le> unat t" "unat t \<le> 27" "length body = unat l" using assms(1) by (auto simp: optv_def v)
  have ne: "t \<noteq> 0" "t \<noteq> 1" "t \<noteq> 2" "t \<noteq> 3" "t \<noteq> 4" "t \<noteq> 5" "t \<noteq> 6" using t(1) by auto
  have le: "t \<le> IP6_MHOPT_MAX" using t(2) by (simp add: word_le_nat_alt)
  have "0 \<le> uint l" by simp
  then have "\<not> uint l + left < 0" using True by linarith
  then show ?thesis
    using True assms(2) ne le t(3)
    by (simp add: v mh_opt_step_def read_u8_append read_u8_append1 mh_opt_len_chk_def Let_def)
qed simp

lemma step_padv:
  assumes "padv v" "left \<ge> 0"
  shows "mh_opt_step (pre @ v @ post) (length pre) (int (length v) + left) False mo =
    Done (Advance (length v) False mo False)"
  using assms(1)[unfolded padv_def]
proof
  assume "v = [IP6_MHOPT_PAD1]"
  then show ?thesis by (simp add: mh_opt_step_def read_u8_append)
next
  assume "\<exists>n < 250. v = [IP6_MHOPT_PADN, of_nat n] @ replicate n 0"
  then obtain n where n: "n < 250" "v = [IP6_MHOPT_PADN, of_nat n] @ replicate n 0" by blast
  have "unat (of_nat n :: byte) = n" using n(1) by (simp add: unsigned_of_nat take_bit_eq_mod)
  then show ?thesis
    using assms(2) by (simp add: n mh_opt_step_def read_u8_append read_u8_append1 mh_opt_len_chk_def Let_def)
qed

lemma optv_not_padv: "optv v \<Longrightarrow> \<not> padv v"
  by (auto simp: optv_def padv_def)

lemma mh_opt_loop_vec:
  assumes "\<forall>v \<in> set vs. padv v \<or> optv v" "distinct (map hd (filter optv vs))"
    and "\<forall>v \<in> set vs. optv v \<longrightarrow> opts mo (unat (hd v)) = 0"
  shows "mh_opt_loop (pre @ concat vs @ post) (length pre) (int (length (concat vs))) False mo ret =
    Done (ret + int (length (filter optv vs)), record_opts (length pre) vs mo)"
  using assms
proof (induction vs arbitrary: pre mo ret)
  case Nil
  then show ?case by (simp add: mh_opt_loop.simps)
next
  case (Cons v vs)
  let ?mo = "if padv v then mo else mo\<lparr>opts := (opts mo)(unat (hd v) := length pre)\<rparr>"
  have pos: "0 < length v" using Cons.prems(1) by (auto simp: padv_def optv_def)
  have step: "mh_opt_step (pre @ v @ concat vs @ post) (length pre) (int (length v) + int (length (concat vs))) False mo
      = Done (Advance (length v) False ?mo (\<not> padv v))"
    using Cons.prems step_padv [of v "int (length (concat vs))" pre "concat vs @ post" mo]
      step_optv [of v mo pre "concat vs @ post" "int (length (concat vs))"]
    by (auto simp: optv_not_padv)
  have free: "\<forall>w \<in> set vs. optv w \<longrightarrow> opts ?mo (unat (hd w)) = 0"
  proof (intro ballI impI)
    fix w assume w: "w \<in> set vs" "optv w"
    then have "hd w \<noteq> hd v" if "optv v" using Cons.prems(2) that by (auto simp: image_iff)
    then show "opts ?mo (unat (hd w)) = 0"
      using Cons.prems(1,3) w by (auto simp: unsigned_word_eqI)
  qed
  have "mh_opt_loop ((pre @ v) @ concat vs @ post) (length (pre @ v)) (int (length (concat vs))) False ?mo
      (if \<not> padv v then ret + 1 else ret) =
    Done ((if \<not> padv v then ret + 1 else ret) + int (length (filter optv vs)), record_opts (length (pre @ v)) vs ?mo)"
    using Cons.prems free by (intro Cons.IH) (auto split: if_splits)
  moreover have "optv v \<longleftrightarrow> \<not> padv v" using Cons.prems(1) optv_not_padv by auto
  moreover have "0 < int (length v) + int (length (concat vs))" using pos by linarith
  ultimately show ?case
    by (subst mh_opt_loop.simps) (simp add: step)
qed

section \<open>Properties\<close>

text \<open>C14: every option position the parser stores lies behind the message header, with its type and length bytes
  before the end of the received bytes, and holds an option of the type it is stored under, which is
  at most \<open>IP6_MHOPT_MAX\<close>, with a length that passes the check of lengths.  It is a position reached by
  skipping option after option from the header, so a stored option ends where another stored one
  begins or before: only the last one can run past the end.  When the parser does not refuse the
  message, what it stores for a type is exactly the first option of that type.\<close>

theorem mh_opt_parse_sound:
  assumes "mh_opt_parse msg len off = Done (ret, mo)" "len \<le> length msg" "0 < off"
  shows "(\<forall>type pos. mh_opt mo type = Some pos \<longrightarrow>
       off \<le> pos \<and> pos + 1 < len \<and> msg ! pos = type \<and> type \<le> IP6_MHOPT_MAX \<and> \<not> mh_opt_len_chk type (unat (msg ! (pos + 1)) + 2)
       \<and> pos \<in> set (opt_starts msg len off)
       \<and> (\<forall>type' pos'. mh_opt mo type' = Some pos' \<and> pos < pos' \<longrightarrow> pos + 2 + unat (msg ! (pos + 1)) \<le> pos'))
    \<and> (0 \<le> ret \<longrightarrow> (\<forall>type. mh_opt mo type =
         (if type = IP6_MHOPT_PAD1 \<or> type = IP6_MHOPT_PADN \<or> IP6_MHOPT_MAX < type then None
          else find (\<lambda>p. msg ! p = type) (opt_starts msg len off))))"
proof (intro conjI allI impI)
  fix type pos assume o: "mh_opt mo type = Some pos"
  note F = mh_opt_found [OF assms o]
  show "off \<le> pos" "pos + 1 < len" "msg ! pos = type" "type \<le> IP6_MHOPT_MAX" "\<not> mh_opt_len_chk type (unat (msg ! (pos + 1)) + 2)"
    "pos \<in> set (opt_starts msg len off)" using F by simp_all
  fix type' pos' assume "mh_opt mo type' = Some pos' \<and> pos < pos'"
  then show "pos + 2 + unat (msg ! (pos + 1)) \<le> pos'"
    using opt_starts_disjoint [OF F(2) mh_opt_found(2) [OF assms]] F(3) by fastforce
next
  fix type assume "0 \<le> ret"
  from mh_opt_first [OF assms this] show "mh_opt mo type = (if type = IP6_MHOPT_PAD1 \<or> type = IP6_MHOPT_PADN \<or> IP6_MHOPT_MAX < type then None
          else find (\<lambda>p. msg ! p = type) (opt_starts msg len off))"
    by (auto simp: first_opt_def storable_def)
qed

theorem mh_opt_parse_sound_witness:
  "\<exists>mo. mh_opt_parse [59, 0, 0, 0, 0, 0, 0, 0, 0x17, 2, 0, 3, 1, 0, 0x19, 1, 7] 17 8 = Done (2, mo) \<and> mh_opt mo 0x17 = Some 8
     \<and> mh_opt mo 0x19 = Some 14 \<and> mh_opt mo 1 = None \<and> 8 \<in> set (opt_starts [59, 0, 0, 0, 0, 0, 0, 0, 0x17, 2, 0, 3, 1, 0, 0x19, 1, 7] 17 8)
     \<and> (8::nat) + 2 + 2 \<le> 14"
proof -
  let ?m = "[59, 0, 0, 0, 0, 0, 0, 0, 0x17, 2, 0, 3, 1, 0, 0x19, 1, 7] :: byte list"
  let ?mo = "\<lparr>opts = (\<lambda>_. 0)(23 := 8, 25 := 14), opts_end = (\<lambda>_. 0)\<rparr>"
  have p: "mh_opt_parse ?m 17 8 = Done (2, ?mo)"
    by (simp add: mh_opt_parse_def mh_opt_loop.simps mh_opt_step_def read_u8_def mh_opt_len_chk_def
        mh_options_zero_def Let_def)
  moreover have o: "mh_opt ?mo 0x17 = Some 8" "mh_opt ?mo 0x19 = Some 14" "mh_opt ?mo 1 = None" by (simp_all add: mh_opt_def)
  moreover have "8 \<in> set (opt_starts ?m 17 8)"
    using mh_opt_parse_sound [OF p, THEN conjunct1, rule_format, OF _ _ o(1)] by simp
  ultimately show ?thesis by (intro exI [of _ ?mo] conjI) simp_all
qed

text \<open>The body of an option is not compared with the bytes that are left: an option of a type without a fixed
  length whose length byte points behind the end of the message is stored like any other.\<close>

lemma truncated_option_stored:
  assumes "7 \<le> unat type" "unat type \<le> 27" "length body < unat l" "pre \<noteq> []"
  shows "\<exists>mo. mh_opt_parse (pre @ type # l # body) (length pre + 2 + length body) (length pre) = Done (1, mo)
    \<and> mh_opt mo type = Some (length pre) \<and> length pre + 2 + length body < length pre + 2 + unat l"
proof -
  have ne: "type \<noteq> 0" "type \<noteq> 1" "type \<noteq> 2" "type \<noteq> 3" "type \<noteq> 4" "type \<noteq> 5" "type \<noteq> 6" using assms(1) by auto
  have le: "type \<le> IP6_MHOPT_MAX" using assms(2) by (simp add: word_le_nat_alt)
  let ?mo = "mh_options_zero\<lparr>opts := (opts mh_options_zero)(unat type := length pre)\<rparr>"
  have step: "mh_opt_step (pre @ type # l # body) (length pre) (int (length body) + 2) False mh_options_zero = Done (Advance (unat l + 2) False ?mo True)"
    using ne le by (simp add: mh_opt_step_def read_u8_append read_u8_append1 mh_opt_len_chk_def mh_options_zero_def Let_def)
  have left: "int (length body) < uint l" using assms(3) by (simp flip: of_nat_less_iff [where ?'a = int])
  have "mh_opt_loop (pre @ type # l # body) (length pre) (int (length body) + 2) False mh_options_zero 0 = Done (1, ?mo)"
    using left by (subst mh_opt_loop.simps) (simp add: step, subst mh_opt_loop.simps, simp)
  moreover have "int (length pre + 2 + length body) - int (length pre) = int (length body) + 2" by simp
  ultimately have "mh_opt_parse (pre @ type # l # body) (length pre + 2 + length body) (length pre) = Done (1, ?mo)"
    by (simp only: mh_opt_parse_def)
  then show ?thesis using assms(3,4) by (intro exI [of _ ?mo]) (simp add: mh_opt_def)
qed

text \<open>A message that carries two options of the same Proxy Mobile IPv6 type makes the parser read
  behind the seven entries of \<open>mh_opts_dup_ok\<close>, although such types pass the test on
  \<open>IP6_MHOPT_MAX\<close>.\<close>

lemma duplicate_option_out_of_bounds:
  assumes "optv v" "optv w" "hd v = hd w" "pre \<noteq> []"
  shows "mh_opt_parse (pre @ v @ w @ post) (length (pre @ v @ w)) (length pre) = Fault OutOfBounds"
proof -
  let ?mo = "mh_options_zero\<lparr>opts := (opts mh_options_zero)(unat (hd v) := length pre)\<rparr>"
  have s1: "mh_opt_step (pre @ v @ w @ post) (length pre) (int (length v) + int (length w)) False mh_options_zero
      = Done (Advance (length v) False ?mo True)"
    using step_optv [OF assms(1), of mh_options_zero pre "w @ post" "int (length w)"]
    by (simp add: mh_options_zero_def)
  obtain t l body where w: "w = t # l # body"
    using assms(2) by (auto simp: optv_def neq_Nil_conv numeral_2_eq_2 Suc_le_length_iff)
  have t: "7 \<le> unat t" "unat t \<le> 27" using assms(2) by (auto simp: optv_def w)
  have ne: "t \<noteq> 0" "t \<noteq> 1" "t \<noteq> 2" "t \<noteq> 3" "t \<noteq> 4" "t \<noteq> 5" "t \<noteq> 6" using t(1) by auto
  have le: "t \<le> IP6_MHOPT_MAX" using t(2) by (simp add: word_le_nat_alt)
  have s2: "mh_opt_step (pre @ v @ w @ post) (length pre + length v) (int (length w)) False ?mo = Fault OutOfBounds"
    using ne le t assms(3,4) read_u8_append [of "pre @ v" t] read_u8_append1 [of "pre @ v" t l]
    by (simp add: mh_opt_step_def w mh_opt_len_chk_def Let_def mh_opts_dup_ok_def)
  have "2 \<le> length v" "2 \<le> length w" using assms(1,2) by (simp_all add: optv_def)
  then have pos: "0 < int (length v) + int (length w)" "0 < int (length w)" by linarith+
  have "mh_opt_loop (pre @ v @ w @ post) (length pre) (int (length v) + int (length w)) False mh_options_zero 0
      = mh_opt_loop (pre @ v @ w @ post) (length pre + length v) (int (length w)) False ?mo 1"
    using pos(1) by (subst mh_opt_loop.simps) (simp add: s1)
  also have "\<dots> = Fault OutOfBounds"
    using pos(2) by (subst mh_opt_loop.simps) (simp add: s2)
  finally show ?thesis by (simp add: mh_opt_parse_def)
qed

lemma duplicate_option_out_of_bounds_witness:
  "mh_opt_parse ([59, 0, 5, 0, 0, 0, 0, 0, 0, 0, 0, 0] @ [0x17, 2, 0, 3] @ [0x17, 2, 0, 4] @ []) 20 12 = Fault OutOfBounds"
proof -
  have "optv [0x17, 2, 0, 3]" "optv [0x17, 2, 0, 4]" by (simp_all add: optv_def)
  from duplicate_option_out_of_bounds [OF this, of "[59, 0, 5, 0, 0, 0, 0, 0, 0, 0, 0, 0]" "[]"]
  show ?thesis by (simp add: eval_nat_numeral)
qed

text \<open>A handler that is in no list can be registered; it is then the one its message type is
  dispatched to, and its removal ends and restores the table.\<close>

lemma mh_handler_reg_dereg:
  assumes "hnext hs h = None"
  shows "\<exists>hs'. mh_handler_reg type h hs = Done hs' \<and> mh_handler_get hs' type = Some h
    \<and> mh_handler_dereg type h hs' = Some hs"
  using assms
  by (simp add: mh_handler_reg_def mh_handler_get_def mh_handler_dereg_def Let_def dereg_walk.simps
      fun_upd_idem)

lemma mh_handler_reg_dereg_witness:
  "\<exists>hs'. mh_handler_reg 5 1 \<lparr>handlers = (\<lambda>_. None), hnext = (\<lambda>_. None)\<rparr> = Done hs'
     \<and> mh_handler_get hs' 5 = Some 1"
  using mh_handler_reg_dereg [of "\<lparr>handlers = (\<lambda>_. None), hnext = (\<lambda>_. None)\<rparr>" 1 5] by auto

end
