(* ===== verification/Tunnel_Ctl.thy ===== *)
theory Tunnel_Ctl
  imports Addr_Hash
begin

text \<open>
  \<open>src/src/tunnelctl.c\<close>: the reference-counted IPv6-in-IPv6 tunnels.  A \<open>struct mip6_tnl\<close> lives
  in a store indexed by pointers; the list \<open>tnl_list\<close> and the table \<open>tnl_hash\<close> both hold pointers
  to it, and the table reads the end points through the store.  The kernel (\<open>ioctl\<close> and
  \<open>if_nametoindex\<close>) is the parameter record \<open>kernel\<close>.
\<close>

section \<open>Model\<close>

record mip6_tnl =
  laddr :: in6_addr
  raddr :: in6_addr
  tlink :: int
  ifindex :: int
  users :: int

record tnl_state =
  tnl_store :: "nat \<Rightarrow> mip6_tnl"
  tnl_next :: nat
  tnl_list :: "nat list"
  tnl_hash :: "nat hash"

text \<open>\<open>k_addtunnel local remote link\<close> is the interface index of the new device when all of
  \<open>SIOCADDTUNNEL\<close>, the test of its flags, \<open>SIOCGIFFLAGS\<close>, \<open>SIOCSIFFLAGS\<close> and
  \<open>if_nametoindex\<close> succeed; \<open>k_mem\<close> tells whether \<open>malloc\<close> succeeds.\<close>

record kernel =
  k_mem :: bool
  k_addtunnel :: "in6_addr \<Rightarrow> in6_addr \<Rightarrow> int \<Rightarrow> int option"
  k_deltunnel :: "int \<Rightarrow> bool"
  k_chgtunnel :: "int \<Rightarrow> in6_addr \<Rightarrow> in6_addr \<Rightarrow> int \<Rightarrow> bool"

abbreviation (input) TNL_BUCKETS :: nat where "TNL_BUCKETS \<equiv> 32"

definition tnl_key :: "tnl_state \<Rightarrow> nat \<Rightarrow> in6_addr \<times> in6_addr" where
  "tnl_key s p = (laddr (tnl_store s p), raddr (tnl_store s p))"

definition tunnelctl_init :: tnl_state where
  "tunnelctl_init = \<lparr>tnl_store = (\<lambda>_. \<lparr>laddr = in6addr_any, raddr = in6addr_any, tlink = 0, ifindex = 0, users = 0\<rparr>),
     tnl_next = 1, tnl_list = [],
     tnl_hash = \<lparr>buckets = TNL_BUCKETS, hash_buckets = replicate TNL_BUCKETS [], hash_type = DOUBLE_ADDR\<rparr>\<rparr>"

fun find_tnl :: "(nat \<Rightarrow> mip6_tnl) \<Rightarrow> int \<Rightarrow> nat list \<Rightarrow> nat option" where
  "find_tnl st i [] = None"
| "find_tnl st i (p # ps) = (if ifindex (st p) = i then Some p else find_tnl st i ps)"

definition get_tnl :: "int \<Rightarrow> tnl_state \<Rightarrow> nat option" where
  "get_tnl i s = find_tnl (tnl_store s) i (tnl_list s)"

definition tunnel_getusers :: "int \<Rightarrow> tnl_state \<Rightarrow> int" where
  "tunnel_getusers tun_index s =
     (case get_tnl tun_index s of None \<Rightarrow> -1 | Some p \<Rightarrow> users (tnl_store s p))"

definition tnl_set :: "nat \<Rightarrow> mip6_tnl \<Rightarrow> tnl_state \<Rightarrow> tnl_state" where
  "tnl_set p t s = s\<lparr>tnl_store := (tnl_store s)(p := t)\<rparr>"

definition tunnel_del_ptr :: "kernel \<Rightarrow> nat \<Rightarrow> tnl_state \<Rightarrow> int \<times> tnl_state" where
  "tunnel_del_ptr k p s =
     (let t = tnl_store s p; s1 = tnl_set p (t\<lparr>users := users t - 1\<rparr>) s
      in if users t - 1 = 0
         then (if k_deltunnel k (ifindex t) then 0 else -1,
               s1\<lparr>tnl_list := remove1 p (tnl_list s1),
                  tnl_hash := hash_delete (tnl_key s1) (tnl_hash s1) (laddr t) (raddr t)\<rparr>)
         else (0, s1))"

text \<open>The result of the optional callback of \<open>tunnel_del\<close> is only logged.\<close>

definition tunnel_del :: "kernel \<Rightarrow> int \<Rightarrow> tnl_state \<Rightarrow> int \<times> tnl_state" where
  "tunnel_del k i s =
     (case get_tnl i s of None \<Rightarrow> (-1, s) | Some p \<Rightarrow> tunnel_del_ptr k p s)"

definition tunnel_add_new ::
  "kernel \<Rightarrow> in6_addr \<Rightarrow> in6_addr \<Rightarrow> int \<Rightarrow> tnl_state \<Rightarrow> nat option \<times> tnl_state" where
  "tunnel_add_new k local remote link s =
     (if \<not> k_mem k then (None, s)
      else case k_addtunnel k local remote link of
             None \<Rightarrow> (None, s)
           | Some idx \<Rightarrow>
               if idx = 0 then (None, s)
               else
                 let p = tnl_next s;
                     s1 = (tnl_set p \<lparr>laddr = local, raddr = remote, tlink = link, ifindex = idx, users = 1\<rparr> s)
                            \<lparr>tnl_next := p + 1\<rparr>;
                     (ret, h) = hash_add (k_mem k) (tnl_key s1) (tnl_hash s1) p
                 in if ret < 0 then (None, s)
                    else (Some p, s1\<lparr>tnl_hash := h, tnl_list := tnl_list s1 @ [p]\<rparr>))"

text \<open>\<open>ext_tunnel_ops\<close> is the optional callback, by its result on the old and new index.\<close>

definition tunnel_add ::
  "kernel \<Rightarrow> (int \<Rightarrow> int \<Rightarrow> int) option \<Rightarrow> in6_addr \<Rightarrow> in6_addr \<Rightarrow> int \<Rightarrow> tnl_state \<Rightarrow> int \<times> tnl_state" where
  "tunnel_add k ext_tunnel_ops local remote link s =
     (let (tnl, s1) =
        (case hash_get (tnl_key s) (tnl_hash s) local remote of
           Some p \<Rightarrow> (Some p, tnl_set p ((tnl_store s p)\<lparr>users := users (tnl_store s p) + 1\<rparr>) s)
         | None \<Rightarrow> tunnel_add_new k local remote link s)
      in case tnl of
           None \<Rightarrow> (-1, s1)
         | Some p \<Rightarrow>
             (case ext_tunnel_ops of
                Some ops \<Rightarrow>
                  if ops 0 (ifindex (tnl_store s1 p)) < 0 then (-1, snd (tunnel_del_ptr k p s1))
                  else (ifindex (tnl_store s1 p), s1)
              | None \<Rightarrow> (ifindex (tnl_store s1 p), s1)))"

text \<open>When \<open>hash_add\<close> fails here, the tunnel is freed while \<open>tnl_list\<close> still links it: the next
  walk over the list reads freed memory, which the model reports at once.\<close>

definition tunnel_mod_ptr ::
  "kernel \<Rightarrow> nat \<Rightarrow> in6_addr \<Rightarrow> in6_addr \<Rightarrow> int \<Rightarrow> tnl_state \<Rightarrow> (int \<times> tnl_state) outcome" where
  "tunnel_mod_ptr k p local remote link s =
     (let t = tnl_store s p in
      if \<not> k_chgtunnel k (ifindex t) local remote link then Done (-1, s)
      else
        let s1 = s\<lparr>tnl_hash := hash_delete (tnl_key s) (tnl_hash s) (laddr t) (raddr t)\<rparr>;
            s2 = tnl_set p (t\<lparr>laddr := local, raddr := remote, tlink := link\<rparr>) s1;
            (ret, h) = hash_add (k_mem k) (tnl_key s2) (tnl_hash s2) p
        in if ret < 0 then Fault UseAfterFree else Done (ifindex t, s2\<lparr>tnl_hash := h\<rparr>))"

definition tunnel_mod ::
  "kernel \<Rightarrow> (int \<Rightarrow> int \<Rightarrow> int) option \<Rightarrow> int \<Rightarrow> in6_addr \<Rightarrow> in6_addr \<Rightarrow> int \<Rightarrow> tnl_state
     \<Rightarrow> (int \<times> tnl_state) outcome" where
  "tunnel_mod k ext_tunnel_ops i local remote link s =
     (case get_tnl i s of
        None \<Rightarrow> Fault AssertFail
      | Some old \<Rightarrow>
          andThen
            (case hash_get (tnl_key s) (tnl_hash s) local remote of
               Some n \<Rightarrow>
                 Done (Some n, if n \<noteq> old then tnl_set n ((tnl_store s n)\<lparr>users := users (tnl_store s n) + 1\<rparr>) s else s)
             | None \<Rightarrow>
                 if users (tnl_store s old) = 1 then
                   andThen (tunnel_mod_ptr k old local remote link s) (\<lambda>(res, s').
                     if res < 0 then Done (tunnel_add_new k local remote link s') else Done (Some old, s'))
                 else Done (Some old, s))
            (\<lambda>(new, s1).
               case new of
                 None \<Rightarrow> Done (-1, s1)
               | Some n \<Rightarrow>
                   let fails = (case ext_tunnel_ops of None \<Rightarrow> False
                                | Some ops \<Rightarrow> ops (ifindex (tnl_store s1 old)) (ifindex (tnl_store s1 n)) < 0)
                   in if fails then Done (-1, if old \<noteq> n then snd (tunnel_del_ptr k n s1) else s1)
                      else let s2 = (if old \<noteq> n then snd (tunnel_del_ptr k old s1) else s1)
                           in Done (ifindex (tnl_store s2 n), s2)))"

text \<open>\<open>tnl_cleanup\<close> for every entry of the table, then the table itself.\<close>

definition tnl_cleanup :: "nat \<Rightarrow> tnl_state \<Rightarrow> int \<times> tnl_state" where
  "tnl_cleanup p s =
     (0, s\<lparr>tnl_list := remove1 p (tnl_list s),
           tnl_hash := hash_delete (tnl_key s) (tnl_hash s) (laddr (tnl_store s p)) (raddr (tnl_store s p))\<rparr>)"

definition tunnelctl_cleanup :: "tnl_state \<Rightarrow> tnl_state" where
  "tunnelctl_cleanup s = snd (hash_iterate (tnl_hash s) tnl_cleanup s)"

section \<open>Invariant\<close>

definition tnl_inv :: "tnl_state \<Rightarrow> bool" where
  "tnl_inv s \<longleftrightarrow> hash_wf (tnl_key s) (tnl_hash s)
     \<and> mset (table_elems (tnl_hash s)) = mset (tnl_list s) \<and> distinct (tnl_list s)
     \<and> (\<forall>p \<in> set (tnl_list s). p < tnl_next s \<and> 1 \<le> users (tnl_store s p))
     \<and> inj_on (\<lambda>p. ifindex (tnl_store s p)) (set (tnl_list s))"

text \<open>What the rest of the program sees: the end points and the number of users of a device.\<close>

definition tnl_abs :: "tnl_state \<Rightarrow> in6_addr \<times> in6_addr \<Rightarrow> (int \<times> int) option" where
  "tnl_abs s lr = map_option (\<lambda>p. (ifindex (tnl_store s p), users (tnl_store s p)))
     (hash_get (tnl_key s) (tnl_hash s) (fst lr) (snd lr))"

definition tnl_idx :: "tnl_state \<Rightarrow> int set" where
  "tnl_idx s = (\<lambda>p. ifindex (tnl_store s p)) ` set (tnl_list s)"

lemma tnl_inv_init: "tnl_inv tunnelctl_init" "tnl_abs tunnelctl_init = Map.empty" "tnl_idx tunnelctl_init = {}"
proof -
  have "dbl.cinv rd (tnl_hash tunnelctl_init)" for rd
    by (rule dbl.cinv_empty [of TNL_BUCKETS]) (simp_all add: tunnelctl_init_def)
  then show "tnl_inv tunnelctl_init"
    by (simp add: tnl_inv_def hash_wf_def) (simp add: tunnelctl_init_def table_elems_def)
  have "hash_calc (tnl_hash tunnelctl_init) a b < 32" for a b
    using addr_hash_less [of 32] by (simp add: hash_calc_def tunnelctl_init_def)
  then show "tnl_abs tunnelctl_init = Map.empty"
    by (auto simp: tnl_abs_def hash_get_def table_get_def fun_eq_iff tunnelctl_init_def)
  show "tnl_idx tunnelctl_init = {}" by (simp add: tnl_idx_def tunnelctl_init_def)
qed

lemma tnl_key_set [simp]:
  "laddr t = laddr (tnl_store s p) \<Longrightarrow> raddr t = raddr (tnl_store s p) \<Longrightarrow> tnl_key (tnl_set p t s) = tnl_key s"
  by (auto simp: tnl_key_def tnl_set_def fun_eq_iff)

lemma tnl_set_simps [simp]:
  "tnl_store (tnl_set p t s) = (tnl_store s)(p := t)" "tnl_list (tnl_set p t s) = tnl_list s"
  "tnl_hash (tnl_set p t s) = tnl_hash s" "tnl_next (tnl_set p t s) = tnl_next s"
  by (simp_all add: tnl_set_def)

lemma tnl_key_fields [simp]:
  "tnl_key (s\<lparr>tnl_list := l\<rparr>) = tnl_key s" "tnl_key (s\<lparr>tnl_hash := h\<rparr>) = tnl_key s"
  "tnl_key (s\<lparr>tnl_next := n\<rparr>) = tnl_key s"
  by (simp_all add: tnl_key_def fun_eq_iff)

lemma find_tnl_Some: "find_tnl st i ps = Some p \<Longrightarrow> p \<in> set ps \<and> ifindex (st p) = i"
  by (induction ps) (auto split: if_splits)

lemma find_tnl_None: "find_tnl st i ps = None \<longleftrightarrow> (\<forall>p \<in> set ps. ifindex (st p) \<noteq> i)"
  by (induction ps) auto

lemma get_tnl_iff:
  assumes "tnl_inv s"
  shows "get_tnl i s = Some p \<longleftrightarrow> p \<in> set (tnl_list s) \<and> ifindex (tnl_store s p) = i"
proof (cases "get_tnl i s")
  case None
  then have "\<forall>p \<in> set (tnl_list s). ifindex (tnl_store s p) \<noteq> i" by (simp add: get_tnl_def find_tnl_None)
  then show ?thesis using None by auto
next
  case (Some q)
  then have "q \<in> set (tnl_list s)" "ifindex (tnl_store s q) = i"
    using find_tnl_Some by (fastforce simp: get_tnl_def)+
  then show ?thesis using Some assms by (auto simp: tnl_inv_def dest: inj_onD)
qed

lemma tnl_get_iff:
  assumes "tnl_inv s"
  shows "hash_get (tnl_key s) (tnl_hash s) l r = Some p \<longleftrightarrow> p \<in> set (tnl_list s) \<and> tnl_key s p = (l, r)"
proof -
  have wf: "hash_type (tnl_hash s) = DOUBLE_ADDR" "dbl.cinv (tnl_key s) (tnl_hash s)"
    and el: "set (table_elems (tnl_hash s)) = set (tnl_list s)"
    using assms by (auto simp: tnl_inv_def hash_wf_def dest: mset_eq_setD)
  show ?thesis by (simp add: hash_double(1) [OF wf(1)] dbl.cget_Some_iff [OF wf(2)] el)
qed

lemma tnl_abs_iff:
  assumes "tnl_inv s"
  shows "tnl_abs s lr = Some (i, u) \<longleftrightarrow>
    (\<exists>p \<in> set (tnl_list s). tnl_key s p = lr \<and> ifindex (tnl_store s p) = i \<and> users (tnl_store s p) = u)"
  using tnl_get_iff [OF assms, of "fst lr" "snd lr"] by (auto simp: tnl_abs_def)

lemma tnl_abs_getusers:
  assumes "tnl_inv s" "tnl_abs s lr = Some (i, u)"
  shows "tunnel_getusers i s = u" "1 \<le> u" "i \<in> tnl_idx s"
proof -
  obtain p where p: "p \<in> set (tnl_list s)" "tnl_key s p = lr" "ifindex (tnl_store s p) = i" "users (tnl_store s p) = u"
    using assms tnl_abs_iff by blast
  then have "get_tnl i s = Some p" using get_tnl_iff [OF assms(1)] by blast
  then show "tunnel_getusers i s = u" "1 \<le> u" "i \<in> tnl_idx s"
    using p assms(1) by (auto simp: tunnel_getusers_def tnl_inv_def tnl_idx_def)
qed

subsection \<open>Changing a user count\<close>

lemma tnl_idx_abs:
  assumes "tnl_inv s" "i \<in> tnl_idx s"
  shows "\<exists>lr u. tnl_abs s lr = Some (i, u)"
proof -
  obtain p where "p \<in> set (tnl_list s)" "ifindex (tnl_store s p) = i" using assms(2) by (auto simp: tnl_idx_def)
  then have "tnl_abs s (tnl_key s p) = Some (i, users (tnl_store s p))" using tnl_abs_iff [OF assms(1)] by blast
  then show ?thesis by blast
qed

lemma set_users_inv:
  fixes p
  assumes "tnl_inv s" "1 \<le> u"
  defines "s' \<equiv> tnl_set p ((tnl_store s p)\<lparr>users := u\<rparr>) s"
  shows "tnl_inv s'" "tnl_idx s' = tnl_idx s"
    and "tnl_key s p = lr \<Longrightarrow> p \<in> set (tnl_list s) \<Longrightarrow> tnl_abs s' = (tnl_abs s)(lr \<mapsto> (ifindex (tnl_store s p), u))"
proof -
  have idx: "ifindex (tnl_store s' q) = ifindex (tnl_store s q)" for q by (simp add: s'_def)
  have key: "tnl_key s' = tnl_key s" by (simp add: s'_def)
  show inv': "tnl_inv s'"
    using assms(1,2) unfolding tnl_inv_def key idx by (auto simp: s'_def)
  show "tnl_idx s' = tnl_idx s" unfolding tnl_idx_def idx by (simp add: s'_def)
  assume p: "tnl_key s p = lr" "p \<in> set (tnl_list s)"
  have g: "hash_get (tnl_key s) (tnl_hash s) a b = Some p \<longleftrightarrow> (a, b) = lr" for a b
    using tnl_get_iff [OF assms(1)] p by auto
  show "tnl_abs s' = (tnl_abs s)(lr \<mapsto> (ifindex (tnl_store s p), u))"
  proof
    fix x
    show "tnl_abs s' x = ((tnl_abs s)(lr \<mapsto> (ifindex (tnl_store s p), u))) x"
      using g [of "fst x" "snd x"] unfolding tnl_abs_def key
      by (cases "hash_get (tnl_key s) (tnl_hash s) (fst x) (snd x)") (auto simp: s'_def)
  qed
qed

subsection \<open>Adding and removing a tunnel\<close>

lemma add_new_Some:
  assumes inv: "tnl_inv s" and none: "hash_get (tnl_key s) (tnl_hash s) l r = None"
    and k: "k_mem k" "k_addtunnel k l r link = Some i" "i \<noteq> 0" "i \<notin> tnl_idx s"
  shows "\<exists>s'. tunnel_add_new k l r link s = (Some (tnl_next s), s') \<and> tnl_inv s'
    \<and> ifindex (tnl_store s' (tnl_next s)) = i
    \<and> tnl_abs s' = (tnl_abs s)((l, r) \<mapsto> (i, 1)) \<and> tnl_idx s' = insert i (tnl_idx s)"
proof -
  define p where "p = tnl_next s"
  define t where "t = \<lparr>laddr = l, raddr = r, tlink = link, ifindex = i, users = 1\<rparr>"
  define s1 where "s1 = (tnl_set p t s)\<lparr>tnl_next := p + 1\<rparr>"
  have fresh: "p \<notin> set (tnl_list s)" using inv by (auto simp: tnl_inv_def p_def)
  have wf: "hash_type (tnl_hash s) = DOUBLE_ADDR" "dbl.cinv (tnl_key s) (tnl_hash s)"
    and el: "set (table_elems (tnl_hash s)) = set (tnl_list s)"
    and ms: "mset (table_elems (tnl_hash s)) = mset (tnl_list s)"
    using inv by (auto simp: tnl_inv_def hash_wf_def dest: mset_eq_setD)
  have agree: "tnl_key s1 e = tnl_key s e" if "e \<in> set (table_elems (tnl_hash s))" for e
    using that fresh el by (auto simp: tnl_key_def s1_def)
  have wf1: "dbl.cinv (tnl_key s1) (tnl_hash s)" using dbl.cinv_cong [OF wf(2)] agree by blast
  have get1: "dbl.cget (tnl_key s1) (tnl_hash s) k = dbl.cget (tnl_key s) (tnl_hash s) k" for k
    using dbl.cget_cong [OF wf(2)] agree by blast
  have kp: "tnl_key s1 p = (l, r)" by (simp add: tnl_key_def s1_def t_def)
  have "dbl.cget (tnl_key s1) (tnl_hash s) (tnl_key s1 p) = None"
    using none by (simp add: kp get1 hash_double(1) [OF wf(1)])
  from dbl.table.add_fresh [OF wf1 this] obtain h where
    h: "dbl.cadd (tnl_key s1) (tnl_hash s) p = Some h" "dbl.cinv (tnl_key s1) h"
      "mset (table_elems h) = add_mset p (mset (table_elems (tnl_hash s)))"
      "dbl.cget (tnl_key s1) h = (dbl.cget (tnl_key s1) (tnl_hash s))(tnl_key s1 p \<mapsto> p)"
    by blast
  define s2 where "s2 = s1\<lparr>tnl_hash := h, tnl_list := tnl_list s1 @ [p]\<rparr>"
  have "hash_add True (tnl_key s1) (tnl_hash s) p = (0, h)" by (simp add: hash_double(3) [OF wf(1)] h(1))
  then have add: "tunnel_add_new k l r link s = (Some p, s2)"
    using k by (simp add: tunnel_add_new_def Let_def s2_def s1_def t_def p_def)
  have ht: "hash_type h = DOUBLE_ADDR"
    using hash_add_type [of True "tnl_key s1" "tnl_hash s" p] wf(1) \<open>hash_add True _ _ _ = _\<close> by simp
  have key2: "tnl_key s2 = tnl_key s1" by (simp add: s2_def)
  have store: "tnl_store s2 = (tnl_store s)(p := t)" by (simp add: s2_def s1_def)
  have list: "tnl_list s2 = tnl_list s @ [p]" by (simp add: s2_def s1_def)
  have inv2: "tnl_inv s2"
    unfolding tnl_inv_def
  proof (intro conjI)
    show "hash_wf (tnl_key s2) (tnl_hash s2)" using h(2) ht by (simp add: hash_wf_def key2) (simp add: s2_def)
    show "mset (table_elems (tnl_hash s2)) = mset (tnl_list s2)" using h(3) ms list by (simp add: s2_def)
    show "distinct (tnl_list s2)" using inv fresh by (simp add: list tnl_inv_def)
    show "\<forall>q \<in> set (tnl_list s2). q < tnl_next s2 \<and> 1 \<le> users (tnl_store s2 q)"
      using inv fresh by (auto simp: list store t_def tnl_inv_def s2_def s1_def p_def)
    show "inj_on (\<lambda>q. ifindex (tnl_store s2 q)) (set (tnl_list s2))"
      using inv fresh k(4) by (auto simp: list store t_def tnl_inv_def tnl_idx_def inj_on_def)
  qed
  have "tnl_abs s2 x = ((tnl_abs s)((l, r) \<mapsto> (i, 1))) x" for x
  proof -
    have "tnl_abs s2 x = map_option (\<lambda>q. (ifindex (tnl_store s2 q), users (tnl_store s2 q))) (dbl.cget (tnl_key s1) h x)"
      using ht by (simp add: tnl_abs_def key2 hash_double(1) s2_def)
    moreover have "p \<noteq> q" if "dbl.cget (tnl_key s) (tnl_hash s) x = Some q" for q
      using that dbl.cget_Some_iff [OF wf(2)] el fresh by auto
    ultimately show ?thesis
      by (cases "dbl.cget (tnl_key s) (tnl_hash s) x")
        (auto simp: h(4) kp get1 store t_def tnl_abs_def hash_double(1) [OF wf(1)])
  qed
  moreover have "tnl_idx s2 = insert i (tnl_idx s)"
    using fresh by (auto simp: tnl_idx_def list store t_def)
  ultimately show ?thesis using add inv2 by (auto simp: p_def store t_def)
qed

lemma del_last:
  assumes inv: "tnl_inv s" and p: "p \<in> set (tnl_list s)" "users (tnl_store s p) = 1"
  shows "tnl_inv (snd (tunnel_del_ptr k p s))"
    "tnl_abs (snd (tunnel_del_ptr k p s)) = (tnl_abs s)(tnl_key s p := None)"
    "tnl_idx (snd (tunnel_del_ptr k p s)) = tnl_idx s - {ifindex (tnl_store s p)}"
proof -
  let ?t = "(tnl_store s p)\<lparr>users := 0\<rparr>"
  define s1 where "s1 = tnl_set p ?t s"
  define h where "h = hash_delete (tnl_key s) (tnl_hash s) (laddr (tnl_store s p)) (raddr (tnl_store s p))"
  define s2 where "s2 = s1\<lparr>tnl_list := remove1 p (tnl_list s), tnl_hash := h\<rparr>"
  have wf: "hash_type (tnl_hash s) = DOUBLE_ADDR" "dbl.cinv (tnl_key s) (tnl_hash s)"
    and ms: "mset (table_elems (tnl_hash s)) = mset (tnl_list s)" and dist: "distinct (tnl_list s)"
    using inv by (auto simp: tnl_inv_def hash_wf_def)
  have key1: "tnl_key s1 = tnl_key s" by (simp add: s1_def)
  have key2: "tnl_key s2 = tnl_key s" by (simp add: s2_def key1)
  have s2: "snd (tunnel_del_ptr k p s) = s2"
    using p(2) key1 by (simp add: tunnel_del_ptr_def Let_def s2_def s1_def h_def)
  have hd: "h = dbl.cdel (tnl_key s) (tnl_hash s) (tnl_key s p)"
    by (simp add: h_def hash_double(2) [OF wf(1)] tnl_key_def)
  have ht: "hash_type h = DOUBLE_ADDR" using wf(1) by (simp add: h_def)
  have gp: "dbl.cget (tnl_key s) (tnl_hash s) (tnl_key s p) = Some p"
    using p(1) dbl.cget_Some_iff [OF wf(2), of "tnl_key s p" p] mset_eq_setD [OF ms] by simp
  have idx: "ifindex (tnl_store s2 q) = ifindex (tnl_store s q)" for q by (simp add: s2_def s1_def)
  have us: "q \<noteq> p \<Longrightarrow> users (tnl_store s2 q) = users (tnl_store s q)" for q by (simp add: s2_def s1_def)
  have list: "tnl_list s2 = remove1 p (tnl_list s)" "tnl_next s2 = tnl_next s" by (simp_all add: s2_def s1_def)
  have "tnl_inv s2"
    unfolding tnl_inv_def
  proof (intro conjI)
    show "hash_wf (tnl_key s2) (tnl_hash s2)"
      using ht dbl.table.invar_del [OF wf(2)] by (simp add: hash_wf_def key2 hd) (simp add: s2_def hd)
    show "mset (table_elems (tnl_hash s2)) = mset (tnl_list s2)"
      using dbl.table.elems_del [OF wf(2), of "tnl_key s p"] gp ms by (simp add: s2_def hd)
    show "distinct (tnl_list s2)" using dist by (simp add: list)
    show "\<forall>q \<in> set (tnl_list s2). q < tnl_next s2 \<and> 1 \<le> users (tnl_store s2 q)"
      using inv dist by (auto simp: list us tnl_inv_def)
    show "inj_on (\<lambda>q. ifindex (tnl_store s2 q)) (set (tnl_list s2))"
      unfolding idx list using inv by (auto simp: tnl_inv_def intro: inj_on_subset)
  qed
  then show "tnl_inv (snd (tunnel_del_ptr k p s))" by (simp add: s2)
  have "tnl_abs s2 x = ((tnl_abs s)(tnl_key s p := None)) x" for x
  proof -
    have "tnl_abs s2 x = map_option (\<lambda>q. (ifindex (tnl_store s2 q), users (tnl_store s2 q)))
        (((dbl.cget (tnl_key s) (tnl_hash s))(tnl_key s p := None)) x)"
      using ht dbl.table.get_del [OF wf(2), of "tnl_key s p"]
      by (simp add: tnl_abs_def key2 s2_def hash_double(1) hd key1)
    moreover have "q \<noteq> p" if "dbl.cget (tnl_key s) (tnl_hash s) x = Some q" "x \<noteq> tnl_key s p" for q
      using that dbl.cget_Some_iff [OF wf(2)] by auto
    ultimately show ?thesis
      by (cases "dbl.cget (tnl_key s) (tnl_hash s) x") (auto simp: tnl_abs_def hash_double(1) [OF wf(1)] idx us)
  qed
  then show "tnl_abs (snd (tunnel_del_ptr k p s)) = (tnl_abs s)(tnl_key s p := None)" by (auto simp: s2)
  show "tnl_idx (snd (tunnel_del_ptr k p s)) = tnl_idx s - {ifindex (tnl_store s p)}"
    using inv p(1) dist unfolding s2 tnl_idx_def idx list by (auto simp: tnl_inv_def dest: inj_onD)
qed

text \<open>A further user of a known tunnel, and the first user of a new one.\<close>

lemma add_user:
  assumes "tnl_inv s" "tnl_abs s (l, r) = Some (i, u)"
  shows "\<exists>s'. tunnel_add k None l r link s = (i, s') \<and> tnl_inv s' \<and> tnl_abs s' = (tnl_abs s)((l, r) \<mapsto> (i, u + 1))"
proof -
  obtain p where g: "hash_get (tnl_key s) (tnl_hash s) l r = Some p" and e: "ifindex (tnl_store s p) = i" "users (tnl_store s p) = u"
    using assms(2) by (auto simp: tnl_abs_def)
  then have p: "p \<in> set (tnl_list s)" "tnl_key s p = (l, r)" using tnl_get_iff [OF assms(1)] by auto
  have "1 \<le> u + 1" using tnl_abs_getusers(2) [OF assms] by simp
  note S = set_users_inv(1,3) [OF assms(1) this, of p]
  show ?thesis using g e S(1) S(2) [OF p(2,1)] by (simp add: tunnel_add_def)
qed

lemma add_first:
  assumes "tnl_inv s" "tnl_abs s (l, r) = None" "k_mem k" "k_addtunnel k l r link = Some i" "i \<noteq> 0" "i \<notin> tnl_idx s"
  shows "\<exists>s'. tunnel_add k None l r link s = (i, s') \<and> tnl_inv s' \<and> tnl_abs s' = (tnl_abs s)((l, r) \<mapsto> (i, 1))"
proof -
  have none: "hash_get (tnl_key s) (tnl_hash s) l r = None" using assms(2) by (simp add: tnl_abs_def)
  from add_new_Some [OF assms(1) none assms(3-6)] show ?thesis using none by (auto simp: tunnel_add_def Let_def)
qed

text \<open>A kernel that gives the device 7 to every new tunnel, and answers the removal with \<open>ok\<close>.\<close>

definition kernel_seven :: "bool \<Rightarrow> kernel" where
  "kernel_seven ok = \<lparr>k_mem = True, k_addtunnel = \<lambda>_ _ _. Some 7, k_deltunnel = \<lambda>_. ok, k_chgtunnel = \<lambda>_ _ _ _. True\<rparr>"

lemma seven_example:
  obtains s1 s2 where "tunnel_add (kernel_seven True) None in6addr_any in6addr_any 0 tunnelctl_init = (7, s1)"
    "tunnel_add (kernel_seven True) None in6addr_any in6addr_any 0 s1 = (7, s2)" "tnl_inv s1" "tnl_inv s2"
    "tnl_abs s1 = [(in6addr_any, in6addr_any) \<mapsto> (7, 1)]" "tnl_abs s2 = [(in6addr_any, in6addr_any) \<mapsto> (7, 2)]"
proof -
  from add_first [OF tnl_inv_init(1), of in6addr_any in6addr_any "kernel_seven True" 0 7] obtain s1 where
    s1: "tunnel_add (kernel_seven True) None in6addr_any in6addr_any 0 tunnelctl_init = (7, s1)" "tnl_inv s1"
      "tnl_abs s1 = [(in6addr_any, in6addr_any) \<mapsto> (7, 1)]"
    by (auto simp: kernel_seven_def tnl_inv_init)
  from add_user [OF s1(2), of in6addr_any in6addr_any 7 1] s1 show ?thesis by (auto intro: that)
qed

section \<open>Properties\<close>

text \<open>C36: adding a tunnel refines the reference-counting specification: an existing tunnel gains one
  user and keeps its device, a new one is created with one user on the device the kernel gave,
  and a failure of the kernel or of the allocation changes nothing.\<close>

theorem tunnel_add_refines:
  assumes "tnl_inv s" "\<And>i. k_addtunnel k l r link = Some i \<Longrightarrow> i \<notin> tnl_idx s"
  shows "case tunnel_add k None l r link s of (res, s') \<Rightarrow> tnl_inv s' \<and>
    (case tnl_abs s (l, r) of
       Some (i, u) \<Rightarrow> res = i \<and> tnl_abs s' = (tnl_abs s)((l, r) \<mapsto> (i, u + 1))
     | None \<Rightarrow>
         (case k_addtunnel k l r link of
            Some i \<Rightarrow> if k_mem k \<and> i \<noteq> 0 then res = i \<and> tnl_abs s' = (tnl_abs s)((l, r) \<mapsto> (i, 1))
                      else res = -1 \<and> s' = s
          | None \<Rightarrow> res = -1 \<and> s' = s))"
proof (cases "tnl_abs s (l, r)")
  case (Some iu)
  then show ?thesis using add_user [OF assms(1), of l r "fst iu" "snd iu" k link] by (cases iu) auto
next
  case None
  show ?thesis
  proof (cases "k_mem k \<and> (\<exists>i. k_addtunnel k l r link = Some i \<and> i \<noteq> 0)")
    case True
    then show ?thesis using add_first [OF assms(1) None _ _ _ assms(2)] None by fastforce
  next
    case False
    then have "tunnel_add_new k l r link s = (None, s)"
      by (auto simp: tunnel_add_new_def split: option.splits)
    moreover have "hash_get (tnl_key s) (tnl_hash s) l r = None" using None by (simp add: tnl_abs_def)
    ultimately show ?thesis using False assms(1) by (auto simp: tunnel_add_def None split: option.splits)
  qed
qed

theorem tunnel_add_refines_witness:
  "fst (tunnel_add (kernel_seven True) None in6addr_any in6addr_any 0 tunnelctl_init) = 7"
proof -
  have "\<And>i. k_addtunnel (kernel_seven True) in6addr_any in6addr_any 0 = Some i \<Longrightarrow> i \<notin> tnl_idx tunnelctl_init"
    by (simp add: tnl_inv_init)
  from tunnel_add_refines [of tunnelctl_init "kernel_seven True" in6addr_any in6addr_any 0, OF tnl_inv_init(1) this]
  show ?thesis by (auto simp: kernel_seven_def tnl_inv_init(2) split: prod.splits)
qed

text \<open>C37: deleting a tunnel takes one user away; with the last user the tunnel is removed from the tables
  and the kernel is asked to remove the device, and the result is the kernel's answer.  For a tunnel
  that keeps users the result is success and the kernel is not asked; an unknown device index is
  refused and changes nothing.\<close>

theorem tunnel_del_refines:
  assumes "tnl_inv s"
  shows "case tunnel_del k i s of (res, s') \<Rightarrow> tnl_inv s' \<and>
    (if i \<in> tnl_idx s
     then \<exists>lr u. tnl_abs s lr = Some (i, u) \<and> tunnel_getusers i s = u
        \<and> tnl_abs s' = (tnl_abs s)(lr := (if u = 1 then None else Some (i, u - 1)))
        \<and> res = (if u = 1 \<and> \<not> k_deltunnel k i then -1 else 0)
     else res = -1 \<and> s' = s)"
proof (cases "get_tnl i s")
  case None
  then have "i \<notin> tnl_idx s" by (auto simp: get_tnl_def find_tnl_None tnl_idx_def)
  then show ?thesis using None assms by (simp add: tunnel_del_def)
next
  case (Some p)
  then have p: "p \<in> set (tnl_list s)" "ifindex (tnl_store s p) = i" using get_tnl_iff [OF assms] by auto
  let ?u = "users (tnl_store s p)" and ?lr = "tnl_key s p"
  have abs: "tnl_abs s ?lr = Some (i, ?u)" using tnl_abs_iff [OF assms] p by blast
  note g = tnl_abs_getusers [OF assms abs]
  have r: "fst (tunnel_del k i s) = (if ?u = 1 \<and> \<not> k_deltunnel k i then -1 else 0)"
    using Some p(2) by (simp add: tunnel_del_def tunnel_del_ptr_def Let_def)
  have "tnl_inv (snd (tunnel_del k i s))
    \<and> tnl_abs (snd (tunnel_del k i s)) = (tnl_abs s)(?lr := (if ?u = 1 then None else Some (i, ?u - 1)))"
  proof (cases "?u = 1")
    case True
    then show ?thesis using del_last [OF assms p(1), of k] Some by (simp add: tunnel_del_def)
  next
    case False
    then have "1 \<le> ?u - 1" using g(2) by simp
    from set_users_inv(1,3) [OF assms this, of p] show ?thesis
      using False p Some by (simp add: tunnel_del_def tunnel_del_ptr_def Let_def)
  qed
  then have "\<exists>lr u. tnl_abs s lr = Some (i, u) \<and> tunnel_getusers i s = u
      \<and> tnl_abs (snd (tunnel_del k i s)) = (tnl_abs s)(lr := (if u = 1 then None else Some (i, u - 1)))
      \<and> fst (tunnel_del k i s) = (if u = 1 \<and> \<not> k_deltunnel k i then -1 else 0)"
    "tnl_inv (snd (tunnel_del k i s))"
    using g abs r by blast+
  then show ?thesis using g(3) by (cases "tunnel_del k i s") simp
qed

theorem tunnel_del_refines_witness:
  "\<exists>s1 s2. snd (tunnel_add (kernel_seven True) None in6addr_any in6addr_any 0 tunnelctl_init) = s1
    \<and> snd (tunnel_add (kernel_seven True) None in6addr_any in6addr_any 0 s1) = s2
    \<and> fst (tunnel_del (kernel_seven True) 7 s2) = 0 \<and> tnl_abs (snd (tunnel_del (kernel_seven True) 7 s2)) = [(in6addr_any, in6addr_any) \<mapsto> (7, 1)]
    \<and> fst (tunnel_del (kernel_seven True) 7 s1) = 0 \<and> tnl_abs (snd (tunnel_del (kernel_seven True) 7 s1)) = Map.empty
    \<and> fst (tunnel_del (kernel_seven False) 7 s1) = -1 \<and> tnl_abs (snd (tunnel_del (kernel_seven False) 7 s1)) = Map.empty
    \<and> tunnel_del (kernel_seven True) 3 s1 = (-1, s1)"
proof -
  obtain s1 s2 where S: "tunnel_add (kernel_seven True) None in6addr_any in6addr_any 0 tunnelctl_init = (7, s1)"
    "tunnel_add (kernel_seven True) None in6addr_any in6addr_any 0 s1 = (7, s2)" "tnl_inv s1" "tnl_inv s2"
    "tnl_abs s1 = [(in6addr_any, in6addr_any) \<mapsto> (7, 1)]" "tnl_abs s2 = [(in6addr_any, in6addr_any) \<mapsto> (7, 2)]" by (rule seven_example)
  have i: "7 \<in> tnl_idx s1" "7 \<in> tnl_idx s2" "3 \<notin> tnl_idx s1"
    using tnl_abs_getusers(3) [OF S(3), of "(in6addr_any, in6addr_any)"] tnl_abs_getusers(3) [OF S(4), of "(in6addr_any, in6addr_any)"]
      tnl_idx_abs [OF S(3), of 3] S(5,6) by (auto split: if_splits)
  note D1 = tunnel_del_refines [OF S(3)] and D2 = tunnel_del_refines [OF S(4)]
  have "fst (tunnel_del (kernel_seven True) 7 s2) = 0 \<and> tnl_abs (snd (tunnel_del (kernel_seven True) 7 s2)) = [(in6addr_any, in6addr_any) \<mapsto> (7, 1)]"
    using D2 [of 7 "kernel_seven True"] i S(6) by (auto split: prod.splits if_splits)
  moreover have "fst (tunnel_del (kernel_seven ok) 7 s1) = (if ok then 0 else -1) \<and> tnl_abs (snd (tunnel_del (kernel_seven ok) 7 s1)) = Map.empty" for ok
    using D1 [of 7 "kernel_seven ok"] i S(5) by (auto simp: kernel_seven_def split: prod.splits if_splits)
  moreover have "tunnel_del (kernel_seven True) 3 s1 = (-1, s1)" using D1 [of 3 "kernel_seven True"] i by (auto split: prod.splits)
  ultimately show ?thesis using S(1,2) by simp
qed

text \<open>Changing the end points of a tunnel that has more than one user, to end points no tunnel
  has, reports success and returns the same device without changing anything.\<close>

lemma tunnel_mod_shared_ignored:
  assumes "get_tnl i s = Some p" "users (tnl_store s p) \<noteq> 1"
    and "hash_get (tnl_key s) (tnl_hash s) l r = None"
  shows "tunnel_mod k None i l r link s = Done (i, s)"
  using assms find_tnl_Some [of "tnl_store s" i "tnl_list s" p]
  by (simp add: tunnel_mod_def get_tnl_def)

lemma tunnel_mod_shared_ignored_witness:
  "\<exists>s. tunnel_mod \<lparr>k_mem = True, k_addtunnel = \<lambda>_ _ _. None, k_deltunnel = \<lambda>_. True, k_chgtunnel = \<lambda>_ _ _ _. True\<rparr>
     None 5 (In6 1 0 0 0 0 0 0 0 0 0 0 0 0 0 0 0) in6addr_any 0 s = Done (5, s)"
proof -
  let ?s = "\<lparr>tnl_store = (\<lambda>_. \<lparr>laddr = in6addr_any, raddr = in6addr_any, tlink = 0, ifindex = 5, users = 2\<rparr>),
     tnl_next = 1, tnl_list = [0],
     tnl_hash = \<lparr>buckets = 1, hash_buckets = [[0]], hash_type = DOUBLE_ADDR\<rparr>\<rparr>"
  have "get_tnl 5 ?s = Some 0" "users (tnl_store ?s 0) \<noteq> 1" by (simp_all add: get_tnl_def)
  moreover have "hash_get (tnl_key ?s) (tnl_hash ?s) (In6 1 0 0 0 0 0 0 0 0 0 0 0 0 0 0 0) in6addr_any = None"
    using addr_hash_less(1) [of "Suc 0"]
    by (simp add: hash_get_def table_get_def hash_calc_def hash_match_def match2_def tnl_key_def in6addr_any_def)
  ultimately have "tunnel_mod \<lparr>k_mem = True, k_addtunnel = \<lambda>_ _ _. None, k_deltunnel = \<lambda>_. True, k_chgtunnel = \<lambda>_ _ _ _. True\<rparr>
      None 5 (In6 1 0 0 0 0 0 0 0 0 0 0 0 0 0 0 0) in6addr_any 0 ?s = Done (5, ?s)"
    by (rule tunnel_mod_shared_ignored)
  then show ?thesis by blast
qed

end
