(* ===== verification/Pmip_Types.thy ===== *)
theory Pmip_Types
  imports Pmip_Hash Mobility_Header Addr_Conv
begin

text \<open>
  The data of the daemon: \<open>msg_info_t\<close> (\<open>src/src/pmip/pmip_types.h\<close>), \<open>pmip_entry_t\<close>
  (\<open>src/src/pmip/pmip_cache.h\<close>), the events and option types of
  \<open>src/src/pmip/pmip_consts.h\<close> and the part of \<open>struct mip6_config\<close> (\<open>src/src/conf.h\<close>) that
  the daemon reads.  The pair \<open>addrs\<close> of \<open>msg_info_t\<close> points to \<open>src\<close> and \<open>dst\<close> of the same
  structure and is left out; so are the lock, the timer element and the clean-up pointer of an
  entry, which the state of the daemon keeps (the clean-up pointer is null in every entry).
\<close>

section \<open>Constants\<close>

abbreviation (input) hasDEREG :: nat where "hasDEREG \<equiv> 0x50"
abbreviation (input) hasWLCCP :: nat where "hasWLCCP \<equiv> 0x40"
abbreviation (input) hasODTONELinkEvent :: nat where "hasODTONELinkEvent \<equiv> 0x41"
abbreviation (input) hasRS :: nat where "hasRS \<equiv> 0x30"
abbreviation (input) hasNA :: nat where "hasNA \<equiv> 0x20"
abbreviation (input) hasPBU :: nat where "hasPBU \<equiv> 8"
abbreviation (input) hasPBA :: nat where "hasPBA \<equiv> 4"

abbreviation (input) BCE_NO_ENTRY :: int where "BCE_NO_ENTRY \<equiv> -1"
abbreviation (input) BCE_PMIP :: int where "BCE_PMIP \<equiv> 5"
abbreviation (input) BCE_TEMP :: int where "BCE_TEMP \<equiv> 6"

abbreviation (input) IP6_MHOPT_MOBILE_NODE_IDENTIFIER :: byte where "IP6_MHOPT_MOBILE_NODE_IDENTIFIER \<equiv> 0x08"
abbreviation (input) IP6_MHOPT_DST_MN_ADDR :: byte where "IP6_MHOPT_DST_MN_ADDR \<equiv> 0x0B"
abbreviation (input) IP6_MHOPT_SERV_MAG_ADDR :: byte where "IP6_MHOPT_SERV_MAG_ADDR \<equiv> 0x0C"
abbreviation (input) IP6_MHOPT_SERV_LMA_ADDR :: byte where "IP6_MHOPT_SERV_LMA_ADDR \<equiv> 0x0D"
abbreviation (input) IP6_MHOPT_SRC_MN_ADDR :: byte where "IP6_MHOPT_SRC_MN_ADDR \<equiv> 0x0E"
abbreviation (input) IP6_MHOPT_SRC_MAG_ADDR :: byte where "IP6_MHOPT_SRC_MAG_ADDR \<equiv> 0x0F"
abbreviation (input) IP6_MHOPT_HOME_NETWORK_PREFIX :: byte where "IP6_MHOPT_HOME_NETWORK_PREFIX \<equiv> 0x16"
abbreviation (input) IP6_MHOPT_HANDOFF_INDICATOR :: byte where "IP6_MHOPT_HANDOFF_INDICATOR \<equiv> 0x17"
abbreviation (input) IP6_MHOPT_ACCESS_TECHNOLOGY_TYPE :: byte where "IP6_MHOPT_ACCESS_TECHNOLOGY_TYPE \<equiv> 0x18"
abbreviation (input) IP6_MHOPT_MOBILE_NODE_LINK_LAYER_IDENTIFIER :: byte
  where "IP6_MHOPT_MOBILE_NODE_LINK_LAYER_IDENTIFIER \<equiv> 0x19"
abbreviation (input) IP6_MHOPT_LINK_LOCAL_ADDRESS :: byte where "IP6_MHOPT_LINK_LOCAL_ADDRESS \<equiv> 0x1A"
abbreviation (input) IP6_MHOPT_TIME_STAMP :: byte where "IP6_MHOPT_TIME_STAMP \<equiv> 0x1B"

abbreviation (input) IP6_MH_TYPE_BU :: nat where "IP6_MH_TYPE_BU \<equiv> 5"
abbreviation (input) IP6_MH_TYPE_BACK :: nat where "IP6_MH_TYPE_BACK \<equiv> 6"
abbreviation (input) IP6_MH_BU_ACK :: u16 where "IP6_MH_BU_ACK \<equiv> 0x0080"
abbreviation (input) IP6_MH_BU_PR :: u16 where "IP6_MH_BU_PR \<equiv> 0x0002"

section \<open>Structures\<close>

record ip6ts =
  ts_first :: u32
  ts_second :: u32

record msg_info =
  i_src :: in6_addr
  i_dst :: in6_addr
  i_iif :: int
  i_msg_event :: nat
  i_mn_iid :: in6_addr
  i_mn_nai :: ip6mn_nai
  i_mn_addr :: in6_addr
  i_mn_prefix :: in6_addr
  i_mn_serv_mag_addr :: in6_addr
  i_mn_serv_lma_addr :: in6_addr
  i_mn_link_local_addr :: in6_addr
  i_addtime :: timespec
  i_lifetime :: timespec
  i_seqno :: u16
  i_PBU_flags :: u16
  i_PBA_flags :: u8
  i_timestamp :: ip6ts
  i_src_mag_addr :: in6_addr
  i_src_mn_addr :: in6_addr
  i_na_target :: in6_addr
  i_ns_target :: in6_addr
  i_is_dad :: int
  i_hoplimit :: int

definition ip6ts_zero :: ip6ts where
  "ip6ts_zero = \<lparr>ts_first = 0, ts_second = 0\<rparr>"

text \<open>\<open>bzero(&info, sizeof(info))\<close>.\<close>

definition msg_info_zero :: msg_info where
  "msg_info_zero = \<lparr>i_src = in6addr_any, i_dst = in6addr_any, i_iif = 0, i_msg_event = 0,
     i_mn_iid = in6addr_any, i_mn_nai = nai_zero, i_mn_addr = in6addr_any, i_mn_prefix = in6addr_any,
     i_mn_serv_mag_addr = in6addr_any, i_mn_serv_lma_addr = in6addr_any,
     i_mn_link_local_addr = in6addr_any, i_addtime = tszero, i_lifetime = tszero, i_seqno = 0,
     i_PBU_flags = 0, i_PBA_flags = 0, i_timestamp = ip6ts_zero, i_src_mag_addr = in6addr_any,
     i_src_mn_addr = in6addr_any, i_na_target = in6addr_any, i_ns_target = in6addr_any,
     i_is_dad = 0, i_hoplimit = 0\<rparr>"

record pmip_entry =
  e_BID :: int
  e_mn_nai :: ip6mn_nai
  e_mn_prefix :: in6_addr
  e_our_addr :: in6_addr
  e_mn_suffix :: in6_addr
  e_mn_hw_address :: in6_addr
  e_mn_addr :: in6_addr
  e_mn_serv_mag_addr :: in6_addr
  e_mn_serv_lma_addr :: in6_addr
  e_mn_link_local_addr :: in6_addr
  e_add_time :: timespec
  e_lifetime :: timespec
  e_seqno_in :: u16
  e_seqno_out :: u16
  e_PBU_flags :: u16
  e_PBA_flags :: u8
  e_type :: int
  e_unreach :: int
  e_tunnel :: int
  e_link :: int
  e_mh_vec :: "iovec list"
  e_status :: u8
  e_timestamp :: ip6ts
  e_msg_event :: nat
  e_br_lastsent :: timespec
  e_br_count :: int
  e_n_rets_counter :: int

definition pmip_entry_zero :: pmip_entry where
  "pmip_entry_zero = \<lparr>e_BID = 0, e_mn_nai = nai_zero, e_mn_prefix = in6addr_any,
     e_our_addr = in6addr_any, e_mn_suffix = in6addr_any, e_mn_hw_address = in6addr_any,
     e_mn_addr = in6addr_any, e_mn_serv_mag_addr = in6addr_any, e_mn_serv_lma_addr = in6addr_any,
     e_mn_link_local_addr = in6addr_any, e_add_time = tszero, e_lifetime = tszero, e_seqno_in = 0,
     e_seqno_out = 0, e_PBU_flags = 0, e_PBA_flags = 0, e_type = 0, e_unreach = 0, e_tunnel = 0,
     e_link = 0, e_mh_vec = [], e_status = 0, e_timestamp = ip6ts_zero, e_msg_event = 0,
     e_br_lastsent = tszero, e_br_count = 0, e_n_rets_counter = 0\<rparr>"

record config =
  LmaAddress :: in6_addr
  OurAddress :: in6_addr
  NumMags :: nat
  MagAddressEgress :: "nat \<Rightarrow> in6_addr"
  MagRoutingMark :: "nat \<Rightarrow> u32"
  MAGRoutingLookupTable :: "nat \<Rightarrow> u32"
  PBULifeTime :: timespec
  RetransmissionTimeOut :: timespec
  MaxMessageRetransmissions :: int
  TunnelingEnabled :: bool
  DynamicTunnelingEnabled :: bool
  MaxDelayBeforeDynamicTunnelingDelete :: timespec
  is_mag :: bool
  is_ha :: bool
  g_ingress_iif :: int
  LinkMacAddress :: "byte list"
  MIHFClientUserName :: "byte list"
  MIHF_ID :: "byte list"

text \<open>A small configuration with tunnels created on demand, used where a concrete instance is
  evaluated.\<close>

definition conf_example :: config where
  "conf_example = \<lparr>LmaAddress = In6 0x20 1 0 0 0 0 0 0 0 0 0 0 0 0 0 1, OurAddress = In6 0x20 1 0 0 0 0 0 0 0 0 0 0 0 0 0 2,
     NumMags = 1, MagAddressEgress = (\<lambda>_. In6 0x20 1 0 0 0 0 0 0 0 0 0 0 0 0 0 2), MagRoutingMark = (\<lambda>_. 1),
     MAGRoutingLookupTable = (\<lambda>_. 100), PBULifeTime = TS 40 0, RetransmissionTimeOut = TS 2 0,
     MaxMessageRetransmissions = 3, TunnelingEnabled = True, DynamicTunnelingEnabled = True,
     MaxDelayBeforeDynamicTunnelingDelete = TS 30 0, is_mag = True, is_ha = False, g_ingress_iif = 3,
     LinkMacAddress = replicate 6 1, MIHFClientUserName = [117, 115, 101, 114], MIHF_ID = [109, 105, 104, 102]\<rparr>"

text \<open>The key of an entry in the binding cache.\<close>

definition bce_key :: "pmip_entry \<Rightarrow> ip6mn_nai \<times> in6_addr" where
  "bce_key e = (e_mn_nai e, e_mn_serv_mag_addr e)"

text \<open>\<open>get_mn_addr\<close> of \<open>pmip_handler.c\<close> stores the address it computes in the entry.\<close>

definition get_mn_addr :: "pmip_entry \<Rightarrow> in6_addr \<times> pmip_entry" where
  "get_mn_addr bce =
     (let a = CONVERT_ID2ADDR (e_mn_prefix bce) (e_mn_suffix bce) in (a, bce\<lparr>e_mn_addr := a\<rparr>))"

end
