(* ===== verification/Pmip_Msgs.thy ===== *)
theory Pmip_Msgs
  imports Pmip_Types Hnp_Cache
begin

text \<open>
  \<open>src/src/pmip/pmip_msgs.c\<close>: construction, padding, sending and parsing of Proxy Binding Updates
  and Acknowledgements, the parsing of router solicitations and neighbour advertisements, the
  sequence numbers and the matching of an acknowledgement with the last update.  Sending gives
  the bytes that are handed to \<open>sendmsg\<close>.
\<close>

section \<open>Options\<close>

definition mh_create_opt_home_net_prefix :: "in6_addr \<Rightarrow> iovec" where
  "mh_create_opt_home_net_prefix p = [IP6_MHOPT_HOME_NETWORK_PREFIX, 18, 0, 128] @ s6_addr p"

definition mh_create_opt_handoff_indicator :: "u8 \<Rightarrow> iovec" where
  "mh_create_opt_handoff_indicator hi = [IP6_MHOPT_HANDOFF_INDICATOR, 2, 0, hi]"

definition mh_create_opt_access_technology_type :: "u8 \<Rightarrow> iovec" where
  "mh_create_opt_access_technology_type att = [IP6_MHOPT_ACCESS_TECHNOLOGY_TYPE, 2, 0, att]"

definition mh_create_opt_mobile_node_identifier :: "u8 \<Rightarrow> ip6mn_nai \<Rightarrow> iovec" where
  "mh_create_opt_mobile_node_identifier subtype MN_ID =
     [IP6_MHOPT_MOBILE_NODE_IDENTIFIER, of_nat (NAI_SIZE + 1), subtype] @ MN_ID"

definition mh_create_opt_mobile_node_link_layer_identifier :: "byte list \<Rightarrow> iovec" where
  "mh_create_opt_mobile_node_link_layer_identifier mnlli =
     [IP6_MHOPT_MOBILE_NODE_LINK_LAYER_IDENTIFIER, 10, 0, 0] @ mnlli"

definition mh_create_opt_time_stamp :: "ip6ts \<Rightarrow> iovec" where
  "mh_create_opt_time_stamp ts =
     [IP6_MHOPT_TIME_STAMP, 8] @ bytes32 (ts_first ts) @ bytes32 (ts_second ts)"

definition mh_create_opt_link_local_address :: "in6_addr \<Rightarrow> iovec" where
  "mh_create_opt_link_local_address lla = [IP6_MHOPT_LINK_LOCAL_ADDRESS, 16] @ s6_addr lla"

definition mh_create_opt_dst_mn_addr :: "in6_addr \<Rightarrow> iovec" where
  "mh_create_opt_dst_mn_addr a = [IP6_MHOPT_DST_MN_ADDR, 16] @ s6_addr a"

definition mh_create_opt_serv_mag_addr :: "in6_addr \<Rightarrow> iovec" where
  "mh_create_opt_serv_mag_addr a = [IP6_MHOPT_SERV_MAG_ADDR, 16] @ s6_addr a"

definition mh_create_opt_serv_lma_addr :: "in6_addr \<Rightarrow> iovec" where
  "mh_create_opt_serv_lma_addr a = [IP6_MHOPT_SERV_LMA_ADDR, 16] @ s6_addr a"

definition mh_create_opt_src_mn_addr :: "in6_addr \<Rightarrow> iovec" where
  "mh_create_opt_src_mn_addr a = [IP6_MHOPT_SRC_MN_ADDR, 16] @ s6_addr a"

definition mh_create_opt_src_mag_addr :: "in6_addr \<Rightarrow> iovec" where
  "mh_create_opt_src_mag_addr a = [IP6_MHOPT_SRC_MAG_ADDR, 16] @ s6_addr a"

text \<open>The \<open>switch\<close> of this file's \<open>mh_try_pad\<close>.\<close>

definition pmip_align :: "byte \<Rightarrow> (int \<times> int) option option" where
  "pmip_align t =
     (if t = IP6_MHOPT_BREFRESH then Some (Some (2, 0))
      else if t = IP6_MHOPT_ALTCOA then Some (Some (8, 6))
      else if t = IP6_MHOPT_NONCEID then Some (Some (2, 0))
      else if t = IP6_MHOPT_BAUTH then Some (Some (8, 2))
      else if t = IP6_MHOPT_MOBILE_NODE_IDENTIFIER then Some None
      else if t = IP6_MHOPT_HOME_NETWORK_PREFIX then Some (Some (8, 4))
      else if t = IP6_MHOPT_HANDOFF_INDICATOR then Some None
      else if t = IP6_MHOPT_ACCESS_TECHNOLOGY_TYPE then Some None
      else if t = IP6_MHOPT_MOBILE_NODE_LINK_LAYER_IDENTIFIER then Some (Some (8, 0))
      else if t = IP6_MHOPT_LINK_LOCAL_ADDRESS then Some (Some (8, 6))
      else if t = IP6_MHOPT_TIME_STAMP then Some (Some (8, 2))
      else None)"

definition pmip_try_pad :: "iovec list \<Rightarrow> iovec list" where
  "pmip_try_pad vec = try_pad pmip_align vec"

section \<open>Sequence numbers and node identifiers\<close>

definition init_pbu_sequence_number :: "u32 \<Rightarrow> u32" where
  "init_pbu_sequence_number seq = 0"

definition get_new_pbu_sequence_number :: "u32 \<Rightarrow> u32 \<times> u32" where
  "get_new_pbu_sequence_number g_mag_sequence_number = (g_mag_sequence_number, g_mag_sequence_number + 1)"

definition is_pba_is_response_to_last_pbu_sent :: "msg_info \<Rightarrow> pmip_entry \<Rightarrow> bool" where
  "is_pba_is_response_to_last_pbu_sent pba_info bce =
     (if i_seqno pba_info = e_seqno_out bce
      then if ts_first (i_timestamp pba_info) = ts_first (e_timestamp bce)
              \<and> ts_second (i_timestamp pba_info) = ts_second (e_timestamp bce)
           then if i_mn_prefix pba_info = e_mn_prefix bce
                then i_mn_iid pba_info = e_mn_suffix bce
                else False
           else False
      else False)"

fun get_node_id :: "in6_addr \<Rightarrow> in6_addr" where
  "get_node_id (In6 _ _ _ _ _ _ _ _ b8 b9 b10 b11 b12 b13 b14 b15) =
     In6 0 0 0 0 0 0 0 0 b8 b9 b10 b11 b12 b13 b14 b15"

fun get_node_prefix :: "in6_addr \<Rightarrow> in6_addr" where
  "get_node_prefix (In6 b0 b1 b2 b3 b4 b5 b6 b7 _ _ _ _ _ _ _ _) =
     In6 b0 b1 b2 b3 b4 b5 b6 b7 0 0 0 0 0 0 0 0"

definition get_node_nai :: "in6_addr \<Rightarrow> hnp_cache \<Rightarrow> ip6mn_nai" where
  "get_node_nai mn_iid c = fst (mn_nai_hnp_map mn_iid c)"

section \<open>Parsing\<close>

text \<open>Reading the fields of an option at its position; the stated length of the option is not
  looked at.\<close>

definition parse_common ::
  "byte list \<Rightarrow> mh_options \<Rightarrow> msg_info \<Rightarrow> msg_info outcome" where
  "parse_common msg mh_opts info =
     andThen (case mh_opt mh_opts IP6_MHOPT_MOBILE_NODE_IDENTIFIER of
                None \<Rightarrow> Done info
              | Some p \<Rightarrow> andThen (read_bytes msg (p + 3) NAI_SIZE) (\<lambda>nai. Done (info\<lparr>i_mn_nai := nai\<rparr>)))
     (\<lambda>info. andThen (case mh_opt mh_opts IP6_MHOPT_HOME_NETWORK_PREFIX of
                None \<Rightarrow> Done info
              | Some p \<Rightarrow> andThen (read_bytes msg (p + 4) 16) (\<lambda>b. Done (info\<lparr>i_mn_prefix := in6_of b\<rparr>)))
     (\<lambda>info. andThen (case mh_opt mh_opts IP6_MHOPT_MOBILE_NODE_LINK_LAYER_IDENTIFIER of
                None \<Rightarrow> Done info
              | Some p \<Rightarrow> andThen (read_bytes msg (p + 4) 8)
                            (\<lambda>b. Done (info\<lparr>i_mn_iid := in6_of (replicate 8 0 @ b)\<rparr>)))
     (\<lambda>info. case mh_opt mh_opts IP6_MHOPT_TIME_STAMP of
                None \<Rightarrow> Done info
              | Some p \<Rightarrow> andThen (read_bytes msg (p + 2) 8)
                            (\<lambda>b. Done (info\<lparr>i_timestamp :=
                                \<lparr>ts_first = le32 (b ! 0) (b ! 1) (b ! 2) (b ! 3),
                                 ts_second = le32 (b ! 4) (b ! 5) (b ! 6) (b ! 7)\<rparr>\<rparr>)))))"

definition mh_pbu_parse ::
  "config \<Rightarrow> msg_info \<Rightarrow> byte list \<Rightarrow> nat \<Rightarrow> in6_addr \<Rightarrow> in6_addr \<Rightarrow> int \<Rightarrow> msg_info outcome" where
  "mh_pbu_parse conf info0 msg len src dst iif =
     (let info = info0\<lparr>i_src := src, i_dst := dst, i_iif := iif, i_mn_serv_mag_addr := src\<rparr> in
      if dst \<noteq> LmaAddress conf then Done info
      else if len < 12 then Done info
      else andThen (mh_opt_parse msg len 12) (\<lambda>(return_code, mh_opts).
        if return_code < 0 then Done info
        else andThen (read_u16 msg 8) (\<lambda>flags. andThen (read_u16 msg 10) (\<lambda>lifetime.
          andThen (read_u16 msg 6) (\<lambda>seqno.
            andThen (parse_common msg mh_opts
               (info\<lparr>i_PBU_flags := ntohs flags,
                     i_lifetime := TS (int (unat (ntohs lifetime)) * 4) (tv_nsec (i_lifetime info)),
                     i_seqno := ntohs seqno\<rparr>))
              (\<lambda>info. Done (info\<lparr>i_msg_event := hasPBU\<rparr>)))))))"

definition mh_pba_parse ::
  "msg_info \<Rightarrow> byte list \<Rightarrow> nat \<Rightarrow> in6_addr \<Rightarrow> in6_addr \<Rightarrow> int \<Rightarrow> msg_info outcome" where
  "mh_pba_parse info0 msg len src dst iif =
     (let info = info0\<lparr>i_src := src, i_dst := dst, i_iif := iif\<rparr> in
      if len < 12 then Done info
      else andThen (mh_opt_parse msg len 12) (\<lambda>(return_code, mh_opts).
        if return_code < 0 then Done info
        else andThen (parse_common msg mh_opts info) (\<lambda>info.
          andThen (read_u16 msg 8) (\<lambda>seqno. andThen (read_u8 msg 7) (\<lambda>flags.
            andThen (read_u16 msg 10) (\<lambda>lifetime.
              Done (info\<lparr>i_seqno := ntohs seqno, i_PBA_flags := ucast (ntohs (ucast flags)),
                         i_lifetime := TS (int (unat (ntohs lifetime)) * 4) (tv_nsec (i_lifetime info)),
                         i_msg_event := hasPBA\<rparr>)))))))"

definition icmp_rs_parse :: "in6_addr \<Rightarrow> in6_addr \<Rightarrow> int \<Rightarrow> int \<Rightarrow> msg_info" where
  "icmp_rs_parse saddr daddr iif hoplimit =
     msg_info_zero\<lparr>i_hoplimit := hoplimit, i_msg_event := hasRS, i_src := saddr, i_dst := daddr,
       i_iif := iif, i_mn_iid := get_node_id saddr\<rparr>"

definition icmp_na_parse ::
  "hnp_cache \<Rightarrow> in6_addr \<Rightarrow> in6_addr \<Rightarrow> in6_addr \<Rightarrow> int \<Rightarrow> int \<Rightarrow> msg_info" where
  "icmp_na_parse c nd_na_target saddr daddr iif hoplimit =
     msg_info_zero\<lparr>i_na_target := nd_na_target, i_hoplimit := hoplimit, i_msg_event := hasNA,
       i_src := saddr, i_dst := daddr, i_iif := iif, i_mn_iid := get_node_id nd_na_target,
       i_mn_addr := nd_na_target, i_mn_prefix := get_node_prefix nd_na_target,
       i_mn_nai := get_node_nai (EUI64_to_EUI48 (get_node_id nd_na_target)) c\<rparr>"

section \<open>Sending\<close>

record mh_packet =
  p_src :: in6_addr
  p_dst :: in6_addr
  p_oif :: int
  p_bytes :: "byte list"

definition put16 :: "nat \<Rightarrow> u16 \<Rightarrow> iovec \<Rightarrow> iovec" where
  "put16 off w v = v[off := ucast w, off + 1 := ucast (drop_bit 8 w)]"

text \<open>\<open>pmip_mh_send\<close> pads the vector again and writes the header length into the first buffer,
  which the caller's vector shares: the result is the packet and the caller's vector.\<close>

definition pmip_mh_send :: "in6_addr \<Rightarrow> in6_addr \<Rightarrow> iovec list \<Rightarrow> int \<Rightarrow> mh_packet \<times> iovec list" where
  "pmip_mh_send src dst mh_vec oif =
     (let iov = pmip_try_pad mh_vec;
          hdr = (hd mh_vec)[1 := of_int (int (mh_length iov div 8) - 1)]
      in (\<lparr>p_src = src, p_dst = dst, p_oif = oif, p_bytes = concat (hdr # tl iov)\<rparr>, hdr # tl mh_vec))"

text \<open>The time of day as the timestamp option carries it.\<close>

definition timestamp_of :: "int \<Rightarrow> int \<Rightarrow> ip6ts" where
  "timestamp_of sec usec =
     \<lparr>ts_first = of_int (sec div 65536),
      ts_second = push_bit 16 (of_int (sec mod 65536)) + of_int (((usec * 65536) div 1000000) mod 65536)\<rparr>"

text \<open>\<open>mh_send_pbu\<close>: \<open>tod\<close> is the answer of \<open>gettimeofday\<close> and \<open>seq\<close> the global sequence number.
  The result is the return code, the updated entry, the sequence number and the packet.  The
  vector that is kept in the entry for retransmission is the one before padding.\<close>

definition mh_send_pbu ::
  "bool \<Rightarrow> (int \<times> int) option \<Rightarrow> in6_addr \<Rightarrow> in6_addr \<Rightarrow> timespec \<Rightarrow> int \<Rightarrow> pmip_entry \<Rightarrow> u32
     \<Rightarrow> (int \<times> pmip_entry \<times> u32 \<times> mh_packet option) outcome" where
  "mh_send_pbu mem tod src dst lifetime oif bce seq =
     andThen (mh_create mem IP6_MH_TYPE_BU) (\<lambda>h. case h of
       None \<Rightarrow> Done (- ENOMEM, bce, seq, None)
     | Some pbu0 \<Rightarrow>
       let (n, seq') = get_new_pbu_sequence_number seq;
           bce1 = bce\<lparr>e_seqno_out := ucast n\<rparr>;
           pbu1 = put16 6 (htons (e_seqno_out bce1)) pbu0;
           pbu2 = put16 8 (e_PBU_flags bce1) pbu1;
           pbu3 = put16 10 (htons (of_int (tv_sec lifetime div 4))) pbu2;
           mn_id = drop 8 (s6_addr (e_mn_suffix bce1));
           vec = [pbu3, mh_create_opt_mobile_node_identifier 1 (e_mn_nai bce1),
                  mh_create_opt_home_net_prefix (e_mn_prefix bce1),
                  mh_create_opt_handoff_indicator 3,
                  mh_create_opt_access_technology_type 4,
                  mh_create_opt_mobile_node_link_layer_identifier mn_id];
           (bce2, vec') = (case tod of
              Some (s, us) \<Rightarrow> (bce1\<lparr>e_timestamp := timestamp_of s us\<rparr>,
                               vec @ [mh_create_opt_time_stamp (timestamp_of s us)])
            | None \<Rightarrow> (bce1\<lparr>e_timestamp := ip6ts_zero\<rparr>, vec));
           dummy = pmip_try_pad vec';
           dummy' = (hd dummy)[1 := of_nat (mh_length dummy)] # tl dummy;
           (pkt, sent) = pmip_mh_send src dst dummy' oif
       in Done (0, bce2\<lparr>e_mh_vec := hd sent # tl vec'\<rparr>, seq', Some pkt))"

definition mh_send_pba ::
  "bool \<Rightarrow> in6_addr \<Rightarrow> in6_addr \<Rightarrow> timespec \<Rightarrow> int \<Rightarrow> pmip_entry
     \<Rightarrow> (int \<times> pmip_entry \<times> mh_packet option) outcome" where
  "mh_send_pba mem src dst lifetime oif bce =
     andThen (mh_create mem IP6_MH_TYPE_BACK) (\<lambda>h. case h of
       None \<Rightarrow> Done (- ENOMEM, bce, None)
     | Some pba0 \<Rightarrow>
       let pba1 = pba0[6 := e_status bce, 7 := e_PBA_flags bce];
           pba2 = put16 8 (htons (e_seqno_in bce)) pba1;
           bce1 = bce\<lparr>e_seqno_out := e_seqno_in bce\<rparr>;
           pba3 = put16 10 (htons (of_int (tv_sec lifetime div 4))) pba2;
           mn_id = drop 8 (s6_addr (e_mn_suffix bce1));
           vec = [pba3, mh_create_opt_mobile_node_identifier 1 (e_mn_nai bce1),
                  mh_create_opt_home_net_prefix (e_mn_prefix bce1),
                  mh_create_opt_mobile_node_link_layer_identifier mn_id,
                  mh_create_opt_time_stamp (e_timestamp bce1)];
           dummy = pmip_try_pad vec;
           dummy' = (hd dummy)[1 := of_nat (mh_length dummy)] # tl dummy;
           (pkt, sent) = pmip_mh_send src dst dummy' oif
       in Done (0, bce1, Some pkt))"

section \<open>The layout of the two messages\<close>

lemma opt_lengths [simp]:
  "length nai = NAI_SIZE \<Longrightarrow> length (mh_create_opt_mobile_node_identifier t nai) = 66"
  "length (mh_create_opt_home_net_prefix p) = 20"
  "length (mh_create_opt_handoff_indicator x) = 4"
  "length (mh_create_opt_access_technology_type x) = 4"
  "length l = 8 \<Longrightarrow> length (mh_create_opt_mobile_node_link_layer_identifier l) = 12"
  "length (mh_create_opt_time_stamp ts) = 10"
  by (simp_all add: mh_create_opt_mobile_node_identifier_def mh_create_opt_home_net_prefix_def
      mh_create_opt_handoff_indicator_def mh_create_opt_access_technology_type_def
      mh_create_opt_mobile_node_link_layer_identifier_def mh_create_opt_time_stamp_def)

lemma opt_types [simp]:
  "hd (mh_create_opt_mobile_node_identifier t nai) = 0x08"
  "hd (mh_create_opt_home_net_prefix p) = 0x16"
  "hd (mh_create_opt_handoff_indicator x) = 0x17"
  "hd (mh_create_opt_access_technology_type x) = 0x18"
  "hd (mh_create_opt_mobile_node_link_layer_identifier l) = 0x19"
  "hd (mh_create_opt_time_stamp ts) = 0x1B"
  by (simp_all add: mh_create_opt_mobile_node_identifier_def mh_create_opt_home_net_prefix_def
      mh_create_opt_handoff_indicator_def mh_create_opt_access_technology_type_def
      mh_create_opt_mobile_node_link_layer_identifier_def mh_create_opt_time_stamp_def)

lemma opt_optv [simp]:
  "length nai = NAI_SIZE \<Longrightarrow> optv (mh_create_opt_mobile_node_identifier t nai)"
  "optv (mh_create_opt_home_net_prefix p)"
  "optv (mh_create_opt_handoff_indicator x)"
  "optv (mh_create_opt_access_technology_type x)"
  "length l = 8 \<Longrightarrow> optv (mh_create_opt_mobile_node_link_layer_identifier l)"
  "optv (mh_create_opt_time_stamp ts)"
  by (simp_all add: optv_def mh_create_opt_mobile_node_identifier_def mh_create_opt_home_net_prefix_def
      mh_create_opt_handoff_indicator_def mh_create_opt_access_technology_type_def
      mh_create_opt_mobile_node_link_layer_identifier_def mh_create_opt_time_stamp_def)

lemma pad6 [simp]: "padv (create_opt_pad 6)" "length (create_opt_pad 6) = 6" "hd (create_opt_pad 6) = 1"
  by (auto simp: padv_def create_opt_pad_def numeral_eq_Suc intro!: exI [of _ "4 :: nat"])

lemma not_optv_pad6 [simp]: "\<not> optv (create_opt_pad 6)"
  using optv_not_padv by fastforce

lemma pmip_align_ok: "align_ok pmip_align"
  by (auto simp: align_ok_def pmip_align_def split: if_splits)

definition pbu_options :: "ip6mn_nai \<Rightarrow> in6_addr \<Rightarrow> byte list \<Rightarrow> ip6ts \<Rightarrow> iovec list" where
  "pbu_options nai p l ts =
     [mh_create_opt_mobile_node_identifier 1 nai, create_opt_pad 6, mh_create_opt_home_net_prefix p,
      mh_create_opt_handoff_indicator 3, mh_create_opt_access_technology_type 4,
      mh_create_opt_mobile_node_link_layer_identifier l, create_opt_pad 6, mh_create_opt_time_stamp ts]"

definition pba_options :: "ip6mn_nai \<Rightarrow> in6_addr \<Rightarrow> byte list \<Rightarrow> ip6ts \<Rightarrow> iovec list" where
  "pba_options nai p l ts =
     [mh_create_opt_mobile_node_identifier 1 nai, create_opt_pad 6, mh_create_opt_home_net_prefix p,
      mh_create_opt_mobile_node_link_layer_identifier l, create_opt_pad 6, mh_create_opt_time_stamp ts]"

lemma pbu_padded:
  assumes "length h = 12" "length nai = NAI_SIZE" "length l = 8"
  shows "pmip_try_pad [h, mh_create_opt_mobile_node_identifier 1 nai, mh_create_opt_home_net_prefix p,
      mh_create_opt_handoff_indicator 3, mh_create_opt_access_technology_type 4,
      mh_create_opt_mobile_node_link_layer_identifier l, mh_create_opt_time_stamp ts] = h # pbu_options nai p l ts"
  using assms by (simp add: pmip_try_pad_def try_pad_def pmip_align_def optpad_mod Let_def pbu_options_def)

lemma pba_padded:
  assumes "length h = 12" "length nai = NAI_SIZE" "length l = 8"
  shows "pmip_try_pad [h, mh_create_opt_mobile_node_identifier 1 nai, mh_create_opt_home_net_prefix p,
      mh_create_opt_mobile_node_link_layer_identifier l, mh_create_opt_time_stamp ts] = h # pba_options nai p l ts"
  using assms by (simp add: pmip_try_pad_def try_pad_def pmip_align_def optpad_mod Let_def pba_options_def)

lemma pad_idem:
  assumes "length h = 12" "length nai = NAI_SIZE" "length l = 8"
  shows "pmip_try_pad (h # pbu_options nai p l ts) = h # pbu_options nai p l ts"
    and "pmip_try_pad (h # pba_options nai p l ts) = h # pba_options nai p l ts"
  using assms by (simp_all add: pmip_try_pad_def try_pad_def pbu_options_def pba_options_def Let_def
      pmip_align_def optpad_mod)

lemma options_length:
  assumes "length nai = NAI_SIZE" "length l = 8"
  shows "length (concat (pbu_options nai p l ts)) = 128" "length (concat (pba_options nai p l ts)) = 120"
  using assms by (simp_all add: pbu_options_def pba_options_def)

lemma read_at:
  "length pre = i \<Longrightarrow> k + n \<le> length v \<Longrightarrow> read_bytes (pre @ v @ post) (i + k) n = Done (take n (drop k v))"
  by (auto simp: read_bytes_def)

lemma in6_of_take16 [simp]: "in6_of (take 16 (s6_addr p)) = p"
  by simp

lemma node_id_of: "in6_of (replicate 8 0 @ drop 8 (s6_addr a)) = get_node_id a"
  by (cases a) (simp add: in6_of_def numeral_eq_Suc)

section \<open>What the parsers read from the two messages\<close>

lemma parse_options:
  assumes "length hdr = 12" "length nai = NAI_SIZE" "length l = 8"
  shows "\<exists>mo. mh_opt_parse (hdr @ concat (pbu_options nai p l ts) @ rest) 140 12 = Done (6, mo)
      \<and> mh_opt mo 0x08 = Some 12 \<and> mh_opt mo 0x16 = Some 84 \<and> mh_opt mo 0x19 = Some 112 \<and> mh_opt mo 0x1B = Some 130"
    and "\<exists>mo. mh_opt_parse (hdr @ concat (pba_options nai p l ts) @ rest) 132 12 = Done (4, mo)
      \<and> mh_opt mo 0x08 = Some 12 \<and> mh_opt mo 0x16 = Some 84 \<and> mh_opt mo 0x19 = Some 104 \<and> mh_opt mo 0x1B = Some 122"
proof -
  let ?u = "pbu_options nai p l ts" and ?a = "pba_options nai p l ts"
  have optv_hyps: "\<forall>v \<in> set vs. padv v \<or> optv v" "distinct (map hd (filter optv vs))"
    "\<forall>v \<in> set vs. optv v \<longrightarrow> opts mh_options_zero (unat (hd v)) = 0" if "vs = ?u \<or> vs = ?a" for vs
    using that assms by (auto simp: pbu_options_def pba_options_def mh_options_zero_def)
  have pad: "padv v = False" if "optv v" for v using that optv_not_padv by blast
  have "mh_opt_parse (hdr @ concat ?u @ rest) 140 12 = Done (6, record_opts 12 ?u mh_options_zero)"
    using mh_opt_loop_vec [OF optv_hyps, of ?u hdr rest 0] assms
    by (simp add: mh_opt_parse_def options_length) (simp add: pbu_options_def)
  moreover have "mh_opt_parse (hdr @ concat ?a @ rest) 132 12 = Done (4, record_opts 12 ?a mh_options_zero)"
    using mh_opt_loop_vec [OF optv_hyps, of ?a hdr rest 0] assms
    by (simp add: mh_opt_parse_def options_length) (simp add: pba_options_def)
  ultimately show
    "\<exists>mo. mh_opt_parse (hdr @ concat ?u @ rest) 140 12 = Done (6, mo)
      \<and> mh_opt mo 0x08 = Some 12 \<and> mh_opt mo 0x16 = Some 84 \<and> mh_opt mo 0x19 = Some 112 \<and> mh_opt mo 0x1B = Some 130"
    "\<exists>mo. mh_opt_parse (hdr @ concat ?a @ rest) 132 12 = Done (4, mo)
      \<and> mh_opt mo 0x08 = Some 12 \<and> mh_opt mo 0x16 = Some 84 \<and> mh_opt mo 0x19 = Some 104 \<and> mh_opt mo 0x1B = Some 122"
    using assms by (simp_all add: pbu_options_def pba_options_def mh_opt_def mh_options_zero_def pad)
qed

lemma read_fields:
  assumes "length pre = i"
  shows "length nai = NAI_SIZE \<Longrightarrow>
      read_bytes (pre @ mh_create_opt_mobile_node_identifier t nai @ post) (i + 3) NAI_SIZE = Done nai"
    and "read_bytes (pre @ mh_create_opt_home_net_prefix p @ post) (i + 4) 16 = Done (s6_addr p)"
    and "length l = 8 \<Longrightarrow>
      read_bytes (pre @ mh_create_opt_mobile_node_link_layer_identifier l @ post) (i + 4) 8 = Done l"
    and "read_bytes (pre @ mh_create_opt_time_stamp ts @ post) (i + 2) 8
      = Done (bytes32 (ts_first ts) @ bytes32 (ts_second ts))"
  using assms
  by (simp_all add: read_bytes_def mh_create_opt_mobile_node_identifier_def mh_create_opt_home_net_prefix_def
      mh_create_opt_mobile_node_link_layer_identifier_def mh_create_opt_time_stamp_def bytes32_def)

lemma parse_common_at:
  assumes "mh_opt mo 0x08 = Some p1" "mh_opt mo 0x16 = Some p2" "mh_opt mo 0x19 = Some p3" "mh_opt mo 0x1B = Some p4"
    and "read_bytes msg (p1 + 3) NAI_SIZE = Done nai" "read_bytes msg (p2 + 4) 16 = Done (s6_addr p)"
    and "read_bytes msg (p3 + 4) 8 = Done (drop 8 (s6_addr a))"
    and "read_bytes msg (p4 + 2) 8 = Done (bytes32 (ts_first ts) @ bytes32 (ts_second ts))"
  shows "parse_common msg mo info = Done (info\<lparr>i_mn_nai := nai, i_mn_prefix := p,
      i_mn_iid := get_node_id a, i_timestamp := ts\<rparr>)"
proof -
  have "\<lparr>ts_first = ts_first ts, ts_second = ts_second ts\<rparr> = ts" by (cases ts) simp
  then show ?thesis
    using assms node_id_of [of a] by (simp add: parse_common_def bytes32_def)
qed

lemma parse_common_pbu:
  assumes "length hdr = 12" "length nai = NAI_SIZE"
    and mo: "mh_opt mo 0x08 = Some 12" "mh_opt mo 0x16 = Some 84" "mh_opt mo 0x19 = Some 112" "mh_opt mo 0x1B = Some 130"
  shows "parse_common (hdr @ concat (pbu_options nai p (drop 8 (s6_addr a)) ts) @ rest) mo info =
    Done (info\<lparr>i_mn_nai := nai, i_mn_prefix := p, i_mn_iid := get_node_id a, i_timestamp := ts\<rparr>)"
proof (rule parse_common_at [OF mo])
  let ?l = "drop 8 (s6_addr a)"
  let ?N = "mh_create_opt_mobile_node_identifier 1 nai" and ?P = "mh_create_opt_home_net_prefix p"
    and ?L = "mh_create_opt_mobile_node_link_layer_identifier ?l" and ?T = "mh_create_opt_time_stamp ts"
    and ?X = "create_opt_pad 6" and ?H = "mh_create_opt_handoff_indicator 3 @ mh_create_opt_access_technology_type 4"
  let ?m = "hdr @ concat (pbu_options nai p ?l ts) @ rest"
  show "read_bytes ?m (12 + 3) NAI_SIZE = Done nai"
    using read_fields(1) [of hdr 12 nai 1 "concat (tl (pbu_options nai p ?l ts)) @ rest"] assms
    by (simp add: pbu_options_def)
  show "read_bytes ?m (84 + 4) 16 = Done (s6_addr p)"
    using read_fields(2) [of "hdr @ ?N @ ?X" 84 p "?H @ ?L @ ?X @ ?T @ rest"] assms by (simp add: pbu_options_def)
  show "read_bytes ?m (112 + 4) 8 = Done ?l"
    using read_fields(3) [of "hdr @ ?N @ ?X @ ?P @ ?H" 112 ?l "?X @ ?T @ rest"] assms by (simp add: pbu_options_def)
  show "read_bytes ?m (130 + 2) 8 = Done (bytes32 (ts_first ts) @ bytes32 (ts_second ts))"
    using read_fields(4) [of "hdr @ ?N @ ?X @ ?P @ ?H @ ?L @ ?X" 130 ts rest] assms by (simp add: pbu_options_def)
qed

lemma parse_common_pba:
  assumes "length hdr = 12" "length nai = NAI_SIZE"
    and mo: "mh_opt mo 0x08 = Some 12" "mh_opt mo 0x16 = Some 84" "mh_opt mo 0x19 = Some 104" "mh_opt mo 0x1B = Some 122"
  shows "parse_common (hdr @ concat (pba_options nai p (drop 8 (s6_addr a)) ts) @ rest) mo info =
    Done (info\<lparr>i_mn_nai := nai, i_mn_prefix := p, i_mn_iid := get_node_id a, i_timestamp := ts\<rparr>)"
proof (rule parse_common_at [OF mo])
  let ?l = "drop 8 (s6_addr a)"
  let ?N = "mh_create_opt_mobile_node_identifier 1 nai" and ?P = "mh_create_opt_home_net_prefix p"
    and ?L = "mh_create_opt_mobile_node_link_layer_identifier ?l" and ?T = "mh_create_opt_time_stamp ts"
    and ?X = "create_opt_pad 6"
  let ?m = "hdr @ concat (pba_options nai p ?l ts) @ rest"
  show "read_bytes ?m (12 + 3) NAI_SIZE = Done nai"
    using read_fields(1) [of hdr 12 nai 1 "concat (tl (pba_options nai p ?l ts)) @ rest"] assms
    by (simp add: pba_options_def)
  show "read_bytes ?m (84 + 4) 16 = Done (s6_addr p)"
    using read_fields(2) [of "hdr @ ?N @ ?X" 84 p "?L @ ?X @ ?T @ rest"] assms by (simp add: pba_options_def)
  show "read_bytes ?m (104 + 4) 8 = Done ?l"
    using read_fields(3) [of "hdr @ ?N @ ?X @ ?P" 104 ?l "?X @ ?T @ rest"] assms by (simp add: pba_options_def)
  show "read_bytes ?m (122 + 2) 8 = Done (bytes32 (ts_first ts) @ bytes32 (ts_second ts))"
    using read_fields(4) [of "hdr @ ?N @ ?X @ ?P @ ?L @ ?X" 122 ts rest] assms by (simp add: pba_options_def)
qed

section \<open>The bytes of the two messages\<close>

definition pbu_header :: "u16 \<Rightarrow> u16 \<Rightarrow> u16 \<Rightarrow> byte list" where
  "pbu_header seqno flags lifetime =
     [IPPROTO_NONE, 16, 5, 0, 0, 0] @ bytes16 (htons seqno) @ bytes16 flags @ bytes16 (htons lifetime)"

definition pba_header :: "u8 \<Rightarrow> u8 \<Rightarrow> u16 \<Rightarrow> u16 \<Rightarrow> byte list" where
  "pba_header status flags seqno lifetime =
     [IPPROTO_NONE, 15, 6, 0, 0, 0, status, flags] @ bytes16 (htons seqno) @ bytes16 (htons lifetime)"

definition pbu_vec :: "byte list \<Rightarrow> ip6mn_nai \<Rightarrow> in6_addr \<Rightarrow> byte list \<Rightarrow> ip6ts \<Rightarrow> iovec list" where
  "pbu_vec h nai p l ts =
     [h, mh_create_opt_mobile_node_identifier 1 nai, mh_create_opt_home_net_prefix p,
      mh_create_opt_handoff_indicator 3, mh_create_opt_access_technology_type 4,
      mh_create_opt_mobile_node_link_layer_identifier l, mh_create_opt_time_stamp ts]"

lemma header_length [simp]: "length (pbu_header a b c) = 12" "length (pba_header d e f g) = 12"
  by (simp_all add: pbu_header_def pba_header_def)

lemma send_padded:
  assumes "length h = 12" "length nai = NAI_SIZE" "length l = 8"
  shows "pmip_mh_send src dst (h # pbu_options nai p l ts) oif =
      (\<lparr>p_src = src, p_dst = dst, p_oif = oif, p_bytes = h[1 := 16] @ concat (pbu_options nai p l ts)\<rparr>,
       h[1 := 16] # pbu_options nai p l ts)"
    and "pmip_mh_send src dst (h # pba_options nai p l ts) oif =
      (\<lparr>p_src = src, p_dst = dst, p_oif = oif, p_bytes = h[1 := 15] @ concat (pba_options nai p l ts)\<rparr>,
       h[1 := 15] # pba_options nai p l ts)"
  using assms options_length [OF assms(2,3)]
  by (simp_all add: pmip_mh_send_def pad_idem Let_def mh_length_concat)

lemma replicate_numeral_6: "replicate 6 x = [x, x, x, x, x, x]"
  by (simp add: numeral_eq_Suc)

lemma mh_send_pbu_bytes:
  fixes lifetime seq
  assumes nai: "length (e_mn_nai bce) = NAI_SIZE"
  defines "h \<equiv> pbu_header (ucast seq) (e_PBU_flags bce) (of_int (tv_sec lifetime div 4))"
    and "l \<equiv> drop 8 (s6_addr (e_mn_suffix bce))"
  shows "mh_send_pbu True (Some (s, us)) src dst lifetime oif bce seq =
    Done (0, bce\<lparr>e_seqno_out := ucast seq, e_timestamp := timestamp_of s us,
               e_mh_vec := pbu_vec h (e_mn_nai bce) (e_mn_prefix bce) l (timestamp_of s us)\<rparr>, seq + 1,
      Some \<lparr>p_src = src, p_dst = dst, p_oif = oif,
        p_bytes = h @ concat (pbu_options (e_mn_nai bce) (e_mn_prefix bce) l (timestamp_of s us))\<rparr>)"
proof -
  have l: "length (drop 8 (s6_addr (e_mn_suffix bce))) = 8" by simp
  show ?thesis
    by (simp add: mh_send_pbu_def mh_create_def mh_len_def put16_def get_new_pbu_sequence_number_def
        pbu_padded [OF _ nai l] send_padded [OF _ nai l] h_def l_def pbu_vec_def
        replicate_numeral_6 pbu_header_def bytes16_def Let_def)
qed

text \<open>Sending the stored vector again, with another sequence number.\<close>

lemma resend_pbu:
  assumes "length nai = NAI_SIZE" "length l = 8"
  shows "pmip_mh_send src dst (pbu_vec (put16 6 (htons n) (pbu_header seqno flags lifetime)) nai p l ts) oif =
    (\<lparr>p_src = src, p_dst = dst, p_oif = oif, p_bytes = pbu_header n flags lifetime @ concat (pbu_options nai p l ts)\<rparr>,
     pbu_vec (pbu_header n flags lifetime) nai p l ts)"
proof -
  have h: "put16 6 (htons n) (pbu_header seqno flags lifetime) = pbu_header n flags lifetime"
    by (simp add: put16_def pbu_header_def bytes16_def)
  show ?thesis
    using options_length [OF assms] pbu_padded [OF header_length(1) assms]
    by (simp add: h pmip_mh_send_def pbu_vec_def Let_def mh_length_concat)
      (simp add: pbu_header_def bytes16_def)
qed

lemma mh_send_pba_bytes:
  assumes nai: "length (e_mn_nai bce) = NAI_SIZE"
  shows "mh_send_pba True src dst lifetime oif bce =
    Done (0, bce\<lparr>e_seqno_out := e_seqno_in bce\<rparr>,
      Some \<lparr>p_src = src, p_dst = dst, p_oif = oif,
        p_bytes = pba_header (e_status bce) (e_PBA_flags bce) (e_seqno_in bce) (of_int (tv_sec lifetime div 4))
          @ concat (pba_options (e_mn_nai bce) (e_mn_prefix bce) (drop 8 (s6_addr (e_mn_suffix bce))) (e_timestamp bce))\<rparr>)"
proof -
  have l: "length (drop 8 (s6_addr (e_mn_suffix bce))) = 8" by simp
  show ?thesis
    by (simp add: mh_send_pba_def mh_create_def mh_len_def put16_def
        pba_padded [OF _ nai l] send_padded [OF _ nai l] replicate_numeral_6 pba_header_def bytes16_def Let_def)
qed

lemma read_u16_bytes:
  "length pre = i \<Longrightarrow> read_u16 (pre @ bytes16 w @ post) i = Done w"
  by (auto simp: read_u16_def bytes16_def nth_append)

lemma pbu_header_reads:
  "read_u16 (pbu_header seqno flags lifetime @ rest) 6 = Done (htons seqno)"
  "read_u16 (pbu_header seqno flags lifetime @ rest) 8 = Done flags"
  "read_u16 (pbu_header seqno flags lifetime @ rest) 10 = Done (htons lifetime)"
  by (simp_all add: pbu_header_def read_u16_def bytes16_def)

lemma pba_header_reads:
  "read_u16 (pba_header status flags seqno lifetime @ rest) 8 = Done (htons seqno)"
  "read_u8 (pba_header status flags seqno lifetime @ rest) 7 = Done flags"
  "read_u16 (pba_header status flags seqno lifetime @ rest) 10 = Done (htons lifetime)"
  by (simp_all add: pba_header_def read_u16_def read_u8_def bytes16_def)

lemma pba_flags_lost: "(ucast (ntohs (ucast (f :: u8))) :: u8) = 0"
  by (rule bit_word_eqI) (auto simp: htons_def bit_simps dest: bit_imp_le_length)

lemma mh_pbu_parse_bytes:
  assumes "length nai = NAI_SIZE"
  shows "mh_pbu_parse conf info (pbu_header seqno flags lifetime @
      concat (pbu_options nai p (drop 8 (s6_addr a)) ts) @ rest) 140 src (LmaAddress conf) iif =
    Done (info\<lparr>i_src := src, i_dst := LmaAddress conf, i_iif := iif, i_mn_serv_mag_addr := src,
      i_PBU_flags := htons flags, i_lifetime := TS (int (unat lifetime) * 4) (tv_nsec (i_lifetime info)),
      i_seqno := seqno, i_mn_nai := nai, i_mn_prefix := p, i_mn_iid := get_node_id a, i_timestamp := ts,
      i_msg_event := hasPBU\<rparr>)"
proof -
  have l: "length (drop 8 (s6_addr a)) = 8" by simp
  obtain mo where mo: "mh_opt_parse (pbu_header seqno flags lifetime @
        concat (pbu_options nai p (drop 8 (s6_addr a)) ts) @ rest) 140 12 = Done (6, mo)"
    "mh_opt mo 0x08 = Some 12" "mh_opt mo 0x16 = Some 84" "mh_opt mo 0x19 = Some 112" "mh_opt mo 0x1B = Some 130"
    using parse_options(1) [OF header_length(1) assms l] by blast
  show ?thesis
    using parse_common_pbu [OF header_length(1) assms mo(2-5)]
    by (simp add: mh_pbu_parse_def mo(1) pbu_header_reads Let_def)
qed

lemma mh_pba_parse_bytes:
  assumes "length nai = NAI_SIZE"
  shows "mh_pba_parse info (pba_header status flags seqno lifetime @
      concat (pba_options nai p (drop 8 (s6_addr a)) ts) @ rest) 132 src dst iif =
    Done (info\<lparr>i_src := src, i_dst := dst, i_iif := iif, i_mn_nai := nai, i_mn_prefix := p,
      i_mn_iid := get_node_id a, i_timestamp := ts, i_seqno := seqno, i_PBA_flags := 0,
      i_lifetime := TS (int (unat lifetime) * 4) (tv_nsec (i_lifetime info)), i_msg_event := hasPBA\<rparr>)"
proof -
  have l: "length (drop 8 (s6_addr a)) = 8" by simp
  obtain mo where mo: "mh_opt_parse (pba_header status flags seqno lifetime @
        concat (pba_options nai p (drop 8 (s6_addr a)) ts) @ rest) 132 12 = Done (4, mo)"
    "mh_opt mo 0x08 = Some 12" "mh_opt mo 0x16 = Some 84" "mh_opt mo 0x19 = Some 104" "mh_opt mo 0x1B = Some 122"
    using parse_options(2) [OF header_length(2) assms l] by blast
  show ?thesis
    using parse_common_pba [OF header_length(2) assms mo(2-5)]
    by (simp add: mh_pba_parse_def mo(1) pba_header_reads pba_flags_lost Let_def)
qed

section \<open>Properties\<close>

text \<open>Padding puts every option of a message with options at an offset of its required alignment,
  whatever the options are, keeps the message header, and padding a second time changes nothing.\<close>

lemma pmip_padding_aligned:
  assumes "2 \<le> length vec"
  shows "hd (pmip_try_pad vec) = hd vec
    \<and> aligned pmip_align (length (hd vec)) (tl (pmip_try_pad vec))
    \<and> pmip_try_pad (pmip_try_pad vec) = pmip_try_pad vec"
proof -
  obtain h v vs where vec: "vec = h # v # vs" using assms by (auto simp: numeral_2_eq_2 Suc_le_length_iff)
  let ?out = "pad_loop pmip_align (length h) 0 (v # vs)"
  have out: "pmip_try_pad vec = h # ?out" by (simp add: vec pmip_try_pad_def try_pad_def del: pad_loop.simps)
  have al: "aligned pmip_align (length h) ?out" by (rule pad_loop_aligned [OF pmip_align_ok]) simp
  have "?out \<noteq> []" by (simp add: Let_def)
  then have "pmip_try_pad (h # ?out) = h # pad_loop pmip_align (length h) 0 ?out"
    by (simp add: pmip_try_pad_def try_pad_def del: pad_loop.simps)
  also have "\<dots> = h # ?out" using pad_loop_aligned_id [OF pmip_align_ok al] by simp
  finally show ?thesis using out al by (simp add: vec del: pad_loop.simps)
qed

lemma pmip_padding_aligned_witness:
  "aligned pmip_align 12 (tl (pmip_try_pad [replicate 12 0, mh_create_opt_home_net_prefix in6addr_any,
     mh_create_opt_time_stamp ip6ts_zero]))"
  using pmip_padding_aligned [of "[replicate 12 0, mh_create_opt_home_net_prefix in6addr_any,
     mh_create_opt_time_stamp ip6ts_zero]"] by simp

text \<open>C12: a Proxy Binding Update that the gateway sends is read back by the anchor with the
  same identifier, prefix, node identifier, timestamp and sequence number, the lifetime rounded
  down to a multiple of four seconds, and the sending gateway as the serving one; the entry
  keeps the sequence number and timestamp that the update carries.\<close>

theorem pbu_roundtrip:
  assumes "length (e_mn_nai bce) = NAI_SIZE" "0 \<le> tv_sec lifetime" "tv_sec lifetime < 4 * 2 ^ 16"
    and "mh_send_pbu True (Some (s, us)) src (LmaAddress conf) lifetime oif bce seq = Done (ret, bce', seq', Some pkt)"
  shows "\<exists>info. mh_pbu_parse conf msg_info_zero (p_bytes pkt @ rest) (length (p_bytes pkt)) (p_src pkt) (p_dst pkt) iif = Done info
    \<and> i_msg_event info = hasPBU \<and> i_src info = src \<and> i_mn_serv_mag_addr info = src \<and> i_mn_nai info = e_mn_nai bce
    \<and> i_mn_prefix info = e_mn_prefix bce \<and> i_mn_iid info = get_node_id (e_mn_suffix bce)
    \<and> i_seqno info = e_seqno_out bce' \<and> i_timestamp info = e_timestamp bce'
    \<and> i_lifetime info = TS (tv_sec lifetime - tv_sec lifetime mod 4) 0"
proof -
  let ?n = "tv_sec lifetime div 4"
  have "0 \<le> ?n" "?n < 2 ^ 16" using assms(2,3) by auto
  then have "int (unat (of_int ?n :: u16)) = ?n" by (simp add: unsigned_of_int take_bit_int_eq_self)
  then have "int (unat (of_int ?n :: u16)) * 4 = tv_sec lifetime - tv_sec lifetime mod 4"
    by (simp add: minus_mod_eq_mult_div)
  moreover have "bce' = bce\<lparr>e_seqno_out := ucast seq, e_timestamp := timestamp_of s us, e_mh_vec := e_mh_vec bce'\<rparr>"
    and pkt: "p_src pkt = src" "p_dst pkt = LmaAddress conf"
      "p_bytes pkt = pbu_header (ucast seq) (e_PBU_flags bce) (of_int ?n) @ concat (pbu_options
        (e_mn_nai bce) (e_mn_prefix bce) (drop 8 (s6_addr (e_mn_suffix bce))) (timestamp_of s us))"
    using assms(4) by (auto simp: mh_send_pbu_bytes [OF assms(1)])
  moreover have "length (p_bytes pkt) = 140"
    using options_length(1) [OF assms(1)] by (simp add: pkt(3))
  moreover have "e_seqno_out bce' = ucast seq" "e_timestamp bce' = timestamp_of s us"
    using assms(4) by (auto simp: mh_send_pbu_bytes [OF assms(1)])
  ultimately show ?thesis
    using mh_pbu_parse_bytes [OF assms(1)] by (simp add: msg_info_zero_def tszero_def)
qed

theorem pbu_roundtrip_witness:
  "\<exists>bce' pkt info. mh_send_pbu True (Some (0, 0)) in6addr_any (LmaAddress conf_example) (TS 10 0) 0 pmip_entry_zero 0 =
      Done (0, bce', 1, Some pkt)
    \<and> mh_pbu_parse conf_example msg_info_zero (p_bytes pkt @ []) (length (p_bytes pkt)) (p_src pkt) (p_dst pkt) 2 = Done info
    \<and> i_lifetime info = TS 8 0"
proof -
  have n: "length (e_mn_nai pmip_entry_zero) = NAI_SIZE" by (simp add: pmip_entry_zero_def nai_zero_def)
  obtain bce' pkt where send: "mh_send_pbu True (Some (0, 0)) in6addr_any (LmaAddress conf_example) (TS 10 0) 0 pmip_entry_zero 0 =
      Done (0, bce', 1, Some pkt)"
    using mh_send_pbu_bytes [OF n] by simp
  from pbu_roundtrip [OF n _ _ send, of "[]" 2] obtain info where
    "mh_pbu_parse conf_example msg_info_zero (p_bytes pkt @ []) (length (p_bytes pkt)) (p_src pkt) (p_dst pkt) 2 = Done info"
    "i_lifetime info = TS 8 0" by auto
  then show ?thesis using send by blast
qed

text \<open>C13: the acknowledgement that the anchor builds from an entry holding the data of an update is
  accepted by the gateway that sent the update as the answer to it, and carries the granted
  lifetime rounded down to a multiple of four seconds.\<close>

theorem pba_accepted_by_mag:
  assumes "length (e_mn_nai bce) = NAI_SIZE" "0 \<le> tv_sec lifetime" "tv_sec lifetime < 4 * 2 ^ 16"
    and "mh_send_pba True src dst lifetime oif bce = Done (ret, bce', Some pkt)"
    and "e_seqno_in bce = e_seqno_out mag_bce" "e_timestamp bce = e_timestamp mag_bce"
    and "e_mn_prefix bce = e_mn_prefix mag_bce" "get_node_id (e_mn_suffix bce) = e_mn_suffix mag_bce"
  shows "\<exists>info. mh_pba_parse junk (p_bytes pkt @ rest) (length (p_bytes pkt)) (p_src pkt) (p_dst pkt) iif = Done info
    \<and> i_msg_event info = hasPBA \<and> is_pba_is_response_to_last_pbu_sent info mag_bce
    \<and> i_mn_nai info = e_mn_nai bce \<and> tv_sec (i_lifetime info) = tv_sec lifetime - tv_sec lifetime mod 4"
proof -
  let ?n = "tv_sec lifetime div 4"
  have "0 \<le> ?n" "?n < 2 ^ 16" using assms(2,3) by auto
  then have "int (unat (of_int ?n :: u16)) = ?n" by (simp add: unsigned_of_int take_bit_int_eq_self)
  then have "int (unat (of_int ?n :: u16)) * 4 = tv_sec lifetime - tv_sec lifetime mod 4"
    by (simp add: minus_mod_eq_mult_div)
  moreover have pkt: "p_bytes pkt = pba_header (e_status bce) (e_PBA_flags bce) (e_seqno_in bce) (of_int ?n)
      @ concat (pba_options (e_mn_nai bce) (e_mn_prefix bce) (drop 8 (s6_addr (e_mn_suffix bce))) (e_timestamp bce))"
    using assms(4) by (auto simp: mh_send_pba_bytes [OF assms(1)])
  moreover have "length (p_bytes pkt) = 132"
    using options_length(2) [OF assms(1)] by (simp add: pkt)
  ultimately show ?thesis
    using mh_pba_parse_bytes [OF assms(1)] assms(5-8)
    by (simp add: is_pba_is_response_to_last_pbu_sent_def)
qed

theorem pba_accepted_by_mag_witness:
  "\<exists>(pkt :: mh_packet) info. mh_pba_parse msg_info_zero (p_bytes pkt @ []) (length (p_bytes pkt)) (p_src pkt) (p_dst pkt) 1 = Done info
     \<and> is_pba_is_response_to_last_pbu_sent info pmip_entry_zero"
proof -
  have n: "length (e_mn_nai pmip_entry_zero) = NAI_SIZE" by (simp add: pmip_entry_zero_def nai_zero_def)
  obtain bce' pkt where send: "mh_send_pba True in6addr_any in6addr_any (TS 40 0) 0 pmip_entry_zero = Done (0, bce', Some pkt)"
    using mh_send_pba_bytes [OF n] by simp
  have "get_node_id (e_mn_suffix pmip_entry_zero) = e_mn_suffix pmip_entry_zero"
    by (simp add: pmip_entry_zero_def in6addr_any_def)
  then have "\<exists>info. mh_pba_parse msg_info_zero (p_bytes pkt @ []) (length (p_bytes pkt)) (p_src pkt) (p_dst pkt) 1 = Done info
    \<and> i_msg_event info = hasPBA \<and> is_pba_is_response_to_last_pbu_sent info pmip_entry_zero
    \<and> i_mn_nai info = e_mn_nai pmip_entry_zero \<and> tv_sec (i_lifetime info) = tv_sec (TS 40 0) - tv_sec (TS 40 0) mod 4"
    by (intro pba_accepted_by_mag [OF n _ _ send]) (simp_all add: pmip_entry_zero_def)
  then show ?thesis by blast
qed

text \<open>Both messages end four bytes behind the length their header states: an update has 140 bytes
  and a header length of 136, an acknowledgement 132 and 128.\<close>

lemma message_length_truncated:
  assumes "length (e_mn_nai bce) = NAI_SIZE"
    and "mh_send_pbu True (Some (s, us)) src dst lifetime oif bce seq = Done (r1, b1, q1, Some pbu)"
    and "mh_send_pba True src dst lifetime oif bce = Done (r2, b2, Some pba)"
  shows "length (p_bytes pbu) = 140 \<and> (unat (p_bytes pbu ! 1) + 1) * 8 = 136
    \<and> length (p_bytes pba) = 132 \<and> (unat (p_bytes pba ! 1) + 1) * 8 = 128"
  using assms options_length [OF assms(1), of "drop 8 (s6_addr (e_mn_suffix bce))"]
  by (auto simp: mh_send_pbu_bytes [OF assms(1)] mh_send_pba_bytes [OF assms(1)])
    (auto simp: pbu_header_def pba_header_def)

lemma message_length_truncated_witness:
  "\<exists>pbu. length (p_bytes pbu) = 140 \<and> (unat (p_bytes pbu ! 1) + 1) * 8 = 136
     \<and> (\<exists>b q. mh_send_pbu True (Some (0, 0)) in6addr_any in6addr_any (TS 4 0) 0 pmip_entry_zero 0 = Done (0, b, q, Some pbu))"
proof -
  have n: "length (e_mn_nai pmip_entry_zero) = NAI_SIZE" by (simp add: pmip_entry_zero_def nai_zero_def)
  obtain b1 pbu where u: "mh_send_pbu True (Some (0, 0)) in6addr_any in6addr_any (TS 4 0) 0 pmip_entry_zero 0 = Done (0, b1, 1, Some pbu)"
    using mh_send_pbu_bytes [OF n] by simp
  obtain b2 pba where a: "mh_send_pba True in6addr_any in6addr_any (TS 4 0) 0 pmip_entry_zero = Done (0, b2, Some pba)"
    using mh_send_pba_bytes [OF n] by simp
  show ?thesis using message_length_truncated [OF n u a] u by blast
qed

text \<open>The flags of an acknowledgement never reach the gateway: the byte swap of the one-byte field
  leaves zero, for every message that is parsed.\<close>

lemma pba_flags_dropped:
  assumes "mh_pba_parse msg_info_zero msg len src dst iif = Done info"
  shows "i_PBA_flags info = 0"
proof -
  have common: "i_PBA_flags i' = i_PBA_flags i" if "parse_common msg mo i = Done i'" for mo i i'
    using that by (auto simp: parse_common_def andThen_Done_iff split: option.splits)
  show ?thesis
    using assms
    by (auto simp: mh_pba_parse_def andThen_Done_iff Let_def pba_flags_lost msg_info_zero_def dest: common
        split: if_splits)
qed

lemma pba_flags_dropped_witness:
  "\<exists>info. mh_pba_parse msg_info_zero (pba_header 0 0xC0 7 9) 12 in6addr_any in6addr_any 1 = Done info \<and> i_PBA_flags info = 0"
proof -
  obtain info where i: "mh_pba_parse msg_info_zero (pba_header 0 0xC0 7 9) 12 in6addr_any in6addr_any 1 = Done info"
    by (simp add: mh_pba_parse_def mh_opt_parse_def mh_opt_loop.simps parse_common_def mh_opt_def mh_options_zero_def
        pba_header_def read_u16_def read_u8_def bytes16_def)
  from pba_flags_dropped [OF i] i show ?thesis by blast
qed

end
