(* ===== verification/Pmip_Tunnel.thy ===== *)
theory Pmip_Tunnel
  imports Tunnel_Ctl Task_Queue Pmip_Msgs
begin

text \<open>
  \<open>src/src/pmip/pmip_tunnel.c\<close>: tunnels towards the gateways or the anchor, with a table of timers
  that delays the removal of the last user of a tunnel.  The theory also fixes what the daemon
  does to the outside world (\<open>effect\<close>) and the identities of its timers.
\<close>

section \<open>Effects and timers\<close>

abbreviation (input) RT6_TABLE_MIP6 :: nat where "RT6_TABLE_MIP6 \<equiv> 252"
abbreviation (input) RT6_TABLE_PMIP :: nat where "RT6_TABLE_PMIP \<equiv> 200"
abbreviation (input) IP6_RT_PRIO_MIP6_OUT :: nat where "IP6_RT_PRIO_MIP6_OUT \<equiv> 128"
abbreviation (input) IP6_RT_PRIO_MIP6_FWD :: nat where "IP6_RT_PRIO_MIP6_FWD \<equiv> 192"
abbreviation (input) IP6_RULE_PRIO_PMIP6_FWD :: nat where "IP6_RULE_PRIO_PMIP6_FWD \<equiv> 1000"
abbreviation (input) IP6_RULE_PRIO_FMPMIP6_MAG_ROUTE_TABLE :: nat
  where "IP6_RULE_PRIO_FMPMIP6_MAG_ROUTE_TABLE \<equiv> 1024"
abbreviation (input) PMIP_MAX_MAGS :: nat where "PMIP_MAX_MAGS \<equiv> 64"

record fw_rule =
  f_src :: in6_addr
  f_dst :: in6_addr
  f_tcp :: bool
  f_dport :: u16
  f_sport :: u16
  f_mark :: u32

text \<open>Routes and policy rules (device or table, priority, source prefix, destination prefix), packets,
  the firewall commands and the datagrams sent to the MIH function.\<close>

datatype effect =
    RouteAdd int nat nat "in6_addr \<times> nat" "in6_addr \<times> nat"
  | RouteDel int nat nat "in6_addr \<times> nat" "in6_addr \<times> nat"
  | RuleAdd nat nat "in6_addr \<times> nat" "in6_addr \<times> nat"
  | RuleDel nat nat "in6_addr \<times> nat" "in6_addr \<times> nat"
  | SendMH mh_packet
  | SendRA int in6_addr "byte list"
  | SendNS int in6_addr
  | FwCheck fw_rule
  | FwInsert fw_rule
  | FwDelete fw_rule
  | SendMIH "byte list"

datatype timer_id = TqBce nat | TqTunnel nat

datatype timer_task = Bce_expired | Retrans_pbu | Tunnel_expired

record tunnel_timer =
  tt_lifetime :: timespec
  tt_tunnel :: int
  tt_remote :: in6_addr

record tun_sys =
  tctl :: tnl_state
  g_tunnel_timer_table :: "tunnel_timer list"
  tqs :: "(timer_id, timer_task) tqueue"
  out :: "effect list"

text \<open>What the environment answers during one activation of the daemon: the clock, the time of day,
  the allocator, the kernel, the random numbers and the result of the firewall's check command;
  \<open>garbage\<close> is what a caller finds when a function declared \<open>int\<close> returns without a value, \<open>junk_addr\<close> and
  \<open>junk_info\<close> are the contents of local variables that are not initialised, and \<open>radius_server\<close> is the
  authentication server of a build with \<open>USE_RADIUS\<close>.\<close>

record env =
  now :: timespec
  tod :: "(int \<times> int) option"
  memok :: bool
  kern :: kernel
  rand :: "nat \<Rightarrow> nat"
  fw_has :: "effect list \<Rightarrow> fw_rule \<Rightarrow> bool"
  link_index :: int
  ip6_forwarding :: bool
  garbage :: int
  radius_server :: "radius option"
  junk_addr :: in6_addr
  junk_info :: msg_info

definition emit :: "effect \<Rightarrow> ('z) tun_sys_scheme \<Rightarrow> ('z) tun_sys_scheme" where
  "emit e s = s\<lparr>out := out s @ [e]\<rparr>"

section \<open>Model\<close>

text \<open>The loop of \<open>pmip_tunnel_get_timer_index\<close>: \<open>first_no_mag\<close> is the first free slot seen.\<close>

fun timer_index_loop :: "in6_addr \<Rightarrow> nat \<Rightarrow> int \<Rightarrow> tunnel_timer list \<Rightarrow> int" where
  "timer_index_loop remoteP mag first_no_mag [] = first_no_mag"
| "timer_index_loop remoteP mag first_no_mag (t # ts) =
     (if tt_remote t = remoteP then int mag
      else if IN6_IS_ADDR_UNSPECIFIED (tt_remote t) \<and> first_no_mag = -1
           then timer_index_loop remoteP (mag + 1) (int mag) ts
      else timer_index_loop remoteP (mag + 1) first_no_mag ts)"

definition pmip_tunnel_get_timer_index :: "in6_addr \<Rightarrow> ('z) tun_sys_scheme \<Rightarrow> int" where
  "pmip_tunnel_get_timer_index remoteP s = timer_index_loop remoteP 0 (-1) (g_tunnel_timer_table s)"

text \<open>An access to \<open>g_tunnel_timer_table[mag_index]\<close>.\<close>

definition timer_at :: "int \<Rightarrow> ('z) tun_sys_scheme \<Rightarrow> tunnel_timer outcome" where
  "timer_at mag_index s =
     (if 0 \<le> mag_index \<and> nat mag_index < length (g_tunnel_timer_table s)
      then Done (g_tunnel_timer_table s ! nat mag_index) else Fault OutOfBounds)"

definition set_timer_at :: "int \<Rightarrow> tunnel_timer \<Rightarrow> ('z) tun_sys_scheme \<Rightarrow> ('z) tun_sys_scheme" where
  "set_timer_at mag_index t s =
     s\<lparr>g_tunnel_timer_table := (g_tunnel_timer_table s)[nat mag_index := t]\<rparr>"

definition pmip_tunnel_set_timer ::
  "env \<Rightarrow> in6_addr \<Rightarrow> timespec \<Rightarrow> ('z) tun_sys_scheme \<Rightarrow> ('z) tun_sys_scheme outcome" where
  "pmip_tunnel_set_timer en remoteP time_outP s =
     (let expires = tsadd (now en) time_outP;
          mag_index = pmip_tunnel_get_timer_index remoteP s;
          arm = (\<lambda>t s. (set_timer_at mag_index (t\<lparr>tt_lifetime := expires\<rparr>) s)
                   \<lparr>tqs := add_task_abs expires (TqTunnel (nat mag_index)) Tunnel_expired (tqs s)\<rparr>)
      in andThen (timer_at mag_index s) (\<lambda>t.
        if tv_nsec (tt_lifetime t) = 0 \<and> tv_sec (tt_lifetime t) = 0 then Done (arm t s)
        else if tsafter (tt_lifetime t) expires
          then Done (arm t (s\<lparr>tqs := del_task (TqTunnel (nat mag_index)) (tqs s)\<rparr>))
        else Done s))"

definition pmip_tunnel_add ::
  "config \<Rightarrow> env \<Rightarrow> in6_addr \<Rightarrow> in6_addr \<Rightarrow> int \<Rightarrow> ('z) tun_sys_scheme \<Rightarrow> (int \<times> ('z) tun_sys_scheme) outcome" where
  "pmip_tunnel_add conf en localP remoteP linkP s =
     (if TunnelingEnabled conf then
        let mag_index = pmip_tunnel_get_timer_index remoteP s in
        andThen (timer_at mag_index s) (\<lambda>t.
          let create = (\<lambda>s. let (tunnel, c) = tunnel_add (kern en) None localP remoteP linkP (tctl s)
                  in (tunnel, set_timer_at mag_index (t\<lparr>tt_tunnel := tunnel, tt_remote := remoteP\<rparr>) (s\<lparr>tctl := c\<rparr>)))
          in if DynamicTunnelingEnabled conf then
               if tv_nsec (tt_lifetime t) = 0 \<and> tv_sec (tt_lifetime t) = 0 then Done (create s)
               else Done (tt_tunnel t, s\<lparr>tqs := del_task (TqTunnel (nat mag_index)) (tqs s)\<rparr>)
             else if tt_remote t = remoteP then Done (tt_tunnel t, s)
             else if IN6_IS_ADDR_UNSPECIFIED (tt_remote t) then Done (create s)
             else Done (-1, s))
      else Done (0, s))"

text \<open>The search for the slot of a tunnel in \<open>pmip_tunnel_del\<close>.\<close>

fun find_slot :: "int \<Rightarrow> nat \<Rightarrow> tunnel_timer list \<Rightarrow> nat option" where
  "find_slot tunnelP mag [] = None"
| "find_slot tunnelP mag (t # ts) = (if tt_tunnel t = tunnelP then Some mag else find_slot tunnelP (mag + 1) ts)"

definition pmip_tunnel_del ::
  "config \<Rightarrow> env \<Rightarrow> int \<Rightarrow> ('z) tun_sys_scheme \<Rightarrow> (int \<times> ('z) tun_sys_scheme) outcome" where
  "pmip_tunnel_del conf en tunnelP s =
     (if TunnelingEnabled conf then
        if tunnelP > 0 then
          if DynamicTunnelingEnabled conf then
            if tunnel_getusers tunnelP (tctl s) = 1 then
              case find_slot tunnelP 0 (g_tunnel_timer_table s) of
                None \<Rightarrow> Fault AssertFail
              | Some mag_index \<Rightarrow>
                  andThen (pmip_tunnel_set_timer en (tt_remote (g_tunnel_timer_table s ! mag_index))
                             (MaxDelayBeforeDynamicTunnelingDelete conf) s)
                    (\<lambda>s'. Done (0, s'))
            else let (res, c) = tunnel_del (kern en) tunnelP (tctl s) in Done (res, s\<lparr>tctl := c\<rparr>)
          else Done (0, s)
        else Done (-1, s)
      else Done (0, s))"

definition fmpmip_lma_to_mag_routing_tables_init :: "int \<Rightarrow> u32 \<Rightarrow> ('z) tun_sys_scheme \<Rightarrow> ('z) tun_sys_scheme" where
  "fmpmip_lma_to_mag_routing_tables_init tunnel_index table_number s =
     (let table = unat (ucast table_number :: u8) in
      emit (RouteAdd tunnel_index table IP6_RULE_PRIO_FMPMIP6_MAG_ROUTE_TABLE (in6addr_any, 0) (in6addr_any, 0))
        (emit (RouteDel tunnel_index table IP6_RT_PRIO_MIP6_OUT (in6addr_any, 0) (in6addr_any, 0)) s))"

definition tunnel_timer_zero :: tunnel_timer where
  "tunnel_timer_zero = \<lparr>tt_lifetime = tszero, tt_tunnel = 0, tt_remote = in6addr_any\<rparr>"

fun static_tunnels :: "config \<Rightarrow> env \<Rightarrow> nat list \<Rightarrow> ('z) tun_sys_scheme \<Rightarrow> ('z) tun_sys_scheme outcome" where
  "static_tunnels conf en [] s = Done s"
| "static_tunnels conf en (mag # mags) s =
     andThen (pmip_tunnel_add conf en (LmaAddress conf) (MagAddressEgress conf mag) (link_index en) s)
       (\<lambda>(tunnel_index, s1). static_tunnels conf en mags
          (fmpmip_lma_to_mag_routing_tables_init tunnel_index (MAGRoutingLookupTable conf mag) s1))"

definition pmip_tunnels_init :: "config \<Rightarrow> env \<Rightarrow> ('z) tun_sys_scheme \<Rightarrow> ('z) tun_sys_scheme outcome" where
  "pmip_tunnels_init conf en s0 =
     (let s = s0\<lparr>g_tunnel_timer_table := replicate PMIP_MAX_MAGS tunnel_timer_zero\<rparr> in
      if TunnelingEnabled conf \<and> \<not> DynamicTunnelingEnabled conf then
        if is_ha conf then static_tunnels conf en [0..<NumMags conf] s
        else if is_mag conf then
          andThen (pmip_tunnel_add conf en (MagAddressEgress conf 0) (LmaAddress conf) (link_index en) s)
            (\<lambda>(_, s1). Done s1)
        else Done s
      else Done s)"

section \<open>The timer table\<close>

text \<open>No two slots serve the same peer.\<close>

definition timers_wf :: "('z) tun_sys_scheme \<Rightarrow> bool" where
  "timers_wf s \<longleftrightarrow> length (g_tunnel_timer_table s) = PMIP_MAX_MAGS
     \<and> (\<forall>i < PMIP_MAX_MAGS. \<forall>j < PMIP_MAX_MAGS.
          tt_remote (g_tunnel_timer_table s ! i) = tt_remote (g_tunnel_timer_table s ! j)
          \<longrightarrow> tt_remote (g_tunnel_timer_table s ! i) \<noteq> in6addr_any \<longrightarrow> i = j)"

lemma ex_shift:
  assumes "\<exists>i < length ts. x = int (m + 1 + i) \<and> P (ts ! i)"
  shows "\<exists>i < length (t # ts). x = int (m + i) \<and> P ((t # ts) ! i)"
proof -
  obtain i where "i < length ts" "x = int (m + 1 + i)" "P (ts ! i)" using assms by blast
  then show ?thesis by (intro exI [of _ "Suc i"]) simp
qed

lemma timer_index_loop_cases:
  "(\<exists>i < length ts. timer_index_loop r m f ts = int (m + i) \<and> tt_remote (ts ! i) = r)
   \<or> ((\<forall>t \<in> set ts. tt_remote t \<noteq> r) \<and>
      (timer_index_loop r m f ts = f \<and> (f \<noteq> -1 \<or> (\<forall>t \<in> set ts. tt_remote t \<noteq> in6addr_any))
       \<or> (\<exists>i < length ts. f = -1 \<and> timer_index_loop r m f ts = int (m + i) \<and> tt_remote (ts ! i) = in6addr_any)))"
proof (induction r m f ts rule: timer_index_loop.induct)
  case (2 r m f t ts)
  consider "tt_remote t = r" | "tt_remote t \<noteq> r" "tt_remote t = in6addr_any" "f = -1"
    | "tt_remote t \<noteq> r" "\<not> (tt_remote t = in6addr_any \<and> f = -1)" by blast
  then show ?case
  proof cases
    case 1
    then show ?thesis by auto
  next
    case 2
    then have step: "timer_index_loop r m f (t # ts) = timer_index_loop r (m + 1) (int m) ts" by simp
    consider "\<exists>i < length ts. timer_index_loop r (m + 1) (int m) ts = int (m + 1 + i) \<and> tt_remote (ts ! i) = r"
      | "\<forall>t \<in> set ts. tt_remote t \<noteq> r" "timer_index_loop r (m + 1) (int m) ts = int m"
      using "2.IH"(1) [OF 2(1)] 2(2,3) by auto
    then show ?thesis
    proof cases
      case 1
      then show ?thesis unfolding step by (intro disjI1) (rule ex_shift [where P = "\<lambda>t. tt_remote t = r"])
    next
      case 2
      then show ?thesis unfolding step using \<open>tt_remote t \<noteq> r\<close> \<open>tt_remote t = in6addr_any\<close> \<open>f = -1\<close>
        by (intro disjI2 conjI) (auto intro!: exI [of _ 0])
    qed
  next
    case 3
    then have step: "timer_index_loop r m f (t # ts) = timer_index_loop r (m + 1) f ts" by auto
    consider "\<exists>i < length ts. timer_index_loop r (m + 1) f ts = int (m + 1 + i) \<and> tt_remote (ts ! i) = r"
      | "\<forall>t \<in> set ts. tt_remote t \<noteq> r" "timer_index_loop r (m + 1) f ts = f"
        "f \<noteq> -1 \<or> (\<forall>t \<in> set ts. tt_remote t \<noteq> in6addr_any)"
      | "\<forall>t \<in> set ts. tt_remote t \<noteq> r" "f = -1"
        "\<exists>i < length ts. timer_index_loop r (m + 1) f ts = int (m + 1 + i) \<and> tt_remote (ts ! i) = in6addr_any"
      using "2.IH"(2) [OF 3] by auto
    then show ?thesis
    proof cases
      case 1
      then show ?thesis unfolding step by (intro disjI1) (rule ex_shift [where P = "\<lambda>t. tt_remote t = r"])
    next
      case 2
      then show ?thesis unfolding step using 3 by auto
    next
      case 3
      then have "\<exists>i < length (t # ts). timer_index_loop r (m + 1) f ts = int (m + i) \<and> tt_remote ((t # ts) ! i) = in6addr_any"
        by (intro ex_shift [where P = "\<lambda>t. tt_remote t = in6addr_any"])
      then show ?thesis unfolding step using 3 \<open>tt_remote t \<noteq> r\<close> by auto
    qed
  qed
qed simp

lemma get_timer_index_hit:
  assumes "timers_wf s" "i < PMIP_MAX_MAGS" "tt_remote (g_tunnel_timer_table s ! i) = r" "r \<noteq> in6addr_any"
  shows "pmip_tunnel_get_timer_index r s = int i"
proof -
  have len: "length (g_tunnel_timer_table s) = PMIP_MAX_MAGS" using assms(1) by (simp add: timers_wf_def)
  then have "g_tunnel_timer_table s ! i \<in> set (g_tunnel_timer_table s)" using assms(2) by simp
  then obtain j where j: "j < PMIP_MAX_MAGS" "pmip_tunnel_get_timer_index r s = int j"
      "tt_remote (g_tunnel_timer_table s ! j) = r"
    using timer_index_loop_cases [of "g_tunnel_timer_table s" r 0 "-1"] assms(3) len
    by (auto simp: pmip_tunnel_get_timer_index_def)
  then have "i = j" using assms by (auto simp: timers_wf_def)
  with j show ?thesis by simp
qed

lemma find_slot_Some:
  "find_slot t m ts = Some k \<Longrightarrow> m \<le> k \<and> k - m < length ts \<and> tt_tunnel (ts ! (k - m)) = t"
proof (induction ts arbitrary: m)
  case (Cons a ts)
  show ?case
  proof (cases "tt_tunnel a = t")
    case False
    then have "find_slot t (m + 1) ts = Some k" using Cons.prems by simp
    from Cons.IH [OF this] show ?thesis by (auto simp: nth_Cons' Suc_diff_le)
  qed (use Cons.prems in auto)
qed simp

section \<open>What the tunnel operations leave alone\<close>

text \<open>Apart from the tunnels and their timers nothing changes, and the timers of bindings stay as they are.\<close>

definition tun_frame :: "('z) tun_sys_scheme \<Rightarrow> ('z) tun_sys_scheme \<Rightarrow> bool" where
  "tun_frame s s' \<longleftrightarrow> (\<exists>c g q. s' = s\<lparr>tctl := c, g_tunnel_timer_table := g, tqs := q\<rparr>
     \<and> (\<forall>p. task q (TqBce p) = task (tqs s) (TqBce p))
     \<and> (tq_inv (tqs s) \<longrightarrow> tq_inv q \<and> (\<forall>p. pending q (TqBce p) = pending (tqs s) (TqBce p))))"

lemma tun_frame_refl: "tun_frame s s"
  unfolding tun_frame_def by (intro exI [of _ "tctl s"] exI [of _ "g_tunnel_timer_table s"] exI [of _ "tqs s"]) simp

lemma tun_frameI:
  assumes "tq_inv (tqs s) \<Longrightarrow> tq_inv q \<and> (\<forall>p. pending q (TqBce p) = pending (tqs s) (TqBce p))"
    and "\<forall>p. task q (TqBce p) = task (tqs s) (TqBce p)"
  shows "tun_frame s (s\<lparr>tctl := c, g_tunnel_timer_table := g, tqs := q\<rparr>)"
  unfolding tun_frame_def using assms by blast

lemma tun_frame_trans:
  assumes "tun_frame s t" "tun_frame t u"
  shows "tun_frame s u"
proof -
  obtain c g q where t: "t = s\<lparr>tctl := c, g_tunnel_timer_table := g, tqs := q\<rparr>" "\<forall>p. task q (TqBce p) = task (tqs s) (TqBce p)"
      "tq_inv (tqs s) \<longrightarrow> tq_inv q \<and> (\<forall>p. pending q (TqBce p) = pending (tqs s) (TqBce p))"
    using assms(1) unfolding tun_frame_def by blast
  obtain c' g' q' where u: "u = t\<lparr>tctl := c', g_tunnel_timer_table := g', tqs := q'\<rparr>" "\<forall>p. task q' (TqBce p) = task (tqs t) (TqBce p)"
      "tq_inv (tqs t) \<longrightarrow> tq_inv q' \<and> (\<forall>p. pending q' (TqBce p) = pending (tqs t) (TqBce p))"
    using assms(2) unfolding tun_frame_def by blast
  have "u = s\<lparr>tctl := c', g_tunnel_timer_table := g', tqs := q'\<rparr>" using t(1) u(1) by simp
  then show ?thesis using tun_frameI [of s q' g' c'] t u(2,3) by simp
qed

lemma del_task_task [simp]: "task (del_task i q) = task q"
  by (simp add: del_task_def)

lemma tun_timer_frame:
  "tun_frame s (s\<lparr>tqs := del_task (TqTunnel i) (tqs s)\<rparr>)"
  "tsisset e \<Longrightarrow> tun_frame s (s\<lparr>g_tunnel_timer_table := g, tqs := add_task_abs e (TqTunnel i) t (tqs s)\<rparr>)"
  "tsisset e \<Longrightarrow> tun_frame s (s\<lparr>g_tunnel_timer_table := g,
     tqs := add_task_abs e (TqTunnel i) t (del_task (TqTunnel j) (tqs s))\<rparr>)"
  "tun_frame s (s\<lparr>tctl := c\<rparr>)" "tun_frame s (s\<lparr>tctl := c, g_tunnel_timer_table := g\<rparr>)"
  using tun_frameI [of s "del_task (TqTunnel i) (tqs s)" "g_tunnel_timer_table s" "tctl s"]
    tun_frameI [of s "add_task_abs e (TqTunnel i) t (tqs s)" g "tctl s"]
    tun_frameI [of s "add_task_abs e (TqTunnel i) t (del_task (TqTunnel j) (tqs s))" g "tctl s"]
    tun_frameI [of s "tqs s" "g_tunnel_timer_table s" c] tun_frameI [of s "tqs s" g c]
  by (simp_all add: tq.invar_del tq.pend_del tq.invar_add tq.pend_add add_task_abs_fields)

lemma pmip_tunnel_add_frame:
  "pmip_tunnel_add conf en l r k s = Done (t, s') \<Longrightarrow> tun_frame s s'"
  by (auto simp: pmip_tunnel_add_def andThen_Done_iff Let_def set_timer_at_def tun_timer_frame tun_frame_refl
      split: if_splits prod.splits)

lemma pmip_tunnel_del_frame:
  assumes "pmip_tunnel_del conf en t s = Done (r, s')" "tsisset (tsadd (now en) (MaxDelayBeforeDynamicTunnelingDelete conf))"
  shows "tun_frame s s'"
  using assms
  by (auto simp: pmip_tunnel_del_def pmip_tunnel_set_timer_def andThen_Done_iff Let_def set_timer_at_def
      tun_timer_frame tun_frame_refl split: if_splits prod.splits option.splits)

text \<open>There is a slot for the peer: the peer has one, or one is free.\<close>

definition slot_for :: "in6_addr \<Rightarrow> ('z) tun_sys_scheme \<Rightarrow> bool" where
  "slot_for r s \<longleftrightarrow> 0 \<le> pmip_tunnel_get_timer_index r s
     \<and> nat (pmip_tunnel_get_timer_index r s) < length (g_tunnel_timer_table s)"

lemma pmip_tunnel_add_Done: "slot_for r s \<Longrightarrow> \<exists>t s'. pmip_tunnel_add conf en l r k s = Done (t, s')"
  by (auto simp: pmip_tunnel_add_def slot_for_def timer_at_def Let_def split: prod.splits)

section \<open>Properties\<close>

text \<open>When every slot of the timer table is taken by other peers, asking for a tunnel to a new
  peer indexes the table with -1.\<close>

lemma pmip_tunnel_table_full:
  assumes "TunnelingEnabled conf"
    and "\<forall>t \<in> set (g_tunnel_timer_table s). tt_remote t \<noteq> remoteP \<and> tt_remote t \<noteq> in6addr_any"
  shows "pmip_tunnel_add conf en localP remoteP linkP s = Fault OutOfBounds"
proof -
  have "pmip_tunnel_get_timer_index remoteP s = -1"
    using timer_index_loop_cases [of "g_tunnel_timer_table s" remoteP 0 "-1"] assms(2)
    by (auto simp: pmip_tunnel_get_timer_index_def)
  then show ?thesis using assms(1) by (simp add: pmip_tunnel_add_def timer_at_def)
qed

lemma pmip_tunnel_table_full_witness:
  "\<forall>en. pmip_tunnel_add conf_example en in6addr_any (In6 9 0 0 0 0 0 0 0 0 0 0 0 0 0 0 9) 1
     \<lparr>tctl = tunnelctl_init,
      g_tunnel_timer_table = replicate PMIP_MAX_MAGS (tunnel_timer_zero\<lparr>tt_remote := In6 8 0 0 0 0 0 0 0 0 0 0 0 0 0 0 8\<rparr>),
      tqs = tq_init, out = []\<rparr> = Fault OutOfBounds"
  by (intro allI pmip_tunnel_table_full) (simp_all add: conf_example_def in6addr_any_def)

text \<open>With tunnels created on demand, giving up the last use of a tunnel whose removal timer is not
  running keeps the tunnel and its user count and arms the timer of its slot for the configured
  delay; giving up another use takes one user away.\<close>

lemma pmip_tunnel_del_delays:
  assumes "TunnelingEnabled conf" "DynamicTunnelingEnabled conf" "0 < tunnel"
    and "timers_wf s" "tq_inv (tqs s)"
    and "find_slot tunnel 0 (g_tunnel_timer_table s) = Some i"
    and "tt_remote (g_tunnel_timer_table s ! i) \<noteq> in6addr_any"
    and "tt_lifetime (g_tunnel_timer_table s ! i) = tszero"
  shows "\<exists>res s'. pmip_tunnel_del conf en tunnel s = Done (res, s') \<and> timers_wf s' \<and>
    (if tunnel_getusers tunnel (tctl s) = 1
     then res = 0 \<and> tctl s' = tctl s
       \<and> pending (tqs s') = (pending (tqs s))(TqTunnel i \<mapsto> tsadd (now en) (MaxDelayBeforeDynamicTunnelingDelete conf))
       \<and> tt_lifetime (g_tunnel_timer_table s' ! i) = tsadd (now en) (MaxDelayBeforeDynamicTunnelingDelete conf)
     else tctl s' = snd (tunnel_del (kern en) tunnel (tctl s)) \<and> tqs s' = tqs s)"
proof -
  let ?t = "g_tunnel_timer_table s ! i" and ?e = "tsadd (now en) (MaxDelayBeforeDynamicTunnelingDelete conf)"
  have i: "i < PMIP_MAX_MAGS" using find_slot_Some [OF assms(6)] assms(4) by (simp add: timers_wf_def)
  have idx: "pmip_tunnel_get_timer_index (tt_remote ?t) s = int i"
    by (rule get_timer_index_hit [OF assms(4) i refl assms(7)])
  have len: "length (g_tunnel_timer_table s) = PMIP_MAX_MAGS" using assms(4) by (simp add: timers_wf_def)
  have remotes: "tt_remote ((g_tunnel_timer_table s)[i := ?t\<lparr>tt_lifetime := ?e\<rparr>] ! j) = tt_remote (g_tunnel_timer_table s ! j)" for j
    using i len by (cases "j = i") simp_all
  show ?thesis
  proof (cases "tunnel_getusers tunnel (tctl s) = 1")
    case True
    have wf: "timers_wf (s\<lparr>g_tunnel_timer_table := (g_tunnel_timer_table s)[i := ?t\<lparr>tt_lifetime := ?e\<rparr>], tqs := q\<rparr>)" for q
      using assms(4) unfolding timers_wf_def by (simp add: remotes)
    show ?thesis
      using True assms idx i len tq.pend_add [OF assms(5)] wf
      by (simp add: pmip_tunnel_del_def pmip_tunnel_set_timer_def timer_at_def set_timer_at_def Let_def tszero_def)
  next
    case False
    have "timers_wf (s\<lparr>tctl := c\<rparr>) = timers_wf s" for c by (simp add: timers_wf_def)
    then show ?thesis using False assms by (simp add: pmip_tunnel_del_def split: prod.splits)
  qed
qed

lemma pmip_tunnel_del_delays_witness:
  "\<forall>en. \<exists>res s'. pmip_tunnel_del conf_example en 5
     \<lparr>tctl = \<lparr>tnl_store = (\<lambda>_. \<lparr>laddr = in6addr_any, raddr = in6addr_any, tlink = 0, ifindex = 5, users = 1\<rparr>),
        tnl_next = 1, tnl_list = [0], tnl_hash = tnl_hash tunnelctl_init\<rparr>,
      g_tunnel_timer_table = \<lparr>tt_lifetime = tszero, tt_tunnel = 5, tt_remote = In6 8 0 0 0 0 0 0 0 0 0 0 0 0 0 0 8\<rparr> #
        replicate 63 tunnel_timer_zero,
      tqs = tq_init, out = []\<rparr> = Done (res, s') \<and> pending (tqs s') (TqTunnel 0) = Some (tsadd (now en) (TS 30 0))"
proof
  fix en
  let ?s = "\<lparr>tctl = \<lparr>tnl_store = (\<lambda>_. \<lparr>laddr = in6addr_any, raddr = in6addr_any, tlink = 0, ifindex = 5, users = 1\<rparr>),
        tnl_next = 1, tnl_list = [0], tnl_hash = tnl_hash tunnelctl_init\<rparr>,
      g_tunnel_timer_table = \<lparr>tt_lifetime = tszero, tt_tunnel = 5, tt_remote = In6 8 0 0 0 0 0 0 0 0 0 0 0 0 0 0 8\<rparr> #
        replicate 63 tunnel_timer_zero,
      tqs = tq_init, out = []\<rparr>"
  have wf: "timers_wf ?s" by (auto simp: timers_wf_def nth_Cons' tunnel_timer_zero_def in6addr_any_def)
  have users: "tunnel_getusers 5 (tctl ?s) = 1" by (simp add: tunnel_getusers_def get_tnl_def)
  have "\<exists>res s'. pmip_tunnel_del conf_example en 5 ?s = Done (res, s') \<and> timers_wf s' \<and>
    (if tunnel_getusers 5 (tctl ?s) = 1
     then res = 0 \<and> tctl s' = tctl ?s
       \<and> pending (tqs s') = (pending (tqs ?s))(TqTunnel 0 \<mapsto> tsadd (now en) (MaxDelayBeforeDynamicTunnelingDelete conf_example))
       \<and> tt_lifetime (g_tunnel_timer_table s' ! 0) = tsadd (now en) (MaxDelayBeforeDynamicTunnelingDelete conf_example)
     else tctl s' = snd (tunnel_del (kern en) 5 (tctl ?s)) \<and> tqs s' = tqs ?s)"
    by (rule pmip_tunnel_del_delays [OF _ _ _ wf]) (simp_all add: conf_example_def tq_inv_init in6addr_any_def)
  then show "\<exists>res s'. pmip_tunnel_del conf_example en 5 ?s = Done (res, s')
      \<and> pending (tqs s') (TqTunnel 0) = Some (tsadd (now en) (TS 30 0))"
    unfolding users by (auto simp: conf_example_def)
qed

text \<open>Once the removal timer of a slot has been armed, asking for the tunnel again cancels the timer
  but leaves the slot marked and the user count alone, so that any number of further users is
  never counted.\<close>

lemma tunnel_reuse_not_counted:
  assumes "TunnelingEnabled conf" "DynamicTunnelingEnabled conf"
    and "timers_wf s" "i < PMIP_MAX_MAGS" "tt_remote (g_tunnel_timer_table s ! i) = remoteP" "remoteP \<noteq> in6addr_any"
    and "tsisset (tt_lifetime (g_tunnel_timer_table s ! i))"
  shows "\<exists>s'. pmip_tunnel_add conf en localP remoteP linkP s = Done (tt_tunnel (g_tunnel_timer_table s ! i), s')
    \<and> tctl s' = tctl s \<and> g_tunnel_timer_table s' = g_tunnel_timer_table s
    \<and> tqs s' = del_task (TqTunnel i) (tqs s)"
  using assms get_timer_index_hit [OF assms(3-6)]
  by (auto simp: pmip_tunnel_add_def timer_at_def timers_wf_def tsisset_def Let_def)

lemma tunnel_reuse_not_counted_witness:
  "\<forall>en. \<exists>s'. pmip_tunnel_add conf_example en in6addr_any (In6 8 0 0 0 0 0 0 0 0 0 0 0 0 0 0 8) 1
     \<lparr>tctl = tunnelctl_init,
      g_tunnel_timer_table = \<lparr>tt_lifetime = TS 7 0, tt_tunnel = 5, tt_remote = In6 8 0 0 0 0 0 0 0 0 0 0 0 0 0 0 8\<rparr> #
        replicate 63 tunnel_timer_zero,
      tqs = tq_init, out = []\<rparr> = Done (5, s') \<and> tctl s' = tunnelctl_init"
proof
  fix en
  let ?s = "\<lparr>tctl = tunnelctl_init,
      g_tunnel_timer_table = \<lparr>tt_lifetime = TS 7 0, tt_tunnel = 5, tt_remote = In6 8 0 0 0 0 0 0 0 0 0 0 0 0 0 0 8\<rparr> #
        replicate 63 tunnel_timer_zero, tqs = tq_init, out = []\<rparr>"
  have wf: "timers_wf ?s" by (auto simp: timers_wf_def nth_Cons' tunnel_timer_zero_def in6addr_any_def)
  have "\<exists>s'. pmip_tunnel_add conf_example en in6addr_any (In6 8 0 0 0 0 0 0 0 0 0 0 0 0 0 0 8) 1 ?s
      = Done (tt_tunnel (g_tunnel_timer_table ?s ! 0), s') \<and> tctl s' = tctl ?s
      \<and> g_tunnel_timer_table s' = g_tunnel_timer_table ?s \<and> tqs s' = del_task (TqTunnel 0) (tqs ?s)"
    by (rule tunnel_reuse_not_counted [OF _ _ wf]) (simp_all add: conf_example_def tsisset_def in6addr_any_def)
  then show "\<exists>s'. pmip_tunnel_add conf_example en in6addr_any (In6 8 0 0 0 0 0 0 0 0 0 0 0 0 0 0 8) 1 ?s = Done (5, s')
      \<and> tctl s' = tunnelctl_init" by auto
qed

end
