(* ===== verification/Client_Route.thy ===== *)
theory Client_Route
  imports Pmip_Tunnel
begin

text \<open>
  \<open>src/src/pmip/fmpmip/fmpmip_client_route.c\<close>: for each client of the anchor, the list of gateways it is
  reached through with their firewall marks.  The two linked lists are modelled as lists, head
  first.  The locks of the list and of its elements only bracket these operations and are not
  part of the state.
\<close>

section \<open>Model\<close>

record mag =
  ip6_addr :: in6_addr
  mag_mark :: u32

record route =
  r_client_nai :: ip6mn_nai
  r_mag :: "mag list"

record client_routes =
  list_HEAD :: "route list"
  number_of_clients :: int
  number_of_routes :: int

definition client_route_init :: client_routes where
  "client_route_init = \<lparr>list_HEAD = [], number_of_clients = 0, number_of_routes = 0\<rparr>"

fun mag_mark_loop :: "config \<Rightarrow> in6_addr \<Rightarrow> nat list \<Rightarrow> u32" where
  "mag_mark_loop conf a [] = 0"
| "mag_mark_loop conf a (i # is) =
     (if MagAddressEgress conf i = a then MagRoutingMark conf i else mag_mark_loop conf a is)"

definition get_mag_mark :: "config \<Rightarrow> in6_addr \<Rightarrow> u32" where
  "get_mag_mark conf mag_address = mag_mark_loop conf mag_address [0..<NumMags conf]"

fun find_client :: "ip6mn_nai \<Rightarrow> route list \<Rightarrow> route option" where
  "find_client nai [] = None"
| "find_client nai (r # rs) = (if r_client_nai r = nai then Some r else find_client nai rs)"

definition get_route_for_client :: "ip6mn_nai \<Rightarrow> client_routes \<Rightarrow> route option" where
  "get_route_for_client client_nai c = find_client client_nai (list_HEAD c)"

text \<open>\<open>add_client_to_list\<close>: whether the client is in the list afterwards, and the list.\<close>

definition add_client_to_list :: "bool \<Rightarrow> ip6mn_nai \<Rightarrow> route list \<Rightarrow> bool \<times> route list" where
  "add_client_to_list mem client_nai l =
     (case find_client client_nai l of
        Some _ \<Rightarrow> (True, l)
      | None \<Rightarrow> if \<not> mem then (False, l) else (True, \<lparr>r_client_nai = client_nai, r_mag = []\<rparr> # l))"

definition add_mag_to_client :: "config \<Rightarrow> bool \<Rightarrow> in6_addr \<Rightarrow> mag list \<Rightarrow> mag list outcome" where
  "add_mag_to_client conf mem mag_address mags =
     (if \<exists>m \<in> set mags. ip6_addr m = mag_address then Done mags
      else if \<not> mem then Fault NullDeref
      else Done (\<lparr>ip6_addr = mag_address, mag_mark = get_mag_mark conf mag_address\<rparr> # mags))"

fun update_client :: "ip6mn_nai \<Rightarrow> (mag list \<Rightarrow> mag list outcome) \<Rightarrow> route list \<Rightarrow> route list outcome" where
  "update_client nai f [] = Fault NullDeref"
| "update_client nai f (r # rs) =
     (if r_client_nai r = nai then andThen (f (r_mag r)) (\<lambda>m. Done (r\<lparr>r_mag := m\<rparr> # rs))
      else andThen (update_client nai f rs) (\<lambda>rs'. Done (r # rs')))"

definition add_client_route ::
  "config \<Rightarrow> bool \<Rightarrow> ip6mn_nai \<Rightarrow> in6_addr \<Rightarrow> client_routes \<Rightarrow> client_routes outcome" where
  "add_client_route conf mem client_nai mag_address c =
     (case add_client_to_list mem client_nai (list_HEAD c) of
        (False, _) \<Rightarrow> Done c
      | (True, l) \<Rightarrow>
          andThen (update_client client_nai (add_mag_to_client conf mem mag_address) l) (\<lambda>l'.
            Done (c\<lparr>list_HEAD := l', number_of_routes := number_of_routes c + 1\<rparr>)))"

text \<open>Unlinking a gateway: \<open>tmp->next\<close> is read without testing that the gateway was found.\<close>

fun unlink_mag :: "in6_addr \<Rightarrow> mag list \<Rightarrow> mag list outcome" where
  "unlink_mag a [] = Fault NullDeref"
| "unlink_mag a (m # ms) =
     (if ip6_addr m = a then Done ms else andThen (unlink_mag a ms) (\<lambda>ms'. Done (m # ms')))"

fun unlink_client :: "ip6mn_nai \<Rightarrow> route list \<Rightarrow> route list outcome" where
  "unlink_client nai [] = Fault NullDeref"
| "unlink_client nai (r # rs) =
     (if r_client_nai r = nai then Done rs else andThen (unlink_client nai rs) (\<lambda>rs'. Done (r # rs')))"

definition remove_client :: "ip6mn_nai \<Rightarrow> client_routes \<Rightarrow> client_routes outcome" where
  "remove_client client_nai c =
     andThen (unlink_client client_nai (list_HEAD c)) (\<lambda>l.
       Done (c\<lparr>list_HEAD := l, number_of_clients := number_of_clients c - 1\<rparr>))"

definition remove_client_route :: "ip6mn_nai \<Rightarrow> in6_addr \<Rightarrow> client_routes \<Rightarrow> client_routes outcome" where
  "remove_client_route client_nai mag_address c =
     andThen (update_client client_nai (unlink_mag mag_address) (list_HEAD c)) (\<lambda>l.
       case find_client client_nai l of
         Some r \<Rightarrow> if r_mag r = [] then remove_client client_nai (c\<lparr>list_HEAD := l\<rparr>)
                   else Done (c\<lparr>list_HEAD := l\<rparr>)
       | None \<Rightarrow> Done (c\<lparr>list_HEAD := l\<rparr>))"

fun route_loop :: "(route \<Rightarrow> 's \<Rightarrow> int \<times> 's) \<Rightarrow> route list \<Rightarrow> 's \<Rightarrow> int \<times> 's" where
  "route_loop f [] s = (0, s)"
| "route_loop f (r # rs) s = (case f r s of (err, s') \<Rightarrow> if err \<noteq> 0 then (err, s') else route_loop f rs s')"

definition client_route_iterate :: "(route \<Rightarrow> 's \<Rightarrow> int \<times> 's) \<Rightarrow> client_routes \<Rightarrow> 's \<Rightarrow> int \<times> 's" where
  "client_route_iterate f c s = route_loop f (list_HEAD c) s"

section \<open>The routes as a relation\<close>

definition routes_of :: "client_routes \<Rightarrow> ip6mn_nai \<Rightarrow> in6_addr list" where
  "routes_of c nai = (case get_route_for_client nai c of None \<Rightarrow> [] | Some r \<Rightarrow> map ip6_addr (r_mag r))"

definition routes_inv :: "config \<Rightarrow> client_routes \<Rightarrow> bool" where
  "routes_inv conf c \<longleftrightarrow> distinct (map r_client_nai (list_HEAD c))
     \<and> (\<forall>r \<in> set (list_HEAD c). r_mag r \<noteq> [] \<and> distinct (map ip6_addr (r_mag r))
          \<and> (\<forall>m \<in> set (r_mag r). mag_mark m = get_mag_mark conf (ip6_addr m)))"

lemma find_client_Some: "find_client nai l = Some r \<Longrightarrow> r \<in> set l \<and> r_client_nai r = nai"
  by (induction l) (auto split: if_splits)

lemma find_client_None: "find_client nai l = None \<longleftrightarrow> nai \<notin> r_client_nai ` set l"
  by (induction l) auto

text \<open>Changing the list of one client.\<close>

lemma update_client_Done:
  assumes "find_client nai l = Some r" "f (r_mag r) = Done m"
  shows "\<exists>l'. update_client nai f l = Done l' \<and> map r_client_nai l' = map r_client_nai l
    \<and> (\<forall>n. find_client n l' = (if n = nai then Some (r\<lparr>r_mag := m\<rparr>) else find_client n l))
    \<and> set l' \<subseteq> insert (r\<lparr>r_mag := m\<rparr>) (set l) \<and> (distinct (map r_client_nai l) \<longrightarrow> set l' = insert (r\<lparr>r_mag := m\<rparr>) (set l - {r}))"
  using assms
proof (induction l)
  case (Cons a l)
  show ?case
  proof (cases "r_client_nai a = nai")
    case True
    then have "r = a" using Cons.prems(1) by simp
    then show ?thesis using True Cons.prems(2) by (auto simp: image_iff)
  next
    case False
    then have f: "find_client nai l = Some r" using Cons.prems(1) by simp
    then have "r \<in> set l" "r \<noteq> a" using find_client_Some [OF f] False by auto
    moreover obtain l' where "update_client nai f l = Done l'" "map r_client_nai l' = map r_client_nai l"
      "\<forall>n. find_client n l' = (if n = nai then Some (r\<lparr>r_mag := m\<rparr>) else find_client n l)"
      "set l' \<subseteq> insert (r\<lparr>r_mag := m\<rparr>) (set l)"
      "distinct (map r_client_nai l) \<longrightarrow> set l' = insert (r\<lparr>r_mag := m\<rparr>) (set l - {r})"
      using Cons.IH [OF f Cons.prems(2)] by blast
    ultimately show ?thesis using False by auto
  qed
qed simp

lemma update_client_missing: "find_client nai l = None \<Longrightarrow> update_client nai f l = Fault NullDeref"
  by (induction l) (auto split: if_splits)

lemma unlink_mag_Done:
  assumes "a \<in> ip6_addr ` set ms" "distinct (map ip6_addr ms)"
  shows "\<exists>ms'. unlink_mag a ms = Done ms' \<and> map ip6_addr ms' = remove1 a (map ip6_addr ms) \<and> set ms' \<subseteq> set ms"
  using assms
proof (induction ms)
  case (Cons m ms)
  show ?case
  proof (cases "ip6_addr m = a")
    case False
    then have "a \<in> ip6_addr ` set ms" using Cons.prems(1) by auto
    with Cons False show ?thesis by auto
  qed auto
qed simp

lemma unlink_mag_missing: "a \<notin> ip6_addr ` set ms \<Longrightarrow> unlink_mag a ms = Fault NullDeref"
  by (induction ms) auto

lemma unlink_client_Done:
  assumes "nai \<in> r_client_nai ` set l" "distinct (map r_client_nai l)"
  shows "\<exists>l'. unlink_client nai l = Done l' \<and> map r_client_nai l' = remove1 nai (map r_client_nai l)
    \<and> set l' = {r \<in> set l. r_client_nai r \<noteq> nai}
    \<and> (\<forall>n. find_client n l' = (if n = nai then None else find_client n l))"
  using assms
proof (induction l)
  case (Cons r l)
  show ?case
  proof (cases "r_client_nai r = nai")
    case True
    then show ?thesis using Cons.prems find_client_None [of nai l] by (auto simp: image_iff)
  next
    case False
    then have "nai \<in> r_client_nai ` set l" using Cons.prems(1) by auto
    with Cons False show ?thesis by auto
  qed
qed simp

lemma routes_of_simps:
  "find_client nai (list_HEAD c) = Some r \<Longrightarrow> routes_of c nai = map ip6_addr (r_mag r)"
  "find_client nai (list_HEAD c) = None \<Longrightarrow> routes_of c nai = []"
  by (simp_all add: routes_of_def get_route_for_client_def)

lemma routes_of_cong:
  "find_client nai (list_HEAD c) = find_client nai (list_HEAD c') \<Longrightarrow> routes_of c nai = routes_of c' nai"
  by (simp add: routes_of_def get_route_for_client_def)

section \<open>Adding and removing a route\<close>

lemma add_client_to_list_ok:
  assumes "routes_inv conf c"
  obtains l r where "add_client_to_list True nai (list_HEAD c) = (True, l)" "find_client nai l = Some r"
      "\<forall>n. n \<noteq> nai \<longrightarrow> find_client n l = find_client n (list_HEAD c)"
      "distinct (map r_client_nai l)" "set l \<subseteq> insert r (set (list_HEAD c))"
      "distinct (map ip6_addr (r_mag r))" "map ip6_addr (r_mag r) = routes_of c nai"
      "\<forall>m \<in> set (r_mag r). mag_mark m = get_mag_mark conf (ip6_addr m)"
proof (cases "find_client nai (list_HEAD c)")
  case None
  then have "nai \<notin> r_client_nai ` set (list_HEAD c)" by (simp only: find_client_None not_False_eq_True)
  with None show ?thesis
    using assms that [of "\<lparr>r_client_nai = nai, r_mag = []\<rparr> # list_HEAD c" "\<lparr>r_client_nai = nai, r_mag = []\<rparr>"]
    by (simp add: add_client_to_list_def routes_of_simps(2) [OF None] routes_inv_def subset_insertI)
next
  case (Some r)
  then have "r \<in> set (list_HEAD c)" using find_client_Some by blast
  then have "distinct (map ip6_addr (r_mag r))" "distinct (map r_client_nai (list_HEAD c))"
      "\<forall>m \<in> set (r_mag r). mag_mark m = get_mag_mark conf (ip6_addr m)"
    using assms unfolding routes_inv_def by blast+
  moreover have "add_client_to_list True nai (list_HEAD c) = (True, list_HEAD c)"
    by (simp add: add_client_to_list_def Some)
  ultimately show ?thesis
    using that [of "list_HEAD c" r] Some routes_of_simps(1) [OF Some] by (metis subset_insertI)
qed

text \<open>Adding a route records the gateway, with its configured mark, at the head of the client's list unless
  it is there already, and leaves the other clients alone; no client is left without a gateway.\<close>

lemma add_client_route_adds:
  assumes "routes_inv conf c"
  shows "\<exists>c'. add_client_route conf True nai a c = Done c' \<and> routes_inv conf c'
    \<and> routes_of c' nai = (if a \<in> set (routes_of c nai) then routes_of c nai else a # routes_of c nai)
    \<and> (\<forall>n. n \<noteq> nai \<longrightarrow> routes_of c' n = routes_of c n)"
proof -
  obtain l r where l: "add_client_to_list True nai (list_HEAD c) = (True, l)" "find_client nai l = Some r"
      "\<forall>n. n \<noteq> nai \<longrightarrow> find_client n l = find_client n (list_HEAD c)"
      "distinct (map r_client_nai l)" "set l \<subseteq> insert r (set (list_HEAD c))"
      "distinct (map ip6_addr (r_mag r))" "map ip6_addr (r_mag r) = routes_of c nai"
      "\<forall>m \<in> set (r_mag r). mag_mark m = get_mag_mark conf (ip6_addr m)"
    by (rule add_client_to_list_ok [OF assms, of nai])
  define m where "m = (if a \<in> set (routes_of c nai) then r_mag r
      else \<lparr>ip6_addr = a, mag_mark = get_mag_mark conf a\<rparr> # r_mag r)"
  have fm: "add_mag_to_client conf True a (r_mag r) = Done m"
    unfolding add_mag_to_client_def m_def l(7) [symmetric] by (auto simp: image_iff)
  obtain l' where l': "update_client nai (add_mag_to_client conf True a) l = Done l'"
      "map r_client_nai l' = map r_client_nai l"
      "\<forall>n. find_client n l' = (if n = nai then Some (r\<lparr>r_mag := m\<rparr>) else find_client n l)"
      "distinct (map r_client_nai l) \<longrightarrow> set l' = insert (r\<lparr>r_mag := m\<rparr>) (set l - {r})"
    using update_client_Done [OF l(2), where f = "add_mag_to_client conf True a", OF fm] by blast
  let ?c' = "c\<lparr>list_HEAD := l', number_of_routes := number_of_routes c + 1\<rparr>"
  have m: "m \<noteq> []" "distinct (map ip6_addr m)" "\<forall>x \<in> set m. mag_mark x = get_mag_mark conf (ip6_addr x)"
    using l(6,8) unfolding m_def l(7) [symmetric] by auto
  have "set l' \<subseteq> insert (r\<lparr>r_mag := m\<rparr>) (set (list_HEAD c))" using l'(4) l(4,5) by auto
  then have "routes_inv conf ?c'" using assms m l'(2) l(4) by (auto simp: routes_inv_def)
  moreover have "routes_of ?c' nai = map ip6_addr m"
    by (rule routes_of_simps(1) [of _ _ "r\<lparr>r_mag := m\<rparr>", simplified]) (simp add: l'(3))
  moreover have "routes_of ?c' n = routes_of c n" if "n \<noteq> nai" for n
    by (rule routes_of_cong) (simp add: l'(3) l(3) that)
  moreover have "add_client_route conf True nai a c = Done ?c'" by (simp add: add_client_route_def l(1) l'(1))
  ultimately show ?thesis using l(7) by (auto simp: m_def)
qed

lemma update_client_fault:
  "find_client nai l = Some r \<Longrightarrow> f (r_mag r) = Fault e \<Longrightarrow> update_client nai f l = Fault e"
  by (induction l) (auto split: if_splits)

lemma remove_client_route_missing:
  assumes "a \<notin> set (routes_of c nai)"
  shows "remove_client_route nai a c = Fault NullDeref"
proof (cases "find_client nai (list_HEAD c)")
  case None
  then show ?thesis by (simp add: remove_client_route_def update_client_missing)
next
  case (Some r)
  then have "unlink_mag a (r_mag r) = Fault NullDeref"
    using assms unlink_mag_missing by (auto simp: routes_of_simps(1) [OF Some])
  then show ?thesis using update_client_fault [OF Some] by (simp add: remove_client_route_def)
qed

text \<open>Taking a client out of the list once its last gateway is gone.\<close>

lemma remove_last_route:
  assumes "routes_inv conf c" "find_client nai (list_HEAD c) = Some r"
    and "map r_client_nai l' = map r_client_nai (list_HEAD c)" "set l' = insert (r\<lparr>r_mag := []\<rparr>) (set (list_HEAD c) - {r})"
    and "\<forall>n. find_client n l' = (if n = nai then Some (r\<lparr>r_mag := []\<rparr>) else find_client n (list_HEAD c))"
  shows "\<exists>c'. remove_client nai (c\<lparr>list_HEAD := l'\<rparr>) = Done c' \<and> routes_inv conf c' \<and> routes_of c' nai = []
    \<and> (\<forall>n. n \<noteq> nai \<longrightarrow> routes_of c' n = routes_of c n)"
proof -
  have r: "r_client_nai r = nai" using find_client_Some [OF assms(2)] by simp
  have dn: "distinct (map r_client_nai (list_HEAD c))" using assms(1) by (simp add: routes_inv_def)
  have "nai \<in> r_client_nai ` set l'" using assms(4) r by auto
  moreover have "distinct (map r_client_nai l')" using assms(3) dn by simp
  ultimately obtain l2 where l2: "unlink_client nai l' = Done l2"
      "map r_client_nai l2 = remove1 nai (map r_client_nai l')" "set l2 = {x \<in> set l'. r_client_nai x \<noteq> nai}"
      "\<forall>n. find_client n l2 = (if n = nai then None else find_client n l')"
    using unlink_client_Done by blast
  let ?c' = "c\<lparr>list_HEAD := l2, number_of_clients := number_of_clients c - 1\<rparr>"
  have "remove_client nai (c\<lparr>list_HEAD := l'\<rparr>) = Done ?c'" by (simp add: remove_client_def l2(1))
  moreover have "routes_inv conf ?c'" using assms(1,3,4) l2(2,3) dn r by (auto simp: routes_inv_def)
  moreover have "routes_of ?c' nai = []" by (rule routes_of_simps(2)) (simp add: l2(4))
  moreover have "routes_of ?c' n = routes_of c n" if "n \<noteq> nai" for n
    by (rule routes_of_cong) (simp add: l2(4) assms(5) that)
  ultimately show ?thesis by blast
qed

lemma remove_client_route_removes:
  assumes "routes_inv conf c" "a \<in> set (routes_of c nai)"
  shows "\<exists>c'. remove_client_route nai a c = Done c' \<and> routes_inv conf c'
    \<and> routes_of c' nai = remove1 a (routes_of c nai) \<and> (\<forall>n. n \<noteq> nai \<longrightarrow> routes_of c' n = routes_of c n)"
proof -
  obtain r where Some: "find_client nai (list_HEAD c) = Some r"
    using assms(2) by (cases "find_client nai (list_HEAD c)") (auto simp: routes_of_simps(2))
  have r: "r \<in> set (list_HEAD c)" "r_client_nai r = nai" using find_client_Some [OF Some] by auto
  have dr: "distinct (map ip6_addr (r_mag r))" and dn: "distinct (map r_client_nai (list_HEAD c))"
    and mk: "\<forall>x \<in> set (r_mag r). mag_mark x = get_mag_mark conf (ip6_addr x)"
    using assms(1) r by (auto simp: routes_inv_def)
  have ro: "routes_of c nai = map ip6_addr (r_mag r)" by (rule routes_of_simps(1) [OF Some])
  obtain m where m: "unlink_mag a (r_mag r) = Done m" "map ip6_addr m = remove1 a (routes_of c nai)"
      "set m \<subseteq> set (r_mag r)"
    using unlink_mag_Done [of a "r_mag r"] dr assms(2) by (auto simp: ro)
  obtain l' where l': "update_client nai (unlink_mag a) (list_HEAD c) = Done l'"
      "map r_client_nai l' = map r_client_nai (list_HEAD c)"
      "\<forall>n. find_client n l' = (if n = nai then Some (r\<lparr>r_mag := m\<rparr>) else find_client n (list_HEAD c))"
      "set l' = insert (r\<lparr>r_mag := m\<rparr>) (set (list_HEAD c) - {r})"
    using update_client_Done [OF Some, where f = "unlink_mag a", OF m(1)] dn by blast
  have dm: "distinct (map ip6_addr m)" unfolding m(2) ro using dr by (rule distinct_remove1)
  show ?thesis
  proof (cases "m = []")
    case False
    let ?c' = "c\<lparr>list_HEAD := l'\<rparr>"
    have "remove_client_route nai a c = Done ?c'" using False by (simp add: remove_client_route_def l'(1,3))
    moreover have "routes_inv conf ?c'" using assms(1) False l'(2,4) m(3) mk dm by (auto simp: routes_inv_def)
    moreover have "routes_of ?c' nai = map ip6_addr m"
      by (rule routes_of_simps(1) [of _ _ "r\<lparr>r_mag := m\<rparr>", simplified]) (simp add: l'(3))
    moreover have "routes_of ?c' n = routes_of c n" if "n \<noteq> nai" for n
      by (rule routes_of_cong) (simp add: l'(3) that)
    ultimately show ?thesis using m(2) by auto
  next
    case True
    then show ?thesis
      using remove_last_route [OF assms(1) Some l'(2)] l'(1,3,4) m(2) by (simp add: remove_client_route_def)
  qed
qed

section \<open>Properties\<close>

text \<open>Adding a gateway that a client does not have puts it, with its configured mark, in front of the
  client's gateways; removing it again takes exactly it away, so that every client has the gateways
  it had before.\<close>

lemma client_route_roundtrip:
  assumes "routes_inv conf c" "a \<notin> set (routes_of c nai)"
  shows "\<exists>c1 c2. add_client_route conf True nai a c = Done c1 \<and> routes_inv conf c1 \<and> routes_of c1 nai = a # routes_of c nai
    \<and> remove_client_route nai a c1 = Done c2 \<and> routes_inv conf c2 \<and> routes_of c2 = routes_of c"
proof -
  obtain c1 where c1: "add_client_route conf True nai a c = Done c1" "routes_inv conf c1" "routes_of c1 nai = a # routes_of c nai"
      "\<forall>n. n \<noteq> nai \<longrightarrow> routes_of c1 n = routes_of c n"
    using add_client_route_adds [OF assms(1), of nai a] assms(2) by auto
  obtain c2 where c2: "remove_client_route nai a c1 = Done c2" "routes_inv conf c2" "routes_of c2 nai = routes_of c nai"
      "\<forall>n. n \<noteq> nai \<longrightarrow> routes_of c2 n = routes_of c1 n"
    using remove_client_route_removes [OF c1(2), of a nai] c1(3) by auto
  have "routes_of c2 n = routes_of c n" for n using c1(4) c2(3,4) by (cases "n = nai") simp_all
  then have "routes_of c2 = routes_of c" by blast
  then show ?thesis using c1 c2 by blast
qed

lemma client_route_roundtrip_witness:
  "\<exists>c1 c2. add_client_route conf_example True nai_zero in6addr_any client_route_init = Done c1
     \<and> remove_client_route nai_zero in6addr_any c1 = Done c2 \<and> routes_of c2 = routes_of client_route_init"
proof -
  have "routes_inv conf_example client_route_init" "in6addr_any \<notin> set (routes_of client_route_init nai_zero)"
    by (simp_all add: routes_inv_def client_route_init_def routes_of_def get_route_for_client_def)
  from client_route_roundtrip [OF this] show ?thesis by blast
qed

text \<open>Removing a gateway that the client does not have dereferences a null pointer.\<close>

lemma remove_unknown_route_faults:
  assumes "a \<notin> set (routes_of c nai)"
  shows "remove_client_route nai a c = Fault NullDeref"
  using assms by (rule remove_client_route_missing)

lemma remove_unknown_route_faults_witness:
  "remove_client_route nai_zero in6addr_any client_route_init = Fault NullDeref"
  by (rule remove_unknown_route_faults) (simp add: routes_of_def get_route_for_client_def client_route_init_def)

text \<open>The counters drift: registering a new client and removing its only route restores the list,
  but \<open>number_of_clients\<close> is one less than before and \<open>number_of_routes\<close> one more.\<close>

lemma client_counters_drift:
  assumes "get_route_for_client nai c = None"
  shows "andThen (add_client_route conf True nai a c) (remove_client_route nai a) =
    Done (c\<lparr>number_of_clients := number_of_clients c - 1, number_of_routes := number_of_routes c + 1\<rparr>)"
  using assms
  by (simp add: get_route_for_client_def add_client_route_def add_client_to_list_def add_mag_to_client_def
      remove_client_route_def remove_client_def)

lemma client_counters_drift_witness:
  "andThen (add_client_route conf_example True nai_zero in6addr_any client_route_init) (remove_client_route nai_zero in6addr_any)
   = Done \<lparr>list_HEAD = [], number_of_clients = -1, number_of_routes = 1\<rparr>"
  using client_counters_drift [of nai_zero client_route_init conf_example in6addr_any]
  by (simp add: get_route_for_client_def client_route_init_def)

end
