(* ===== verification/Pmip_Cache.thy ===== *)
theory Pmip_Cache
  imports Pmip_Tunnel
begin

text \<open>
  \<open>src/src/pmip/pmip_cache.c\<close>: the proxy binding cache.  Entries live in a heap; the hash table, the
  timers and the callers hold pointers to them, and an access to an entry that has been freed is
  a fault.  \<open>malloc\<close> hands out an address that was never used before.  \<open>held\<close> is the list of the
  locks the running thread holds; taking a lock it already holds is the fault \<open>Deadlock\<close>.
\<close>

section \<open>State\<close>

text \<open>\<open>router_ad_iface_t\<close> with its \<open>adv_prefix_t\<close>: what the router advertisements of the gateway announce.
  The two intervals and the fields \<open>AdvSendAdvert\<close> and \<open>AdvIntervalOpt\<close>, which are written once and never
  read, are left out.\<close>

record adv_prefix =
  PrefixLen :: u8
  AdvOnLinkFlag :: bool
  AdvAutonomousFlag :: bool
  AdvValidLifetime :: u32
  AdvPreferredLifetime :: u32
  AdvRouterAddr :: bool

record ra_iface =
  AdvReachableTime :: u32
  AdvRetransTimer :: u32
  AdvDefaultLifetime :: int
  AdvMobRtrSupportFlag :: bool
  AdvCurHopLimit :: u8
  AdvHomeAgentInfo :: bool
  AdvHomeAgentFlag :: bool
  HomeAgentPreference :: u16
  HomeAgentLifetime :: int
  AdvManagedFlag :: bool
  AdvOtherConfigFlag :: bool
  Adv_Prefix :: adv_prefix

definition ra_iface_zero :: ra_iface where
  "ra_iface_zero = \<lparr>AdvReachableTime = 0, AdvRetransTimer = 0, AdvDefaultLifetime = 0, AdvMobRtrSupportFlag = False,
     AdvCurHopLimit = 0, AdvHomeAgentInfo = False, AdvHomeAgentFlag = False, HomeAgentPreference = 0,
     HomeAgentLifetime = 0, AdvManagedFlag = False, AdvOtherConfigFlag = False,
     Adv_Prefix = \<lparr>PrefixLen = 0, AdvOnLinkFlag = False, AdvAutonomousFlag = False, AdvValidLifetime = 0,
       AdvPreferredLifetime = 0, AdvRouterAddr = False\<rparr>\<rparr>"

datatype lock = PmipLock | EntryLock nat | FsmLock

record pmip_sys = tun_sys +
  heap :: "nat \<Rightarrow> pmip_entry"
  alive :: "nat set"
  brk :: nat
  g_pmip_hash :: "nat pmip_hash"
  g_pmip_cache_count :: int
  last_BID :: int
  hnp :: hnp_cache
  seq :: u32
  held :: "lock list"
  router_ad_iface :: ra_iface

abbreviation (input) PMIP_CACHE_BUCKETS :: nat where "PMIP_CACHE_BUCKETS \<equiv> 128"

definition acquire :: "lock \<Rightarrow> ('z) pmip_sys_scheme \<Rightarrow> ('z) pmip_sys_scheme outcome" where
  "acquire l s = (if l \<in> set (held s) then Fault Deadlock else Done (s\<lparr>held := l # held s\<rparr>))"

definition release :: "lock \<Rightarrow> ('z) pmip_sys_scheme \<Rightarrow> ('z) pmip_sys_scheme" where
  "release l s = s\<lparr>held := remove1 l (held s)\<rparr>"

text \<open>Reading and writing an entry through a pointer.\<close>

definition deref :: "nat \<Rightarrow> ('z) pmip_sys_scheme \<Rightarrow> pmip_entry outcome" where
  "deref p s = (if p \<in> alive s then Done (heap s p) else Fault UseAfterFree)"

definition lock_entry :: "nat \<Rightarrow> ('z) pmip_sys_scheme \<Rightarrow> ('z) pmip_sys_scheme outcome" where
  "lock_entry p s = andThen (deref p s) (\<lambda>_. acquire (EntryLock p) s)"

definition modify :: "nat \<Rightarrow> (pmip_entry \<Rightarrow> pmip_entry) \<Rightarrow> ('z) pmip_sys_scheme \<Rightarrow> ('z) pmip_sys_scheme outcome" where
  "modify p f s =
     (if p \<in> alive s then Done (s\<lparr>heap := (heap s)(p := f (heap s p))\<rparr>) else Fault UseAfterFree)"

text \<open>The keys the hash table reads through the pointers of its entries.\<close>

definition bce_rd :: "('z) pmip_sys_scheme \<Rightarrow> nat \<Rightarrow> ip6mn_nai \<times> in6_addr" where
  "bce_rd s p = bce_key (heap s p)"

section \<open>Model\<close>

definition get_pmip_cache_count :: "int \<Rightarrow> ('z) pmip_sys_scheme \<Rightarrow> int" where
  "get_pmip_cache_count type s = (if type = BCE_PMIP \<or> type = BCE_TEMP then g_pmip_cache_count s else 0)"

definition pmip_cache_init :: "env \<Rightarrow> ('z) pmip_sys_scheme \<Rightarrow> (int \<times> ('z) pmip_sys_scheme) outcome" where
  "pmip_cache_init en s =
     andThen (acquire PmipLock s) (\<lambda>s. andThen (pmip_hash_init (memok en) PMIP_CACHE_BUCKETS) (\<lambda>(ret, h).
       Done (ret, release PmipLock (case h of None \<Rightarrow> s | Some h \<Rightarrow> s\<lparr>g_pmip_hash := h\<rparr>))))"

definition init_iface_ra :: "('z) pmip_sys_scheme \<Rightarrow> ('z) pmip_sys_scheme" where
  "init_iface_ra s = s\<lparr>router_ad_iface := (router_ad_iface s)\<lparr>AdvCurHopLimit := 64, AdvHomeAgentFlag := True,
     AdvHomeAgentInfo := True, HomeAgentPreference := 20, HomeAgentLifetime := 10000, AdvReachableTime := 0,
     AdvRetransTimer := 0, AdvDefaultLifetime := 6000, AdvManagedFlag := False, AdvOtherConfigFlag := False,
     Adv_Prefix := \<lparr>PrefixLen = 64, AdvOnLinkFlag = True, AdvAutonomousFlag = True, AdvValidLifetime = 86400,
       AdvPreferredLifetime = 14400, AdvRouterAddr = True\<rparr>\<rparr>\<rparr>"

definition pmip_cache_alloc :: "env \<Rightarrow> int \<Rightarrow> ('z) pmip_sys_scheme \<Rightarrow> nat option \<times> ('z) pmip_sys_scheme" where
  "pmip_cache_alloc en type s =
     (if \<not> memok en then (None, s)
      else (Some (brk s),
        s\<lparr>brk := brk s + 1, alive := insert (brk s) (alive s),
          heap := (heap s)(brk s := pmip_entry_zero\<lparr>e_type := type\<rparr>),
          tqs := (tqs s)\<lparr>expires := (expires (tqs s))(TqBce (brk s) := tszero),
                         task := (task (tqs s))(TqBce (brk s) := None)\<rparr>\<rparr>))"

definition pmipcache_insert :: "env \<Rightarrow> nat \<Rightarrow> ('z) pmip_sys_scheme \<Rightarrow> int \<times> ('z) pmip_sys_scheme" where
  "pmipcache_insert en bce s =
     (case pmip_hash_add (memok en) (bce_rd s) (g_pmip_hash s) bce of
        (ret, h) \<Rightarrow> if ret \<noteq> 0 then (ret, s)
          else (0, s\<lparr>g_pmip_hash := h, g_pmip_cache_count := g_pmip_cache_count s + 1\<rparr>))"

definition arm_bce :: "timespec \<Rightarrow> nat \<Rightarrow> timer_task \<Rightarrow> ('z) pmip_sys_scheme \<Rightarrow> ('z) pmip_sys_scheme" where
  "arm_bce exp bce t s = s\<lparr>tqs := add_task_abs exp (TqBce bce) t (tqs s)\<rparr>"

definition pmip_cache_start :: "env \<Rightarrow> nat \<Rightarrow> ('z) pmip_sys_scheme \<Rightarrow> ('z) pmip_sys_scheme outcome" where
  "pmip_cache_start en bce s =
     andThen (modify bce (\<lambda>e. e\<lparr>e_add_time := now en\<rparr>) s) (\<lambda>s.
     andThen (deref bce s) (\<lambda>e.
       Done (arm_bce (tsadd (e_add_time e) (e_lifetime e)) bce Bce_expired s)))"

definition pmip_cache_add ::
  "config \<Rightarrow> env \<Rightarrow> nat \<Rightarrow> ('z) pmip_sys_scheme \<Rightarrow> (nat option \<times> ('z) pmip_sys_scheme) outcome" where
  "pmip_cache_add conf en bce s =
     andThen (modify bce (\<lambda>e. e\<lparr>e_unreach := 0\<rparr>) s) (\<lambda>s.
     andThen (acquire PmipLock s) (\<lambda>s.
     let s = s\<lparr>last_BID := last_BID s + 1\<rparr> in
     andThen (modify bce (\<lambda>e. e\<lparr>e_BID := last_BID s\<rparr>) s) (\<lambda>s.
     case pmipcache_insert en bce s of
       (ret, s) \<Rightarrow>
         if ret \<noteq> 0 then Done (None, release PmipLock s)
         else andThen (modify bce (\<lambda>e. e\<lparr>e_n_rets_counter := MaxMessageRetransmissions conf\<rparr>) s) (\<lambda>s.
           andThen (deref bce s) (\<lambda>e.
           andThen (if e_type e = BCE_PMIP then pmip_cache_start en bce s else Done s) (\<lambda>s.
             Done (Some bce, release PmipLock s)))))))"

definition pmip_cache_get ::
  "ip6mn_nai \<Rightarrow> in6_addr \<Rightarrow> ('z) pmip_sys_scheme \<Rightarrow> (nat option \<times> ('z) pmip_sys_scheme) outcome" where
  "pmip_cache_get mn_nai mag_addr s =
     andThen (acquire PmipLock s) (\<lambda>s.
       case pmip_hash_get (bce_rd s) (g_pmip_hash s) mn_nai mag_addr of
         Some bce \<Rightarrow> andThen (lock_entry bce s) (\<lambda>s. Done (Some bce, s))
       | None \<Rightarrow> Done (None, release PmipLock s))"

definition pmipcache_release_entry :: "nat \<Rightarrow> ('z) pmip_sys_scheme \<Rightarrow> ('z) pmip_sys_scheme" where
  "pmipcache_release_entry bce s = release PmipLock (release (EntryLock bce) s)"

definition pmip_cache_exists ::
  "ip6mn_nai \<Rightarrow> in6_addr \<Rightarrow> ('z) pmip_sys_scheme \<Rightarrow> (int \<times> ('z) pmip_sys_scheme) outcome" where
  "pmip_cache_exists mn_nai mag_addr s =
     andThen (pmip_cache_get mn_nai mag_addr s) (\<lambda>(b, s).
       case b of
         None \<Rightarrow> Done (-1, s)
       | Some bce \<Rightarrow> andThen (deref bce s) (\<lambda>e. Done (e_type e, pmipcache_release_entry bce s)))"

definition pmipcache_free :: "nat \<Rightarrow> ('z) pmip_sys_scheme \<Rightarrow> ('z) pmip_sys_scheme" where
  "pmipcache_free bce s = s\<lparr>alive := alive s - {bce}\<rparr>"

text \<open>The clean-up pointer of an entry is null in every entry, so its call is left out.\<close>

definition pmip_bce_delete :: "nat \<Rightarrow> ('z) pmip_sys_scheme \<Rightarrow> ('z) pmip_sys_scheme outcome" where
  "pmip_bce_delete bce s =
     andThen (deref bce s) (\<lambda>e.
     andThen (lock_entry bce s) (\<lambda>s.
       let s = s\<lparr>tqs := del_task (TqBce bce) (tqs s)\<rparr>;
           s = s\<lparr>g_pmip_cache_count := g_pmip_cache_count s - 1\<rparr>;
           s = s\<lparr>g_pmip_hash := pmip_hash_delete (bce_rd s) (g_pmip_hash s) (e_mn_nai e) (e_mn_serv_mag_addr e)\<rparr>
       in Done (pmipcache_free bce (release (EntryLock bce) s))))"

definition pmip_cache_delete ::
  "ip6mn_nai \<Rightarrow> in6_addr \<Rightarrow> ('z) pmip_sys_scheme \<Rightarrow> ('z) pmip_sys_scheme outcome" where
  "pmip_cache_delete mn_nai mag_addr s =
     andThen (acquire PmipLock s) (\<lambda>s.
     andThen (case pmip_hash_get (bce_rd s) (g_pmip_hash s) mn_nai mag_addr of
                Some bce \<Rightarrow> pmip_bce_delete bce s
              | None \<Rightarrow> Done s) (\<lambda>s.
       Done (release PmipLock s)))"

text \<open>A callback that may fault: after a fault nothing more happens.\<close>

definition faulting :: "('e \<Rightarrow> 's \<Rightarrow> (int \<times> 's) outcome) \<Rightarrow> 'e \<Rightarrow> 's outcome \<Rightarrow> int \<times> 's outcome" where
  "faulting f e m = (case m of
       Fault x \<Rightarrow> (0, Fault x)
     | Done s \<Rightarrow> (case f e s of Fault x \<Rightarrow> (0, Fault x) | Done (r, s') \<Rightarrow> (r, Done s')))"

definition pmip_cache_iterate ::
  "(nat \<Rightarrow> 'a \<times> ('z) pmip_sys_scheme \<Rightarrow> (int \<times> 'a \<times> ('z) pmip_sys_scheme) outcome) \<Rightarrow> 'a \<Rightarrow> ('z) pmip_sys_scheme
     \<Rightarrow> (int \<times> 'a \<times> ('z) pmip_sys_scheme) outcome" where
  "pmip_cache_iterate func arg s =
     andThen (acquire PmipLock s) (\<lambda>s.
       case pmip_hash_iterate (g_pmip_hash s) (faulting func) (Done (arg, s)) of
         (err, m) \<Rightarrow> andThen m (\<lambda>(arg, s). Done (err, arg, release PmipLock s)))"

section \<open>The invariant\<close>

text \<open>The entries of the table are live, their number is the counter, no timer belongs to a freed
  entry, and addresses not handed out yet are not in use.\<close>

definition cache_inv :: "('z) pmip_sys_scheme \<Rightarrow> bool" where
  "cache_inv s \<longleftrightarrow> pmip_hash_wf (bce_rd s) (g_pmip_hash s)
     \<and> set (table_elems (g_pmip_hash s)) \<subseteq> alive s
     \<and> (\<forall>p \<in> alive s. p < brk s)
     \<and> g_pmip_cache_count s = int (length (table_elems (g_pmip_hash s)))
     \<and> tq_inv (tqs s)
     \<and> (\<forall>p. pending (tqs s) (TqBce p) \<noteq> None \<longrightarrow> p \<in> alive s)"

abbreviation cached :: "('z) pmip_sys_scheme \<Rightarrow> nat set" where
  "cached s \<equiv> set (table_elems (g_pmip_hash s))"

definition lookup :: "('z) pmip_sys_scheme \<Rightarrow> ip6mn_nai \<times> in6_addr \<Rightarrow> nat option" where
  "lookup s k = pmip_hash_get (bce_rd s) (g_pmip_hash s) (fst k) (snd k)"

section \<open>Lemmas\<close>

named_theorems cache_simps \<open>evaluation of the operations on the binding cache\<close>

lemma deref_alive [cache_simps]: "p \<in> alive s \<Longrightarrow> deref p s = Done (heap s p)"
  by (simp add: deref_def)

lemma modify_alive [cache_simps]:
  "p \<in> alive s \<Longrightarrow> modify p f s = Done (s\<lparr>heap := (heap s)(p := f (heap s p))\<rparr>)"
  by (simp add: modify_def)

lemma acquire_free [cache_simps]: "l \<notin> set (held s) \<Longrightarrow> acquire l s = Done (s\<lparr>held := l # held s\<rparr>)"
  by (simp add: acquire_def)

lemma lock_entry_free [cache_simps]:
  "p \<in> alive s \<Longrightarrow> EntryLock p \<notin> set (held s) \<Longrightarrow> lock_entry p s = Done (s\<lparr>held := EntryLock p # held s\<rparr>)"
  by (simp add: lock_entry_def cache_simps)

lemma faulting_Done: "f e s = Done (r, s') \<Longrightarrow> faulting f e (Done s) = (r, Done s')"
  by (simp add: faulting_def)

lemma pmip_cache_start_eq [cache_simps]:
  "p \<in> alive s \<Longrightarrow> pmip_cache_start en p s =
     Done (s\<lparr>heap := (heap s)(p := (heap s p)\<lparr>e_add_time := now en\<rparr>),
             tqs := add_task_abs (tsadd (now en) (e_lifetime (heap s p))) (TqBce p) Bce_expired (tqs s)\<rparr>)"
  by (simp add: pmip_cache_start_def cache_simps arm_bce_def)

lemma release_entry_restores [cache_simps]:
  "pmipcache_release_entry p (s\<lparr>held := EntryLock p # PmipLock # h\<rparr>) = s\<lparr>held := h\<rparr>"
  by (simp add: pmipcache_release_entry_def release_def)

lemma release_entry_held:
  "held s = EntryLock p # PmipLock # h \<Longrightarrow> pmipcache_release_entry p s = s\<lparr>held := h\<rparr>"
  by (simp add: pmipcache_release_entry_def release_def)

lemma pmip_cache_get_hit [cache_simps]:
  assumes "lookup s (n, a) = Some p" "p \<in> alive s" "PmipLock \<notin> set (held s)" "EntryLock p \<notin> set (held s)"
  shows "pmip_cache_get n a s = Done (Some p, s\<lparr>held := EntryLock p # PmipLock # held s\<rparr>)"
proof -
  have "bce_rd (s\<lparr>held := h\<rparr>) = bce_rd s" for h by (simp add: bce_rd_def fun_eq_iff)
  then show ?thesis using assms by (simp add: pmip_cache_get_def cache_simps lookup_def)
qed

lemma pmip_cache_get_miss [cache_simps]:
  assumes "lookup s (n, a) = None" "PmipLock \<notin> set (held s)"
  shows "pmip_cache_get n a s = Done (None, s)"
proof -
  have "bce_rd (s\<lparr>held := h\<rparr>) = bce_rd s" for h by (simp add: bce_rd_def fun_eq_iff)
  then show ?thesis using assms by (simp add: pmip_cache_get_def cache_simps lookup_def release_def)
qed

lemma pmip_cache_exists_eq:
  assumes "\<And>p. lookup s (n, a) = Some p \<Longrightarrow> p \<in> alive s \<and> EntryLock p \<notin> set (held s)" "PmipLock \<notin> set (held s)"
  shows "pmip_cache_exists n a s =
    Done (case lookup s (n, a) of None \<Rightarrow> -1 | Some p \<Rightarrow> e_type (heap s p), s)"
  using assms
  by (cases "lookup s (n, a)") (simp_all add: pmip_cache_exists_def cache_simps)

lemma lookup_Some_iff:
  "cache_inv s \<Longrightarrow> lookup s k = Some p \<longleftrightarrow> p \<in> cached s \<and> bce_key (heap s p) = k"
  using ph.cget_Some_iff [of "bce_rd s" "g_pmip_hash s" k p]
  by (simp add: lookup_def pmip_hash_chained cache_inv_def bce_rd_def)

lemma lookup_cached:
  "cache_inv s \<Longrightarrow> p \<in> cached s \<Longrightarrow> lookup s (bce_key (heap s p)) = Some p"
  by (simp add: lookup_Some_iff)

lemma lookup_alive: "cache_inv s \<Longrightarrow> lookup s k = Some p \<Longrightarrow> p \<in> alive s"
  using lookup_Some_iff cache_inv_def by blast

text \<open>What the invariant and the lookups depend on.\<close>

lemma lookup_frame:
  assumes "cache_inv s" "g_pmip_hash s' = g_pmip_hash s"
    and "\<And>p. p \<in> cached s \<Longrightarrow> bce_key (heap s' p) = bce_key (heap s p)"
  shows "lookup s' = lookup s"
proof
  fix k
  show "lookup s' k = lookup s k"
    unfolding lookup_def assms(2)
    by (rule pmip_hash_get_cong) (use assms in \<open>auto simp: cache_inv_def bce_rd_def\<close>)
qed

lemma cache_inv_frame:
  assumes "cache_inv s" "g_pmip_hash s' = g_pmip_hash s" "alive s' = alive s" "brk s' = brk s"
    and "g_pmip_cache_count s' = g_pmip_cache_count s" "tq_inv (tqs s')"
    and "\<And>p. pending (tqs s') (TqBce p) \<noteq> None \<Longrightarrow> p \<in> alive s"
    and "\<And>p. p \<in> cached s \<Longrightarrow> bce_key (heap s' p) = bce_key (heap s p)"
  shows "cache_inv s'"
proof -
  have "pmip_hash_wf (bce_rd s') (g_pmip_hash s)"
    by (rule pmip_hash_wf_cong [of "bce_rd s"]) (use assms in \<open>auto simp: cache_inv_def bce_rd_def\<close>)
  then show ?thesis using assms by (simp add: cache_inv_def)
qed

lemma cache_inv_held [simp]: "cache_inv (s\<lparr>held := h\<rparr>) = cache_inv s"
  by (simp add: cache_inv_def bce_rd_def [abs_def])

lemma lookup_held [simp]: "lookup (s\<lparr>held := h\<rparr>) = lookup s"
  by (simp add: lookup_def [abs_def] bce_rd_def [abs_def])

lemma cache_inv_arm:
  assumes "cache_inv s" "p \<in> alive s" "tsisset exp" "bce_key e = bce_key (heap s p)"
  shows "cache_inv (s\<lparr>heap := (heap s)(p := e), tqs := add_task_abs exp (TqBce p) t (tqs s)\<rparr>)"
  using assms tq.invar_add tq.pend_add
  by (intro cache_inv_frame [OF assms(1)]) (auto simp: cache_inv_def tq.pend_add split: if_splits)

lemma cache_inv_tun:
  assumes "cache_inv s" "tun_frame s s'"
  shows "cache_inv s'" "lookup s' = lookup s"
proof -
  obtain c g q where q: "s' = s\<lparr>tctl := c, g_tunnel_timer_table := g, tqs := q\<rparr>" "tq_inv q"
      "\<forall>p. pending q (TqBce p) = pending (tqs s) (TqBce p)"
    using assms by (auto simp: tun_frame_def cache_inv_def)
  show "cache_inv s'" by (rule cache_inv_frame [OF assms(1)]) (use assms(1) q in \<open>auto simp: cache_inv_def\<close>)
  show "lookup s' = lookup s" by (rule lookup_frame [OF assms(1)]) (simp_all add: q(1))
qed

text \<open>An iteration keeps what its callback keeps.\<close>

lemma chain_iterate_faulting:
  assumes "\<And>p s r s'. f p s = Done (r, s') \<Longrightarrow> R s s'" "\<And>s. R s s" "\<And>s t u. R s t \<Longrightarrow> R t u \<Longrightarrow> R s u"
    and "chain_iterate (faulting f) ps (Done s) = (r, Done s')"
  shows "R s s'"
  using assms(4)
proof (induction ps arbitrary: s)
  case (Cons p ps)
  have stuck: "chain_iterate (faulting f) qs (Fault e) = (0, Fault e)" for qs e
    by (induction qs) (simp_all add: faulting_def)
  show ?case
  proof (cases "f p s")
    case (Fault e)
    then show ?thesis using Cons.prems by (simp add: faulting_def [of f p] stuck)
  next
    case (Done x)
    then obtain r1 s1 where d: "f p s = Done (r1, s1)" by (cases x) auto
    then have "R s s1" using assms(1) by blast
    moreover have "s' = s1 \<or> chain_iterate (faulting f) ps (Done s1) = (r, Done s')"
      using Cons.prems d by (simp add: faulting_def [of f p] split: if_splits)
    ultimately show ?thesis using Cons.IH assms(3) by blast
  qed
qed (use assms(2) in simp)

text \<open>A fresh entry.\<close>

lemma tq_inv_forget:
  assumes "tq_inv q" "pending q i = None"
  shows "tq_inv (q\<lparr>expires := (expires q)(i := tszero), task := f\<rparr>)"
    "pending (q\<lparr>expires := (expires q)(i := tszero), task := f\<rparr>) = pending q"
  using assms by (auto simp: tq_inv_def pending_def map_upd_notin fun_eq_iff split: if_splits)

lemma pmip_cache_alloc_inv:
  assumes "cache_inv s" "pmip_cache_alloc en type s = (Some p, s')"
  shows "cache_inv s' \<and> p \<notin> alive s \<and> alive s' = insert p (alive s) \<and> lookup s' = lookup s
    \<and> heap s' = (heap s)(p := pmip_entry_zero\<lparr>e_type := type\<rparr>) \<and> held s' = held s
    \<and> g_pmip_hash s' = g_pmip_hash s \<and> pending (tqs s') = pending (tqs s) \<and> task (tqs s') (TqBce p) = None"
proof -
  let ?b = "brk s"
  have p: "p = ?b" "?b \<notin> alive s" "?b \<notin> cached s"
    using assms by (auto simp: pmip_cache_alloc_def cache_inv_def split: if_splits)
  then have pe: "pending (tqs s) (TqBce ?b) = None" using assms(1) by (auto simp: cache_inv_def)
  note fg = tq_inv_forget [OF _ pe]
  have s': "s' = s\<lparr>brk := ?b + 1, alive := insert ?b (alive s),
          heap := (heap s)(?b := pmip_entry_zero\<lparr>e_type := type\<rparr>),
          tqs := (tqs s)\<lparr>expires := (expires (tqs s))(TqBce ?b := tszero),
                         task := (task (tqs s))(TqBce ?b := None)\<rparr>\<rparr>"
    using assms(2) by (auto simp: pmip_cache_alloc_def split: if_splits)
  have wf: "pmip_hash_wf (bce_rd s') (g_pmip_hash s)"
    by (rule pmip_hash_wf_cong [of "bce_rd s"])
      (use assms p in \<open>auto simp: cache_inv_def bce_rd_def s'\<close>)
  have "cache_inv s'"
    using assms(1) wf fg unfolding cache_inv_def by (auto simp: s' less_Suc_eq)
  moreover have "lookup s' = lookup s"
    by (rule lookup_frame [OF assms(1)]) (use p in \<open>auto simp: s'\<close>)
  ultimately show ?thesis using p fg assms(1) by (simp add: s' cache_inv_def)
qed

lemma bce_rd_upd:
  "bce_rd (s\<lparr>heap := f\<rparr>) = (\<lambda>p. bce_key (f p))"
  "bce_rd (s\<lparr>held := l\<rparr>) = bce_rd s" "bce_rd (s\<lparr>last_BID := b\<rparr>) = bce_rd s"
  "bce_rd (s\<lparr>g_pmip_hash := h\<rparr>) = bce_rd s" "bce_rd (s\<lparr>g_pmip_cache_count := c\<rparr>) = bce_rd s"
  "bce_rd (s\<lparr>tqs := q\<rparr>) = bce_rd s" "bce_rd (s\<lparr>alive := a\<rparr>) = bce_rd s"
  by (simp_all add: bce_rd_def fun_eq_iff)

text \<open>The insertion of a new binding.\<close>

lemma hash_add_new:
  assumes "cache_inv s" "p \<notin> cached s" "lookup s (bce_key e) = None" "bce_key e' = bce_key e"
  shows "\<exists>h. pmip_hash_add True (\<lambda>q. bce_key (((heap s)(p := e')) q)) (g_pmip_hash s) p = (0, h)
    \<and> pmip_hash_wf (\<lambda>q. bce_key (((heap s)(p := e')) q)) h
    \<and> mset (table_elems h) = add_mset p (mset (table_elems (g_pmip_hash s)))"
proof -
  let ?rd = "\<lambda>q. bce_key (((heap s)(p := e')) q)"
  have wf: "pmip_hash_wf ?rd (g_pmip_hash s)"
    by (rule pmip_hash_wf_cong [of "bce_rd s"]) (use assms in \<open>auto simp: cache_inv_def bce_rd_def\<close>)
  have "?rd q = bce_rd s q" if "q \<in> cached s" for q using that assms(2) by (auto simp: bce_rd_def)
  then have "ph.cget ?rd (g_pmip_hash s) (bce_key e) = ph.cget (bce_rd s) (g_pmip_hash s) (bce_key e)"
    using assms(1) by (intro ph.cget_cong) (simp_all add: cache_inv_def)
  then have "ph.cget ?rd (g_pmip_hash s) (bce_key e) = None"
    using assms(3) by (simp add: lookup_def pmip_hash_chained)
  then have "ph.cget ?rd (g_pmip_hash s) (?rd p) = None" using assms(4) by simp
  from ph.table.add_fresh [OF wf this] show ?thesis by (auto simp: pmip_hash_chained)
qed

lemma cache_inv_insert:
  assumes "cache_inv s" "p \<in> alive s" "p \<notin> cached s" "lookup s (bce_key e) = None"
    and "g_pmip_hash s' = h" "heap s' = (heap s)(p := e)" "alive s' = alive s" "brk s' = brk s"
    and "g_pmip_cache_count s' = g_pmip_cache_count s + 1"
    and "tq_inv (tqs s')" "\<And>q. pending (tqs s') (TqBce q) \<noteq> None \<Longrightarrow> q \<in> alive s"
    and "pmip_hash_wf (\<lambda>q. bce_key (((heap s)(p := e)) q)) h"
    and "mset (table_elems h) = add_mset p (mset (table_elems (g_pmip_hash s)))"
  shows "cache_inv s' \<and> lookup s' = (lookup s)(bce_key e \<mapsto> p) \<and> cached s' = insert p (cached s)"
proof -
  have rd: "bce_rd s' = (\<lambda>q. bce_key (((heap s)(p := e)) q))" by (simp add: bce_rd_def assms(6) fun_eq_iff)
  have el: "set (table_elems h) = insert p (cached s)" "length (table_elems h) = Suc (length (table_elems (g_pmip_hash s)))"
    using arg_cong [OF assms(13), of set_mset] arg_cong [OF assms(13), of size] by simp_all
  have inv: "cache_inv s'"
    using assms(1) assms(2) assms(7-12) el unfolding cache_inv_def rd assms(5) by auto
  have "lookup s' k = ((lookup s)(bce_key e \<mapsto> p)) k" for k
  proof (cases "lookup s' k")
    case None
    then have "\<forall>q \<in> insert p (cached s). bce_key (heap s' q) \<noteq> k"
      using lookup_Some_iff [OF inv] el(1) assms(5) by (metis option.distinct(1))
    then have "k \<noteq> bce_key e" "\<forall>q \<in> cached s. bce_key (heap s q) \<noteq> k"
      using assms(3,6) by (auto split: if_splits)
    then show ?thesis using None lookup_Some_iff [OF assms(1)] by (cases "lookup s k") auto
  next
    case (Some q)
    then have "q \<in> insert p (cached s)" "bce_key (heap s' q) = k"
      using lookup_Some_iff [OF inv] el(1) assms(5) by auto
    then consider "q = p" "k = bce_key e" | "lookup s k = Some q"
      using assms(3,6) lookup_Some_iff [OF assms(1), of k q] by (auto split: if_splits)
    then show ?thesis using Some assms(4) by cases auto
  qed
  then show ?thesis using inv el(1) assms(5) by auto
qed

text \<open>The removal of a binding.\<close>

lemma hash_delete_cached:
  assumes "cache_inv s" "p \<in> cached s"
  shows "pmip_hash_wf (bce_rd s) (pmip_hash_delete (bce_rd s) (g_pmip_hash s) (e_mn_nai (heap s p)) (e_mn_serv_mag_addr (heap s p)))
    \<and> mset (table_elems (pmip_hash_delete (bce_rd s) (g_pmip_hash s) (e_mn_nai (heap s p)) (e_mn_serv_mag_addr (heap s p))))
       = mset (table_elems (g_pmip_hash s)) - {#p#}"
proof -
  have wf: "pmip_hash_wf (bce_rd s) (g_pmip_hash s)" using assms(1) by (simp add: cache_inv_def)
  have "ph.cget (bce_rd s) (g_pmip_hash s) (bce_key (heap s p)) = Some p"
    using lookup_cached [OF assms] by (simp add: lookup_def pmip_hash_chained)
  then show ?thesis
    using ph.table.elems_del [OF wf, of "bce_key (heap s p)"] ph.table.invar_del [OF wf]
    by (simp add: pmip_hash_chained bce_key_def)
qed

lemma cached_distinct:
  assumes inv: "cache_inv s"
  shows "distinct (table_elems (g_pmip_hash s))"
proof -
  have "count (mset (table_elems (g_pmip_hash s))) p \<le> 1" for p
  proof (cases "p \<in> cached s")
    case True
    let ?h = "pmip_hash_delete (bce_rd s) (g_pmip_hash s) (e_mn_nai (heap s p)) (e_mn_serv_mag_addr (heap s p))"
    have "p \<notin># mset (table_elems ?h)"
    proof
      assume "p \<in># mset (table_elems ?h)"
      then have "ph.cget (bce_rd s) ?h (bce_rd s p) = Some p"
        using ph.table.get_elems [OF conjunct1 [OF hash_delete_cached [OF inv True]]] by simp
      moreover have "ph.cget (bce_rd s) ?h (bce_rd s p) = None"
        using inv ph.table.get_del [of "bce_rd s" "g_pmip_hash s"]
        by (simp add: cache_inv_def pmip_hash_chained bce_rd_def bce_key_def)
      ultimately show False by simp
    qed
    moreover have "p \<notin># A - {#p#} \<Longrightarrow> count A p \<le> 1" for A by (simp add: not_in_iff)
    ultimately show ?thesis using hash_delete_cached [OF inv True] by metis
  next
    case False
    then show ?thesis by (simp only: count_mset_0_iff [THEN iffD2] zero_le_one not_False_eq_True)
  qed
  then have "count (mset (table_elems (g_pmip_hash s))) p = (if p \<in> cached s then 1 else 0)" for p
    by (metis count_mset_0_iff le_neq_implies_less less_one)
  then show ?thesis by (simp only: distinct_count_atmost_1 simp_thms)
qed

lemma remove1_mset:
  assumes "mset ys = mset xs - {#x#}" "distinct xs" "x \<in> set xs"
  shows "set ys = set xs - {x}" "length ys = length xs - 1" "0 < length xs"
proof -
  have m: "mset ys = mset (remove1 x xs)" using assms(1) by simp
  show "set ys = set xs - {x}" using mset_eq_setD [OF m] assms(2) by simp
  show "length ys = length xs - 1" using mset_eq_length [OF m] assms(3) by (simp add: length_remove1)
  show "0 < length xs" using assms(3) by (cases xs) auto
qed

text \<open>The state after a successful insertion, with the timer when the entry is already registered.\<close>

definition added :: "config \<Rightarrow> env \<Rightarrow> nat \<Rightarrow> nat pmip_hash \<Rightarrow> ('z) pmip_sys_scheme \<Rightarrow> ('z) pmip_sys_scheme" where
  "added conf en p h s =
     (let e = (heap s p)\<lparr>e_unreach := 0, e_BID := last_BID s + 1, e_n_rets_counter := MaxMessageRetransmissions conf\<rparr>;
          s = s\<lparr>last_BID := last_BID s + 1, g_pmip_hash := h, g_pmip_cache_count := g_pmip_cache_count s + 1\<rparr>
      in if e_type e = BCE_PMIP
         then s\<lparr>heap := (heap s)(p := e\<lparr>e_add_time := now en\<rparr>),
                tqs := add_task_abs (tsadd (now en) (e_lifetime e)) (TqBce p) Bce_expired (tqs s)\<rparr>
         else s\<lparr>heap := (heap s)(p := e)\<rparr>)"

lemma pmip_cache_add_added:
  assumes "cache_inv s" "p \<in> alive s" "p \<notin> cached s" "lookup s (bce_key (heap s p)) = None"
    and "memok en" "PmipLock \<notin> set (held s)"
  shows "\<exists>h. pmip_cache_add conf en p s = Done (Some p, added conf en p h s)
    \<and> pmip_hash_wf (\<lambda>q. bce_key (heap s q)) h
    \<and> mset (table_elems h) = add_mset p (mset (table_elems (g_pmip_hash s)))"
proof -
  let ?e = "(heap s p)\<lparr>e_unreach := 0, e_BID := last_BID s + 1\<rparr>"
  have k: "bce_key ?e = bce_key (heap s p)" by (simp add: bce_key_def)
  obtain h where h: "pmip_hash_add True (\<lambda>q. bce_key (((heap s)(p := ?e)) q)) (g_pmip_hash s) p = (0, h)"
      "pmip_hash_wf (\<lambda>q. bce_key (((heap s)(p := ?e)) q)) h"
      "mset (table_elems h) = add_mset p (mset (table_elems (g_pmip_hash s)))"
    using hash_add_new [OF assms(1,3,4) k] by blast
  have rd: "(\<lambda>q. bce_key (((heap s)(p := ?e)) q)) = (\<lambda>q. bce_key (heap s q))" using k by auto
  have "pmip_cache_add conf en p s = Done (Some p, added conf en p h s)"
    using assms(2,5,6) h(1)
    by (simp add: pmip_cache_add_def pmipcache_insert_def cache_simps Let_def bce_rd_upd release_def added_def)
  then show ?thesis using h(2,3) unfolding rd by blast
qed

lemma added_inv:
  assumes "cache_inv s" "p \<in> alive s" "p \<notin> cached s" "lookup s (bce_key (heap s p)) = None"
    and "pmip_hash_wf (\<lambda>q. bce_key (heap s q)) h"
    and "mset (table_elems h) = add_mset p (mset (table_elems (g_pmip_hash s)))"
    and "e_type (heap s p) = BCE_PMIP \<Longrightarrow> tsisset (tsadd (now en) (e_lifetime (heap s p)))"
  shows "cache_inv (added conf en p h s) \<and> lookup (added conf en p h s) = (lookup s)(bce_key (heap s p) \<mapsto> p)
    \<and> cached (added conf en p h s) = insert p (cached s)"
proof -
  let ?s = "added conf en p h s"
  have k: "bce_key (heap ?s p) = bce_key (heap s p)" by (simp add: added_def Let_def bce_key_def)
  have hp: "heap ?s = (heap s)(p := heap ?s p)" by (simp add: added_def Let_def)
  have q: "tq_inv (tqs s)" "\<And>q. pending (tqs s) (TqBce q) \<noteq> None \<Longrightarrow> q \<in> alive s"
    using assms(1) by (auto simp: cache_inv_def)
  have wf: "pmip_hash_wf (\<lambda>q. bce_key (((heap s)(p := heap ?s p)) q)) h"
    by (rule pmip_hash_wf_cong [OF assms(5)]) (simp add: k)
  show ?thesis
    unfolding k [symmetric]
    by (rule cache_inv_insert [OF assms(1-3) _ _ hp _ _ _ _ _ wf assms(6)])
      (use assms(2,4,7) q k in \<open>auto simp: added_def Let_def tq.invar_add tq.pend_add [OF q(1)] split: if_splits\<close>)
qed

text \<open>The state after the deletion of a cached entry.\<close>

definition deleted :: "nat \<Rightarrow> ('z) pmip_sys_scheme \<Rightarrow> ('z) pmip_sys_scheme" where
  "deleted p s = s\<lparr>tqs := del_task (TqBce p) (tqs s), g_pmip_cache_count := g_pmip_cache_count s - 1,
     g_pmip_hash := pmip_hash_delete (bce_rd s) (g_pmip_hash s) (e_mn_nai (heap s p)) (e_mn_serv_mag_addr (heap s p)),
     alive := alive s - {p}\<rparr>"

lemma pmip_bce_delete_deleted:
  "p \<in> alive s \<Longrightarrow> EntryLock p \<notin> set (held s) \<Longrightarrow> pmip_bce_delete p s = Done (deleted p s)"
  by (simp add: pmip_bce_delete_def cache_simps Let_def bce_rd_upd release_def pmipcache_free_def deleted_def)

lemma deleted_inv:
  assumes "cache_inv s" "p \<in> cached s"
  shows "cache_inv (deleted p s) \<and> lookup (deleted p s) = (lookup s)(bce_key (heap s p) := None)
    \<and> cached (deleted p s) = cached s - {p} \<and> pending (tqs (deleted p s)) = (pending (tqs s))(TqBce p := None)"
proof -
  let ?h = "pmip_hash_delete (bce_rd s) (g_pmip_hash s) (e_mn_nai (heap s p)) (e_mn_serv_mag_addr (heap s p))"
  have q: "tq_inv (tqs s)" using assms(1) by (simp add: cache_inv_def)
  note del = hash_delete_cached [OF assms(1,2)]
  have el: "cached (deleted p s) = cached s - {p}" "length (table_elems ?h) = length (table_elems (g_pmip_hash s)) - 1"
      "0 < length (table_elems (g_pmip_hash s))"
    using remove1_mset [OF conjunct2 [OF del] cached_distinct [OF assms(1)] assms(2)] by (simp_all add: deleted_def)
  have old: "cached s \<subseteq> alive s" "\<forall>q \<in> alive s. q < brk s" "g_pmip_cache_count s = int (length (table_elems (g_pmip_hash s)))"
      "\<forall>q. pending (tqs s) (TqBce q) \<noteq> None \<longrightarrow> q \<in> alive s"
    using assms(1) unfolding cache_inv_def by blast+
  have "\<forall>q. pending (del_task (TqBce p) (tqs s)) (TqBce q) \<noteq> None \<longrightarrow> q \<in> alive s - {p}"
    unfolding tq.pend_del [OF q] using old(4) by auto
  moreover have "set (table_elems ?h) \<subseteq> alive s - {p}" using el(1) old(1) by (auto simp: deleted_def)
  moreover have "g_pmip_cache_count s - 1 = int (length (table_elems ?h))"
    unfolding el(2) old(3) using el(3) by linarith
  ultimately have "cache_inv (deleted p s)"
    unfolding cache_inv_def using conjunct1 [OF del] old(2) tq.invar_del [OF q] by (simp add: deleted_def bce_rd_upd)
  moreover have "lookup (deleted p s) = (lookup s)(bce_key (heap s p) := None)"
    using assms(1) ph.table.get_del [of "bce_rd s" "g_pmip_hash s" "bce_key (heap s p)"]
    by (simp add: lookup_def [abs_def] bce_rd_upd pmip_hash_chained cache_inv_def fun_eq_iff bce_key_def deleted_def)
  ultimately show ?thesis using el(1) tq.pend_del [OF q] by (simp add: deleted_def)
qed

section \<open>A concrete instance\<close>

text \<open>A state with one allocated entry and an empty table of one chain, and an environment.\<close>

definition sys_example :: "pmip_entry \<Rightarrow> pmip_sys" where
  "sys_example e = \<lparr>tctl = tunnelctl_init, g_tunnel_timer_table = replicate PMIP_MAX_MAGS tunnel_timer_zero, tqs = tq_init,
     out = [], heap = (\<lambda>_. e), alive = {0}, brk = 1, g_pmip_hash = \<lparr>buckets = 1, hash_buckets = [[]]\<rparr>,
     g_pmip_cache_count = 0, last_BID = 0, hnp = pmip_lma_mn_to_hnp_cache_init hnp_cache_boot, seq = 0, held = [],
     router_ad_iface = ra_iface_zero\<rparr>"

definition env_example :: env where
  "env_example = \<lparr>now = TS 100 0, tod = Some (100, 0), memok = True,
     kern = \<lparr>k_mem = True, k_addtunnel = (\<lambda>_ _ _. Some 7), k_deltunnel = (\<lambda>_. True), k_chgtunnel = (\<lambda>_ _ _ _. True)\<rparr>, rand = (\<lambda>_. 0),
     fw_has = (\<lambda>_ _. False), link_index = 1, ip6_forwarding = True, garbage = 0,
     radius_server = None, junk_addr = in6addr_any, junk_info = msg_info_zero\<rparr>"

lemma pending_init [simp]: "pending tq_init i = None"
  by (simp add: pending_def tq_init_def)

lemma sys_example_inv: "cache_inv (sys_example e)" "lookup (sys_example e) k = None"
  by (simp_all add: sys_example_def cache_inv_def ph.cinv_def tq_inv_init table_elems_def lookup_def
      pmip_hash_get_def table_get_def)

section \<open>Properties\<close>

text \<open>C27: adding an entry whose key is not bound binds exactly that key, gives the entry a new identifier
  and the configured number of retransmissions, counts it, starts its timer when it is already
  registered, returns with the locks it found and keeps the invariant of the cache.\<close>

theorem pmip_cache_add_refines:
  assumes "cache_inv s" "p \<in> alive s" "p \<notin> cached s" "lookup s (bce_key (heap s p)) = None"
    and "memok en" "PmipLock \<notin> set (held s)"
    and "tsisset (tsadd (now en) (e_lifetime (heap s p)))"
  shows "\<exists>s'. pmip_cache_add conf en p s = Done (Some p, s') \<and> cache_inv s'
    \<and> lookup s' = (lookup s)(bce_key (heap s p) \<mapsto> p)
    \<and> g_pmip_cache_count s' = g_pmip_cache_count s + 1 \<and> held s' = held s
    \<and> e_BID (heap s' p) = last_BID s + 1 \<and> last_BID s' = last_BID s + 1
    \<and> e_n_rets_counter (heap s' p) = MaxMessageRetransmissions conf \<and> (\<forall>q. q \<noteq> p \<longrightarrow> heap s' q = heap s q)
    \<and> pending (tqs s') = (if e_type (heap s p) = BCE_PMIP
        then (pending (tqs s))(TqBce p \<mapsto> tsadd (now en) (e_lifetime (heap s p))) else pending (tqs s))"
proof -
  obtain h where h: "pmip_cache_add conf en p s = Done (Some p, added conf en p h s)"
      "pmip_hash_wf (\<lambda>q. bce_key (heap s q)) h"
      "mset (table_elems h) = add_mset p (mset (table_elems (g_pmip_hash s)))"
    using pmip_cache_add_added [OF assms(1-6)] by blast
  have "tq_inv (tqs s)" using assms(1) by (simp add: cache_inv_def)
  with h(1) added_inv [OF assms(1-4) h(2,3) assms(7), of conf] show ?thesis
    by (simp add: added_def Let_def tq.pend_add)
qed

theorem pmip_cache_add_refines_witness:
  "\<exists>s'. pmip_cache_add conf_example env_example 0 (sys_example (pmip_entry_zero\<lparr>e_type := BCE_PMIP\<rparr>)) = Done (Some 0, s')
    \<and> pending (tqs s') (TqBce 0) = Some (TS 100 0)"
proof -
  let ?s = "sys_example (pmip_entry_zero\<lparr>e_type := BCE_PMIP\<rparr>)"
  have "\<exists>s'. pmip_cache_add conf_example env_example 0 ?s = Done (Some 0, s') \<and> cache_inv s'
    \<and> lookup s' = (lookup ?s)(bce_key (heap ?s 0) \<mapsto> 0)
    \<and> g_pmip_cache_count s' = g_pmip_cache_count ?s + 1 \<and> held s' = held ?s
    \<and> e_BID (heap s' 0) = last_BID ?s + 1 \<and> last_BID s' = last_BID ?s + 1
    \<and> e_n_rets_counter (heap s' 0) = MaxMessageRetransmissions conf_example \<and> (\<forall>q. q \<noteq> 0 \<longrightarrow> heap s' q = heap ?s q)
    \<and> pending (tqs s') = (if e_type (heap ?s 0) = BCE_PMIP
        then (pending (tqs ?s))(TqBce 0 \<mapsto> tsadd (now env_example) (e_lifetime (heap ?s 0))) else pending (tqs ?s))"
    by (rule pmip_cache_add_refines [OF sys_example_inv(1) _ _ sys_example_inv(2)])
      (simp_all add: sys_example_def env_example_def table_elems_def pmip_entry_zero_def ts_simps)
  then show ?thesis by (auto simp: sys_example_def env_example_def pmip_entry_zero_def ts_simps)
qed

text \<open>C28: deleting a cached entry unbinds exactly its key, frees the entry, removes its timer and counts it
  out; it returns with the locks it found and keeps the invariant, so that no pointer to the
  freed entry is left in the table or in the timer queue.\<close>

theorem pmip_bce_delete_refines:
  assumes "cache_inv s" "p \<in> cached s" "EntryLock p \<notin> set (held s)"
  shows "\<exists>s'. pmip_bce_delete p s = Done s' \<and> cache_inv s' \<and> lookup s' = (lookup s)(bce_key (heap s p) := None)
    \<and> alive s' = alive s - {p} \<and> p \<notin> cached s' \<and> pending (tqs s') = (pending (tqs s))(TqBce p := None)
    \<and> g_pmip_cache_count s' = g_pmip_cache_count s - 1 \<and> held s' = held s \<and> heap s' = heap s"
proof -
  have "p \<in> alive s" using assms(1,2) by (auto simp: cache_inv_def)
  then show ?thesis
    using pmip_bce_delete_deleted [OF _ assms(3)] deleted_inv [OF assms(1,2)] by (auto simp: deleted_def)
qed

definition sys_cached :: "pmip_entry \<Rightarrow> pmip_sys" where
  "sys_cached e = (sys_example e)\<lparr>g_pmip_hash := \<lparr>buckets = 1, hash_buckets = [[0]]\<rparr>, g_pmip_cache_count := 1\<rparr>"

lemma sys_cached_inv:
  "cache_inv (sys_cached e)" "lookup (sys_cached e) k = (if k = bce_key e then Some 0 else None)"
  "cached (sys_cached e) = {0}" "held (sys_cached e) = []" "alive (sys_cached e) = {0}" "heap (sys_cached e) = (\<lambda>_. e)"
  "hnp (sys_cached e) = pmip_lma_mn_to_hnp_cache_init hnp_cache_boot" "tqs (sys_cached e) = tq_init"
  using pmip_hash_wf_single [of "\<lambda>_. bce_key e" 0]
  by (auto simp: sys_example_def sys_cached_def cache_inv_def tq_inv_init table_elems_def lookup_def
      pmip_hash_get_def table_get_def bce_rd_def [abs_def] match_def prod_eq_iff)

theorem pmip_bce_delete_refines_witness:
  "\<exists>s'. pmip_bce_delete 0 (sys_cached pmip_entry_zero) = Done s' \<and> 0 \<notin> alive s' \<and> 0 \<notin> cached s'"
  using pmip_bce_delete_refines [OF sys_cached_inv(1), of 0 pmip_entry_zero] by (auto simp: sys_cached_inv)

end
