(* ===== verification/Flow_Scheduler.thy ===== *)
theory Flow_Scheduler
  imports Pmip_Cache Flow_Hash Client_Route
begin

text \<open>
  Flow mobility at the anchor: the flow cache (\<open>src/src/pmip/fmpmip/fmpmip_flowmob_cache.c\<close>), the marking
  of flows with firewall rules (\<open>fmpmip_packet_marker_iptables.c\<close>) and the scheduler that chooses the
  gateway of a flow (\<open>fmpmip_flow_scheduler.c\<close>).  A flow entry keeps the fields that identify the flow as
  one \<open>flow_key\<close>; the fields \<open>priority\<close>, \<open>action\<close> and \<open>active\<close>, which nothing reads or writes, are left out.
  The locks of the flow cache only bracket the operations.
\<close>

section \<open>State\<close>

record flow_entry =
  fc_key :: flow_key
  fc_BID :: int
  fc_client_nai :: ip6mn_nai
  fc_mark :: u32

record sys = pmip_sys +
  croutes :: client_routes
  fl_heap :: "nat \<Rightarrow> flow_entry"
  fl_alive :: "nat set"
  fl_brk :: nat
  flowmob_hash :: "nat htable"
  flowmob_cache_count :: int
  draws :: nat

abbreviation (input) FLOWMOB_CACHE_BUCKETS :: nat where "FLOWMOB_CACHE_BUCKETS \<equiv> 128"
abbreviation (input) IPPROTO_TCP :: u32 where "IPPROTO_TCP \<equiv> 6"

definition flow_key_zero :: flow_key where
  "flow_key_zero = \<lparr>ip6_source = in6addr_any, ip6_dest = in6addr_any, proto = 0, source_port = 0,
     destination_port = 0, tclass = 0, label = 0\<rparr>"

definition flow_entry_zero :: flow_entry where
  "flow_entry_zero = \<lparr>fc_key = flow_key_zero, fc_BID = 0, fc_client_nai = nai_zero, fc_mark = 0\<rparr>"

definition fl_deref :: "nat \<Rightarrow> sys \<Rightarrow> flow_entry outcome" where
  "fl_deref p s = (if p \<in> fl_alive s then Done (fl_heap s p) else Fault UseAfterFree)"

definition fl_modify :: "nat \<Rightarrow> (flow_entry \<Rightarrow> flow_entry) \<Rightarrow> sys \<Rightarrow> sys outcome" where
  "fl_modify p f s =
     (if p \<in> fl_alive s then Done (s\<lparr>fl_heap := (fl_heap s)(p := f (fl_heap s p))\<rparr>) else Fault UseAfterFree)"

definition fl_rd :: "sys \<Rightarrow> nat \<Rightarrow> flow_key" where
  "fl_rd s p = fc_key (fl_heap s p)"

section \<open>The flow cache\<close>

definition flowmob_cache_init :: "env \<Rightarrow> sys \<Rightarrow> (int \<times> sys) outcome" where
  "flowmob_cache_init en s =
     andThen (flow_mob_hash_init (memok en) FLOWMOB_CACHE_BUCKETS) (\<lambda>(ret, h).
       Done (ret, case h of None \<Rightarrow> s | Some h \<Rightarrow> s\<lparr>flowmob_hash := h\<rparr>))"

definition flowmob_cache_get_count :: "sys \<Rightarrow> int" where
  "flowmob_cache_get_count s = flowmob_cache_count s"

definition flowmob_cache_alloc :: "env \<Rightarrow> sys \<Rightarrow> nat option \<times> sys" where
  "flowmob_cache_alloc en s =
     (if \<not> memok en then (None, s)
      else (Some (fl_brk s), s\<lparr>fl_brk := fl_brk s + 1, fl_alive := insert (fl_brk s) (fl_alive s),
                               fl_heap := (fl_heap s)(fl_brk s := flow_entry_zero)\<rparr>))"

definition insert_in_hashtable :: "env \<Rightarrow> nat \<Rightarrow> sys \<Rightarrow> int \<times> sys" where
  "insert_in_hashtable en fce s =
     (case flow_mob_hash_add (memok en) (fl_rd s) (flowmob_hash s) fce of
        (ret, h) \<Rightarrow> if ret \<noteq> 0 then (ret, s)
          else (0, s\<lparr>flowmob_hash := h, flowmob_cache_count := flowmob_cache_count s + 1\<rparr>))"

definition flowmob_cache_add :: "env \<Rightarrow> nat \<Rightarrow> sys \<Rightarrow> nat option \<times> sys" where
  "flowmob_cache_add en fce s =
     (case insert_in_hashtable en fce s of (ret, s) \<Rightarrow> if ret \<noteq> 0 then (None, s) else (Some fce, s))"

definition flowmob_cache_get :: "flow_key \<Rightarrow> sys \<Rightarrow> nat option" where
  "flowmob_cache_get k s = flow_mob_hash_get (fl_rd s) (flowmob_hash s) k"

definition flowmob_cache_exists :: "flow_key \<Rightarrow> sys \<Rightarrow> int" where
  "flowmob_cache_exists k s = (case flowmob_cache_get k s of None \<Rightarrow> -1 | Some _ \<Rightarrow> 1)"

definition flowmob_cache_free :: "nat \<Rightarrow> sys \<Rightarrow> sys" where
  "flowmob_cache_free fce s = s\<lparr>fl_alive := fl_alive s - {fce}\<rparr>"

definition flowmob_entry_delete :: "nat \<Rightarrow> sys \<Rightarrow> sys outcome" where
  "flowmob_entry_delete fce s =
     andThen (fl_deref fce s) (\<lambda>e.
       Done (flowmob_cache_free fce (s\<lparr>flowmob_cache_count := flowmob_cache_count s - 1,
               flowmob_hash := flow_mob_hash_delete (fl_rd s) (flowmob_hash s) (fc_key e)\<rparr>)))"

definition flowmob_cache_iterate :: "(nat \<Rightarrow> sys \<Rightarrow> (int \<times> sys) outcome) \<Rightarrow> sys \<Rightarrow> (int \<times> sys) outcome" where
  "flowmob_cache_iterate func s =
     (case flow_mob_hash_iterate (flowmob_hash s) (faulting func) (Done s) of
        (err, m) \<Rightarrow> andThen m (\<lambda>s. Done (err, s)))"

section \<open>Marking\<close>

definition mark_rule :: "flow_key \<Rightarrow> u32 \<Rightarrow> fw_rule" where
  "mark_rule k mark = \<lparr>f_src = ip6_source k, f_dst = ip6_dest k, f_tcp = (proto k = IPPROTO_TCP),
     f_dport = destination_port k, f_sport = source_port k, f_mark = mark\<rparr>"

text \<open>The first command only checks whether the rule is installed.\<close>

definition flowMarker_add_fwmark :: "env \<Rightarrow> flow_key \<Rightarrow> u32 \<Rightarrow> sys \<Rightarrow> sys" where
  "flowMarker_add_fwmark en k mark s =
     (let r = mark_rule k mark; s1 = emit (FwCheck r) s
      in if fw_has en (out s) r then s1 else emit (FwInsert r) s1)"

definition flowMarker_delete_mark :: "flow_key \<Rightarrow> u32 \<Rightarrow> sys \<Rightarrow> sys" where
  "flowMarker_delete_mark k mark s = emit (FwDelete (mark_rule k mark)) s"

section \<open>The scheduler\<close>

record mn_nai_association =
  as_ip6 :: in6_addr
  as_client_nai :: ip6mn_nai
  as_BID :: int

definition find_NAI :: "nat \<Rightarrow> mn_nai_association \<times> sys \<Rightarrow> (int \<times> mn_nai_association \<times> sys) outcome" where
  "find_NAI p x = (case x of (a, s) \<Rightarrow>
     andThen (deref p s) (\<lambda>bce.
       if as_ip6 a = e_mn_addr bce
       then Done (1, a\<lparr>as_client_nai := e_mn_nai bce, as_BID := e_BID bce\<rparr>, s)
       else Done (0, a, s)))"

text \<open>The loop over the gateways: it stops at the first one when \<open>r < 10\<close> and runs to the end otherwise.\<close>

fun fwmark_loop :: "nat \<Rightarrow> u32 \<Rightarrow> mag list \<Rightarrow> u32" where
  "fwmark_loop r mark [] = mark"
| "fwmark_loop r mark (m # ms) = (if r < 10 then mag_mark m else fwmark_loop r (mag_mark m) ms)"

definition get_flow_fwmark :: "env \<Rightarrow> ip6mn_nai \<Rightarrow> sys \<Rightarrow> u32 \<times> sys" where
  "get_flow_fwmark en mn_nai s =
     (let r = rand en (draws s) mod 20; s' = s\<lparr>draws := draws s + 1\<rparr>
      in case get_route_for_client mn_nai (croutes s') of
           None \<Rightarrow> (0, s')
         | Some client \<Rightarrow> (fwmark_loop r 0 (r_mag client), s'))"

definition flowScheduler_schedule_flow :: "env \<Rightarrow> flow_key \<Rightarrow> sys \<Rightarrow> (u32 \<times> sys) outcome" where
  "flowScheduler_schedule_flow en k s =
     andThen (pmip_cache_iterate find_NAI \<lparr>as_ip6 = ip6_dest k, as_client_nai = nai_zero, as_BID = 0\<rparr> s) (\<lambda>(_, a, s).
     case flowmob_cache_get k s of
       Some fce \<Rightarrow> Done (0, s)
     | None \<Rightarrow>
        (case get_flow_fwmark en (as_client_nai a) s of (mark, s) \<Rightarrow>
           if mark > 0
           then (case flowmob_cache_alloc en s of
                   (None, s) \<Rightarrow> Fault NullDeref
                 | (Some p, s) \<Rightarrow>
                     andThen (fl_modify p (\<lambda>_. \<lparr>fc_key = k, fc_BID = as_BID a, fc_client_nai = as_client_nai a,
                                                fc_mark = mark\<rparr>) s) (\<lambda>s.
                       Done (mark, snd (flowmob_cache_add en p s))))
           else Done (mark, s)))"

definition flowScheduler_change_mark :: "env \<Rightarrow> ip6mn_nai \<Rightarrow> nat \<Rightarrow> sys \<Rightarrow> (int \<times> sys) outcome" where
  "flowScheduler_change_mark en mn_nai fce s =
     andThen (fl_deref fce s) (\<lambda>e.
       if mn_nai \<noteq> fc_client_nai e then Done (garbage en, s)
       else let oldfwmark = fc_mark e in
         case get_flow_fwmark en mn_nai s of (newMark, s) \<Rightarrow>
           if newMark = 0
           then andThen (flowmob_entry_delete fce (flowMarker_delete_mark (fc_key e) oldfwmark s)) (\<lambda>s. Done (0, s))
           else andThen (fl_modify fce (\<lambda>e. e\<lparr>fc_mark := newMark\<rparr>) s) (\<lambda>s.
             Done (0, flowMarker_delete_mark (fc_key e) oldfwmark (flowMarker_add_fwmark en (fc_key e) newMark s))))"

definition flowScheduler_new_path :: "env \<Rightarrow> nat \<Rightarrow> sys \<Rightarrow> (int \<times> sys) outcome" where
  "flowScheduler_new_path en fce s =
     andThen (fl_deref fce s) (\<lambda>e.
       case get_flow_fwmark en (fc_client_nai e) s of (newMark, s) \<Rightarrow>
         if newMark \<noteq> fc_mark e
         then andThen (fl_modify fce (\<lambda>e. e\<lparr>fc_mark := newMark\<rparr>)
                (flowMarker_delete_mark (fc_key e) (fc_mark e) (flowMarker_add_fwmark en (fc_key e) newMark s)))
                (\<lambda>s. Done (0, s))
         else Done (0, s))"

definition flowScheduler_link_down :: "env \<Rightarrow> ip6mn_nai \<Rightarrow> sys \<Rightarrow> sys outcome" where
  "flowScheduler_link_down en mn_nai s =
     andThen (flowmob_cache_iterate (flowScheduler_change_mark en mn_nai) s) (\<lambda>(_, s). Done s)"

text \<open>The identifier of the node is passed along but \<open>flowScheduler_new_path\<close> does not look at it.\<close>

definition flowScheduler_link_up :: "env \<Rightarrow> ip6mn_nai \<Rightarrow> sys \<Rightarrow> sys outcome" where
  "flowScheduler_link_up en mn_nai s =
     andThen (flowmob_cache_iterate (flowScheduler_new_path en) s) (\<lambda>(_, s). Done s)"

section \<open>The invariant of the flow cache\<close>

definition flow_inv :: "sys \<Rightarrow> bool" where
  "flow_inv s \<longleftrightarrow> flow_hash_wf (fl_rd s) (flowmob_hash s)
     \<and> set (table_elems (flowmob_hash s)) \<subseteq> fl_alive s \<and> (\<forall>p \<in> fl_alive s. p < fl_brk s)
     \<and> distinct (table_elems (flowmob_hash s))
     \<and> flowmob_cache_count s = int (length (table_elems (flowmob_hash s)))"

abbreviation flows :: "sys \<Rightarrow> nat set" where
  "flows s \<equiv> set (table_elems (flowmob_hash s))"

lemma flow_get_iff: "flow_inv s \<Longrightarrow> flowmob_cache_get k s = Some p \<longleftrightarrow> p \<in> flows s \<and> fc_key (fl_heap s p) = k"
  using fh.cget_Some_iff [of "fl_rd s" "flowmob_hash s" k p]
  by (simp add: flowmob_cache_get_def flow_hash_chained flow_inv_def fl_rd_def)

lemma flow_inv_frame:
  assumes "flow_inv s" "flowmob_hash s' = flowmob_hash s" "fl_alive s' = fl_alive s" "fl_brk s' = fl_brk s"
    and "flowmob_cache_count s' = flowmob_cache_count s"
    and "\<And>p. p \<in> flows s \<Longrightarrow> fc_key (fl_heap s' p) = fc_key (fl_heap s p)"
  shows "flow_inv s'"
proof -
  have "flow_hash_wf (fl_rd s') (flowmob_hash s)"
    by (rule fh.cinv_cong [of "fl_rd s"]) (use assms in \<open>auto simp: flow_inv_def fl_rd_def\<close>)
  then show ?thesis using assms by (simp add: flow_inv_def)
qed

lemma fl_deref_alive: "p \<in> fl_alive s \<Longrightarrow> fl_deref p s = Done (fl_heap s p)"
  by (simp add: fl_deref_def)

lemma fl_modify_alive:
  "p \<in> fl_alive s \<Longrightarrow> fl_modify p f s = Done (s\<lparr>fl_heap := (fl_heap s)(p := f (fl_heap s p))\<rparr>)"
  by (simp add: fl_modify_def)

lemma emit_fields [simp]:
  "fl_alive (emit e s) = fl_alive s" "fl_heap (emit e s) = fl_heap s" "flowmob_hash (emit e s) = flowmob_hash s"
  "fl_brk (emit e s) = fl_brk s" "flowmob_cache_count (emit e s) = flowmob_cache_count s"
  "croutes (emit e s) = croutes s" "draws (emit e s) = draws s" "out (emit e s) = out s @ [e]"
  by (simp_all add: emit_def)

lemma marker_fields [simp]:
  "fl_alive (flowMarker_add_fwmark en k m s) = fl_alive s" "fl_heap (flowMarker_add_fwmark en k m s) = fl_heap s"
  "flowmob_hash (flowMarker_add_fwmark en k m s) = flowmob_hash s" "fl_brk (flowMarker_add_fwmark en k m s) = fl_brk s"
  "flowmob_cache_count (flowMarker_add_fwmark en k m s) = flowmob_cache_count s"
  "croutes (flowMarker_add_fwmark en k m s) = croutes s" "draws (flowMarker_add_fwmark en k m s) = draws s"
  "fl_alive (flowMarker_delete_mark k m s) = fl_alive s" "fl_heap (flowMarker_delete_mark k m s) = fl_heap s"
  "flowmob_hash (flowMarker_delete_mark k m s) = flowmob_hash s" "fl_brk (flowMarker_delete_mark k m s) = fl_brk s"
  "flowmob_cache_count (flowMarker_delete_mark k m s) = flowmob_cache_count s"
  "croutes (flowMarker_delete_mark k m s) = croutes s" "draws (flowMarker_delete_mark k m s) = draws s"
  by (simp_all add: flowMarker_add_fwmark_def flowMarker_delete_mark_def Let_def)

section \<open>The choice of a gateway\<close>

lemma fwmark_loop_cases: "ms \<noteq> [] \<Longrightarrow> fwmark_loop r m ms = mag_mark (if r < 10 then hd ms else last ms)"
  by (induction ms arbitrary: m) auto

definition marks_of :: "sys \<Rightarrow> ip6mn_nai \<Rightarrow> u32 set" where
  "marks_of s nai = (case get_route_for_client nai (croutes s) of None \<Rightarrow> {}
     | Some r \<Rightarrow> if r_mag r = [] then {} else {mag_mark (hd (r_mag r)), mag_mark (last (r_mag r))})"

lemma get_flow_fwmark_in:
  assumes "marks_of s nai \<noteq> {}"
  shows "\<exists>m \<in> marks_of s nai. get_flow_fwmark en nai s = (m, s\<lparr>draws := draws s + 1\<rparr>)"
  using assms by (auto simp: marks_of_def get_flow_fwmark_def Let_def fwmark_loop_cases split: option.splits if_splits)

lemma get_flow_fwmark_none:
  "marks_of s nai = {} \<Longrightarrow> get_flow_fwmark en nai s = (0, s\<lparr>draws := draws s + 1\<rparr>)"
  by (auto simp: marks_of_def get_flow_fwmark_def Let_def split: option.splits if_splits)

section \<open>Handover of the flows of a client\<close>

text \<open>One flow: moved to another gateway, or deleted when there is none.\<close>

definition remarked :: "ip6mn_nai \<Rightarrow> nat set \<Rightarrow> sys \<Rightarrow> sys \<Rightarrow> bool" where
  "remarked nai P s s' \<longleftrightarrow>
     (\<forall>p. if p \<in> P \<and> fc_client_nai (fl_heap s p) = nai
          then \<exists>m \<in> marks_of s nai. fl_heap s' p = (fl_heap s p)\<lparr>fc_mark := m\<rparr> else fl_heap s' p = fl_heap s p)
     \<and> croutes s' = croutes s \<and> flowmob_hash s' = flowmob_hash s \<and> fl_alive s' = fl_alive s \<and> fl_brk s' = fl_brk s
     \<and> flowmob_cache_count s' = flowmob_cache_count s"

lemma marks_of_cong: "croutes s' = croutes s \<Longrightarrow> marks_of s' = marks_of s"
  by (simp add: marks_of_def fun_eq_iff)

lemma remarked_trans:
  assumes "remarked nai {p} s s1" "remarked nai P s1 s'" "p \<notin> P"
  shows "remarked nai (insert p P) s s'"
proof -
  have mk: "marks_of s1 = marks_of s" using assms(1) by (intro marks_of_cong) (simp add: remarked_def)
  have "if q \<in> insert p P \<and> fc_client_nai (fl_heap s q) = nai
      then \<exists>m \<in> marks_of s nai. fl_heap s' q = (fl_heap s q)\<lparr>fc_mark := m\<rparr> else fl_heap s' q = fl_heap s q" for q
  proof (cases "q = p")
    case True
    then have "fl_heap s' q = fl_heap s1 q" using assms(2,3) by (auto simp: remarked_def)
    moreover have "if fc_client_nai (fl_heap s p) = nai
        then \<exists>m \<in> marks_of s nai. fl_heap s1 p = (fl_heap s p)\<lparr>fc_mark := m\<rparr> else fl_heap s1 p = fl_heap s p"
      using assms(1) unfolding remarked_def by (metis singletonI)
    ultimately show ?thesis using True by simp
  next
    case False
    then have "fl_heap s1 q = fl_heap s q" using assms(1) by (auto simp: remarked_def)
    moreover have "if q \<in> P \<and> fc_client_nai (fl_heap s1 q) = nai
        then \<exists>m \<in> marks_of s1 nai. fl_heap s' q = (fl_heap s1 q)\<lparr>fc_mark := m\<rparr> else fl_heap s' q = fl_heap s1 q"
      using assms(2) unfolding remarked_def by blast
    ultimately show ?thesis using False by (auto simp: mk split: if_splits)
  qed
  then show ?thesis using assms(1,2) by (simp add: remarked_def)
qed

lemma change_mark_moves:
  assumes "p \<in> fl_alive s" "marks_of s nai \<noteq> {}" "0 \<notin> marks_of s nai" "garbage en = 0"
  shows "\<exists>s'. flowScheduler_change_mark en nai p s = Done (0, s') \<and> remarked nai {p} s s'"
proof (cases "fc_client_nai (fl_heap s p) = nai")
  case True
  obtain m where m: "m \<in> marks_of s nai" "get_flow_fwmark en nai s = (m, s\<lparr>draws := draws s + 1\<rparr>)"
    using get_flow_fwmark_in [OF assms(2)] by blast
  then have "m \<noteq> 0" using assms(3) by metis
  then show ?thesis
    using assms(1) m True
    by (auto simp: flowScheduler_change_mark_def fl_deref_alive fl_modify_alive Let_def remarked_def)
next
  case False
  then show ?thesis
    using assms(1,4) by (auto simp: flowScheduler_change_mark_def fl_deref_alive remarked_def)
qed

lemma change_marks:
  assumes "set ps \<subseteq> fl_alive s" "distinct ps" "marks_of s nai \<noteq> {}" "0 \<notin> marks_of s nai" "garbage en = 0"
  shows "\<exists>s'. chain_iterate (faulting (flowScheduler_change_mark en nai)) ps (Done s) = (0, Done s')
    \<and> remarked nai (set ps) s s'"
  using assms(1-4)
proof (induction ps arbitrary: s)
  case (Cons p ps)
  then have p: "p \<in> fl_alive s" "p \<notin> set ps" by auto
  obtain s1 where s1: "flowScheduler_change_mark en nai p s = Done (0, s1)" "remarked nai {p} s s1"
    using change_mark_moves [OF p(1) Cons.prems(3,4) assms(5)] by blast
  have f: "fl_alive s1 = fl_alive s" "marks_of s1 = marks_of s"
    using s1(2) by (simp_all add: remarked_def marks_of_cong [of s1 s])
  obtain s' where s': "chain_iterate (faulting (flowScheduler_change_mark en nai)) ps (Done s1) = (0, Done s')"
      "remarked nai (set ps) s1 s'"
    using Cons.IH [of s1] Cons.prems by (auto simp: f)
  then show ?case using s1(1) remarked_trans [OF s1(2) s'(2) p(2)] by (simp add: faulting_Done [where f = "flowScheduler_change_mark en nai", OF s1(1)])
qed (simp add: remarked_def)

text \<open>Deleting a flow.\<close>

lemma flow_delete:
  assumes "flow_inv s" "p \<in> flows s"
  shows "\<exists>s'. flowmob_entry_delete p s = Done s' \<and> flow_inv s' \<and> flows s' = flows s - {p} \<and> fl_heap s' = fl_heap s
    \<and> croutes s' = croutes s"
proof -
  let ?h = "flow_mob_hash_delete (fl_rd s) (flowmob_hash s) (fl_rd s p)"
  let ?s = "s\<lparr>flowmob_cache_count := flowmob_cache_count s - 1, flowmob_hash := ?h, fl_alive := fl_alive s - {p}\<rparr>"
  have wf: "flow_hash_wf (fl_rd s) (flowmob_hash s)" and d: "distinct (table_elems (flowmob_hash s))"
    and old: "flows s \<subseteq> fl_alive s" "\<forall>p \<in> fl_alive s. p < fl_brk s"
      "flowmob_cache_count s = int (length (table_elems (flowmob_hash s)))"
    using assms(1) unfolding flow_inv_def by blast+
  have "fh.cget (fl_rd s) (flowmob_hash s) (fl_rd s p) = Some p"
    using fh.cget_Some_iff [OF wf] assms(2) by simp
  then have m: "mset (table_elems ?h) = mset (table_elems (flowmob_hash s)) - {#p#}"
    using fh.table.elems_del [OF wf, of "fl_rd s p"] by (simp add: flow_hash_chained)
  note el = remove1_mset [OF m d assms(2)]
  have "distinct (table_elems ?h)"
    using m d mset_eq_imp_distinct_iff [of "table_elems ?h" "remove1 p (table_elems (flowmob_hash s))"] by simp
  moreover have "flowmob_cache_count s - 1 = int (length (table_elems ?h))"
    unfolding el(2) old(3) using el(3) by linarith
  moreover have "flow_hash_wf (fl_rd s) ?h" using fh.table.invar_del [OF wf] by (simp add: flow_hash_chained)
  moreover have "fl_rd ?s = fl_rd s" by (simp add: fl_rd_def fun_eq_iff)
  ultimately have "flow_inv ?s" unfolding flow_inv_def using el(1) old(1,2) by auto
  moreover have "flowmob_entry_delete p s = Done ?s"
    using assms(2) old(1)
    by (auto simp: flowmob_entry_delete_def fl_deref_alive flowmob_cache_free_def fl_rd_def [abs_def])
  ultimately show ?thesis using el(1) by simp
qed

lemma change_mark_deletes:
  assumes "flow_inv s" "p \<in> flows s" "marks_of s nai = {}" "garbage en = 0"
  shows "\<exists>s'. flowScheduler_change_mark en nai p s = Done (0, s') \<and> flow_inv s' \<and> fl_heap s' = fl_heap s
    \<and> croutes s' = croutes s \<and> flows s' = (if fc_client_nai (fl_heap s p) = nai then flows s - {p} else flows s)"
proof (cases "fc_client_nai (fl_heap s p) = nai")
  case True
  have a: "p \<in> fl_alive s" using assms(1,2) by (auto simp: flow_inv_def)
  let ?s = "flowMarker_delete_mark (fc_key (fl_heap s p)) (fc_mark (fl_heap s p)) (s\<lparr>draws := draws s + 1\<rparr>)"
  have "flow_inv ?s" by (rule flow_inv_frame [OF assms(1)]) simp_all
  then obtain s' where "flowmob_entry_delete p ?s = Done s'" "flow_inv s'" "flows s' = flows s - {p}"
      "fl_heap s' = fl_heap s" "croutes s' = croutes s"
    using flow_delete [of ?s p] assms(2) by auto
  then show ?thesis
    using True a get_flow_fwmark_none [OF assms(3), of en]
    by (simp add: flowScheduler_change_mark_def fl_deref_alive Let_def)
next
  case False
  then show ?thesis using assms by (auto simp: flowScheduler_change_mark_def fl_deref_def flow_inv_def)
qed

lemma change_marks_delete:
  assumes "flow_inv s" "set ps \<subseteq> flows s" "distinct ps" "marks_of s nai = {}" "garbage en = 0"
  shows "\<exists>s'. chain_iterate (faulting (flowScheduler_change_mark en nai)) ps (Done s) = (0, Done s')
    \<and> flow_inv s' \<and> fl_heap s' = fl_heap s \<and> flows s' = flows s - {p \<in> set ps. fc_client_nai (fl_heap s p) = nai}"
  using assms(1-4)
proof (induction ps arbitrary: s)
  case (Cons p ps)
  then obtain s1 where s1: "flowScheduler_change_mark en nai p s = Done (0, s1)" "flow_inv s1" "fl_heap s1 = fl_heap s"
      "croutes s1 = croutes s" "flows s1 = (if fc_client_nai (fl_heap s p) = nai then flows s - {p} else flows s)"
    using change_mark_deletes [of s p nai en] assms(5) by auto
  have "set ps \<subseteq> flows s1" using Cons.prems(2,3) by (auto simp: s1(5))
  then obtain s' where "chain_iterate (faulting (flowScheduler_change_mark en nai)) ps (Done s1) = (0, Done s')"
      "flow_inv s'" "fl_heap s' = fl_heap s1" "flows s' = flows s1 - {p \<in> set ps. fc_client_nai (fl_heap s1 p) = nai}"
    using Cons.IH [OF s1(2)] Cons.prems(3,4) marks_of_cong [OF s1(4)] by auto
  then show ?case by (auto simp: faulting_Done [where f = "flowScheduler_change_mark en nai", OF s1(1)] s1(3,5))
qed auto

lemma link_down_iterate:
  "flowScheduler_link_down en nai s =
     (case chain_iterate (faulting (flowScheduler_change_mark en nai)) (table_elems (flowmob_hash s)) (Done s) of
        (_, m) \<Rightarrow> m)"
  by (auto simp: flowScheduler_link_down_def flowmob_cache_iterate_def flow_mob_hash_iterate_def table_iterate_elems
      andThen_def split: prod.splits outcome.splits)

section \<open>Rules installed by the firewall\<close>

text \<open>How many copies of a rule the commands of a history leave installed.\<close>

fun fw_step :: "fw_rule \<Rightarrow> effect \<Rightarrow> nat \<Rightarrow> nat" where
  "fw_step r (FwInsert r') n = (if r' = r then n + 1 else n)"
| "fw_step r (FwDelete r') n = (if r' = r then n - 1 else n)"
| "fw_step r _ n = n"

definition fw_installed :: "effect list \<Rightarrow> fw_rule \<Rightarrow> nat" where
  "fw_installed h r = fold (fw_step r) h 0"

definition fw_faithful :: "env \<Rightarrow> bool" where
  "fw_faithful en \<longleftrightarrow> (\<forall>h r. fw_has en h r \<longleftrightarrow> 0 < fw_installed h r)"

lemma fw_installed_append [simp]: "fw_installed (h @ h') r = fold (fw_step r) h' (fw_installed h r)"
  by (simp add: fw_installed_def)

lemma mark_rule_inject: "mark_rule k m = mark_rule k m' \<longleftrightarrow> m = m'"
  by (simp add: mark_rule_def)

lemma remark_rules:
  assumes "fw_faithful en"
  shows "fw_installed (out (flowMarker_delete_mark k old (flowMarker_add_fwmark en k new s))) (mark_rule k new)
    = (if new = old then max 1 (fw_installed (out s) (mark_rule k old)) - 1 else max 1 (fw_installed (out s) (mark_rule k new)))"
    and "new \<noteq> old \<Longrightarrow> fw_installed (out (flowMarker_delete_mark k old (flowMarker_add_fwmark en k new s))) (mark_rule k old)
    = fw_installed (out s) (mark_rule k old) - 1"
  using assms
  by (auto simp: flowMarker_add_fwmark_def flowMarker_delete_mark_def Let_def fw_faithful_def mark_rule_inject)

section \<open>Scheduling a new flow\<close>

lemma find_NAI_iterate:
  assumes "set ps \<subseteq> alive s"
  shows "chain_iterate (faulting find_NAI) ps (Done (a, s)) =
    (case find (\<lambda>p. e_mn_addr (heap s p) = as_ip6 a) ps of
       None \<Rightarrow> (0, Done (a, s))
     | Some p \<Rightarrow> (1, Done (a\<lparr>as_client_nai := e_mn_nai (heap s p), as_BID := e_BID (heap s p)\<rparr>, s)))"
  using assms
proof (induction ps)
  case (Cons p ps)
  then have "find_NAI p (a, s) = Done (if as_ip6 a = e_mn_addr (heap s p)
      then (1, a\<lparr>as_client_nai := e_mn_nai (heap s p), as_BID := e_BID (heap s p)\<rparr>, s) else (0, a, s))"
    by (simp add: find_NAI_def cache_simps)
  then show ?case using Cons by (auto simp: faulting_def)
qed simp

lemma iterate_find_NAI:
  assumes "cache_inv s" "PmipLock \<notin> set (held s)"
    and "find (\<lambda>p. e_mn_addr (heap s p) = as_ip6 a) (table_elems (g_pmip_hash s)) = Some b"
  shows "pmip_cache_iterate find_NAI a s =
    Done (1, a\<lparr>as_client_nai := e_mn_nai (heap s b), as_BID := e_BID (heap s b)\<rparr>, s)"
proof -
  have "cached s \<subseteq> alive s" using assms(1) by (simp add: cache_inv_def)
  then show ?thesis
    using assms(2,3) find_NAI_iterate [of "table_elems (g_pmip_hash s)" "s\<lparr>held := PmipLock # held s\<rparr>" a]
    by (simp add: pmip_cache_iterate_def acquire_free pmip_hash_iterate_def table_iterate_elems release_def)
qed

lemma flow_add:
  assumes "flow_inv s" "flowmob_cache_get (fc_key e) s = None" "p = fl_brk s"
    and "s1 = s\<lparr>fl_brk := p + 1, fl_alive := insert p (fl_alive s), fl_heap := (fl_heap s)(p := e)\<rparr>" "memok en"
  shows "\<exists>s'. flowmob_cache_add en p s1 = (Some p, s') \<and> flow_inv s' \<and> fl_heap s' = fl_heap s1 \<and> flows s' = insert p (flows s)
    \<and> (\<forall>k. flowmob_cache_get k s' = (if k = fc_key e then Some p else flowmob_cache_get k s)) \<and> held s' = held s
    \<and> g_pmip_hash s' = g_pmip_hash s \<and> heap s' = heap s
    \<and> (\<exists>h c. s' = s1\<lparr>flowmob_hash := h, flowmob_cache_count := c\<rparr>)"
proof -
  have new: "p \<notin> fl_alive s" "p \<notin> flows s" using assms(1,3) by (auto simp: flow_inv_def)
  have rd: "fl_rd s1 q = (if q = p then fc_key e else fl_rd s q)" for q by (simp add: fl_rd_def assms(4))
  have wf: "flow_hash_wf (fl_rd s1) (flowmob_hash s)"
    by (rule fh.cinv_cong [of "fl_rd s"]) (use assms(1) new rd in \<open>auto simp: flow_inv_def\<close>)
  have get: "fh.cget (fl_rd s1) (flowmob_hash s) k = flowmob_cache_get k s" for k
    unfolding flowmob_cache_get_def flow_hash_chained
    by (rule fh.cget_cong) (use assms(1) new rd in \<open>auto simp: flow_inv_def\<close>)
  have "fh.cget (fl_rd s1) (flowmob_hash s) (fl_rd s1 p) = None" using assms(2) by (simp add: get rd)
  then obtain h where h: "flow_mob_hash_add True (fl_rd s1) (flowmob_hash s) p = (0, h)" "flow_hash_wf (fl_rd s1) h"
      "mset (table_elems h) = add_mset p (mset (table_elems (flowmob_hash s)))"
      "fh.cget (fl_rd s1) h = (fh.cget (fl_rd s1) (flowmob_hash s))(fc_key e \<mapsto> p)"
    using fh.table.add_fresh [OF wf, of p] rd by (auto simp: flow_hash_chained)
  have el: "set (table_elems h) = insert p (flows s)" "length (table_elems h) = Suc (length (table_elems (flowmob_hash s)))"
    using arg_cong [OF h(3), of set_mset] arg_cong [OF h(3), of size] by simp_all
  have d: "distinct (table_elems h)"
    using mset_eq_imp_distinct_iff [of "table_elems h" "p # table_elems (flowmob_hash s)"] h(3) new(2) assms(1)
    by (simp add: flow_inv_def)
  let ?s = "s1\<lparr>flowmob_hash := h, flowmob_cache_count := flowmob_cache_count s1 + 1\<rparr>"
  have rd': "fl_rd ?s = fl_rd s1" by (simp add: fl_rd_def fun_eq_iff)
  have "flowmob_cache_add en p s1 = (Some p, ?s)"
    using h(1) assms(4,5) by (simp add: flowmob_cache_add_def insert_in_hashtable_def)
  moreover have "flow_inv ?s"
    using assms(1,3) h(2) d el unfolding flow_inv_def rd' by (auto simp: assms(4) less_Suc_eq)
  moreover have "flowmob_cache_get k ?s = (if k = fc_key e then Some p else flowmob_cache_get k s)" for k
    by (simp add: flowmob_cache_get_def [of k ?s] flow_hash_chained rd' h(4) get)
  moreover have "\<exists>h c. ?s = s1\<lparr>flowmob_hash := h, flowmob_cache_count := c\<rparr>" by blast
  ultimately show ?thesis using el(1) by (auto simp: assms(4))
qed

section \<open>What the scheduler leaves alone\<close>

text \<open>Rescheduling changes the flow cache and issues commands; \<open>kept\<close> says in addition that the same flows
  are in the cache, under the same keys.\<close>

definition flow_frame :: "sys \<Rightarrow> sys \<Rightarrow> bool" where
  "flow_frame s s' \<longleftrightarrow> (\<exists>h a H c d es. s' = s\<lparr>fl_heap := h, fl_alive := a, flowmob_hash := H, flowmob_cache_count := c,
     draws := d, out := out s @ es\<rparr>)"

definition kept :: "sys \<Rightarrow> sys \<Rightarrow> bool" where
  "kept s s' \<longleftrightarrow> flow_frame s s' \<and> flowmob_hash s' = flowmob_hash s \<and> fl_alive s' = fl_alive s
     \<and> flowmob_cache_count s' = flowmob_cache_count s \<and> (\<forall>p. fc_key (fl_heap s' p) = fc_key (fl_heap s p))"

lemma flow_frameI:
  "s' = s\<lparr>fl_heap := fl_heap s', fl_alive := fl_alive s', flowmob_hash := flowmob_hash s',
     flowmob_cache_count := flowmob_cache_count s', draws := draws s', out := out s @ es\<rparr> \<Longrightarrow> flow_frame s s'"
  unfolding flow_frame_def by blast

lemma flow_frame_refl: "flow_frame s s"
  by (rule flow_frameI [of _ _ "[]"]) simp

lemma flow_frame_trans: "flow_frame s t \<Longrightarrow> flow_frame t u \<Longrightarrow> flow_frame s u"
  unfolding flow_frame_def by (elim exE) (simp, blast)

lemma kept_refl: "kept s s"
  by (simp add: kept_def flow_frame_refl)

lemma kept_trans: "kept s t \<Longrightarrow> kept t u \<Longrightarrow> kept s u"
  using flow_frame_trans by (auto simp: kept_def)

lemma kept_inv: "flow_inv s \<Longrightarrow> kept s s' \<Longrightarrow> flow_inv s'"
  by (rule flow_inv_frame [of s]) (auto simp: kept_def flow_frame_def)

lemma flow_step_frames:
  "flow_frame s (s\<lparr>draws := d\<rparr>)" "flow_frame s (emit e s)" "flow_frame s (s\<lparr>fl_heap := h\<rparr>)"
  "flow_frame s (s\<lparr>flowmob_cache_count := c, flowmob_hash := H, fl_alive := a\<rparr>)"
  by (rule flow_frameI [of _ _ "[]"] flow_frameI [of _ _ "[e]"], simp add: emit_def)+

lemma marker_frames:
  "flow_frame s (flowMarker_add_fwmark en k m s)" "flow_frame s (flowMarker_delete_mark k m s)"
  by (auto simp: flowMarker_add_fwmark_def flowMarker_delete_mark_def Let_def intro: flow_step_frames flow_frame_trans)

lemma get_flow_fwmark_state: "get_flow_fwmark en nai s = (m, s') \<Longrightarrow> s' = s\<lparr>draws := draws s + 1\<rparr>"
  by (auto simp: get_flow_fwmark_def Let_def split: option.splits)

lemma flow_modify_frame: "fl_modify p f s = Done s' \<Longrightarrow> flow_frame s s'"
  by (auto simp: fl_modify_def flow_step_frames split: if_splits)

lemma change_mark_frame:
  assumes "flowScheduler_change_mark en nai p s = Done (r, s')"
  shows "flow_frame s s'"
proof -
  have del: "flow_frame t t'" if "flowmob_entry_delete p t = Done t'" for t t'
    using that by (auto simp: flowmob_entry_delete_def flowmob_cache_free_def andThen_Done_iff flow_step_frames)
  show ?thesis
    using assms
    by (auto simp: flowScheduler_change_mark_def andThen_Done_iff Let_def flow_frame_refl split: if_splits prod.splits
        dest!: get_flow_fwmark_state flow_modify_frame del
        intro: flow_frame_trans [OF flow_step_frames(1)] flow_frame_trans [OF _ marker_frames(1)]
          flow_frame_trans [OF _ marker_frames(2)] flow_frame_trans [OF marker_frames(2)] flow_frame_trans)
qed

lemma link_down_frame:
  assumes "flowScheduler_link_down en nai s = Done s'"
  shows "flow_frame s s'"
proof -
  obtain r where "chain_iterate (faulting (flowScheduler_change_mark en nai)) (table_elems (flowmob_hash s)) (Done s) = (r, Done s')"
    using assms by (auto simp: link_down_iterate split: prod.splits)
  then show ?thesis
    by (rule chain_iterate_faulting [where R = flow_frame, rotated 3])
      (auto intro: change_mark_frame flow_frame_refl flow_frame_trans)
qed

lemma new_path_kept:
  assumes "p \<in> fl_alive s"
  shows "\<exists>s'. flowScheduler_new_path en p s = Done (0, s') \<and> kept s s'"
proof -
  obtain m where m: "get_flow_fwmark en (fc_client_nai (fl_heap s p)) s = (m, s\<lparr>draws := draws s + 1\<rparr>)"
    using get_flow_fwmark_state by (metis prod.exhaust)
  let ?s = "flowMarker_delete_mark (fc_key (fl_heap s p)) (fc_mark (fl_heap s p))
      (flowMarker_add_fwmark en (fc_key (fl_heap s p)) m (s\<lparr>draws := draws s + 1\<rparr>))"
  have f1: "flow_frame s (s\<lparr>draws := draws s + 1\<rparr>)" by (rule flow_step_frames)
  have f2: "flow_frame s ?s" by (rule flow_frame_trans [OF f1 flow_frame_trans [OF marker_frames]])
  have f3: "flow_frame s (?s\<lparr>fl_heap := h\<rparr>)" for h by (rule flow_frame_trans [OF f2 flow_step_frames(3)])
  show ?thesis
    using assms f1 f3 m by (simp add: flowScheduler_new_path_def fl_deref_alive fl_modify_alive kept_def)
qed

lemma new_paths_kept:
  assumes "set ps \<subseteq> fl_alive s"
  shows "\<exists>s'. chain_iterate (faulting (flowScheduler_new_path en)) ps (Done s) = (0, Done s') \<and> kept s s'"
  using assms
proof (induction ps arbitrary: s)
  case (Cons p ps)
  then obtain s1 where s1: "flowScheduler_new_path en p s = Done (0, s1)" "kept s s1"
    using new_path_kept [of p s en] by auto
  then have "set ps \<subseteq> fl_alive s1" using Cons.prems by (simp add: kept_def)
  then obtain s' where "chain_iterate (faulting (flowScheduler_new_path en)) ps (Done s1) = (0, Done s')" "kept s1 s'"
    using Cons.IH by blast
  then show ?case
    using s1 kept_trans by (auto simp: faulting_Done [where f = "flowScheduler_new_path en", OF s1(1)])
qed (simp add: kept_refl)

lemma link_up_kept:
  assumes "flow_inv s"
  shows "\<exists>s'. flowScheduler_link_up en nai s = Done s' \<and> kept s s' \<and> flow_inv s'"
proof -
  have "flows s \<subseteq> fl_alive s" using assms by (simp add: flow_inv_def)
  then obtain s' where "chain_iterate (faulting (flowScheduler_new_path en)) (table_elems (flowmob_hash s)) (Done s) = (0, Done s')"
      "kept s s'"
    using new_paths_kept by blast
  then show ?thesis
    using kept_inv [OF assms]
    by (auto simp: flowScheduler_link_up_def flowmob_cache_iterate_def flow_mob_hash_iterate_def table_iterate_elems)
qed

text \<open>Whatever the gateways of the client and the values of the callbacks, a handover completes and keeps
  the cache well formed.\<close>

lemma change_mark_total:
  assumes "flow_inv s" "p \<in> flows s"
  shows "\<exists>r s'. flowScheduler_change_mark en nai p s = Done (r, s') \<and> flow_inv s' \<and> flows s - {p} \<subseteq> flows s'"
proof -
  let ?e = "fl_heap s p" and ?s = "s\<lparr>draws := draws s + 1\<rparr>"
  have a: "p \<in> fl_alive s" using assms by (auto simp: flow_inv_def)
  obtain m where m: "get_flow_fwmark en nai s = (m, ?s)" using get_flow_fwmark_state by (metis prod.exhaust)
  show ?thesis
  proof (cases "fc_client_nai ?e = nai \<and> m = 0")
    case True
    have "flow_inv (flowMarker_delete_mark (fc_key ?e) (fc_mark ?e) ?s)" by (rule flow_inv_frame [OF assms(1)]) simp_all
    then obtain s' where "flowmob_entry_delete p (flowMarker_delete_mark (fc_key ?e) (fc_mark ?e) ?s) = Done s'"
        "flow_inv s'" "flows s' = flows s - {p}"
      using flow_delete [of _ p] assms(2) by fastforce
    then show ?thesis using True a m by (auto simp: flowScheduler_change_mark_def fl_deref_alive Let_def)
  next
    case False
    have "flow_inv (flowMarker_delete_mark k o1 (flowMarker_add_fwmark en k n (?s\<lparr>fl_heap := (fl_heap s)(p := ?e\<lparr>fc_mark := n\<rparr>)\<rparr>)))"
      for k o1 n by (rule flow_inv_frame [OF assms(1)]) simp_all
    then show ?thesis
      using False a m assms(1)
      by (cases "fc_client_nai ?e = nai") (auto simp: flowScheduler_change_mark_def fl_deref_alive fl_modify_alive Let_def)
  qed
qed

lemma change_marks_total:
  assumes "flow_inv s" "set ps \<subseteq> flows s" "distinct ps"
  shows "\<exists>r s'. chain_iterate (faulting (flowScheduler_change_mark en nai)) ps (Done s) = (r, Done s') \<and> flow_inv s'"
  using assms
proof (induction ps arbitrary: s)
  case (Cons p ps)
  then obtain r s1 where s1: "flowScheduler_change_mark en nai p s = Done (r, s1)" "flow_inv s1" "flows s - {p} \<subseteq> flows s1"
    using change_mark_total [of s p en nai] by auto
  have "set ps \<subseteq> flows s1" using s1(3) Cons.prems(2,3) by auto
  then obtain r' s' where "chain_iterate (faulting (flowScheduler_change_mark en nai)) ps (Done s1) = (r', Done s')" "flow_inv s'"
    using Cons.IH [OF s1(2)] Cons.prems(3) by auto
  then show ?case using s1(2) by (auto simp: faulting_Done [where f = "flowScheduler_change_mark en nai", OF s1(1)])
qed auto

lemma link_down_total:
  assumes "flow_inv s"
  shows "\<exists>s'. flowScheduler_link_down en nai s = Done s' \<and> flow_inv s' \<and> flow_frame s s'"
proof -
  have "distinct (table_elems (flowmob_hash s))" using assms by (simp add: flow_inv_def)
  then obtain r s' where "chain_iterate (faulting (flowScheduler_change_mark en nai)) (table_elems (flowmob_hash s)) (Done s)
      = (r, Done s')" "flow_inv s'"
    using change_marks_total [OF assms subset_refl] by blast
  then have "flowScheduler_link_down en nai s = Done s'" by (simp add: link_down_iterate)
  then show ?thesis using \<open>flow_inv s'\<close> link_down_frame by blast
qed

section \<open>A concrete instance\<close>

text \<open>One binding, one flow, and the routes of the clients.\<close>

definition flow_example :: "pmip_entry \<Rightarrow> flow_entry \<Rightarrow> client_routes \<Rightarrow> sys" where
  "flow_example e f c = \<lparr>tctl = tunnelctl_init, g_tunnel_timer_table = replicate PMIP_MAX_MAGS tunnel_timer_zero, tqs = tq_init,
     out = [], heap = (\<lambda>_. e), alive = {0}, brk = 1, g_pmip_hash = \<lparr>buckets = 1, hash_buckets = [[0]]\<rparr>,
     g_pmip_cache_count = 1, last_BID = 0, hnp = pmip_lma_mn_to_hnp_cache_init hnp_cache_boot, seq = 0, held = [],
     router_ad_iface = ra_iface_zero,
     croutes = c, fl_heap = (\<lambda>_. f), fl_alive = {0}, fl_brk = 1, flowmob_hash = \<lparr>buckets = 1, hash_buckets = [[0]]\<rparr>,
     flowmob_cache_count = 1, draws = 0\<rparr>"

definition route_example :: client_routes where
  "route_example = \<lparr>list_HEAD = [\<lparr>r_client_nai = nai_zero, r_mag = [\<lparr>ip6_addr = in6addr_any, mag_mark = 1\<rparr>]\<rparr>],
     number_of_clients = 0, number_of_routes = 1\<rparr>"

lemma flow_example_inv:
  "cache_inv (flow_example e f c)" "flow_inv (flow_example e f c)" "held (flow_example e f c) = []"
  using pmip_hash_wf_single [of "\<lambda>_. bce_key e" 0] flow_hash_wf_single [of "\<lambda>_. fc_key f" 0]
  by (auto simp: flow_example_def cache_inv_def flow_inv_def tq_inv_init table_elems_def bce_rd_def [abs_def]
      fl_rd_def [abs_def])

lemma flow_example_flows: "flows (flow_example e f c) = {0}" "fl_heap (flow_example e f c) = (\<lambda>_. f)"
  by (simp_all add: flow_example_def table_elems_def)

lemma flow_example_marks [simp]:
  "marks_of (flow_example e f route_example) nai_zero = {1}" "marks_of (flow_example e f client_route_init) n = {}"
  by (simp_all add: marks_of_def flow_example_def route_example_def client_route_init_def get_route_for_client_def)

lemma flow_example_get: "flowmob_cache_get k (flow_example e f c) = (if k = fc_key f then Some 0 else None)"
  using flow_get_iff [OF flow_example_inv(2), of k e f c 0]
    flow_get_iff [OF flow_example_inv(2), of k e f c] by (cases "flowmob_cache_get k (flow_example e f c)")
    (auto simp: flow_example_def table_elems_def)

lemma schedules_new_flow:
  assumes "cache_inv s" "flow_inv s" "PmipLock \<notin> set (held s)" "memok en" "flowmob_cache_get k s = None"
    and "find (\<lambda>p. e_mn_addr (heap s p) = ip6_dest k) (table_elems (g_pmip_hash s)) = Some b"
    and "marks_of s (e_mn_nai (heap s b)) \<noteq> {}" "0 \<notin> marks_of s (e_mn_nai (heap s b))"
  shows "\<exists>m p s'. flowScheduler_schedule_flow en k s = Done (m, s') \<and> m \<in> marks_of s (e_mn_nai (heap s b))
    \<and> flow_inv s' \<and> flowmob_cache_get k s' = Some p
    \<and> fl_heap s' p = \<lparr>fc_key = k, fc_BID = e_BID (heap s b), fc_client_nai = e_mn_nai (heap s b), fc_mark = m\<rparr>
    \<and> (\<forall>k'. k' \<noteq> k \<longrightarrow> flowmob_cache_get k' s' = flowmob_cache_get k' s)
    \<and> heap s' = heap s \<and> g_pmip_hash s' = g_pmip_hash s \<and> held s' = held s"
proof -
  let ?a = "\<lparr>as_ip6 = ip6_dest k, as_client_nai = nai_zero, as_BID = 0\<rparr>" and ?e = "heap s b" and ?p = "fl_brk s"
  have it: "pmip_cache_iterate find_NAI ?a s = Done (1, ?a\<lparr>as_client_nai := e_mn_nai ?e, as_BID := e_BID ?e\<rparr>, s)"
    using iterate_find_NAI [OF assms(1,3), of ?a b] assms(6) by simp
  obtain m where m: "m \<in> marks_of s (e_mn_nai ?e)" "get_flow_fwmark en (e_mn_nai ?e) s = (m, s\<lparr>draws := draws s + 1\<rparr>)"
    using get_flow_fwmark_in [OF assms(7)] by blast
  then have m0: "m > 0" using assms(8) by (metis word_gt_0)
  let ?f = "\<lparr>fc_key = k, fc_BID = e_BID ?e, fc_client_nai = e_mn_nai ?e, fc_mark = m\<rparr>"
  let ?s = "s\<lparr>draws := draws s + 1\<rparr>"
  let ?s1 = "?s\<lparr>fl_brk := ?p + 1, fl_alive := insert ?p (fl_alive s), fl_heap := (fl_heap s)(?p := ?f)\<rparr>"
  have get: "flowmob_cache_get k' ?s = flowmob_cache_get k' s" for k'
    by (simp add: flowmob_cache_get_def fl_rd_def [abs_def])
  have "flow_inv ?s" by (rule flow_inv_frame [OF assms(2)]) simp_all
  then obtain s' where s': "flowmob_cache_add en ?p ?s1 = (Some ?p, s')" "flow_inv s'" "fl_heap s' = fl_heap ?s1"
      "\<forall>k'. flowmob_cache_get k' s' = (if k' = k then Some ?p else flowmob_cache_get k' ?s)" "held s' = held s"
      "g_pmip_hash s' = g_pmip_hash s" "heap s' = heap s"
    using flow_add [of ?s ?f ?p ?s1 en] assms(4,5) get by auto
  have "flowScheduler_schedule_flow en k s = Done (m, s')"
    using it m(2) m0 assms(4,5) s'(1)
    by (simp add: flowScheduler_schedule_flow_def flowmob_cache_alloc_def fl_modify_def)
  then show ?thesis using m(1) s'(2-7) get by auto
qed

section \<open>Properties\<close>

text \<open>C29: when a flow without a cache entry arrives for a node that has a binding and gateways, the
  scheduler records it under its key with the mark of the first or the last gateway of the node,
  the node's identifier and its binding, returns that mark, and leaves the other flows and the
  binding cache alone.\<close>

theorem schedule_new_flow:
  assumes "cache_inv s" "flow_inv s" "PmipLock \<notin> set (held s)" "memok en" "flowmob_cache_get k s = None"
    and "find (\<lambda>p. e_mn_addr (heap s p) = ip6_dest k) (table_elems (g_pmip_hash s)) = Some b"
    and "marks_of s (e_mn_nai (heap s b)) \<noteq> {}" "0 \<notin> marks_of s (e_mn_nai (heap s b))"
  shows "\<exists>m p s'. flowScheduler_schedule_flow en k s = Done (m, s') \<and> m \<in> marks_of s (e_mn_nai (heap s b))
    \<and> flow_inv s' \<and> flowmob_cache_get k s' = Some p
    \<and> fl_heap s' p = \<lparr>fc_key = k, fc_BID = e_BID (heap s b), fc_client_nai = e_mn_nai (heap s b), fc_mark = m\<rparr>
    \<and> (\<forall>k'. k' \<noteq> k \<longrightarrow> flowmob_cache_get k' s' = flowmob_cache_get k' s)
    \<and> heap s' = heap s \<and> g_pmip_hash s' = g_pmip_hash s \<and> held s' = held s"
  by (rule schedules_new_flow [OF assms])

theorem schedule_new_flow_witness:
  "\<exists>m s'. flowScheduler_schedule_flow env_example (flow_key_zero\<lparr>label := 5\<rparr>)
     (flow_example pmip_entry_zero flow_entry_zero route_example) = Done (m, s') \<and> m = 1"
proof -
  let ?s = "flow_example pmip_entry_zero flow_entry_zero route_example" and ?k = "flow_key_zero\<lparr>label := 5\<rparr>"
  have f: "find (\<lambda>p. e_mn_addr (heap ?s p) = ip6_dest ?k) (table_elems (g_pmip_hash ?s)) = Some 0"
    "e_mn_nai (heap ?s 0) = nai_zero"
    by (simp_all add: flow_example_def table_elems_def pmip_entry_zero_def flow_key_zero_def)
  have g: "flowmob_cache_get ?k ?s = None" "PmipLock \<notin> set (held ?s)" "memok env_example"
    by (simp_all add: flow_example_get flow_example_inv flow_entry_zero_def flow_key_zero_def env_example_def)
  have mk: "marks_of ?s (e_mn_nai (heap ?s 0)) \<noteq> {}" "0 \<notin> marks_of ?s (e_mn_nai (heap ?s 0))" by (simp_all add: f(2))
  from schedule_new_flow [OF flow_example_inv(1,2) g(2,3,1) f(1) mk] show ?thesis by (auto simp: f(2))
qed

text \<open>When a client loses a gateway but has others left, every flow of the client in the cache is
  marked for the first or the last of the remaining gateways, no flow of another client changes,
  and no flow is lost.  The callback must return zero for the flows of other clients for this.\<close>

lemma link_down_moves:
  assumes "flow_inv s" "marks_of s nai \<noteq> {}" "0 \<notin> marks_of s nai" "garbage en = 0"
  shows "\<exists>s'. flowScheduler_link_down en nai s = Done s' \<and> flow_inv s' \<and> flowmob_hash s' = flowmob_hash s
    \<and> (\<forall>p \<in> flows s. if fc_client_nai (fl_heap s p) = nai
          then \<exists>m \<in> marks_of s nai. fl_heap s' p = (fl_heap s p)\<lparr>fc_mark := m\<rparr> else fl_heap s' p = fl_heap s p)"
proof -
  have "flows s \<subseteq> fl_alive s" "distinct (table_elems (flowmob_hash s))" using assms(1) by (auto simp: flow_inv_def)
  then obtain s' where s': "chain_iterate (faulting (flowScheduler_change_mark en nai)) (table_elems (flowmob_hash s)) (Done s)
      = (0, Done s')" "remarked nai (flows s) s s'"
    using change_marks assms(2-4) by blast
  have k: "fc_key (fl_heap s' p) = fc_key (fl_heap s p)" for p
    using s'(2) by (auto simp: remarked_def split: if_splits) (metis flow_entry.select_convs(1) flow_entry.surjective flow_entry.update_convs(4))
  have "flow_inv s'" by (rule flow_inv_frame [OF assms(1)]) (use s'(2) k in \<open>simp_all add: remarked_def\<close>)
  then show ?thesis using s' by (auto simp: link_down_iterate remarked_def)
qed

lemma link_down_moves_witness:
  "\<exists>s'. flowScheduler_link_down env_example nai_zero (flow_example pmip_entry_zero (flow_entry_zero\<lparr>fc_mark := 9\<rparr>) route_example)
      = Done s' \<and> fc_mark (fl_heap s' 0) = 1"
proof -
  let ?s = "flow_example pmip_entry_zero (flow_entry_zero\<lparr>fc_mark := 9\<rparr>) route_example"
  have "0 \<in> flows ?s" "fc_client_nai (fl_heap ?s 0) = nai_zero"
    by (simp_all add: flow_example_def table_elems_def flow_entry_zero_def)
  with link_down_moves [OF flow_example_inv(2), of pmip_entry_zero "flow_entry_zero\<lparr>fc_mark := 9\<rparr>" route_example nai_zero env_example]
  show ?thesis by (fastforce simp: env_example_def)
qed

text \<open>When a client loses its last gateway, exactly its flows leave the cache.\<close>

lemma link_down_without_path:
  assumes "flow_inv s" "marks_of s nai = {}" "garbage en = 0"
  shows "\<exists>s'. flowScheduler_link_down en nai s = Done s' \<and> flow_inv s' \<and> fl_heap s' = fl_heap s
    \<and> flows s' = {p \<in> flows s. fc_client_nai (fl_heap s p) \<noteq> nai}"
proof -
  have "distinct (table_elems (flowmob_hash s))" using assms(1) by (auto simp: flow_inv_def)
  then obtain s' where "chain_iterate (faulting (flowScheduler_change_mark en nai)) (table_elems (flowmob_hash s)) (Done s)
      = (0, Done s')" "flow_inv s'" "fl_heap s' = fl_heap s"
      "flows s' = flows s - {p \<in> flows s. fc_client_nai (fl_heap s p) = nai}"
    using change_marks_delete [OF assms(1) subset_refl _ assms(2,3)] by blast
  then show ?thesis by (auto simp: link_down_iterate)
qed

lemma link_down_without_path_witness:
  "\<exists>s'. flowScheduler_link_down env_example nai_zero (flow_example pmip_entry_zero flow_entry_zero client_route_init) = Done s'
     \<and> flows s' = {}"
  using link_down_without_path [OF flow_example_inv(2), of pmip_entry_zero flow_entry_zero client_route_init nai_zero env_example]
  by (auto simp: env_example_def flow_example_flows flow_entry_zero_def)

text \<open>The callback returns without a value for the flow of another client; when the value found
  there is not zero the iteration ends, and a client whose flow comes later is not handed over.\<close>

lemma link_down_stops_early:
  assumes "table_elems (flowmob_hash s) = p # ps" "p \<in> fl_alive s" "fc_client_nai (fl_heap s p) \<noteq> nai" "garbage en \<noteq> 0"
  shows "flowScheduler_link_down en nai s = Done s"
  using assms by (simp add: link_down_iterate faulting_def flowScheduler_change_mark_def fl_deref_alive)

lemma link_down_stops_early_witness:
  "flowScheduler_link_down (env_example\<lparr>garbage := 1\<rparr>) (replicate 63 1) (flow_example pmip_entry_zero flow_entry_zero route_example)
     = Done (flow_example pmip_entry_zero flow_entry_zero route_example)"
  by (rule link_down_stops_early [of _ 0 "[]"])
    (simp_all add: flow_example_def table_elems_def flow_entry_zero_def nai_zero_def numeral_eq_Suc)

text \<open>Handing a flow over to a gateway with another mark replaces the flow's firewall rule; when the
  chosen gateway has the mark the flow already had, the rule is deleted and the flow is left
  without one.\<close>

lemma handover_rules:
  assumes "p \<in> fl_alive s" "fl_heap s p = e" "fc_client_nai e = nai" "fw_faithful en"
    and "fw_installed (out s) (mark_rule (fc_key e) (fc_mark e)) = 1"
    and "get_flow_fwmark en nai s = (m, s\<lparr>draws := draws s + 1\<rparr>)" "m \<noteq> 0"
    and "m \<noteq> fc_mark e \<Longrightarrow> fw_installed (out s) (mark_rule (fc_key e) m) = 0"
  shows "\<exists>s'. flowScheduler_change_mark en nai p s = Done (0, s') \<and> fc_mark (fl_heap s' p) = m
    \<and> fw_installed (out s') (mark_rule (fc_key e) m) = (if m = fc_mark e then 0 else 1)
    \<and> (m \<noteq> fc_mark e \<longrightarrow> fw_installed (out s') (mark_rule (fc_key e) (fc_mark e)) = 0)"
proof -
  let ?s = "s\<lparr>draws := draws s + 1, fl_heap := (fl_heap s)(p := e\<lparr>fc_mark := m\<rparr>)\<rparr>"
  have "flowScheduler_change_mark en nai p s = Done (0, flowMarker_delete_mark (fc_key e) (fc_mark e)
      (flowMarker_add_fwmark en (fc_key e) m ?s))"
    using assms(1-3,6,7) by (simp add: flowScheduler_change_mark_def fl_deref_alive fl_modify_alive Let_def)
  then show ?thesis using remark_rules [OF assms(4), where k = "fc_key e" and old = "fc_mark e" and new = m and s = ?s] assms(5,8)
    by auto
qed

lemma handover_rules_witness:
  "\<exists>s'. flowScheduler_change_mark (env_example\<lparr>fw_has := (\<lambda>h r. 0 < fw_installed h r)\<rparr>) nai_zero 0
       (flow_example pmip_entry_zero (flow_entry_zero\<lparr>fc_mark := 1\<rparr>) route_example
          \<lparr>out := [FwInsert (mark_rule flow_key_zero 1)]\<rparr>) = Done (0, s')
     \<and> fw_installed (out s') (mark_rule flow_key_zero 1) = 0"
proof -
  let ?en = "env_example\<lparr>fw_has := (\<lambda>h r. 0 < fw_installed h r)\<rparr>" and ?e = "flow_entry_zero\<lparr>fc_mark := 1\<rparr>"
  let ?s = "flow_example pmip_entry_zero ?e route_example\<lparr>out := [FwInsert (mark_rule flow_key_zero 1)]\<rparr>"
  have "\<exists>s'. flowScheduler_change_mark ?en nai_zero 0 ?s = Done (0, s') \<and> fc_mark (fl_heap s' 0) = 1
    \<and> fw_installed (out s') (mark_rule (fc_key ?e) 1) = (if 1 = fc_mark ?e then 0 else 1)
    \<and> (1 \<noteq> fc_mark ?e \<longrightarrow> fw_installed (out s') (mark_rule (fc_key ?e) (fc_mark ?e)) = 0)"
    by (rule handover_rules)
      (simp_all add: flow_example_def flow_entry_zero_def fw_faithful_def fw_installed_def get_flow_fwmark_def Let_def
        env_example_def get_route_for_client_def route_example_def)
  then show ?thesis by (auto simp: flow_entry_zero_def)
qed

end
