(* ===== verification/Lma_Proc.thy ===== *)
theory Lma_Proc
  imports Flow_Scheduler
begin

text \<open>
  \<open>src/src/pmip/pmip_lma_proc.c\<close>: registration, re-registration and deregistration of a mobile node at the
  local mobility anchor.  A pointer that the C code compares with null is an option.  \<open>fsm_lock\<close> and the
  locks of the binding cache are taken by the callers.
\<close>

section \<open>Model\<close>

text \<open>\<open>get_mn_addr\<close> through a pointer: it stores the address in the entry and returns it.\<close>

definition mn_addr_of :: "nat \<Rightarrow> sys \<Rightarrow> (in6_addr \<times> sys) outcome" where
  "mn_addr_of bce s =
     andThen (deref bce s) (\<lambda>e. andThen (modify bce (\<lambda>e. snd (get_mn_addr e)) s) (\<lambda>s. Done (fst (get_mn_addr e), s)))"

definition lma_setup_route :: "config \<Rightarrow> in6_addr \<Rightarrow> int \<Rightarrow> sys \<Rightarrow> sys" where
  "lma_setup_route conf pmip6_addr tunnel s =
     (if TunnelingEnabled conf
      then emit (RouteAdd tunnel RT6_TABLE_MIP6 IP6_RT_PRIO_MIP6_FWD (in6addr_any, 0) (pmip6_addr, 128)) s
      else s)"

definition lma_remove_route :: "config \<Rightarrow> in6_addr \<Rightarrow> int \<Rightarrow> sys \<Rightarrow> sys" where
  "lma_remove_route conf pmip6_addr tunnel s =
     (if TunnelingEnabled conf
      then emit (RouteDel tunnel RT6_TABLE_MIP6 IP6_RT_PRIO_MIP6_FWD (in6addr_any, 0) (pmip6_addr, 128)) s
      else s)"

text \<open>Sending an acknowledgement for an entry; a message that cannot be allocated is not sent.\<close>

definition emit_packet :: "mh_packet option \<Rightarrow> sys \<Rightarrow> sys" where
  "emit_packet p s = (case p of None \<Rightarrow> s | Some pkt \<Rightarrow> emit (SendMH pkt) s)"

definition send_pba :: "env \<Rightarrow> in6_addr \<Rightarrow> timespec \<Rightarrow> nat \<Rightarrow> sys \<Rightarrow> sys outcome" where
  "send_pba en src lifetime bce s =
     andThen (deref bce s) (\<lambda>e.
     andThen (mh_send_pba (memok en) src (e_mn_serv_mag_addr e) lifetime 0 e) (\<lambda>(_, e', pkt).
     andThen (modify bce (\<lambda>_. e') s) (\<lambda>s. Done (emit_packet pkt s))))"

definition lma_reg :: "config \<Rightarrow> env \<Rightarrow> nat option \<Rightarrow> sys \<Rightarrow> (int \<times> sys) outcome" where
  "lma_reg conf en b s = (case b of
     None \<Rightarrow> Done (-1, s)
   | Some bce \<Rightarrow>
       andThen (deref bce s) (\<lambda>e.
       andThen (pmip_tunnel_add conf en (OurAddress conf) (e_mn_serv_mag_addr e) (e_link e) s) (\<lambda>(tunnel, s).
       andThen (modify bce (\<lambda>e. e\<lparr>e_tunnel := tunnel\<rparr>) s) (\<lambda>s.
       andThen (mn_addr_of bce s) (\<lambda>(a, s).
       andThen (modify bce (\<lambda>e. e\<lparr>e_status := 0\<rparr>) (lma_setup_route conf a tunnel s)) (\<lambda>s.
       andThen (pmip_cache_start en bce s) (\<lambda>s.
       andThen (deref bce s) (\<lambda>e.
       andThen (send_pba en (OurAddress conf) (e_lifetime e) bce s) (\<lambda>s.
       andThen (add_client_route conf (memok en) (e_mn_nai e) (e_mn_serv_mag_addr e) (croutes s)) (\<lambda>c.
       andThen (flowScheduler_link_up en (e_mn_nai e) (s\<lparr>croutes := c\<rparr>)) (\<lambda>s.
         Done (0, s))))))))))))"

definition lma_reg_no_new_tunnel :: "config \<Rightarrow> env \<Rightarrow> nat option \<Rightarrow> sys \<Rightarrow> (int \<times> sys) outcome" where
  "lma_reg_no_new_tunnel conf en b s = (case b of
     None \<Rightarrow> Done (-1, s)
   | Some bce \<Rightarrow>
       andThen (modify bce (\<lambda>e. e\<lparr>e_status := 0\<rparr>) s) (\<lambda>s.
       andThen (pmip_cache_start en bce s) (\<lambda>s.
       andThen (deref bce s) (\<lambda>e.
       andThen (send_pba en (OurAddress conf) (e_lifetime e) bce s) (\<lambda>s.
         Done (0, s))))))"

definition lma_dereg ::
  "config \<Rightarrow> env \<Rightarrow> nat option \<Rightarrow> msg_info option \<Rightarrow> bool \<Rightarrow> sys \<Rightarrow> (int \<times> sys) outcome" where
  "lma_dereg conf en b info propagate s = (case b of
     None \<Rightarrow> Done (-1, s)
   | Some bce \<Rightarrow>
       andThen (mn_addr_of bce (s\<lparr>tqs := del_task (TqBce bce) (tqs s)\<rparr>)) (\<lambda>(a, s).
       andThen (deref bce s) (\<lambda>e.
       andThen (pmip_tunnel_del conf en (e_tunnel e) (lma_remove_route conf a (e_tunnel e) s)) (\<lambda>(_, s).
       andThen (remove_client_route (e_mn_nai e) (e_mn_serv_mag_addr e) (croutes s)) (\<lambda>c.
       andThen (flowScheduler_link_down en (e_mn_nai e) (s\<lparr>croutes := c\<rparr>)) (\<lambda>s.
       andThen (if propagate then
                  case info of
                    None \<Rightarrow> Fault NullDeref
                  | Some i \<Rightarrow> andThen (modify bce (\<lambda>e. e\<lparr>e_seqno_in := i_seqno i\<rparr>) s) (\<lambda>s.
                      send_pba en (LmaAddress conf) tszero bce s)
                else Done s) (\<lambda>s.
       andThen (modify bce (\<lambda>e. e\<lparr>e_type := BCE_NO_ENTRY\<rparr>) s) (\<lambda>s.
         Done (0, s)))))))))"

text \<open>Giving up the route and the tunnel towards the previous gateway.\<close>

definition drop_tunnel :: "config \<Rightarrow> env \<Rightarrow> nat \<Rightarrow> sys \<Rightarrow> sys outcome" where
  "drop_tunnel conf en bce s =
     andThen (mn_addr_of bce s) (\<lambda>(a, s).
     andThen (deref bce s) (\<lambda>e.
     andThen (pmip_tunnel_del conf en (e_tunnel e) (lma_remove_route conf a (e_tunnel e) s)) (\<lambda>(_, s). Done s)))"

text \<open>The test of the home network prefix and of the serving gateway inside the update: a node that comes
  with another prefix or from another gateway loses its old tunnel.\<close>

definition lma_switch :: "config \<Rightarrow> env \<Rightarrow> nat \<Rightarrow> msg_info \<Rightarrow> sys \<Rightarrow> (int \<times> sys) outcome" where
  "lma_switch conf en bce info s =
     (case lma_mnid_hnp_map (EUI64_to_EUI48 (i_mn_iid info)) (hnp s) of (r_tmp, result) \<Rightarrow>
       (if result \<ge> 0 then
          if r_tmp = i_mn_prefix info then
            andThen (modify bce (\<lambda>e. e\<lparr>e_mn_prefix := r_tmp\<rparr>) s) (\<lambda>s.
            andThen (deref bce s) (\<lambda>e.
              if IN6_IS_ADDR_UNSPECIFIED (e_mn_serv_mag_addr e) then Done (1, s)
              else if e_mn_serv_mag_addr e \<noteq> i_src info
                then andThen (drop_tunnel conf en bce s) (\<lambda>s. Done (1, s))
              else Done (0, s)))
          else andThen (drop_tunnel conf en bce s) (\<lambda>s. Done (1, s))
        else Done (result, s)))"

definition lma_update_binding_entry ::
  "config \<Rightarrow> env \<Rightarrow> nat option \<Rightarrow> msg_info option \<Rightarrow> sys \<Rightarrow> (int \<times> sys) outcome" where
  "lma_update_binding_entry conf en b i s = (case b of
     None \<Rightarrow> Done (-1, s)
   | Some bce \<Rightarrow> (case i of
       None \<Rightarrow> Done (-1, s)
     | Some info \<Rightarrow>
       andThen (modify bce (\<lambda>e. e\<lparr>e_our_addr := OurAddress conf, e_mn_suffix := i_mn_iid info,
                  e_mn_hw_address := EUI64_to_EUI48 (i_mn_iid info), e_mn_nai := i_mn_nai info\<rparr>) s) (\<lambda>s.
       andThen (lma_switch conf en bce info s) (\<lambda>(result, s).
       andThen (modify bce (\<lambda>e. e\<lparr>e_timestamp := i_timestamp info, e_mn_prefix := i_mn_prefix info,
                  e_mn_link_local_addr := i_mn_link_local_addr info, e_mn_serv_mag_addr := i_src info,
                  e_lifetime := TS (tv_sec (i_lifetime info)) 0,
                  e_n_rets_counter := MaxMessageRetransmissions conf, e_seqno_in := i_seqno info\<rparr>) s) (\<lambda>s.
       andThen (mn_addr_of bce s) (\<lambda>(_, s).
       andThen (modify bce (\<lambda>e. e\<lparr>e_link := i_iif info\<rparr>) s) (\<lambda>s.
         Done (result, s))))))))"

section \<open>Effect of the procedures on a live entry\<close>

text \<open>The packet of an acknowledgement and the entry after a registration.\<close>

definition pba_packet :: "in6_addr \<Rightarrow> timespec \<Rightarrow> pmip_entry \<Rightarrow> mh_packet" where
  "pba_packet src lifetime e = \<lparr>p_src = src, p_dst = e_mn_serv_mag_addr e, p_oif = 0,
     p_bytes = pba_header (e_status e) (e_PBA_flags e) (e_seqno_in e) (of_int (tv_sec lifetime div 4))
       @ concat (pba_options (e_mn_nai e) (e_mn_prefix e) (drop 8 (s6_addr (e_mn_suffix e))) (e_timestamp e))\<rparr>"

definition mn_addr :: "pmip_entry \<Rightarrow> in6_addr" where
  "mn_addr e = CONVERT_ID2ADDR (e_mn_prefix e) (e_mn_suffix e)"

lemma mn_addr_of_eq [cache_simps]:
  "p \<in> alive s \<Longrightarrow> mn_addr_of p s =
     Done (mn_addr (heap s p), s\<lparr>heap := (heap s)(p := (heap s p)\<lparr>e_mn_addr := mn_addr (heap s p)\<rparr>)\<rparr>)"
  by (simp add: mn_addr_of_def cache_simps get_mn_addr_def mn_addr_def Let_def)

lemma send_pba_eq [cache_simps]:
  "p \<in> alive s \<Longrightarrow> memok en \<Longrightarrow> length (e_mn_nai (heap s p)) = NAI_SIZE \<Longrightarrow> send_pba en src lifetime p s =
     Done (emit (SendMH (pba_packet src lifetime (heap s p)))
       (s\<lparr>heap := (heap s)(p := (heap s p)\<lparr>e_seqno_out := e_seqno_in (heap s p)\<rparr>)\<rparr>))"
  by (simp add: send_pba_def cache_simps mh_send_pba_bytes emit_packet_def pba_packet_def)

definition reg_entry :: "env \<Rightarrow> int \<Rightarrow> pmip_entry \<Rightarrow> pmip_entry" where
  "reg_entry en tunnel e = e\<lparr>e_tunnel := tunnel, e_mn_addr := mn_addr e, e_status := 0, e_add_time := now en,
     e_seqno_out := e_seqno_in e\<rparr>"

definition route_effect :: "config \<Rightarrow> effect \<Rightarrow> effect list" where
  "route_effect conf e = (if TunnelingEnabled conf then [e] else [])"

definition mn_route_add :: "int \<Rightarrow> pmip_entry \<Rightarrow> effect" where
  "mn_route_add tunnel e = RouteAdd tunnel RT6_TABLE_MIP6 IP6_RT_PRIO_MIP6_FWD (in6addr_any, 0) (mn_addr e, 128)"

definition mn_route_del :: "int \<Rightarrow> pmip_entry \<Rightarrow> effect" where
  "mn_route_del tunnel e = RouteDel tunnel RT6_TABLE_MIP6 IP6_RT_PRIO_MIP6_FWD (in6addr_any, 0) (mn_addr e, 128)"

text \<open>A registration up to the rescheduling of the flows.\<close>

definition registered :: "config \<Rightarrow> env \<Rightarrow> nat \<Rightarrow> int \<Rightarrow> client_routes \<Rightarrow> sys \<Rightarrow> sys" where
  "registered conf en p tunnel c s = s\<lparr>tqs := add_task_abs (tsadd (now en) (e_lifetime (heap s p))) (TqBce p) Bce_expired (tqs s),
     heap := (heap s)(p := reg_entry en tunnel (heap s p)),
     out := out s @ route_effect conf (mn_route_add tunnel (heap s p))
       @ [SendMH (pba_packet (OurAddress conf) (e_lifetime (heap s p)) ((heap s p)\<lparr>e_status := 0\<rparr>))],
     croutes := c\<rparr>"

lemma lma_reg_registered:
  assumes "p \<in> alive s" "memok en" "length (e_mn_nai (heap s p)) = NAI_SIZE"
    and "pmip_tunnel_add conf en (OurAddress conf) (e_mn_serv_mag_addr (heap s p)) (e_link (heap s p)) s = Done (t, s1)"
    and "add_client_route conf True (e_mn_nai (heap s p)) (e_mn_serv_mag_addr (heap s p)) (croutes s) = Done c"
    and "flowScheduler_link_up en (e_mn_nai (heap s p)) (registered conf en p t c s1) = Done s'"
  shows "lma_reg conf en (Some p) s = Done (0, s')"
proof -
  obtain tc g q where s1: "s1 = s\<lparr>tctl := tc, g_tunnel_timer_table := g, tqs := q\<rparr>"
    using pmip_tunnel_add_frame [OF assms(4)] by (auto simp: tun_frame_def)
  show ?thesis
    using assms
    by (simp add: lma_reg_def s1 cache_simps lma_setup_route_def emit_def registered_def reg_entry_def route_effect_def
        mn_route_add_def mn_addr_def pba_packet_def split: if_splits)
qed

text \<open>Storing an update in an entry: a fresh entry, or one that keeps its prefix and gateway.\<close>

definition updated_entry :: "config \<Rightarrow> msg_info \<Rightarrow> pmip_entry \<Rightarrow> pmip_entry" where
  "updated_entry conf info e = e\<lparr>e_our_addr := OurAddress conf, e_mn_suffix := i_mn_iid info,
     e_mn_hw_address := EUI64_to_EUI48 (i_mn_iid info), e_mn_nai := i_mn_nai info, e_timestamp := i_timestamp info,
     e_mn_prefix := i_mn_prefix info, e_mn_link_local_addr := i_mn_link_local_addr info,
     e_mn_serv_mag_addr := i_src info, e_lifetime := TS (tv_sec (i_lifetime info)) 0,
     e_n_rets_counter := MaxMessageRetransmissions conf, e_seqno_in := i_seqno info,
     e_mn_addr := CONVERT_ID2ADDR (i_mn_prefix info) (i_mn_iid info), e_link := i_iif info\<rparr>"

lemma lma_update_eq:
  assumes "p \<in> alive s"
    and "lma_mnid_hnp_map (EUI64_to_EUI48 (i_mn_iid info)) (hnp s) = (i_mn_prefix info, 1)
       \<or> snd (lma_mnid_hnp_map (EUI64_to_EUI48 (i_mn_iid info)) (hnp s)) < 0"
    and "e_mn_serv_mag_addr (heap s p) = in6addr_any \<or> e_mn_serv_mag_addr (heap s p) = i_src info"
  shows "\<exists>r. lma_update_binding_entry conf en (Some p) (Some info) s =
    Done (r, s\<lparr>heap := (heap s)(p := updated_entry conf info (heap s p))\<rparr>)"
  using assms
  by (auto simp: lma_update_binding_entry_def lma_switch_def cache_simps updated_entry_def mn_addr_def split: prod.splits)

lemma lma_reg_no_new_tunnel_eq:
  assumes "p \<in> alive s" "memok en" "length (e_mn_nai (heap s p)) = NAI_SIZE"
  shows "lma_reg_no_new_tunnel conf en (Some p) s = Done (0,
    s\<lparr>tqs := add_task_abs (tsadd (now en) (e_lifetime (heap s p))) (TqBce p) Bce_expired (tqs s),
      heap := (heap s)(p := (heap s p)\<lparr>e_status := 0, e_add_time := now en, e_seqno_out := e_seqno_in (heap s p)\<rparr>),
      out := out s @ [SendMH (pba_packet (OurAddress conf) (e_lifetime (heap s p)) ((heap s p)\<lparr>e_status := 0\<rparr>))]\<rparr>)"
  using assms by (simp add: lma_reg_no_new_tunnel_def cache_simps emit_def pba_packet_def)

end
