(* ===== verification/Mag_Proc.thy ===== *)
theory Mag_Proc
  imports Lma_Proc
begin

text \<open>
  \<open>src/src/pmip/pmip_mag_proc.c\<close>: registration and deregistration of a mobile node at the mobile access
  gateway, and the router advertisement that announces its home network prefix.  The functions that
  look up interfaces in \<open>/proc/net/if_inet6\<close> (\<open>mag_get_ingress_info\<close>, \<open>mag_get_egress_info\<close>,
  \<open>setup_linklocal_addr\<close>) only read the system's configuration and are not modelled; \<open>check_ip6_forwarding\<close>
  answers 0 exactly when \<open>ip6_forwarding\<close> holds.
\<close>

section \<open>Routes of a mobile node\<close>

definition mag_setup_route :: "config \<Rightarrow> in6_addr \<Rightarrow> int \<Rightarrow> sys \<Rightarrow> sys" where
  "mag_setup_route conf pmip6_addr downlink s =
     (let s = emit (RuleAdd RT6_TABLE_MIP6 (IP6_RULE_PRIO_PMIP6_FWD - 1) (in6addr_any, 0) (pmip6_addr, 128)) s;
          s = (if TunnelingEnabled conf
               then emit (RuleAdd RT6_TABLE_PMIP IP6_RULE_PRIO_PMIP6_FWD (pmip6_addr, 128) (in6addr_any, 0)) s else s)
      in emit (RouteAdd downlink RT6_TABLE_MIP6 IP6_RT_PRIO_MIP6_FWD (in6addr_any, 0) (pmip6_addr, 128)) s)"

definition mag_remove_route :: "config \<Rightarrow> in6_addr \<Rightarrow> int \<Rightarrow> sys \<Rightarrow> sys" where
  "mag_remove_route conf pmip6_addr downlink s =
     (let s = emit (RuleDel RT6_TABLE_MIP6 (IP6_RULE_PRIO_PMIP6_FWD - 1) (in6addr_any, 0) (pmip6_addr, 128)) s;
          s = (if TunnelingEnabled conf
               then emit (RuleDel RT6_TABLE_PMIP IP6_RULE_PRIO_PMIP6_FWD (pmip6_addr, 128) (in6addr_any, 0)) s else s)
      in emit (RouteDel downlink RT6_TABLE_MIP6 IP6_RT_PRIO_MIP6_FWD (in6addr_any, 0) (pmip6_addr, 128)) s)"

definition uplink_route :: "int \<Rightarrow> effect" where
  "uplink_route tunnel = RouteAdd tunnel RT6_TABLE_PMIP IP6_RT_PRIO_MIP6_FWD (in6addr_any, 0) (in6addr_any, 0)"

definition uplink_route_del :: "int \<Rightarrow> effect" where
  "uplink_route_del tunnel = RouteDel tunnel RT6_TABLE_PMIP IP6_RT_PRIO_MIP6_FWD (in6addr_any, 0) (in6addr_any, 0)"

section \<open>Router advertisements\<close>

definition check_ip6_forwarding :: "env \<Rightarrow> int" where
  "check_ip6_forwarding en = (if ip6_forwarding en then 0 else -1)"

definition be16 :: "u16 \<Rightarrow> byte list" where
  "be16 w = [ucast (drop_bit 8 w), ucast w]"

definition be32 :: "u32 \<Rightarrow> byte list" where
  "be32 w = [ucast (drop_bit 24 w), ucast (drop_bit 16 w), ucast (drop_bit 8 w), ucast w]"

abbreviation (input) ND_ROUTER_ADVERT :: byte where "ND_ROUTER_ADVERT \<equiv> 134"
abbreviation (input) ND_OPT_PREFIX_INFORMATION :: byte where "ND_OPT_PREFIX_INFORMATION \<equiv> 3"
abbreviation (input) ND_OPT_HOME_AGENT_INFO :: byte where "ND_OPT_HOME_AGENT_INFO \<equiv> 8"

definition flag :: "bool \<Rightarrow> byte \<Rightarrow> byte" where
  "flag b v = (if b then v else 0)"

text \<open>The message that \<open>mag_kickoff_ra\<close> builds: the header, the prefix option and, for a home agent whose
  parameters differ from the defaults, the home agent information option.\<close>

definition ra_header :: "ra_iface \<Rightarrow> int \<Rightarrow> byte list" where
  "ra_header ra fwd =
     [ND_ROUTER_ADVERT, 0, 0, 0, AdvCurHopLimit ra,
      flag (AdvManagedFlag ra) 0x80 OR flag (AdvOtherConfigFlag ra) 0x40 OR flag (AdvHomeAgentFlag ra) 0x20]
     @ (if fwd = 0 then be16 (of_int (AdvDefaultLifetime ra)) else [0, 0])
     @ be32 (AdvReachableTime ra) @ be32 (AdvRetransTimer ra)"

definition ra_prefix_option :: "adv_prefix \<Rightarrow> in6_addr \<Rightarrow> byte list" where
  "ra_prefix_option p mn_prefix =
     [ND_OPT_PREFIX_INFORMATION, 4, PrefixLen p,
      flag (AdvOnLinkFlag p) 0x80 OR flag (AdvAutonomousFlag p) 0x40 OR flag (AdvRouterAddr p) 0x20]
     @ be32 (AdvValidLifetime p) @ be32 (AdvPreferredLifetime p) @ [0, 0, 0, 0] @ s6_addr mn_prefix"

definition ra_home_agent_option :: "ra_iface \<Rightarrow> byte list" where
  "ra_home_agent_option ra =
     (if AdvHomeAgentInfo ra \<and> (AdvMobRtrSupportFlag ra \<or> HomeAgentPreference ra \<noteq> 0
           \<or> HomeAgentLifetime ra \<noteq> AdvDefaultLifetime ra)
      then [ND_OPT_HOME_AGENT_INFO, 1, flag (AdvMobRtrSupportFlag ra) 0x80, 0]
           @ be16 (HomeAgentPreference ra) @ be16 (of_int (HomeAgentLifetime ra))
      else [])"

definition mag_kickoff_ra :: "env \<Rightarrow> nat \<Rightarrow> sys \<Rightarrow> sys outcome" where
  "mag_kickoff_ra en bce s =
     (if \<not> memok en then Fault NullDeref else
      andThen (deref bce s) (\<lambda>e.
       let ra = router_ad_iface s;
           buff = ra_header ra (check_ip6_forwarding en) @ ra_prefix_option (Adv_Prefix ra) (e_mn_prefix e)
                  @ ra_home_agent_option ra
       in Done (emit (SendRA (e_link e) (e_mn_link_local_addr e) buff) s)))"

section \<open>Registration\<close>

definition send_pbu :: "config \<Rightarrow> env \<Rightarrow> in6_addr \<Rightarrow> timespec \<Rightarrow> nat \<Rightarrow> sys \<Rightarrow> sys outcome" where
  "send_pbu conf en src lifetime bce s =
     andThen (deref bce s) (\<lambda>e.
     andThen (mh_send_pbu (memok en) (tod en) src (LmaAddress conf) lifetime 0 e (seq s)) (\<lambda>(_, e', seq', pkt).
     andThen (modify bce (\<lambda>_. e') s) (\<lambda>s. Done (emit_packet pkt (s\<lparr>seq := seq'\<rparr>)))))"

text \<open>Arming the retransmission timer of an entry.\<close>

definition start_retrans :: "config \<Rightarrow> env \<Rightarrow> nat \<Rightarrow> sys \<Rightarrow> sys outcome" where
  "start_retrans conf en bce s =
     andThen (modify bce (\<lambda>e. e\<lparr>e_add_time := now en\<rparr>) s) (\<lambda>s.
       Done (arm_bce (tsadd (now en) (RetransmissionTimeOut conf)) bce Retrans_pbu s))"

definition mag_dereg :: "config \<Rightarrow> env \<Rightarrow> nat \<Rightarrow> bool \<Rightarrow> sys \<Rightarrow> sys outcome" where
  "mag_dereg conf en bce propagate s =
     andThen (modify bce (\<lambda>e. e\<lparr>e_type := BCE_NO_ENTRY\<rparr>) s) (\<lambda>s.
     andThen (mn_addr_of bce s) (\<lambda>(a, s).
     andThen (deref bce s) (\<lambda>e.
       let s = mag_remove_route conf a (e_link e) s;
           s = (if tunnel_getusers (e_tunnel e) (tctl s) = 1 then emit (uplink_route_del (e_tunnel e)) s else s)
       in andThen (pmip_tunnel_del conf en (e_tunnel e) s) (\<lambda>(_, s).
          if propagate then send_pbu conf en (OurAddress conf) tszero bce s else Done s))))"

definition mag_start_registration :: "config \<Rightarrow> env \<Rightarrow> nat \<Rightarrow> sys \<Rightarrow> sys outcome" where
  "mag_start_registration conf en bce s =
     andThen (send_pbu conf en (MagAddressEgress conf 0) (TS 10 0) bce s) (start_retrans conf en bce)"

definition mag_end_registration :: "config \<Rightarrow> env \<Rightarrow> nat \<Rightarrow> int \<Rightarrow> sys \<Rightarrow> sys outcome" where
  "mag_end_registration conf en bce iif s =
     andThen (modify bce (\<lambda>e. e\<lparr>e_type := BCE_PMIP, e_n_rets_counter := MaxMessageRetransmissions conf\<rparr>) s) (\<lambda>s.
     andThen (pmip_cache_start en bce s) (\<lambda>s.
     andThen (pmip_tunnel_add conf en (OurAddress conf) (LmaAddress conf) iif s) (\<lambda>(tunnel, s).
     andThen (modify bce (\<lambda>e. e\<lparr>e_tunnel := tunnel\<rparr>) s) (\<lambda>s.
     andThen (mag_kickoff_ra en bce
                (if tunnel_getusers tunnel (tctl s) = 1 then emit (uplink_route tunnel) s else s)) (\<lambda>s.
     andThen (mn_addr_of bce s) (\<lambda>(a, s).
     andThen (deref bce s) (\<lambda>e.
       Done (mag_setup_route conf a (e_link e) s))))))))"

definition mag_end_registration_no_new_tunnel :: "config \<Rightarrow> env \<Rightarrow> nat \<Rightarrow> int \<Rightarrow> sys \<Rightarrow> sys outcome" where
  "mag_end_registration_no_new_tunnel conf en bce iif s =
     andThen (modify bce (\<lambda>e. e\<lparr>e_type := BCE_PMIP, e_n_rets_counter := MaxMessageRetransmissions conf\<rparr>) s) (\<lambda>s.
     andThen (pmip_cache_start en bce s) (mag_kickoff_ra en bce))"

definition mag_force_update_registration :: "config \<Rightarrow> env \<Rightarrow> nat \<Rightarrow> int \<Rightarrow> sys \<Rightarrow> sys outcome" where
  "mag_force_update_registration conf en bce iif s =
     andThen (deref bce s) (\<lambda>_.
     andThen (send_pbu conf en (MagAddressEgress conf 0) (PBULifeTime conf) bce
                (if task (tqs s) (TqBce bce) \<noteq> None then s\<lparr>tqs := del_task (TqBce bce) (tqs s)\<rparr> else s))
       (start_retrans conf en bce))"

definition mag_update_binding_entry :: "config \<Rightarrow> nat \<Rightarrow> msg_info \<Rightarrow> sys \<Rightarrow> sys outcome" where
  "mag_update_binding_entry conf bce info s =
     modify bce (\<lambda>e. e\<lparr>e_our_addr := OurAddress conf, e_mn_suffix := i_mn_iid info,
       e_mn_hw_address := EUI64_to_EUI48 (i_mn_iid info), e_mn_prefix := i_mn_prefix info,
       e_mn_addr := i_mn_addr info, e_mn_link_local_addr := i_mn_link_local_addr info,
       e_mn_serv_mag_addr := i_src info, e_lifetime := i_lifetime info,
       e_n_rets_counter := MaxMessageRetransmissions conf, e_seqno_in := i_seqno info, e_link := i_iif info\<rparr>) s"

definition mag_pmip_md :: "config \<Rightarrow> env \<Rightarrow> msg_info \<Rightarrow> nat option \<Rightarrow> sys \<Rightarrow> sys outcome" where
  "mag_pmip_md conf en info b s = (case b of
     None \<Rightarrow> Done s
   | Some bce \<Rightarrow>
       andThen (modify bce (\<lambda>e. e\<lparr>e_our_addr := OurAddress conf, e_mn_suffix := i_mn_iid info,
          e_mn_prefix := i_mn_prefix info, e_mn_serv_mag_addr := OurAddress conf,
          e_mn_serv_lma_addr := LmaAddress conf, e_seqno_out := 0, e_PBU_flags := IP6_MH_BU_ACK OR IP6_MH_BU_PR,
          e_link := i_iif info, e_mn_link_local_addr := link_local_addr (i_mn_iid info), e_type := BCE_TEMP\<rparr>) s)
         (mag_start_registration conf en bce))"

end
