(* ===== verification/Pmip_Fsm.thy ===== *)
theory Pmip_Fsm
  imports Mag_Proc
begin

text \<open>
  \<open>src/src/pmip/pmip_fsm.c\<close>: the state machines of the gateway and of the anchor.  The state of a mobile
  node is the type of its binding cache entry (no entry, \<open>BCE_TEMP\<close> or \<open>BCE_PMIP\<close>); the events are those of
  \<open>msg_info_t\<close>.
\<close>

section \<open>The gateway\<close>

text \<open>A pointer that is dereferenced without a test.\<close>

definition nonnull :: "nat option \<Rightarrow> nat outcome" where
  "nonnull b = (case b of None \<Rightarrow> Fault NullDeref | Some p \<Rightarrow> Done p)"

text \<open>A new mobile node: the branches for the three events that announce one are the same.\<close>

definition mag_new_mn :: "config \<Rightarrow> env \<Rightarrow> msg_info \<Rightarrow> sys \<Rightarrow> sys outcome" where
  "mag_new_mn conf en info s =
     (case pmip_cache_alloc en BCE_TEMP s of (b, s) \<Rightarrow>
      andThen (mnid_hnp_map (radius_server en) (junk_addr en) (EUI64_to_EUI48 (i_mn_iid info)) (i_mn_nai info) (hnp s))
        (\<lambda>(prefix, mn_nai, aaa_result, c).
          let s = s\<lparr>hnp := c\<rparr> in
          if aaa_result \<ge> 0 then
            andThen (nonnull b) (\<lambda>bce.
            andThen (modify bce (\<lambda>e. e\<lparr>e_mn_nai := mn_nai, e_mn_prefix := prefix, e_mn_suffix := i_mn_iid info,
                       e_mn_hw_address := EUI64_to_EUI48 (i_mn_iid info)\<rparr>) s) (\<lambda>s.
            andThen (mag_pmip_md conf en (info\<lparr>i_mn_prefix := prefix\<rparr>) (Some bce) s) (\<lambda>s.
            andThen (pmip_cache_add conf en bce s) (\<lambda>(_, s). Done s))))
          else Done s))"

text \<open>The lifetime the gateway gives a binding is a little less than the one it was granted.\<close>

definition pba_lifetime :: "int \<Rightarrow> int" where
  "pba_lifetime sec = (if sec > 10 then sec - 8 else if sec > 5 then sec - 3 else if sec > 1 then sec - 1 else sec)"

definition mag_fsm_no_entry :: "config \<Rightarrow> env \<Rightarrow> msg_info \<Rightarrow> sys \<Rightarrow> sys outcome" where
  "mag_fsm_no_entry conf en info s =
     (if i_iif info = g_ingress_iif conf
         \<and> (i_msg_event info = hasRS \<or> i_msg_event info = hasWLCCP \<or> i_msg_event info = hasODTONELinkEvent)
      then mag_new_mn conf en info s
      else Done s)"

definition mag_fsm_temp :: "config \<Rightarrow> env \<Rightarrow> msg_info \<Rightarrow> sys \<Rightarrow> sys outcome" where
  "mag_fsm_temp conf en info s =
     (if i_msg_event info = hasPBA then
        andThen (pmip_cache_get (i_mn_nai info) (OurAddress conf) s) (\<lambda>(b, s).
        andThen (nonnull b) (\<lambda>bce.
        andThen (deref bce s) (\<lambda>e.
        andThen (if is_pba_is_response_to_last_pbu_sent info e then
                   andThen (modify bce (\<lambda>e. e\<lparr>e_PBA_flags := i_PBA_flags info,
                              e_lifetime := TS (pba_lifetime (tv_sec (i_lifetime info))) (tv_nsec (e_lifetime e))\<rparr>)
                              (s\<lparr>tqs := del_task (TqBce bce) (tqs s)\<rparr>))
                     (mag_end_registration conf en bce (i_iif info))
                 else Done s) (\<lambda>s.
          Done (pmipcache_release_entry bce s)))))
      else Done s)"

definition mag_fsm_pmip :: "config \<Rightarrow> env \<Rightarrow> msg_info \<Rightarrow> sys \<Rightarrow> sys outcome" where
  "mag_fsm_pmip conf en info s =
     (let event = i_msg_event info;
          locked = (\<lambda>mag_addr f. andThen (pmip_cache_get (i_mn_nai info) mag_addr s) (\<lambda>(b, s).
                      andThen (nonnull b) (\<lambda>bce. andThen (f bce s) (\<lambda>s. Done (bce, pmipcache_release_entry bce s)))))
      in
      if event = hasRS then
        andThen (locked (EUI64_to_EUI48 (i_mn_iid info)) (mag_kickoff_ra en)) (\<lambda>(_, s). Done s)
      else if event = hasPBA then
        andThen (locked (OurAddress conf) (\<lambda>bce s. andThen (deref bce s) (\<lambda>e.
          if is_pba_is_response_to_last_pbu_sent info e then
            andThen (modify bce (\<lambda>e. e\<lparr>e_PBA_flags := i_PBA_flags info,
                       e_lifetime := TS (pba_lifetime (tv_sec (i_lifetime info))) 0\<rparr>)
                       (s\<lparr>tqs := del_task (TqBce bce) (tqs s)\<rparr>))
              (mag_end_registration_no_new_tunnel conf en bce (i_iif info))
          else Done s))) (\<lambda>(_, s). Done s)
      else if event = hasWLCCP \<or> event = hasODTONELinkEvent then
        andThen (locked (OurAddress conf) (\<lambda>bce s. andThen (mag_kickoff_ra en bce s)
          (mag_force_update_registration conf en bce (i_iif info)))) (\<lambda>(_, s). Done s)
      else if event = hasDEREG then
        andThen (locked (OurAddress conf) (\<lambda>bce s. mag_dereg conf en bce True s)) (\<lambda>(bce, s). pmip_bce_delete bce s)
      else if event = hasNA then
        andThen (locked (OurAddress conf) (\<lambda>bce s.
          andThen (modify bce (\<lambda>e. e\<lparr>e_n_rets_counter := MaxMessageRetransmissions conf\<rparr>) s) (\<lambda>s.
            mag_force_update_registration conf en bce (i_iif info) (s\<lparr>tqs := del_task (TqBce bce) (tqs s)\<rparr>))))
          (\<lambda>(_, s). Done s)
      else Done s)"

definition mag_fsm :: "config \<Rightarrow> env \<Rightarrow> msg_info \<Rightarrow> sys \<Rightarrow> sys outcome" where
  "mag_fsm conf en info s =
     (if i_msg_event info = hasPBA \<and> i_dst info \<noteq> MagAddressEgress conf 0 then Done s
      else andThen (pmip_cache_exists (i_mn_nai info) (OurAddress conf) s) (\<lambda>(type, s).
        andThen (acquire FsmLock s) (\<lambda>s.
        andThen (if type = BCE_NO_ENTRY then mag_fsm_no_entry conf en info s
                 else if type = BCE_TEMP then mag_fsm_temp conf en info s
                 else if type = BCE_PMIP then mag_fsm_pmip conf en info s
                 else Done s) (\<lambda>s.
          Done (release FsmLock s)))))"

section \<open>The anchor\<close>

definition lma_fsm_no_entry :: "config \<Rightarrow> env \<Rightarrow> msg_info \<Rightarrow> sys \<Rightarrow> sys outcome" where
  "lma_fsm_no_entry conf en info s =
     (if i_msg_event info = hasPBU \<and> tv_sec (i_lifetime info) > 0 then
        case pmip_cache_alloc en BCE_PMIP s of
          (None, s) \<Rightarrow> Done s
        | (Some bce, s) \<Rightarrow>
            andThen (lma_update_binding_entry conf en (Some bce) (Some info)
                      (s\<lparr>hnp := pmip_insert_into_hnp_cache (EUI64_to_EUI48 (i_mn_iid info)) (i_mn_prefix info)
                                  (i_mn_nai info) (hnp s)\<rparr>)) (\<lambda>(_, s).
            andThen (lma_reg conf en (Some bce) s) (\<lambda>(_, s).
            andThen (pmip_cache_add conf en bce s) (\<lambda>(_, s). Done s)))
      else Done s)"

definition lma_fsm_pmip :: "config \<Rightarrow> env \<Rightarrow> msg_info \<Rightarrow> sys \<Rightarrow> sys outcome" where
  "lma_fsm_pmip conf en info s =
     andThen
       (if i_msg_event info = hasPBU \<and> tv_sec (i_lifetime info) > 0 then
          andThen (pmip_cache_get (i_mn_nai info) (i_mn_serv_mag_addr info) s) (\<lambda>(b, s).
          andThen (nonnull b) (\<lambda>bce.
          andThen (deref bce s) (\<lambda>e.
          andThen (if IN6_IS_ADDR_UNSPECIFIED (e_mn_serv_mag_addr e)
                   then andThen (lma_update_binding_entry conf en b (Some info) s) (\<lambda>(_, s).
                          andThen (lma_reg conf en b s) (\<lambda>(_, s). Done s))
                   else Done s) (\<lambda>s.
          andThen (deref bce s) (\<lambda>e.
          andThen (if i_src info = e_mn_serv_mag_addr e
                   then andThen (lma_update_binding_entry conf en b (Some info) s) (\<lambda>(_, s).
                          andThen (lma_reg_no_new_tunnel conf en b s) (\<lambda>(_, s). Done s))
                   else andThen (lma_dereg conf en b (Some info) False s) (\<lambda>(_, s).
                        andThen (modify bce (\<lambda>e. e\<lparr>e_type := BCE_PMIP\<rparr>) s) (\<lambda>s.
                        andThen (lma_update_binding_entry conf en b (Some info) s) (\<lambda>(_, s).
                        andThen (lma_reg conf en b s) (\<lambda>(_, s). Done s))))) (\<lambda>s.
            Done (b, pmipcache_release_entry bce s)))))))
        else if i_msg_event info = hasPBU \<and> tv_sec (i_lifetime info) = 0 \<and> tv_nsec (i_lifetime info) = 0 then
          andThen (pmip_cache_get (i_mn_nai info) (i_mn_serv_mag_addr info) s) (\<lambda>(b, s).
          andThen (nonnull b) (\<lambda>bce.
          andThen (deref bce s) (\<lambda>e.
            if i_src info = e_mn_serv_mag_addr e then
              andThen (lma_dereg conf en b (Some info) True s) (\<lambda>(_, s).
              andThen (pmip_bce_delete bce (pmipcache_release_entry bce s)) (\<lambda>s. Done (b, s)))
            else Done (b, pmipcache_release_entry bce s))))
        else Done (None, s))
       (\<lambda>(b, s). andThen (nonnull b) (\<lambda>bce. andThen (mn_addr_of bce s) (\<lambda>(_, s). Done s)))"

definition lma_fsm :: "config \<Rightarrow> env \<Rightarrow> msg_info \<Rightarrow> sys \<Rightarrow> sys outcome" where
  "lma_fsm conf en info s =
     andThen (pmip_cache_exists (i_mn_nai info) (i_mn_serv_mag_addr info) s) (\<lambda>(type, s).
       if type = BCE_NO_ENTRY then lma_fsm_no_entry conf en info s
       else if type = BCE_PMIP then lma_fsm_pmip conf en info s
       else Done s)"

end
