(* ===== verification/Pmip_Handler.thy ===== *)
theory Pmip_Handler
  imports Pmip_Fsm
begin

text \<open>
  \<open>src/src/pmip/pmip_handler.c\<close>: the handlers of timers and of received messages.  A timer handler gets
  the entry whose timer fired; \<open>curr\<close> of the queue is that timer unless the task was interrupted.
\<close>

section \<open>Timers\<close>

definition put_seqno :: "u16 \<Rightarrow> iovec list \<Rightarrow> iovec list outcome" where
  "put_seqno n vec = (case vec of [] \<Rightarrow> Fault NullDeref | v # vs \<Rightarrow> Done (put16 6 (htons n) v # vs))"

definition pmip_timer_retrans_pbu_handler :: "config \<Rightarrow> env \<Rightarrow> nat \<Rightarrow> sys \<Rightarrow> sys outcome" where
  "pmip_timer_retrans_pbu_handler conf en p s =
     andThen (acquire PmipLock s) (\<lambda>s.
     andThen (if task_interrupted (tqs s) then Done s
              else andThen (lock_entry p s) (\<lambda>s.
                   andThen (deref p s) (\<lambda>e.
                     if e_n_rets_counter e = 0 then
                       andThen (modify p (\<lambda>e. e\<lparr>e_mh_vec := []\<rparr>) s) (\<lambda>s. pmip_bce_delete p (release (EntryLock p) s))
                     else
                       let (n, seq') = get_new_pbu_sequence_number (seq s) in
                       andThen (put_seqno (ucast n) (e_mh_vec e)) (\<lambda>vec.
                       let (pkt, vec') = pmip_mh_send (OurAddress conf) (LmaAddress conf) vec (e_link e) in
                       andThen (modify p (\<lambda>e. e\<lparr>e_n_rets_counter := e_n_rets_counter e - 1, e_seqno_out := ucast n,
                                  e_mh_vec := vec', e_add_time := now en\<rparr>) (s\<lparr>seq := seq'\<rparr>)) (\<lambda>s.
                         Done (release (EntryLock p)
                           (arm_bce (tsadd (now en) (RetransmissionTimeOut conf)) p Retrans_pbu (emit (SendMH pkt) s)))))))) (\<lambda>s.
       Done (release PmipLock s)))"

text \<open>In the branches that return early the lock of the cache has been given back with the entry's, and the
  entry is deleted without it.\<close>

definition pmip_timer_bce_expired_handler :: "config \<Rightarrow> env \<Rightarrow> nat \<Rightarrow> sys \<Rightarrow> sys outcome" where
  "pmip_timer_bce_expired_handler conf en p s =
     (let mag_del = (\<lambda>s. andThen (mag_dereg conf en p True s) (\<lambda>s. pmip_bce_delete p (pmipcache_release_entry p s)));
          lma_del = (\<lambda>s. andThen (lma_dereg conf en (Some p) None False s) (\<lambda>(_, s).
                            pmip_bce_delete p (pmipcache_release_entry p s)))
      in
      andThen (acquire PmipLock s) (\<lambda>s.
      if task_interrupted (tqs s) then Done (release PmipLock s)
      else andThen (lock_entry p s) (\<lambda>s.
        andThen (deref p s) (\<lambda>e.
        if e_n_rets_counter e = 0 then
          andThen (modify p (\<lambda>e. e\<lparr>e_mh_vec := []\<rparr>) s) (\<lambda>s.
            if is_mag conf then mag_del s
            else if is_ha conf then lma_del s
            else Done (release PmipLock s))
        else
          andThen (if is_mag conf then
                     andThen (mn_addr_of p s) (\<lambda>(a, s).
                     andThen (modify p (\<lambda>e. e\<lparr>e_add_time := now en, e_n_rets_counter := e_n_rets_counter e - 1\<rparr>)
                               (emit (SendNS (e_link e) a) s)) (\<lambda>s.
                       Done (release (EntryLock p)
                         (arm_bce (tsadd (now en) (RetransmissionTimeOut conf)) p Bce_expired s))))
                   else Done s) (\<lambda>s.
            if is_ha conf then lma_del s else Done (release PmipLock s))))))"

section \<open>Received messages\<close>

definition pmip_timer_tunnel_expired_handler :: "env \<Rightarrow> nat \<Rightarrow> sys \<Rightarrow> sys outcome" where
  "pmip_timer_tunnel_expired_handler en i s =
     andThen (acquire PmipLock s) (\<lambda>s.
     andThen (if task_interrupted (tqs s) then Done s
              else andThen (timer_at (int i) s) (\<lambda>tt.
                let c = snd (tunnel_del (kern en) (tt_tunnel tt) (tctl s))
                in Done (set_timer_at (int i) (tt\<lparr>tt_lifetime := tszero\<rparr>) (s\<lparr>tctl := c\<rparr>)))) (\<lambda>s.
     Done (release PmipLock s)))"

text \<open>Between two activations no lock is held: the handler takes \<open>pmip_lock\<close>, changes the tunnel table and
  the slot of the tunnel, and gives the lock back.\<close>

lemma tunnel_expired_frame:
  assumes "pmip_timer_tunnel_expired_handler en i s = Done s'" "held s = []"
  shows "\<exists>c g. s' = s\<lparr>tctl := c, g_tunnel_timer_table := g\<rparr>"
proof -
  have "\<exists>c g. s' = release PmipLock (s\<lparr>held := [PmipLock], tctl := c, g_tunnel_timer_table := g\<rparr>)"
  proof (cases "task_interrupted (tqs s)")
    case True
    then have "s' = release PmipLock (s\<lparr>held := [PmipLock], tctl := tctl s, g_tunnel_timer_table := g_tunnel_timer_table s\<rparr>)"
      using assms by (simp add: pmip_timer_tunnel_expired_handler_def acquire_free)
    then show ?thesis by blast
  next
    case False
    then show ?thesis using assms
      by (auto simp: pmip_timer_tunnel_expired_handler_def acquire_free andThen_Done_iff set_timer_at_def Let_def)
  qed
  then obtain c g where "s' = s\<lparr>tctl := c, g_tunnel_timer_table := g, held := []\<rparr>" by (auto simp: release_def)
  then have "s' = s\<lparr>tctl := c, g_tunnel_timer_table := g\<rparr>" using assms(2) by (cases s) simp
  then show ?thesis by blast
qed

definition pmip_mag_recv_rs :: "config \<Rightarrow> env \<Rightarrow> in6_addr \<Rightarrow> in6_addr \<Rightarrow> int \<Rightarrow> int \<Rightarrow> sys \<Rightarrow> sys outcome" where
  "pmip_mag_recv_rs conf en saddr daddr iif hoplimit s =
     mag_fsm conf en (icmp_rs_parse saddr daddr iif hoplimit) s"

text \<open>The structure that \<open>mh_pba_parse\<close> fills is not cleared first.\<close>

definition pmip_mag_recv_pba ::
  "config \<Rightarrow> env \<Rightarrow> byte list \<Rightarrow> in6_addr \<Rightarrow> in6_addr \<Rightarrow> int \<Rightarrow> sys \<Rightarrow> sys outcome" where
  "pmip_mag_recv_pba conf en mh src dst iif s =
     andThen (mh_pba_parse (junk_info en) mh (length mh) src dst iif) (\<lambda>info. mag_fsm conf en info s)"

definition pmip_lma_recv_pbu ::
  "config \<Rightarrow> env \<Rightarrow> byte list \<Rightarrow> in6_addr \<Rightarrow> in6_addr \<Rightarrow> int \<Rightarrow> sys \<Rightarrow> sys outcome" where
  "pmip_lma_recv_pbu conf en mh src dst iif s =
     andThen (mh_pbu_parse conf msg_info_zero mh (length mh) src dst iif) (\<lambda>info. lma_fsm conf en info s)"

text \<open>The test \<open>len - sizeof(struct nd_neighbor_advert) > 0\<close> is made on unsigned numbers: it fails only
  when \<open>len\<close> is exactly the size of the structure.\<close>

abbreviation (input) sizeof_nd_neighbor_advert :: nat where "sizeof_nd_neighbor_advert \<equiv> 24"

definition pmip_mag_recv_na ::
  "config \<Rightarrow> env \<Rightarrow> in6_addr \<Rightarrow> nat \<Rightarrow> in6_addr \<Rightarrow> in6_addr \<Rightarrow> int \<Rightarrow> int \<Rightarrow> sys \<Rightarrow> sys outcome" where
  "pmip_mag_recv_na conf en nd_na_target len saddr daddr iif hoplimit s =
     (if ipv6_addr_is_linklocal nd_na_target \<or> ipv6_addr_is_multicast nd_na_target then Done s
      else if len \<noteq> sizeof_nd_neighbor_advert
        then mag_fsm conf en (icmp_na_parse (hnp s) nd_na_target saddr daddr iif hoplimit) s
      else Done s)"

text \<open>Associations reported by an access point: \<open>pmip_pcap_msg_handler_associate\<close> and
  \<open>pmip_pcap_msg_handler_deassociate\<close> of \<open>pmip_pcap.c\<close>, and \<open>msg_handler_associate\<close> and
  \<open>msg_handler_deassociate\<close> of \<open>pmip_odtone.c\<close>, which alone fill in the identifier of the node.\<close>

definition pmip_pcap_msg_handler_associate :: "config \<Rightarrow> env \<Rightarrow> in6_addr \<Rightarrow> int \<Rightarrow> sys \<Rightarrow> sys outcome" where
  "pmip_pcap_msg_handler_associate conf en mn_iidP iifP s =
     mag_fsm conf en (msg_info_zero\<lparr>i_mn_iid := EUI48_to_EUI64 mn_iidP, i_iif := iifP, i_msg_event := hasWLCCP\<rparr>) s"

definition pmip_pcap_msg_handler_deassociate :: "config \<Rightarrow> env \<Rightarrow> in6_addr \<Rightarrow> int \<Rightarrow> sys \<Rightarrow> sys outcome" where
  "pmip_pcap_msg_handler_deassociate conf en mn_iidP iifP s =
     mag_fsm conf en (msg_info_zero\<lparr>i_mn_iid := EUI48_to_EUI64 mn_iidP, i_iif := iifP, i_msg_event := hasDEREG\<rparr>) s"

definition mac48_addr :: "byte list \<Rightarrow> in6_addr" where
  "mac48_addr mac = in6_of (replicate 10 0 @ mac)"

definition msg_handler_associate :: "config \<Rightarrow> env \<Rightarrow> byte list \<Rightarrow> int \<Rightarrow> sys \<Rightarrow> sys outcome" where
  "msg_handler_associate conf en mn_iidP pcap_iif s =
     (let macAddress48 = mac48_addr mn_iidP in
      mag_fsm conf en (msg_info_zero\<lparr>i_mn_iid := EUI48_to_EUI64 macAddress48, i_iif := pcap_iif,
        i_mn_nai := get_node_nai macAddress48 (hnp s), i_msg_event := hasODTONELinkEvent\<rparr>) s)"

definition msg_handler_deassociate :: "config \<Rightarrow> env \<Rightarrow> byte list \<Rightarrow> int \<Rightarrow> sys \<Rightarrow> sys outcome" where
  "msg_handler_deassociate conf en mn_iidP pcap_iif s =
     (let macAddress48 = mac48_addr mn_iidP in
      mag_fsm conf en (msg_info_zero\<lparr>i_mn_iid := EUI48_to_EUI64 macAddress48, i_iif := pcap_iif,
        i_mn_nai := get_node_nai macAddress48 (hnp s), i_msg_event := hasDEREG\<rparr>) s)"

end
