(* ===== verification/Entry_Frame.thy ===== *)
theory Entry_Frame
  imports Pmip_Handler
begin

text \<open>
  What the procedures of the anchor and of the gateway may change while they work on one binding.
  \<open>entry_step p s s'\<close> says that the step from \<open>s\<close> to \<open>s'\<close> touches no other binding than \<open>p\<close> and no other
  binding's timer, leaves the table, the allocation and the locks alone, and keeps the timer queue and
  the flow cache well formed.  Every procedure is a composition of such steps, and the invariant of
  the binding cache and its lookups carry over.
\<close>

section \<open>The relation\<close>

definition entry_step :: "nat \<Rightarrow> sys \<Rightarrow> sys \<Rightarrow> bool" where
  "entry_step p s s' \<longleftrightarrow> g_pmip_hash s' = g_pmip_hash s \<and> alive s' = alive s \<and> brk s' = brk s
     \<and> g_pmip_cache_count s' = g_pmip_cache_count s \<and> last_BID s' = last_BID s \<and> hnp s' = hnp s \<and> held s' = held s
     \<and> (\<forall>q. q \<noteq> p \<longrightarrow> heap s' q = heap s q)
     \<and> (\<forall>q. q \<noteq> p \<longrightarrow> task (tqs s') (TqBce q) = task (tqs s) (TqBce q))
     \<and> (tq_inv (tqs s) \<longrightarrow> tq_inv (tqs s')
          \<and> (\<forall>q. q \<noteq> p \<longrightarrow> pending (tqs s') (TqBce q) = pending (tqs s) (TqBce q)))
     \<and> (flow_inv s \<longrightarrow> flow_inv s')"

lemma entry_step_refl [intro, simp]: "entry_step p s s"
  by (simp add: entry_step_def)

lemma entry_step_trans [trans]: "entry_step p s t \<Longrightarrow> entry_step p t u \<Longrightarrow> entry_step p s u"
  by (simp add: entry_step_def)

lemma entry_step_cache:
  assumes "entry_step p s s'" "cache_inv s" "p \<in> cached s \<Longrightarrow> bce_key (heap s' p) = bce_key (heap s p)" "p \<in> alive s"
  shows "cache_inv s'" "lookup s' = lookup s" "cached s' = cached s"
proof -
  have k: "bce_key (heap s' q) = bce_key (heap s q)" if "q \<in> cached s" for q
    using assms(1,3) that by (cases "q = p") (simp_all add: entry_step_def)
  have t: "q \<in> alive s" if "pending (tqs s') (TqBce q) \<noteq> None" for q
    using assms(1,2,4) that by (cases "q = p") (simp_all add: entry_step_def cache_inv_def)
  show "cached s' = cached s" using assms(1) by (simp add: entry_step_def)
  show "cache_inv s'"
    by (rule cache_inv_frame [OF assms(2)]) (use assms(1,2) t k in \<open>simp_all add: entry_step_def cache_inv_def\<close>)
  show "lookup s' = lookup s" by (rule lookup_frame [OF assms(2)]) (use assms k in \<open>simp_all add: entry_step_def\<close>)
qed

section \<open>Elementary steps\<close>

lemma flow_inv_upd [simp]:
  "flow_inv (s\<lparr>heap := h\<rparr>) = flow_inv s" "flow_inv (s\<lparr>tqs := q\<rparr>) = flow_inv s" "flow_inv (s\<lparr>out := es\<rparr>) = flow_inv s"
  "flow_inv (s\<lparr>croutes := c\<rparr>) = flow_inv s" "flow_inv (s\<lparr>seq := n\<rparr>) = flow_inv s" "flow_inv (s\<lparr>tctl := k\<rparr>) = flow_inv s"
  "flow_inv (s\<lparr>g_tunnel_timer_table := g\<rparr>) = flow_inv s" "flow_inv (s\<lparr>held := l\<rparr>) = flow_inv s"
  "flow_inv (s\<lparr>hnp := m\<rparr>) = flow_inv s" "flow_inv (s\<lparr>alive := a\<rparr>) = flow_inv s" "flow_inv (s\<lparr>brk := b\<rparr>) = flow_inv s"
  "flow_inv (s\<lparr>g_pmip_hash := H\<rparr>) = flow_inv s" "flow_inv (s\<lparr>g_pmip_cache_count := z\<rparr>) = flow_inv s"
  "flow_inv (s\<lparr>last_BID := i\<rparr>) = flow_inv s"
  by (simp_all add: flow_inv_def fl_rd_def [abs_def])

lemma entry_step_heap: "entry_step p s (s\<lparr>heap := (heap s)(p := e)\<rparr>)"
  and entry_step_out: "entry_step p s (s\<lparr>out := es\<rparr>)"
  and entry_step_emit: "entry_step p s (emit x s)"
  and entry_step_seq: "entry_step p s (s\<lparr>seq := n\<rparr>)"
  and entry_step_croutes: "entry_step p s (s\<lparr>croutes := c\<rparr>)"
  by (simp_all add: entry_step_def emit_def)

lemma entry_step_arm:
  "tsisset e \<Longrightarrow> entry_step p s (s\<lparr>tqs := add_task_abs e (TqBce p) t (tqs s)\<rparr>)"
  by (simp add: entry_step_def tq.invar_add tq.pend_add add_task_abs_fields)

lemma entry_step_disarm: "entry_step p s (s\<lparr>tqs := del_task (TqBce p) (tqs s)\<rparr>)"
  by (simp add: entry_step_def tq.invar_del tq.pend_del)

lemma entry_step_tun: "tun_frame s s' \<Longrightarrow> entry_step p s s'"
  by (auto simp: tun_frame_def entry_step_def)

lemma entry_step_flow: "flow_frame s s' \<Longrightarrow> flow_inv s' \<Longrightarrow> entry_step p s s'"
  by (auto simp: flow_frame_def entry_step_def)

lemmas entry_steps = entry_step_heap entry_step_out entry_step_emit entry_step_seq entry_step_croutes
  entry_step_arm entry_step_disarm entry_step_tun entry_step_flow

section \<open>Tunnels\<close>

text \<open>When the last use of a tunnel is given up, its slot must still be in the timer table.\<close>

definition tunnel_known :: "config \<Rightarrow> int \<Rightarrow> sys \<Rightarrow> bool" where
  "tunnel_known conf t s \<longleftrightarrow> (TunnelingEnabled conf \<and> DynamicTunnelingEnabled conf \<and> 0 < t
     \<and> tunnel_getusers t (tctl s) = 1 \<longrightarrow> find_slot t 0 (g_tunnel_timer_table s) \<noteq> None)"

lemma pmip_tunnel_del_Done:
  assumes "tunnel_known conf t s"
  shows "\<exists>r s'. pmip_tunnel_del conf en t s = Done (r, s')"
proof (cases "find_slot t 0 (g_tunnel_timer_table s)")
  case None
  then show ?thesis using assms by (auto simp: tunnel_known_def pmip_tunnel_del_def split: prod.splits)
next
  case (Some i)
  let ?T = "g_tunnel_timer_table s" and ?r = "tt_remote (g_tunnel_timer_table s ! i)"
  have "i < length ?T" using find_slot_Some [OF Some] by simp
  then have "?T ! i \<in> set ?T" by simp
  then obtain j where "j < length ?T" "pmip_tunnel_get_timer_index ?r s = int j"
    using timer_index_loop_cases [of ?T ?r 0 "-1"] by (auto simp: pmip_tunnel_get_timer_index_def)
  then show ?thesis
    using Some by (auto simp: pmip_tunnel_del_def pmip_tunnel_set_timer_def timer_at_def Let_def split: prod.splits)
qed

lemma pmip_tunnel_del_Done_iff:
  "(\<exists>r s'. pmip_tunnel_del conf en t s = Done (r, s')) \<longleftrightarrow> tunnel_known conf t s"
  using pmip_tunnel_del_Done [of conf t s en]
  by (cases "tunnel_known conf t s") (auto simp: tunnel_known_def pmip_tunnel_del_def)

text \<open>A tunnel can be asked for when the timer table has a slot for the peer.\<close>

definition slot_ok :: "config \<Rightarrow> in6_addr \<Rightarrow> sys \<Rightarrow> bool" where
  "slot_ok conf r s \<longleftrightarrow> (TunnelingEnabled conf \<longrightarrow> slot_for r s)"

lemma pmip_tunnel_add_Done_iff:
  "(\<exists>t s'. pmip_tunnel_add conf en l r k s = Done (t, s')) \<longleftrightarrow> slot_ok conf r s"
  using pmip_tunnel_add_Done [of r s conf en l k]
  by (cases "slot_ok conf r s") (auto simp: slot_ok_def slot_for_def pmip_tunnel_add_def timer_at_def)

lemma slot_ok_cong: "g_tunnel_timer_table s' = g_tunnel_timer_table s \<Longrightarrow> slot_ok conf r s' = slot_ok conf r s"
  by (simp add: slot_ok_def slot_for_def pmip_tunnel_get_timer_index_def)

section \<open>The environment\<close>

text \<open>Conditions on the environment and the configuration: memory is available, the clock is running and
  the configured delays are not negative.\<close>

definition env_ok :: "config \<Rightarrow> env \<Rightarrow> bool" where
  "env_ok conf en \<longleftrightarrow> memok en \<and> 0 < tv_sec (now en) \<and> 0 \<le> tv_sec (RetransmissionTimeOut conf)
     \<and> 0 \<le> tv_sec (MaxDelayBeforeDynamicTunnelingDelete conf)"

lemma env_okD:
  assumes "env_ok conf en"
  shows "memok en" "tsisset (tsadd (now en) (RetransmissionTimeOut conf))"
    "tsisset (tsadd (now en) (MaxDelayBeforeDynamicTunnelingDelete conf))"
    "0 \<le> tv_sec t \<Longrightarrow> tsisset (tsadd (now en) t)"
  using assms by (simp_all add: env_ok_def tsisset_tsadd)


section \<open>Daemons\<close>

text \<open>The contract the two daemons share: the start-up establishes an invariant and every activation keeps
  it.  Whatever the order of the activations, the invariant then holds, and so does everything it
  implies.\<close>

locale daemon =
  fixes start :: "'s \<Rightarrow> bool" and activation :: "'s \<Rightarrow> 's \<Rightarrow> bool" and inv :: "'s \<Rightarrow> bool"
  assumes start_inv: "start s \<Longrightarrow> inv s" and activation_inv: "inv s \<Longrightarrow> activation s s' \<Longrightarrow> inv s'"
begin

lemma run_inv: "rtranclp activation s s' \<Longrightarrow> inv s \<Longrightarrow> inv s'"
  by (induction rule: rtranclp_induct) (auto intro: activation_inv)

lemma reached_inv: "\<exists>s0. start s0 \<and> rtranclp activation s0 s \<Longrightarrow> inv s"
  using run_inv start_inv by blast

end

end
