(* ===== verification/Lma_Binding.thy ===== *)
theory Lma_Binding
  imports Entry_Frame
begin

text \<open>
  Correctness of the anchor: what a binding update does to the bindings, the routes, the timers and the
  messages, what the expiry of a binding does, and the invariant that every reachable state of the
  anchor has.
\<close>

section \<open>The procedures as entry steps\<close>

lemma lma_route_step:
  "entry_step p s (lma_remove_route conf a t s)" "entry_step p s (lma_setup_route conf a t s)"
  by (simp_all add: lma_remove_route_def lma_setup_route_def entry_step_emit)

lemma lma_remove_route_fields [simp]:
  "alive (lma_remove_route conf a t s) = alive s" "heap (lma_remove_route conf a t s) = heap s"
  "croutes (lma_remove_route conf a t s) = croutes s" "tqs (lma_remove_route conf a t s) = tqs s"
  "tctl (lma_remove_route conf a t s) = tctl s"
  "g_tunnel_timer_table (lma_remove_route conf a t s) = g_tunnel_timer_table s"
  by (simp_all add: lma_remove_route_def emit_def)

lemma tun_frame_fields:
  "tun_frame s s' \<Longrightarrow> alive s' = alive s \<and> heap s' = heap s \<and> croutes s' = croutes s \<and> out s' = out s"
  by (auto simp: tun_frame_def)

lemma drop_tunnel_step:
  assumes "p \<in> alive s" "env_ok conf en" "drop_tunnel conf en p s = Done s'"
  shows "entry_step p s s' \<and> heap s' p = (heap s p)\<lparr>e_mn_addr := mn_addr (heap s p)\<rparr> \<and> croutes s' = croutes s"
proof -
  let ?e = "(heap s p)\<lparr>e_mn_addr := mn_addr (heap s p)\<rparr>"
  let ?s = "s\<lparr>heap := (heap s)(p := ?e)\<rparr>"
  obtain r where d: "pmip_tunnel_del conf en (e_tunnel (heap s p)) (lma_remove_route conf (mn_addr (heap s p)) (e_tunnel (heap s p)) ?s)
      = Done (r, s')"
    using assms by (auto simp: drop_tunnel_def cache_simps andThen_Done_iff)
  note f = pmip_tunnel_del_frame [OF d env_okD(3) [OF assms(2)]]
  have "entry_step p s ?s" by (rule entry_step_heap)
  also have "entry_step p \<dots> (lma_remove_route conf (mn_addr (heap s p)) (e_tunnel (heap s p)) ?s)" by (rule lma_route_step)
  also have "entry_step p \<dots> s'" by (rule entry_step_tun [OF f])
  finally show ?thesis using tun_frame_fields [OF f] by simp
qed

lemma drop_tunnel_Done:
  assumes "p \<in> alive s" "tunnel_known conf (e_tunnel (heap s p)) s"
  shows "\<exists>s'. drop_tunnel conf en p s = Done s'"
proof -
  let ?e = "(heap s p)\<lparr>e_mn_addr := mn_addr (heap s p)\<rparr>"
  have "tunnel_known conf (e_tunnel (heap s p)) (lma_remove_route conf a t (s\<lparr>heap := (heap s)(p := ?e)\<rparr>))" for a t
    using assms(2) by (simp add: tunnel_known_def)
  from pmip_tunnel_del_Done [OF this, where a1 = "mn_addr (heap s p)" and t1 = "e_tunnel (heap s p)" and en = en]
  show ?thesis using assms(1) by (auto simp: drop_tunnel_def cache_simps)
qed

text \<open>The entry with the identity of the node stored, before the rest of the update.\<close>

definition identified :: "config \<Rightarrow> msg_info \<Rightarrow> pmip_entry \<Rightarrow> pmip_entry" where
  "identified conf info e = e\<lparr>e_our_addr := OurAddress conf, e_mn_suffix := i_mn_iid info,
     e_mn_hw_address := EUI64_to_EUI48 (i_mn_iid info), e_mn_nai := i_mn_nai info\<rparr>"

definition same_upto_addr :: "pmip_entry \<Rightarrow> pmip_entry \<Rightarrow> bool" where
  "same_upto_addr e e' \<longleftrightarrow> (\<exists>a p. e' = e\<lparr>e_mn_addr := a, e_mn_prefix := p\<rparr>)"

lemma same_upto_addr_intros:
  "same_upto_addr e e" "same_upto_addr e (e\<lparr>e_mn_prefix := p\<rparr>)" "same_upto_addr e (e\<lparr>e_mn_addr := a\<rparr>)"
  "same_upto_addr e (e\<lparr>e_mn_prefix := p, e_mn_addr := a\<rparr>)"
proof -
  have x: "e' = e\<lparr>e_mn_addr := e_mn_addr e', e_mn_prefix := e_mn_prefix e'\<rparr> \<Longrightarrow> same_upto_addr e e'" for e'
    unfolding same_upto_addr_def by blast
  show "same_upto_addr e e" "same_upto_addr e (e\<lparr>e_mn_prefix := p\<rparr>)" "same_upto_addr e (e\<lparr>e_mn_addr := a\<rparr>)"
    "same_upto_addr e (e\<lparr>e_mn_prefix := p, e_mn_addr := a\<rparr>)"
    by (rule x, simp)+
qed

lemma lma_switch_step:
  assumes "p \<in> alive s" "env_ok conf en" "lma_switch conf en p info s = Done (r, s')"
  shows "entry_step p s s' \<and> same_upto_addr (heap s p) (heap s' p) \<and> croutes s' = croutes s"
proof -
  let ?t = "s\<lparr>heap := (heap s)(p := (heap s p)\<lparr>e_mn_prefix := i_mn_prefix info\<rparr>)\<rparr>"
  have "p \<in> alive ?t" using assms(1) by simp
  note dt = drop_tunnel_step [OF this assms(2)] and ds = drop_tunnel_step [OF assms(1,2)]
  have st: "entry_step p s ?t" by (rule entry_step_heap)
  consider "s' = s" | "s' = ?t" | "drop_tunnel conf en p ?t = Done s'" | "drop_tunnel conf en p s = Done s'"
    using assms(1,3) by (auto simp: lma_switch_def cache_simps andThen_Done_iff split: if_splits prod.splits)
  then show ?thesis
  proof cases
    case 3
    then show ?thesis using dt entry_step_trans [OF st] by (auto simp: same_upto_addr_intros)
  next
    case 4
    then show ?thesis using ds by (auto simp: same_upto_addr_intros)
  qed (use st in \<open>auto simp: same_upto_addr_intros\<close>)
qed

lemma lma_update_switch:
  assumes "p \<in> alive s"
  shows "lma_update_binding_entry conf en (Some p) (Some info) s =
    andThen (lma_switch conf en p info (s\<lparr>heap := (heap s)(p := identified conf info (heap s p))\<rparr>)) (\<lambda>(result, s).
       andThen (modify p (\<lambda>e. e\<lparr>e_timestamp := i_timestamp info, e_mn_prefix := i_mn_prefix info,
                  e_mn_link_local_addr := i_mn_link_local_addr info, e_mn_serv_mag_addr := i_src info,
                  e_lifetime := TS (tv_sec (i_lifetime info)) 0,
                  e_n_rets_counter := MaxMessageRetransmissions conf, e_seqno_in := i_seqno info\<rparr>) s) (\<lambda>s.
       andThen (mn_addr_of p s) (\<lambda>(_, s).
       andThen (modify p (\<lambda>e. e\<lparr>e_link := i_iif info\<rparr>) s) (\<lambda>s. Done (result, s)))))"
  using assms by (simp add: lma_update_binding_entry_def cache_simps identified_def)

lemma lma_update_step:
  assumes "p \<in> alive s" "env_ok conf en" "lma_update_binding_entry conf en (Some p) (Some info) s = Done (r, s')"
  shows "entry_step p s s' \<and> heap s' p = updated_entry conf info (heap s p) \<and> croutes s' = croutes s"
proof -
  let ?s = "s\<lparr>heap := (heap s)(p := identified conf info (heap s p))\<rparr>"
  obtain r1 s1 where s1: "lma_switch conf en p info ?s = Done (r1, s1)"
    and s': "andThen (modify p (\<lambda>e. e\<lparr>e_timestamp := i_timestamp info, e_mn_prefix := i_mn_prefix info,
                  e_mn_link_local_addr := i_mn_link_local_addr info, e_mn_serv_mag_addr := i_src info,
                  e_lifetime := TS (tv_sec (i_lifetime info)) 0,
                  e_n_rets_counter := MaxMessageRetransmissions conf, e_seqno_in := i_seqno info\<rparr>) s1) (\<lambda>s.
       andThen (mn_addr_of p s) (\<lambda>(_, s).
       andThen (modify p (\<lambda>e. e\<lparr>e_link := i_iif info\<rparr>) s) (\<lambda>s. Done (r1, s)))) = Done (r, s')"
    using assms(3) unfolding lma_update_switch [OF assms(1)] andThen_Done_iff [of "lma_switch conf en p info ?s"] by auto
  have "p \<in> alive ?s" using assms(1) by simp
  note sw = lma_switch_step [OF this assms(2) s1]
  then obtain a px where h1: "heap s1 p = (identified conf info (heap s p))\<lparr>e_mn_addr := a, e_mn_prefix := px\<rparr>"
    by (auto simp: same_upto_addr_def)
  have al: "p \<in> alive s1" using sw assms(1) by (simp add: entry_step_def)
  have "s' = s1\<lparr>heap := (heap s1)(p := updated_entry conf info (heap s p))\<rparr>"
    using s' al by (simp add: cache_simps h1 updated_entry_def identified_def mn_addr_def)
  moreover have "entry_step p s s1" using sw entry_step_trans [OF entry_step_heap] by blast
  ultimately show ?thesis using entry_step_trans [OF _ entry_step_heap] sw by auto
qed

text \<open>The update returns when the tunnel of the entry is known.\<close>

lemma lma_update_Done:
  assumes "p \<in> alive s" "env_ok conf en" "tunnel_known conf (e_tunnel (heap s p)) s"
  shows "\<exists>r s'. lma_update_binding_entry conf en (Some p) (Some info) s = Done (r, s')"
proof -
  let ?s = "s\<lparr>heap := (heap s)(p := identified conf info (heap s p))\<rparr>"
  let ?t = "?s\<lparr>heap := (heap ?s)(p := (heap ?s p)\<lparr>e_mn_prefix := i_mn_prefix info\<rparr>)\<rparr>"
  have "\<exists>s'. drop_tunnel conf en p u = Done s'" if "u = ?s \<or> u = ?t" for u
    by (rule drop_tunnel_Done) (use that assms in \<open>auto simp: identified_def tunnel_known_def\<close>)
  then obtain u v where uv: "drop_tunnel conf en p ?s = Done u" "drop_tunnel conf en p ?t = Done v" by blast
  have "\<exists>r1 s1. lma_switch conf en p info ?s = Done (r1, s1)"
    using uv assms(1) by (simp add: lma_switch_def cache_simps split: prod.splits)
  then obtain r1 s1 where s1: "lma_switch conf en p info ?s = Done (r1, s1)" by blast
  then have "p \<in> alive s1" using lma_switch_step [of p ?s conf en info] assms by (auto simp: entry_step_def)
  then show ?thesis unfolding lma_update_switch [OF assms(1)] s1 by (simp add: cache_simps)
qed

text \<open>Deregistration without an answer: the timer, the route, the tunnel, the client's route and its flows.\<close>

definition unrouted :: "config \<Rightarrow> nat \<Rightarrow> sys \<Rightarrow> sys" where
  "unrouted conf p s = s\<lparr>tqs := del_task (TqBce p) (tqs s), heap := (heap s)(p := (heap s p)\<lparr>e_mn_addr := mn_addr (heap s p)\<rparr>),
     out := out s @ route_effect conf (mn_route_del (e_tunnel (heap s p)) (heap s p))\<rparr>"

lemma unrouted_fields [simp]:
  "alive (unrouted conf p s) = alive s" "croutes (unrouted conf p s) = croutes s" "tctl (unrouted conf p s) = tctl s"
  "g_tunnel_timer_table (unrouted conf p s) = g_tunnel_timer_table s" "tqs (unrouted conf p s) = del_task (TqBce p) (tqs s)"
  "heap (unrouted conf p s) = (heap s)(p := (heap s p)\<lparr>e_mn_addr := mn_addr (heap s p)\<rparr>)"
  "out (unrouted conf p s) = out s @ route_effect conf (mn_route_del (e_tunnel (heap s p)) (heap s p))"
  by (simp_all add: unrouted_def)

lemma unrouted_step: "entry_step p s (unrouted conf p s)"
  using entry_step_trans [OF entry_step_trans [OF entry_step_disarm entry_step_heap] entry_step_out]
  by (simp add: unrouted_def)

definition dereg_answer :: "config \<Rightarrow> env \<Rightarrow> nat \<Rightarrow> msg_info option \<Rightarrow> bool \<Rightarrow> sys \<Rightarrow> (int \<times> sys) outcome" where
  "dereg_answer conf en p info propagate s =
     andThen (if propagate then
                case info of
                  None \<Rightarrow> Fault NullDeref
                | Some i \<Rightarrow> andThen (modify p (\<lambda>e. e\<lparr>e_seqno_in := i_seqno i\<rparr>) s) (\<lambda>s.
                    send_pba en (LmaAddress conf) tszero p s)
              else Done s) (\<lambda>s.
     andThen (modify p (\<lambda>e. e\<lparr>e_type := BCE_NO_ENTRY\<rparr>) s) (\<lambda>s.
       Done (0, s)))"

lemma lma_dereg_start:
  "p \<in> alive s \<Longrightarrow> lma_dereg conf en (Some p) info propagate s =
     andThen (pmip_tunnel_del conf en (e_tunnel (heap s p)) (unrouted conf p s)) (\<lambda>(_, s1).
     andThen (remove_client_route (e_mn_nai (heap s p)) (e_mn_serv_mag_addr (heap s p)) (croutes s1)) (\<lambda>c.
     andThen (flowScheduler_link_down en (e_mn_nai (heap s p)) (s1\<lparr>croutes := c\<rparr>)) (\<lambda>s.
       dereg_answer conf en p info propagate s)))"
  by (simp add: lma_dereg_def dereg_answer_def cache_simps lma_remove_route_def emit_def unrouted_def route_effect_def mn_route_del_def)

lemma flow_frame_fields:
  "flow_frame s s' \<Longrightarrow> alive s' = alive s \<and> heap s' = heap s \<and> croutes s' = croutes s \<and> tqs s' = tqs s \<and> held s' = held s"
  by (auto simp: flow_frame_def)

text \<open>The state of the deregistration just before the entry is marked and, with \<open>propagate\<close>, answered.\<close>

lemma lma_dereg_released:
  assumes "p \<in> alive s" "env_ok conf en" "flow_inv s" "routes_inv conf (croutes s)"
    and "e_mn_serv_mag_addr (heap s p) \<in> set (routes_of (croutes s) (e_mn_nai (heap s p)))"
    and "pmip_tunnel_del conf en (e_tunnel (heap s p)) (unrouted conf p s) = Done (r, s1)"
  obtains s3 where "\<And>info propagate. lma_dereg conf en (Some p) info propagate s = dereg_answer conf en p info propagate s3"
    "entry_step p s s3" "heap s3 p = (heap s p)\<lparr>e_mn_addr := mn_addr (heap s p)\<rparr>" "routes_inv conf (croutes s3)"
    "routes_of (croutes s3) (e_mn_nai (heap s p)) = remove1 (e_mn_serv_mag_addr (heap s p)) (routes_of (croutes s) (e_mn_nai (heap s p)))"
    "\<forall>n. n \<noteq> e_mn_nai (heap s p) \<longrightarrow> routes_of (croutes s3) n = routes_of (croutes s) n"
    "tq_inv (tqs s) \<Longrightarrow> pending (tqs s3) (TqBce p) = None"
    "\<exists>es. out s3 = out s @ route_effect conf (mn_route_del (e_tunnel (heap s p)) (heap s p)) @ es"
proof -
  let ?n = "e_mn_nai (heap s p)" and ?a = "e_mn_serv_mag_addr (heap s p)"
  note f1 = pmip_tunnel_del_frame [OF assms(6) env_okD(3) [OF assms(2)]]
  have e1: "entry_step p s s1" by (rule entry_step_trans [OF unrouted_step entry_step_tun [OF f1]])
  obtain c where c: "remove_client_route ?n ?a (croutes s) = Done c" "routes_inv conf c"
      "routes_of c ?n = remove1 ?a (routes_of (croutes s) ?n)" "\<forall>n. n \<noteq> ?n \<longrightarrow> routes_of c n = routes_of (croutes s) n"
    using remove_client_route_removes [OF assms(4,5)] by blast
  have "flow_inv (s1\<lparr>croutes := c\<rparr>)" using e1 assms(3) by (simp add: entry_step_def)
  then obtain s3 where s3: "flowScheduler_link_down en ?n (s1\<lparr>croutes := c\<rparr>) = Done s3" "flow_inv s3"
      "flow_frame (s1\<lparr>croutes := c\<rparr>) s3"
    using link_down_total by blast
  note ff = flow_frame_fields [OF s3(3)] and tf = tun_frame_fields [OF f1]
  show ?thesis
  proof (rule that)
    show "entry_step p s s3"
      by (rule entry_step_trans [OF e1 entry_step_trans [OF entry_step_croutes entry_step_flow [OF s3(3,2)]]])
    show "lma_dereg conf en (Some p) info propagate s = dereg_answer conf en p info propagate s3" for info propagate
      using assms(1,6) c(1) s3(1) tf by (simp add: lma_dereg_start)
    show "tq_inv (tqs s) \<Longrightarrow> pending (tqs s3) (TqBce p) = None"
      using f1 ff by (auto simp: tun_frame_def tq.pend_del tq.invar_del)
    show "\<exists>es. out s3 = out s @ route_effect conf (mn_route_del (e_tunnel (heap s p)) (heap s p)) @ es"
      using s3(3) tf by (auto simp: flow_frame_def)
  qed (use tf ff c in simp_all)
qed

text \<open>Registration: the tunnel, the route, the timer, the acknowledgement, the client's route and its flows.\<close>

lemma lma_reg_bound:
  assumes "p \<in> alive s" "env_ok conf en" "flow_inv s" "routes_inv conf (croutes s)"
    and "length (e_mn_nai (heap s p)) = NAI_SIZE" "0 \<le> tv_sec (e_lifetime (heap s p))"
    and "slot_ok conf (e_mn_serv_mag_addr (heap s p)) s"
  obtains t s' where "lma_reg conf en (Some p) s = Done (0, s')" "entry_step p s s'"
    "heap s' p = reg_entry en t (heap s p)" "routes_inv conf (croutes s')"
    "routes_of (croutes s') (e_mn_nai (heap s p)) =
       List.insert (e_mn_serv_mag_addr (heap s p)) (routes_of (croutes s) (e_mn_nai (heap s p)))"
    "\<forall>n. n \<noteq> e_mn_nai (heap s p) \<longrightarrow> routes_of (croutes s') n = routes_of (croutes s) n"
    "tq_inv (tqs s) \<Longrightarrow> pending (tqs s') (TqBce p) = Some (tsadd (now en) (e_lifetime (heap s p)))"
    "task (tqs s') (TqBce p) = Some Bce_expired"
    "\<exists>es. out s' = out s @ route_effect conf (mn_route_add t (heap s p))
       @ SendMH (pba_packet (OurAddress conf) (e_lifetime (heap s p)) ((heap s p)\<lparr>e_status := 0\<rparr>)) # es"
proof -
  let ?e = "heap s p" and ?n = "e_mn_nai (heap s p)" and ?a = "e_mn_serv_mag_addr (heap s p)"
  obtain t s1 where t: "pmip_tunnel_add conf en (OurAddress conf) ?a (e_link ?e) s = Done (t, s1)"
    using assms(7) pmip_tunnel_add_Done_iff by blast
  note f1 = pmip_tunnel_add_frame [OF t] and tf = tun_frame_fields [OF pmip_tunnel_add_frame [OF t]]
  obtain c where c: "add_client_route conf True ?n ?a (croutes s) = Done c" "routes_inv conf c"
      "routes_of c ?n = List.insert ?a (routes_of (croutes s) ?n)" "\<forall>n. n \<noteq> ?n \<longrightarrow> routes_of c n = routes_of (croutes s) n"
    using add_client_route_adds [OF assms(4), of ?n ?a] by (auto simp: List.insert_def)
  let ?r = "registered conf en p t c s1"
  have set: "tsisset (tsadd (now en) (e_lifetime ?e))" by (rule env_okD(4) [OF assms(2,6)])
  have e1: "entry_step p s s1" by (rule entry_step_tun [OF f1])
  have e2: "entry_step p s1 ?r"
    using set by (simp add: registered_def entry_step_def tq.invar_add tq.pend_add add_task_abs_fields tf)
  have "flow_inv ?r" using e1 e2 assms(3) by (simp add: entry_step_def)
  then obtain s' where s': "flowScheduler_link_up en ?n ?r = Done s'" "kept ?r s'" "flow_inv s'"
    using link_up_kept by blast
  then have ff: "flow_frame ?r s'" by (simp add: kept_def)
  note fld = flow_frame_fields [OF ff]
  show ?thesis
  proof (rule that)
    show "lma_reg conf en (Some p) s = Done (0, s')"
      by (rule lma_reg_registered [OF assms(1) env_okD(1) [OF assms(2)] assms(5) t c(1) s'(1)])
    show "entry_step p s s'" by (rule entry_step_trans [OF e1 entry_step_trans [OF e2 entry_step_flow [OF ff s'(3)]]])
    show "tq_inv (tqs s) \<Longrightarrow> pending (tqs s') (TqBce p) = Some (tsadd (now en) (e_lifetime ?e))"
      using fld tf e1 by (simp add: registered_def tq.pend_add entry_step_def)
    show "\<exists>es. out s' = out s @ route_effect conf (mn_route_add t ?e)
        @ SendMH (pba_packet (OurAddress conf) (e_lifetime ?e) (?e\<lparr>e_status := 0\<rparr>)) # es"
      using ff tf by (auto simp: flow_frame_def registered_def)
  qed (use fld tf c in \<open>simp_all add: registered_def add_task_abs_fields\<close>)
qed

lemma routes_of_distinct: "routes_inv conf c \<Longrightarrow> distinct (routes_of c n)"
  using find_client_Some [of n "list_HEAD c"]
  by (auto simp: routes_of_def get_route_for_client_def routes_inv_def split: option.splits)

section \<open>The invariant of the anchor\<close>

text \<open>The bindings in the cache are registered ones, each has a running expiry timer and every timer of a
  binding belongs to a cached one, and the gateways of a client are those it has a binding with.
  Between activations no lock is held.\<close>

definition binding_ok :: "pmip_entry \<Rightarrow> bool" where
  "binding_ok e \<longleftrightarrow> e_type e = BCE_PMIP \<and> length (e_mn_nai e) = NAI_SIZE \<and> e_mn_serv_mag_addr e \<noteq> in6addr_any"

definition anchor_inv :: "config \<Rightarrow> sys \<Rightarrow> bool" where
  "anchor_inv conf s \<longleftrightarrow> cache_inv s \<and> flow_inv s \<and> held s = [] \<and> hnp_inv (hnp s) \<and> routes_inv conf (croutes s)
     \<and> (\<forall>p \<in> cached s. binding_ok (heap s p) \<and> task (tqs s) (TqBce p) = Some Bce_expired)
     \<and> (\<forall>p. pending (tqs s) (TqBce p) \<noteq> None \<longleftrightarrow> p \<in> cached s)
     \<and> (\<forall>n a. a \<in> set (routes_of (croutes s) n) \<longleftrightarrow> lookup s (n, a) \<noteq> None)"

lemma anchor_invD:
  assumes "anchor_inv conf s"
  shows "cache_inv s" "flow_inv s" "held s = []" "hnp_inv (hnp s)" "routes_inv conf (croutes s)" "tq_inv (tqs s)"
    "p \<in> cached s \<Longrightarrow> binding_ok (heap s p)" "p \<in> cached s \<Longrightarrow> task (tqs s) (TqBce p) = Some Bce_expired"
    "pending (tqs s) (TqBce p) \<noteq> None \<longleftrightarrow> p \<in> cached s" "p \<in> cached s \<Longrightarrow> p \<in> alive s"
    "a \<in> set (routes_of (croutes s) n) \<longleftrightarrow> lookup s (n, a) \<noteq> None"
  using assms by (auto simp: anchor_inv_def cache_inv_def)

lemma hnp_insert_any:
  assumes "hnp_inv c"
  shows "hnp_inv (pmip_insert_into_hnp_cache m a n c)"
    "lma_mnid_hnp_map m (pmip_insert_into_hnp_cache m a n c) = (a, 1)
       \<or> snd (lma_mnid_hnp_map m (pmip_insert_into_hnp_cache m a n c)) < 0"
proof -
  consider "hnp_known c m" | "\<not> hnp_known c m" "g_mn_count c < MAX_MOBILES" | "\<not> hnp_known c m" "\<not> g_mn_count c < MAX_MOBILES"
    by blast
  then have "hnp_inv (pmip_insert_into_hnp_cache m a n c)
    \<and> (lma_mnid_hnp_map m (pmip_insert_into_hnp_cache m a n c) = (a, 1)
       \<or> snd (lma_mnid_hnp_map m (pmip_insert_into_hnp_cache m a n c)) < 0)"
  proof cases
    case 3
    then have "hnp_search c m 0 = None" using hnp_search_None_iff by blast
    then show ?thesis using assms 3(2) by (simp add: pmip_insert_into_hnp_cache_def lma_mnid_hnp_map_def)
  qed (use insert_present [OF assms] insert_fresh [OF assms] in auto)
  then show "hnp_inv (pmip_insert_into_hnp_cache m a n c)"
    "lma_mnid_hnp_map m (pmip_insert_into_hnp_cache m a n c) = (a, 1)
       \<or> snd (lma_mnid_hnp_map m (pmip_insert_into_hnp_cache m a n c)) < 0" by blast+
qed

text \<open>A step on one cached binding that keeps it registered, timed and routed keeps the invariant.\<close>

lemma anchor_inv_step:
  assumes "anchor_inv conf s" "entry_step p s s'" "p \<in> cached s" "bce_key (heap s' p) = bce_key (heap s p)"
    and "binding_ok (heap s' p)" "pending (tqs s') (TqBce p) \<noteq> None" "task (tqs s') (TqBce p) = Some Bce_expired"
    and "croutes s' = croutes s"
  shows "anchor_inv conf s'" "lookup s' = lookup s"
proof -
  note I = anchor_invD [OF assms(1)]
  note C = entry_step_cache [OF assms(2) I(1) assms(4) I(10) [OF assms(3)]]
  have F: "flow_inv s'" "held s' = []" "hnp s' = hnp s" using assms(2) I(2,3) by (simp_all add: entry_step_def)
  have H: "binding_ok (heap s' q) \<and> task (tqs s') (TqBce q) = Some Bce_expired" if "q \<in> cached s" for q
    using assms(2,5,7) I(7,8) [OF that] by (cases "q = p") (simp_all add: entry_step_def)
  have P: "pending (tqs s') (TqBce q) \<noteq> None \<longleftrightarrow> q \<in> cached s" for q
    using assms(2,3,6) I(6) I(9) [of q] by (cases "q = p") (simp_all add: entry_step_def)
  show "anchor_inv conf s'"
    unfolding anchor_inv_def C(2,3) F(3) assms(8) using C(1) F I(4,5,11) H P by blast
  show "lookup s' = lookup s" by (rule C(2))
qed

section \<open>A binding update for a node the anchor does not know\<close>

definition fresh_entry :: "config \<Rightarrow> msg_info \<Rightarrow> pmip_entry" where
  "fresh_entry conf info = updated_entry conf info (pmip_entry_zero\<lparr>e_type := BCE_PMIP\<rparr>)"

lemma fresh_entry_fields [simp]:
  "e_mn_nai (fresh_entry conf info) = i_mn_nai info" "e_mn_serv_mag_addr (fresh_entry conf info) = i_src info"
  "e_lifetime (fresh_entry conf info) = TS (tv_sec (i_lifetime info)) 0" "e_type (fresh_entry conf info) = BCE_PMIP"
  "bce_key (fresh_entry conf info) = (i_mn_nai info, i_src info)" "e_mn_prefix (fresh_entry conf info) = i_mn_prefix info"
  "e_mn_suffix (fresh_entry conf info) = i_mn_iid info" "e_link (fresh_entry conf info) = i_iif info"
  by (simp_all add: fresh_entry_def updated_entry_def bce_key_def)

text \<open>The state in which a new binding is registered: the entry is allocated and filled in and the prefix of
  the node is recorded.\<close>

definition admitted :: "config \<Rightarrow> env \<Rightarrow> msg_info \<Rightarrow> sys \<Rightarrow> sys" where
  "admitted conf en info s = (let s1 = snd (pmip_cache_alloc en BCE_PMIP s) in
     s1\<lparr>hnp := pmip_insert_into_hnp_cache (EUI64_to_EUI48 (i_mn_iid info)) (i_mn_prefix info) (i_mn_nai info) (hnp s),
        heap := (heap s)(brk s := fresh_entry conf info)\<rparr>)"

definition pbu_event :: "msg_info \<Rightarrow> bool" where
  "pbu_event info \<longleftrightarrow> i_msg_event info = hasPBU \<and> i_mn_serv_mag_addr info = i_src info \<and> i_src info \<noteq> in6addr_any
     \<and> length (i_mn_nai info) = NAI_SIZE \<and> tv_nsec (i_lifetime info) = 0 \<and> 0 \<le> tv_sec (i_lifetime info)"

lemma admitted_props:
  assumes "anchor_inv conf s" "env_ok conf en" "lookup s (i_mn_nai info, i_src info) = None"
  shows "cache_inv (admitted conf en info s)" "lookup (admitted conf en info s) = lookup s"
    "alive (admitted conf en info s) = insert (brk s) (alive s)" "brk s \<notin> cached s" "brk s \<notin> alive s"
    "flow_inv (admitted conf en info s)" "croutes (admitted conf en info s) = croutes s" "held (admitted conf en info s) = []"
    "heap (admitted conf en info s) = (heap s)(brk s := fresh_entry conf info)" "out (admitted conf en info s) = out s"
    "hnp_inv (hnp (admitted conf en info s))" "g_pmip_hash (admitted conf en info s) = g_pmip_hash s"
    "tctl (admitted conf en info s) = tctl s" "g_tunnel_timer_table (admitted conf en info s) = g_tunnel_timer_table s"
    "last_BID (admitted conf en info s) = last_BID s" "pending (tqs (admitted conf en info s)) = pending (tqs s)"
    "q \<noteq> brk s \<Longrightarrow> task (tqs (admitted conf en info s)) (TqBce q) = task (tqs s) (TqBce q)"
proof -
  note I = anchor_invD [OF assms(1)]
  have m: "memok en" by (rule env_okD(1) [OF assms(2)])
  let ?a = "pmip_cache_alloc en BCE_PMIP s"
  have a: "?a = (Some (brk s), snd ?a)" using m by (simp add: pmip_cache_alloc_def)
  note A = pmip_cache_alloc_inv [OF I(1) a]
  have nc: "brk s \<notin> cached s" "brk s \<notin> alive s" using I(1) by (auto simp: cache_inv_def)
  have fr: "g_pmip_hash (admitted conf en info s) = g_pmip_hash (snd ?a)" "alive (admitted conf en info s) = alive (snd ?a)"
    "tqs (admitted conf en info s) = tqs (snd ?a)"
    "\<And>q. q \<in> cached (snd ?a) \<Longrightarrow> bce_key (heap (admitted conf en info s) q) = bce_key (heap (snd ?a) q)"
    using nc A by (auto simp: admitted_def Let_def)
  have pa: "q \<in> alive (snd ?a)" if "pending (tqs (snd ?a)) (TqBce q) \<noteq> None" for q
    using A that by (auto simp: cache_inv_def)
  show "cache_inv (admitted conf en info s)"
    by (rule cache_inv_frame [OF conjunct1 [OF A] fr(1,2) _ _ _ _ fr(4)]) (use A pa fr(3) in \<open>auto simp: admitted_def Let_def cache_inv_def\<close>)
  show "lookup (admitted conf en info s) = lookup s" using lookup_frame [OF conjunct1 [OF A] fr(1,4)] A by simp
  show "brk s \<notin> cached s" "brk s \<notin> alive s" by (rule nc)+
  show "hnp_inv (hnp (admitted conf en info s))" using hnp_insert_any(1) [OF I(4)] by (simp add: admitted_def Let_def)
  show "pending (tqs (admitted conf en info s)) = pending (tqs s)" using A fr(3) by simp
qed (use env_okD(1) [OF assms(2)] anchor_invD [OF assms(1)] in \<open>auto simp: admitted_def Let_def pmip_cache_alloc_def\<close>)

lemma lma_fsm_new_start:
  assumes "anchor_inv conf s" "env_ok conf en" "pbu_event info" "0 < tv_sec (i_lifetime info)"
    and "lookup s (i_mn_nai info, i_src info) = None"
  shows "lma_fsm conf en info s = andThen (lma_reg conf en (Some (brk s)) (admitted conf en info s)) (\<lambda>(_, s').
     andThen (pmip_cache_add conf en (brk s) s') (\<lambda>(_, s'). Done s'))"
proof -
  note I = anchor_invD [OF assms(1)] and P = admitted_props [OF assms(1,2,5)]
  let ?h = "pmip_insert_into_hnp_cache (EUI64_to_EUI48 (i_mn_iid info)) (i_mn_prefix info) (i_mn_nai info) (hnp s)"
  let ?s = "(snd (pmip_cache_alloc en BCE_PMIP s))\<lparr>hnp := ?h\<rparr>"
  have ex: "pmip_cache_exists (i_mn_nai info) (i_src info) s = Done (-1, s)"
    using pmip_cache_exists_eq [of s "i_mn_nai info" "i_src info"] assms(5) I(3) by simp
  have al: "pmip_cache_alloc en BCE_PMIP s = (Some (brk s), snd (pmip_cache_alloc en BCE_PMIP s))"
    using env_okD(1) [OF assms(2)] by (simp add: pmip_cache_alloc_def)
  have "\<exists>r. lma_update_binding_entry conf en (Some (brk s)) (Some info) ?s =
      Done (r, ?s\<lparr>heap := (heap ?s)(brk s := updated_entry conf info (heap ?s (brk s)))\<rparr>)"
    by (rule lma_update_eq)
      (use env_okD(1) [OF assms(2)] hnp_insert_any(2) [OF I(4)] in \<open>simp_all add: pmip_cache_alloc_def pmip_entry_zero_def\<close>)
  moreover have "?s\<lparr>heap := (heap ?s)(brk s := updated_entry conf info (heap ?s (brk s)))\<rparr> = admitted conf en info s"
    using env_okD(1) [OF assms(2)] by (simp add: admitted_def Let_def pmip_cache_alloc_def fresh_entry_def)
  ultimately show ?thesis
    using assms(3,4) ex al env_okD(1) [OF assms(2)]
    by (auto simp: lma_fsm_def lma_fsm_no_entry_def pbu_event_def pmip_cache_alloc_def)
qed

definition bound_entry :: "config \<Rightarrow> env \<Rightarrow> msg_info \<Rightarrow> int \<Rightarrow> int \<Rightarrow> pmip_entry" where
  "bound_entry conf en info t bid = (reg_entry en t (fresh_entry conf info))\<lparr>e_unreach := 0, e_BID := bid,
     e_n_rets_counter := MaxMessageRetransmissions conf, e_add_time := now en\<rparr>"

lemma lma_registers_new:
  assumes "anchor_inv conf s" "env_ok conf en" "pbu_event info" "0 < tv_sec (i_lifetime info)"
    and "lookup s (i_mn_nai info, i_src info) = None" "slot_ok conf (i_src info) s"
  obtains t s' where "lma_fsm conf en info s = Done s'" "anchor_inv conf s'"
    "lookup s' = (lookup s)((i_mn_nai info, i_src info) \<mapsto> brk s)" "\<forall>q \<in> cached s. heap s' q = heap s q"
    "heap s' (brk s) = bound_entry conf en info t (last_BID s + 1)"
    "pending (tqs s') (TqBce (brk s)) = Some (tsadd (now en) (TS (tv_sec (i_lifetime info)) 0))"
    "\<exists>es. out s' = out s @ route_effect conf (mn_route_add t (fresh_entry conf info))
       @ SendMH (pba_packet (OurAddress conf) (TS (tv_sec (i_lifetime info)) 0) ((fresh_entry conf info)\<lparr>e_status := 0\<rparr>)) # es"
    "hnp s' = pmip_insert_into_hnp_cache (EUI64_to_EUI48 (i_mn_iid info)) (i_mn_prefix info) (i_mn_nai info) (hnp s)"
proof -
  let ?p = "brk s" and ?s = "admitted conf en info s" and ?k = "(i_mn_nai info, i_src info)"
  let ?l = "TS (tv_sec (i_lifetime info)) 0"
  note I = anchor_invD [OF assms(1)] and A = admitted_props [OF assms(1,2,5)]
  have e: "heap ?s ?p = fresh_entry conf info" using A(9) by simp
  have so: "slot_ok conf (e_mn_serv_mag_addr (heap ?s ?p)) ?s" using slot_ok_cong [OF A(14)] assms(6) e by simp
  obtain t s1 where r: "lma_reg conf en (Some ?p) ?s = Done (0, s1)" "entry_step ?p ?s s1"
      "heap s1 ?p = reg_entry en t (fresh_entry conf info)" "routes_inv conf (croutes s1)"
      "routes_of (croutes s1) (i_mn_nai info) = List.insert (i_src info) (routes_of (croutes s) (i_mn_nai info))"
      "\<forall>n. n \<noteq> i_mn_nai info \<longrightarrow> routes_of (croutes s1) n = routes_of (croutes s) n"
      "\<exists>es. out s1 = out s @ route_effect conf (mn_route_add t (fresh_entry conf info))
        @ SendMH (pba_packet (OurAddress conf) ?l ((fresh_entry conf info)\<lparr>e_status := 0\<rparr>)) # es"
    by (rule lma_reg_bound [of ?p ?s conf en, OF _ assms(2) A(6) _ _ _ so])
      (use A I(5) assms(3) in \<open>simp_all add: pbu_event_def\<close>)
  note S = r(2) [unfolded entry_step_def]
  have pa: "?p \<in> alive ?s" "?p \<notin> cached ?s" using A(3,4,12) by simp_all
  note C = entry_step_cache [OF r(2) A(1) _ pa(1)]
  have k1: "bce_key (heap s1 ?p) = ?k" by (simp add: r(3) reg_entry_def bce_key_def)
  have c1: "cache_inv s1" "lookup s1 = lookup s" "cached s1 = cached s" "?p \<in> alive s1" "?p \<notin> cached s1"
    using C A(2,12) pa S by auto
  have ts: "tsisset (tsadd (now en) ?l)" using assms(4) by (intro env_okD(4) [OF assms(2)]) simp
  have l1: "e_lifetime (heap s1 ?p) = ?l" "e_type (heap s1 ?p) = BCE_PMIP" by (simp_all add: r(3) reg_entry_def)
  obtain h where h: "pmip_cache_add conf en ?p s1 = Done (Some ?p, added conf en ?p h s1)"
      "pmip_hash_wf (\<lambda>q. bce_key (heap s1 q)) h" "mset (table_elems h) = add_mset ?p (mset (table_elems (g_pmip_hash s1)))"
    using pmip_cache_add_added [OF c1(1,4,5) _ env_okD(1) [OF assms(2)], of conf] k1 c1(2) assms(5) S A(8) by auto
  let ?t = "added conf en ?p h s1"
  have D: "cache_inv ?t" "lookup ?t = (lookup s)(?k \<mapsto> ?p)" "cached ?t = insert ?p (cached s)"
    using added_inv [OF c1(1,4,5) _ h(2,3), of en conf] k1 c1(2,3) assms(5) ts l1 by auto
  have q1: "tq_inv (tqs s1)" using c1(1) by (simp add: cache_inv_def)
  have T: "heap ?t = (heap s1)(?p := bound_entry conf en info t (last_BID s + 1))" "out ?t = out s1" "croutes ?t = croutes s1"
      "held ?t = []" "hnp ?t = hnp ?s" "flow_inv ?t = flow_inv s1"
      "pending (tqs ?t) = (pending (tqs s1))(TqBce ?p \<mapsto> tsadd (now en) ?l)" "task (tqs ?t) = (task (tqs s1))(TqBce ?p \<mapsto> Bce_expired)"
    using l1 S A(8,15) by (simp_all add: added_def Let_def tq.pend_add [OF q1] add_task_abs_fields bound_entry_def r(3))
  have H: "heap ?t q = heap s q" if "q \<in> cached s" for q using that A(4,9) S T(1) by auto
  have B: "binding_ok (heap ?t q) \<and> task (tqs ?t) (TqBce q) = Some Bce_expired" if "q \<in> insert ?p (cached s)" for q
  proof (cases "q = ?p")
    case True
    then show ?thesis using assms(3) T by (simp add: bound_entry_def reg_entry_def binding_ok_def pbu_event_def)
  next
    case False
    then show ?thesis using that H I(7,8) S A(17) T(8) by auto
  qed
  have P: "pending (tqs ?t) (TqBce q) \<noteq> None \<longleftrightarrow> q \<in> insert ?p (cached s)" for q
    using S A(1,16) I(9) [of q] T(7) by (cases "q = ?p") (auto simp: cache_inv_def)
  have R: "(a \<in> set (routes_of (croutes ?t) n)) = (lookup ?t (n, a) \<noteq> None)" for n a
    using r(5,6) I(11) [of a n] T(3) D(2) by (cases "n = i_mn_nai info") auto
  show ?thesis
  proof (rule that)
    show "anchor_inv conf ?t"
      unfolding anchor_inv_def D(3) using D(1) T(4-6) S A(6,11) I(2) r(4) T(3) B P R by auto
    show "lma_fsm conf en info s = Done ?t" unfolding lma_fsm_new_start [OF assms(1-5)] r(1) by (simp add: h(1))
    show "hnp ?t = pmip_insert_into_hnp_cache (EUI64_to_EUI48 (i_mn_iid info)) (i_mn_prefix info) (i_mn_nai info) (hnp s)"
      unfolding T(5) by (simp add: admitted_def Let_def)
  qed (use D(2) H T r(7) in auto)
qed

section \<open>A binding update for a known node\<close>

lemma anchor_lookup:
  assumes "anchor_inv conf s" "lookup s (n, a) = Some p"
  shows "p \<in> cached s" "p \<in> alive s" "e_mn_nai (heap s p) = n" "e_mn_serv_mag_addr (heap s p) = a" "e_type (heap s p) = BCE_PMIP"
    "pmip_cache_exists n a s = Done (BCE_PMIP, s)" "pmip_cache_get n a s = Done (Some p, s\<lparr>held := [EntryLock p, PmipLock]\<rparr>)"
proof -
  note I = anchor_invD [OF assms(1)]
  show p: "p \<in> cached s" and "e_mn_nai (heap s p) = n" "e_mn_serv_mag_addr (heap s p) = a"
    using lookup_Some_iff [OF I(1)] assms(2) by (auto simp: bce_key_def)
  show al: "p \<in> alive s" by (rule I(10) [OF p])
  show ty: "e_type (heap s p) = BCE_PMIP" using I(7) [OF p] by (simp add: binding_ok_def)
  show "pmip_cache_exists n a s = Done (BCE_PMIP, s)"
    using pmip_cache_exists_eq [of s n a] assms(2) al ty I(3) by simp
  show "pmip_cache_get n a s = Done (Some p, s\<lparr>held := [EntryLock p, PmipLock]\<rparr>)"
    using pmip_cache_get_hit [OF assms(2) al] I(3) by simp
qed

definition rebound_entry :: "config \<Rightarrow> env \<Rightarrow> msg_info \<Rightarrow> pmip_entry \<Rightarrow> pmip_entry" where
  "rebound_entry conf en info e = (updated_entry conf info e)\<lparr>e_status := 0, e_add_time := now en, e_seqno_out := i_seqno info\<rparr>"

definition rebound :: "config \<Rightarrow> env \<Rightarrow> msg_info \<Rightarrow> nat \<Rightarrow> sys \<Rightarrow> sys" where
  "rebound conf en info p s = s\<lparr>
     tqs := add_task_abs (tsadd (now en) (TS (tv_sec (i_lifetime info)) 0)) (TqBce p) Bce_expired (tqs s),
     out := out s @ [SendMH (pba_packet (OurAddress conf) (TS (tv_sec (i_lifetime info)) 0) ((heap s p)\<lparr>e_status := 0\<rparr>))],
     held := [], heap := (heap s)(p := (heap s p)\<lparr>e_status := 0, e_add_time := now en, e_seqno_out := i_seqno info,
       e_mn_addr := mn_addr (heap s p)\<rparr>)\<rparr>"

lemma lma_fsm_known_start:
  assumes "anchor_inv conf s" "env_ok conf en" "pbu_event info" "0 < tv_sec (i_lifetime info)"
    and "lookup s (i_mn_nai info, i_src info) = Some p"
  shows "lma_fsm conf en info s =
    andThen (lma_update_binding_entry conf en (Some p) (Some info) (s\<lparr>held := [EntryLock p, PmipLock]\<rparr>)) (\<lambda>(_, s1).
      Done (rebound conf en info p s1))"
proof -
  note L = anchor_lookup [OF assms(1,5)]
  let ?s = "s\<lparr>held := [EntryLock p, PmipLock]\<rparr>"
  have pe: "i_msg_event info = hasPBU" "i_mn_serv_mag_addr info = i_src info" "i_src info \<noteq> in6addr_any"
      "length (i_mn_nai info) = NAI_SIZE"
    using assms(3) by (simp_all add: pbu_event_def)
  have "andThen (lma_reg_no_new_tunnel conf en (Some p) s1) (\<lambda>(_, s). andThen (Done (Some p, pmipcache_release_entry p s))
          (\<lambda>(b, s). andThen (nonnull b) (\<lambda>bce. andThen (mn_addr_of bce s) (\<lambda>(_, s). Done s)))) =
        Done (rebound conf en info p s1)"
    if u: "lma_update_binding_entry conf en (Some p) (Some info) ?s = Done (r, s1)" for r s1
  proof -
    have "p \<in> alive ?s" using L(2) by simp
    note U = lma_update_step [OF this assms(2) u]
    then have al: "p \<in> alive s1" and h: "held s1 = [EntryLock p, PmipLock]" using L(2) by (simp_all add: entry_step_def)
    have n: "length (e_mn_nai (heap s1 p)) = NAI_SIZE" "e_lifetime (heap s1 p) = TS (tv_sec (i_lifetime info)) 0"
        "e_seqno_in (heap s1 p) = i_seqno info"
      using U pe(4) by (simp_all add: updated_entry_def mn_addr_def)
    show ?thesis
      using al h n by (simp add: lma_reg_no_new_tunnel_eq [OF al env_okD(1) [OF assms(2)] n(1)] release_entry_held nonnull_def
          mn_addr_of_eq rebound_def mn_addr_def)
  qed
  then have tail: "andThen (lma_update_binding_entry conf en (Some p) (Some info) ?s) (\<lambda>(_, s1).
      andThen (lma_reg_no_new_tunnel conf en (Some p) s1) (\<lambda>(_, s). andThen (Done (Some p, pmipcache_release_entry p s))
          (\<lambda>(b, s). andThen (nonnull b) (\<lambda>bce. andThen (mn_addr_of bce s) (\<lambda>(_, s). Done s))))) =
    andThen (lma_update_binding_entry conf en (Some p) (Some info) ?s) (\<lambda>(_, s1). Done (rebound conf en info p s1))"
    by (cases "lma_update_binding_entry conf en (Some p) (Some info) ?s") auto
  show ?thesis
    using L(2,4) pe assms(4) tail
    by (simp add: lma_fsm_def L(6,7) lma_fsm_pmip_def nonnull_def deref_alive andThen_assoc case_prod_unfold)
qed

lemma held_step:
  assumes "entry_step p (s\<lparr>held := l\<rparr>) s'" "held s = l'"
  shows "entry_step p s (s'\<lparr>held := l'\<rparr>)"
  using assms by (simp add: entry_step_def)

lemma rebound_step:
  assumes "entry_step p (s\<lparr>held := l\<rparr>) s1" "held s = []" "env_ok conf en" "0 < tv_sec (i_lifetime info)"
  shows "entry_step p s (rebound conf en info p s1)"
proof -
  have "tsisset (tsadd (now en) (TS (tv_sec (i_lifetime info)) 0))" using assms(4) by (intro env_okD(4) [OF assms(3)]) simp
  then show ?thesis
    using assms(1,2) by (simp add: rebound_def entry_step_def tq.invar_add tq.pend_add add_task_abs_fields)
qed

lemma lma_rebinds:
  assumes "anchor_inv conf s" "env_ok conf en" "pbu_event info" "0 < tv_sec (i_lifetime info)"
    and "lookup s (i_mn_nai info, i_src info) = Some p"
    and u: "lma_update_binding_entry conf en (Some p) (Some info) (s\<lparr>held := [EntryLock p, PmipLock]\<rparr>) = Done (r, s1)"
  obtains s' where "lma_fsm conf en info s = Done s'" "anchor_inv conf s'" "lookup s' = lookup s"
    "heap s' = (heap s)(p := rebound_entry conf en info (heap s p))"
    "pending (tqs s') (TqBce p) = Some (tsadd (now en) (TS (tv_sec (i_lifetime info)) 0))"
    "out s' = out s1 @ [SendMH (pba_packet (OurAddress conf) (TS (tv_sec (i_lifetime info)) 0) (updated_entry conf info (heap s p)\<lparr>e_status := 0\<rparr>))]"
proof -
  note I = anchor_invD [OF assms(1)] and L = anchor_lookup [OF assms(1,5)]
  let ?s = "s\<lparr>held := [EntryLock p, PmipLock]\<rparr>"
  have al: "p \<in> alive ?s" using L(2) by simp
  note U = lma_update_step [OF al assms(2) u]
  let ?t = "rebound conf en info p s1"
  have st: "entry_step p s ?t" by (rule rebound_step [OF conjunct1 [OF U] I(3) assms(2,4)])
  have q1: "tq_inv (tqs s1)" using U I(6) by (simp add: entry_step_def)
  have T: "pending (tqs ?t) (TqBce p) = Some (tsadd (now en) (TS (tv_sec (i_lifetime info)) 0))"
      "task (tqs ?t) (TqBce p) = Some Bce_expired" "croutes ?t = croutes s"
    using U by (simp_all add: rebound_def tq.pend_add [OF q1] add_task_abs_fields)
  have hp: "heap ?t p = rebound_entry conf en info (heap s p)"
    using U by (simp add: rebound_def rebound_entry_def updated_entry_def mn_addr_def)
  have h: "heap ?t = (heap s)(p := rebound_entry conf en info (heap s p))"
    using st hp by (auto simp: entry_step_def)
  have k: "bce_key (heap ?t p) = bce_key (heap s p)" "binding_ok (heap ?t p)"
    unfolding hp using L(3-5) assms(3)
    by (simp_all add: rebound_entry_def updated_entry_def bce_key_def binding_ok_def pbu_event_def)
  note A = anchor_inv_step [OF assms(1) st L(1) k _ T(2,3)]
  show ?thesis
    by (rule that [of ?t]) (use A T h lma_fsm_known_start [OF assms(1-5)] u U in \<open>simp_all add: rebound_def\<close>)
qed

section \<open>The end of a binding\<close>

text \<open>Deleting the binding after the deregistration.\<close>

lemma anchor_inv_delete:
  assumes "anchor_inv conf s" "p \<in> cached s" "entry_step p (s\<lparr>tqs := q, held := l\<rparr>) s1"
    and "tq_inv q" "\<And>x. x \<noteq> p \<Longrightarrow> pending q (TqBce x) = pending (tqs s) (TqBce x)" "\<And>x. x \<noteq> p \<Longrightarrow> task q (TqBce x) = task (tqs s) (TqBce x)"
    and "pending (tqs s1) (TqBce p) = None" "bce_key (heap s1 p) = bce_key (heap s p)" "routes_inv conf (croutes s1)"
    and "routes_of (croutes s1) (e_mn_nai (heap s p)) = remove1 (e_mn_serv_mag_addr (heap s p)) (routes_of (croutes s) (e_mn_nai (heap s p)))"
    and "\<forall>n. n \<noteq> e_mn_nai (heap s p) \<longrightarrow> routes_of (croutes s1) n = routes_of (croutes s) n"
  shows "anchor_inv conf (deleted p (s1\<lparr>held := []\<rparr>))" "lookup (deleted p (s1\<lparr>held := []\<rparr>)) = (lookup s)(bce_key (heap s p) := None)"
proof -
  note I = anchor_invD [OF assms(1)] and S = assms(3) [unfolded entry_step_def]
  let ?t = "s1\<lparr>held := []\<rparr>" and ?n = "e_mn_nai (heap s p)" and ?a = "e_mn_serv_mag_addr (heap s p)"
  have qi: "tq_inv (tqs s1)" "\<And>x. x \<noteq> p \<Longrightarrow> pending (tqs s1) (TqBce x) = pending (tqs s) (TqBce x)"
    using S assms(4,5) by simp_all
  have kx: "bce_key (heap ?t x) = bce_key (heap s x)" for x using S assms(8) by (cases "x = p") simp_all
  have px: "x \<in> alive s" if "pending (tqs ?t) (TqBce x) \<noteq> None" for x
    using that qi(2) assms(7) I(9) [of x] I(10) [of x] by (cases "x = p") simp_all
  have ct: "cache_inv ?t" by (rule cache_inv_frame [OF I(1)]) (use S qi(1) kx px in simp_all)
  have lt: "lookup ?t = lookup s" by (rule lookup_frame [OF I(1)]) (use S kx in simp_all)
  have pc: "p \<in> cached ?t" using S assms(2) by simp
  note D = deleted_inv [OF ct pc]
  have lk: "lookup (deleted p ?t) = (lookup s)((?n, ?a) := None)" using D lt kx by (simp add: bce_key_def)
  have F: "flow_inv (deleted p ?t)" "held (deleted p ?t) = []" "hnp (deleted p ?t) = hnp s" "croutes (deleted p ?t) = croutes s1"
      "\<And>x. x \<noteq> p \<Longrightarrow> heap (deleted p ?t) x = heap s x" "task (tqs (deleted p ?t)) = task (tqs s1)"
    using S I(2) by (simp_all add: deleted_def)
  have B: "binding_ok (heap (deleted p ?t) x) \<and> task (tqs (deleted p ?t)) (TqBce x) = Some Bce_expired" if "x \<in> cached s - {p}" for x
    using that F(5,6) I(7,8) [of x] S assms(6) by simp
  have P: "pending (tqs (deleted p ?t)) (TqBce x) \<noteq> None \<longleftrightarrow> x \<in> cached s - {p}" for x
    using D qi(2) [of x] I(9) [of x] by (cases "x = p") simp_all
  have dr: "distinct (routes_of (croutes s) ?n)" using I(5) by (rule routes_of_distinct)
  have R: "(a \<in> set (routes_of (croutes (deleted p ?t)) n)) = (lookup (deleted p ?t) (n, a) \<noteq> None)" for n a
    using assms(10,11) I(11) [of a n] dr unfolding lk F(4) by (cases "n = ?n") auto
  have cd: "cached (deleted p ?t) = cached s - {p}" using D S by simp
  show "anchor_inv conf (deleted p ?t)"
    unfolding anchor_inv_def cd using D F(1,2,3,4) assms(9) I(4) B P R by auto
  show "lookup (deleted p ?t) = (lookup s)(bce_key (heap s p) := None)" using lk by (simp add: bce_key_def)
qed

lemma dereg_answer_silent:
  "p \<in> alive s \<Longrightarrow> dereg_answer conf en p info False s =
     Done (0, s\<lparr>heap := (heap s)(p := (heap s p)\<lparr>e_type := BCE_NO_ENTRY\<rparr>)\<rparr>)"
  by (simp add: dereg_answer_def modify_alive)

lemma dereg_answer_sent:
  "p \<in> alive s \<Longrightarrow> memok en \<Longrightarrow> length (e_mn_nai (heap s p)) = NAI_SIZE \<Longrightarrow>
   dereg_answer conf en p (Some info) True s = Done (0, s\<lparr>
     out := out s @ [SendMH (pba_packet (LmaAddress conf) tszero ((heap s p)\<lparr>e_seqno_in := i_seqno info\<rparr>))],
     heap := (heap s)(p := (heap s p)\<lparr>e_seqno_in := i_seqno info, e_seqno_out := i_seqno info, e_type := BCE_NO_ENTRY\<rparr>)\<rparr>)"
  by (simp add: dereg_answer_def cache_simps emit_def)

text \<open>The state in which an entry is released, for an entry of the cache.\<close>

lemma anchor_dereg:
  assumes "anchor_inv conf s" "env_ok conf en" "p \<in> cached s" "tunnel_known conf (e_tunnel (heap s p)) s"
    and "s0 = s\<lparr>tqs := q, held := l, heap := (heap s)(p := (heap s p)\<lparr>e_mh_vec := v\<rparr>)\<rparr>" "tq_inv q"
  obtains s3 where "\<And>info propagate. lma_dereg conf en (Some p) info propagate s0 = dereg_answer conf en p info propagate s3"
    "entry_step p (s\<lparr>tqs := q, held := l\<rparr>) s3" "heap s3 p = (heap s p)\<lparr>e_mh_vec := v, e_mn_addr := mn_addr (heap s p)\<rparr>"
    "routes_inv conf (croutes s3)"
    "routes_of (croutes s3) (e_mn_nai (heap s p)) = remove1 (e_mn_serv_mag_addr (heap s p)) (routes_of (croutes s) (e_mn_nai (heap s p)))"
    "\<forall>n. n \<noteq> e_mn_nai (heap s p) \<longrightarrow> routes_of (croutes s3) n = routes_of (croutes s) n"
    "pending (tqs s3) (TqBce p) = None" "p \<in> alive s3"
    "\<exists>es. out s3 = out s @ route_effect conf (mn_route_del (e_tunnel (heap s p)) (heap s p)) @ es"
proof -
  note I = anchor_invD [OF assms(1)]
  let ?n = "e_mn_nai (heap s p)" and ?a = "e_mn_serv_mag_addr (heap s p)"
  have al: "p \<in> alive s0" and e0: "heap s0 p = (heap s p)\<lparr>e_mh_vec := v\<rparr>" and q0: "tq_inv (tqs s0)"
      "flow_inv s0" "routes_inv conf (croutes s0)"
    using assms(5,6) I(2,5) I(10) [OF assms(3)] by simp_all
  have "?a \<in> set (routes_of (croutes s) ?n)"
    using I(11) [of ?a ?n] lookup_cached [OF I(1) assms(3)] by (simp add: bce_key_def)
  then have ro: "e_mn_serv_mag_addr (heap s0 p) \<in> set (routes_of (croutes s0) (e_mn_nai (heap s0 p)))"
    using e0 assms(5) by simp
  have "tunnel_known conf (e_tunnel (heap s0 p)) (unrouted conf p s0)"
    using assms(4,5) by (simp add: tunnel_known_def)
  then obtain r s1 where d: "pmip_tunnel_del conf en (e_tunnel (heap s0 p)) (unrouted conf p s0) = Done (r, s1)"
    using pmip_tunnel_del_Done by blast
  have mn: "mn_addr ((heap s p)\<lparr>e_mh_vec := v\<rparr>) = mn_addr (heap s p)"
      "mn_route_del t ((heap s p)\<lparr>e_mh_vec := v\<rparr>) = mn_route_del t (heap s p)" for t
    by (simp_all add: mn_addr_def mn_route_del_def)
  have st: "entry_step p (s\<lparr>tqs := q, held := l\<rparr>) s0" unfolding assms(5) using entry_step_heap [of p "s\<lparr>tqs := q, held := l\<rparr>"] by simp
  show ?thesis
  proof (rule lma_dereg_released [OF al assms(2) q0(2,3) ro d])
    fix s3
    assume a: "\<And>info propagate. lma_dereg conf en (Some p) info propagate s0 = dereg_answer conf en p info propagate s3"
      "entry_step p s0 s3" "heap s3 p = (heap s0 p)\<lparr>e_mn_addr := mn_addr (heap s0 p)\<rparr>" "routes_inv conf (croutes s3)"
      "routes_of (croutes s3) (e_mn_nai (heap s0 p)) = remove1 (e_mn_serv_mag_addr (heap s0 p)) (routes_of (croutes s0) (e_mn_nai (heap s0 p)))"
      "\<forall>n. n \<noteq> e_mn_nai (heap s0 p) \<longrightarrow> routes_of (croutes s3) n = routes_of (croutes s0) n"
      "tq_inv (tqs s0) \<Longrightarrow> pending (tqs s3) (TqBce p) = None"
      "\<exists>es. out s3 = out s0 @ route_effect conf (mn_route_del (e_tunnel (heap s0 p)) (heap s0 p)) @ es"
    have "p \<in> alive s3" using a(2) al by (simp add: entry_step_def)
    with a show ?thesis
      using e0 q0(1) mn assms(5) by (intro that [OF a(1) entry_step_trans [OF st a(2)]]) simp_all
  qed
qed

end
