(* ===== verification/Pmip_Init.thy ===== *)
theory Pmip_Init
  imports Pmip_Handler
begin

text \<open>
  \<open>src/src/pmip/pmip_init.c\<close>: start-up of the gateway and of the anchor, and the clean-up at the end.  The
  sockets, the capture threads and the registration of the handlers are input and output; whether
  the probe for the local address, the default rule and the packet queue succeed are arguments.
\<close>

section \<open>The state at program start\<close>

text \<open>Static storage is zero.\<close>

definition sys_boot :: sys where
  "sys_boot = \<lparr>tctl = tunnelctl_init, g_tunnel_timer_table = replicate PMIP_MAX_MAGS tunnel_timer_zero, tqs = tq_init,
     out = [], heap = (\<lambda>_. pmip_entry_zero), alive = {}, brk = 0, g_pmip_hash = \<lparr>buckets = 0, hash_buckets = []\<rparr>,
     g_pmip_cache_count = 0, last_BID = 0, hnp = hnp_cache_boot, seq = 0, held = [], router_ad_iface = ra_iface_zero,
     croutes = client_route_init, fl_heap = (\<lambda>_. flow_entry_zero), fl_alive = {}, fl_brk = 0,
     flowmob_hash = \<lparr>buckets = 0, hash_buckets = []\<rparr>, flowmob_cache_count = 0, draws = 0\<rparr>"

section \<open>Model\<close>

abbreviation (input) IP6_RULE_PRIO_MIP6_FWD :: nat where "IP6_RULE_PRIO_MIP6_FWD \<equiv> 1005"

definition pmip_cache_delete_each ::
  "config \<Rightarrow> env \<Rightarrow> nat \<Rightarrow> unit \<times> sys \<Rightarrow> (int \<times> unit \<times> sys) outcome" where
  "pmip_cache_delete_each conf en bce x = (case x of (u, s) \<Rightarrow>
     andThen (deref bce s) (\<lambda>e.
     andThen (if is_mag conf then
                let s = mag_remove_route conf (e_mn_addr e) (e_link e) s;
                    s = (if tunnel_getusers (e_tunnel e) (tctl s) = 1 then emit (uplink_route_del (e_tunnel e)) s else s)
                in andThen (pmip_tunnel_del conf en (e_tunnel e) s) (\<lambda>(_, s). Done s)
              else Done s) (\<lambda>s.
     andThen (if is_ha conf then
                andThen (pmip_tunnel_del conf en (e_tunnel e) (lma_remove_route conf (e_mn_addr e) (e_tunnel e) s)) (\<lambda>(_, s). Done s)
              else Done s) (\<lambda>s.
     andThen (modify bce (\<lambda>e. e\<lparr>e_mh_vec := []\<rparr>) s) (\<lambda>s.
     andThen (pmip_bce_delete bce s) (\<lambda>s. Done (0, u, s)))))))"

definition pmip_cleanup :: "config \<Rightarrow> env \<Rightarrow> sys \<Rightarrow> sys outcome" where
  "pmip_cleanup conf en s =
     andThen (pmip_cache_iterate (pmip_cache_delete_each conf en) ()
       (emit (RuleDel RT6_TABLE_MIP6 IP6_RULE_PRIO_MIP6_FWD (in6addr_any, 0) (in6addr_any, 0)) s)) (\<lambda>(_, _, s). Done s)"

definition pmip_common_init :: "env \<Rightarrow> bool \<Rightarrow> sys \<Rightarrow> (int \<times> sys) outcome" where
  "pmip_common_init en probe s =
     (if \<not> probe then Done (-1, s)
      else andThen (pmip_cache_init en s) (\<lambda>(ret, s). Done (if ret < 0 then -1 else 0, s)))"

text \<open>\<open>pmip_tunnels_init\<close> always returns 0.  \<open>ingress\<close> is the index of the interface towards the mobile nodes
  and \<open>file\<close> the contents of the mapping file; the result \<open>None\<close> means that the process exits.\<close>

definition pmip_mag_init ::
  "config \<Rightarrow> env \<Rightarrow> bool \<Rightarrow> bool \<Rightarrow> int \<Rightarrow> string list option \<Rightarrow> load_state \<Rightarrow> sys \<Rightarrow> (int \<times> config \<times> sys) option outcome" where
  "pmip_mag_init conf en probe rule ingress file ld s =
     andThen (pmip_common_init en probe s) (\<lambda>(_, s).
     let s = emit (RuleAdd RT6_TABLE_MIP6 IP6_RULE_PRIO_MIP6_FWD (in6addr_any, 0) (in6addr_any, 0)) s in
     if \<not> rule then Done (Some (-1, conf, s))
     else andThen (pmip_tunnels_init conf en s) (\<lambda>s.
       let conf = conf\<lparr>g_ingress_iif := ingress, OurAddress := MagAddressEgress conf 0\<rparr>;
           s = init_iface_ra (s\<lparr>seq := init_pbu_sequence_number (seq s)\<rparr>)
       in andThen (pmip_mn_to_hnp_cache_init file (ld\<lparr>ld_cache := hnp s\<rparr>)) (\<lambda>c.
         case c of None \<Rightarrow> Done None | Some c \<Rightarrow> Done (Some (0, conf, s\<lparr>hnp := c\<rparr>)))))"

definition pmip_lma_init :: "config \<Rightarrow> env \<Rightarrow> bool \<Rightarrow> bool \<Rightarrow> sys \<Rightarrow> (int \<times> config \<times> sys) outcome" where
  "pmip_lma_init conf en probe queue s =
     andThen (pmip_common_init en probe (s\<lparr>croutes := client_route_init\<rparr>)) (\<lambda>(ret, s).
     if ret < 0 then Done (-1, conf, s)
     else andThen (pmip_tunnels_init conf en s) (\<lambda>s.
       let s = s\<lparr>hnp := pmip_lma_mn_to_hnp_cache_init (hnp s)\<rparr>; conf = conf\<lparr>OurAddress := LmaAddress conf\<rparr>
       in andThen (flowmob_cache_init en s) (\<lambda>(ret, s).
         if ret \<noteq> 0 \<or> \<not> queue then Done (-1, conf, s) else Done (0, conf, s))))"

end
