(* ===== verification/Lma_Steps.thy ===== *)
theory Lma_Steps
  imports Lma_Binding Pmip_Init
begin

text \<open>
  The anchor as a state machine: the expiry and the deregistration of bindings, the activations of the
  daemon as steps, the states reached by them, and the properties of the anchor.
\<close>

section \<open>Expiry\<close>

lemma bce_expired_start:
  assumes "is_ha conf" "\<not> is_mag conf" "p \<in> alive s" "held s = []" "curr (tqs s) \<noteq> None"
  obtains v where "pmip_timer_bce_expired_handler conf en p s =
    andThen (lma_dereg conf en (Some p) None False
       (s\<lparr>held := [EntryLock p, PmipLock], heap := (heap s)(p := (heap s p)\<lparr>e_mh_vec := v\<rparr>)\<rparr>))
      (\<lambda>(_, s). pmip_bce_delete p (pmipcache_release_entry p s))"
proof -
  let ?s = "s\<lparr>held := [EntryLock p, PmipLock]\<rparr>"
  have id: "?s = s\<lparr>held := [EntryLock p, PmipLock], heap := (heap s)(p := (heap s p)\<lparr>e_mh_vec := e_mh_vec (heap s p)\<rparr>)\<rparr>"
    by simp
  show ?thesis
  proof (cases "e_n_rets_counter (heap s p) = 0")
    case True
    then show ?thesis
      using assms by (intro that [of "[]"])
        (auto simp: pmip_timer_bce_expired_handler_def cache_simps task_interrupted_def Let_def)
  next
    case False
    then show ?thesis
      using assms id by (intro that [of "e_mh_vec (heap s p)"])
        (auto simp: pmip_timer_bce_expired_handler_def cache_simps task_interrupted_def Let_def)
  qed
qed

lemma curr_only:
  "tq_inv (q\<lparr>curr := c\<rparr>) = tq_inv q" "pending (q\<lparr>curr := c\<rparr>) = pending q"
  by (simp_all add: tq_inv_def pending_def fun_eq_iff)

lemma cache_inv_curr: "cache_inv (s\<lparr>tqs := (tqs s)\<lparr>curr := c\<rparr>\<rparr>) = cache_inv s"
  "lookup (s\<lparr>tqs := (tqs s)\<lparr>curr := c\<rparr>\<rparr>) = lookup s"
  by (simp_all add: cache_inv_def bce_rd_def [abs_def] curr_only lookup_def [abs_def])

lemma anchor_inv_curr [simp]: "anchor_inv conf (s\<lparr>tqs := (tqs s)\<lparr>curr := c\<rparr>\<rparr>) = anchor_inv conf s"
  by (simp add: anchor_inv_def cache_inv_curr curr_only)

lemma binding_expires:
  assumes "anchor_inv conf s" "env_ok conf en" "is_ha conf" "\<not> is_mag conf" "p \<in> cached s"
    and "tunnel_known conf (e_tunnel (heap s p)) s" "tq_inv q" "curr q \<noteq> None" "task q = task (tqs s)"
    and "pending q = (pending (tqs s))(TqBce p := None)"
  obtains s' where "pmip_timer_bce_expired_handler conf en p (s\<lparr>tqs := q\<rparr>) = Done s'" "anchor_inv conf s'"
    "lookup s' = (lookup s)(bce_key (heap s p) := None)" "alive s' = alive s - {p}"
    "\<forall>x. x \<noteq> p \<longrightarrow> heap s' x = heap s x"
    "\<exists>es. out s' = out s @ route_effect conf (mn_route_del (e_tunnel (heap s p)) (heap s p)) @ es"
proof -
  note I = anchor_invD [OF assms(1)]
  have al: "p \<in> alive (s\<lparr>tqs := q\<rparr>)" "held (s\<lparr>tqs := q\<rparr>) = []" "curr (tqs (s\<lparr>tqs := q\<rparr>)) \<noteq> None"
    using I(3) I(10) [OF assms(5)] assms(8) by simp_all
  let ?L = "[EntryLock p, PmipLock]"
  obtain v where st: "pmip_timer_bce_expired_handler conf en p (s\<lparr>tqs := q\<rparr>) =
    andThen (lma_dereg conf en (Some p) None False (s\<lparr>tqs := q, held := ?L, heap := (heap s)(p := (heap s p)\<lparr>e_mh_vec := v\<rparr>)\<rparr>))
      (\<lambda>(_, s). pmip_bce_delete p (pmipcache_release_entry p s))"
    by (rule bce_expired_start [OF assms(3,4) al, of en]) simp
  obtain s3 where s3: "\<And>info propagate. lma_dereg conf en (Some p) info propagate
         (s\<lparr>tqs := q, held := ?L, heap := (heap s)(p := (heap s p)\<lparr>e_mh_vec := v\<rparr>)\<rparr>) = dereg_answer conf en p info propagate s3"
      "entry_step p (s\<lparr>tqs := q, held := ?L\<rparr>) s3" "heap s3 p = (heap s p)\<lparr>e_mh_vec := v, e_mn_addr := mn_addr (heap s p)\<rparr>"
      "routes_inv conf (croutes s3)"
      "routes_of (croutes s3) (e_mn_nai (heap s p)) = remove1 (e_mn_serv_mag_addr (heap s p)) (routes_of (croutes s) (e_mn_nai (heap s p)))"
      "\<forall>n. n \<noteq> e_mn_nai (heap s p) \<longrightarrow> routes_of (croutes s3) n = routes_of (croutes s) n"
      "pending (tqs s3) (TqBce p) = None" "p \<in> alive s3"
      "\<exists>es. out s3 = out s @ route_effect conf (mn_route_del (e_tunnel (heap s p)) (heap s p)) @ es"
    by (rule anchor_dereg [OF assms(1,2,5,6) refl assms(7), of v ?L]) (rule that)
  let ?s4 = "s3\<lparr>heap := (heap s3)(p := (heap s3 p)\<lparr>e_type := BCE_NO_ENTRY\<rparr>)\<rparr>"
  have e4: "entry_step p (s\<lparr>tqs := q, held := ?L\<rparr>) ?s4" by (rule entry_step_trans [OF s3(2) entry_step_heap])
  have k4: "bce_key (heap ?s4 p) = bce_key (heap s p)" by (simp add: s3(3) bce_key_def)
  have h: "held ?s4 = ?L" "p \<in> alive ?s4" using e4 I(10) [OF assms(5)] by (simp_all add: entry_step_def)
  have rel: "pmipcache_release_entry p ?s4 = ?s4\<lparr>held := []\<rparr>" by (rule release_entry_held [OF h(1)])
  have q: "x \<noteq> p \<Longrightarrow> pending q (TqBce x) = pending (tqs s) (TqBce x)" "x \<noteq> p \<Longrightarrow> task q (TqBce x) = task (tqs s) (TqBce x)" for x
    using assms(9,10) by simp_all
  have d: "pmip_bce_delete p (?s4\<lparr>held := []\<rparr>) = Done (deleted p (?s4\<lparr>held := []\<rparr>))"
    by (rule pmip_bce_delete_deleted) (use h in simp_all)
  note D = anchor_inv_delete [OF assms(1,5) e4 assms(7) q _ k4]
  show ?thesis
  proof (rule that)
    show "pmip_timer_bce_expired_handler conf en p (s\<lparr>tqs := q\<rparr>) = Done (deleted p (?s4\<lparr>held := []\<rparr>))"
      using rel d by (simp add: st s3(1) dereg_answer_silent [OF s3(8)])
    show "\<exists>es. out (deleted p (?s4\<lparr>held := []\<rparr>)) = out s @ route_effect conf (mn_route_del (e_tunnel (heap s p)) (heap s p)) @ es"
      using s3(9) by (simp add: deleted_def)
  qed (use D s3(4-7) e4 in \<open>simp_all add: deleted_def entry_step_def\<close>)
qed

section \<open>Deregistration\<close>

text \<open>The whole deregistration is carried out, and then the address of the deleted entry is computed.\<close>

lemma deregistration_faults:
  assumes "anchor_inv conf s" "env_ok conf en" "pbu_event info" "tv_sec (i_lifetime info) = 0"
    and "lookup s (i_mn_nai info, i_src info) = Some p" "tunnel_known conf (e_tunnel (heap s p)) s"
  shows "lma_fsm conf en info s = Fault UseAfterFree"
proof -
  note I = anchor_invD [OF assms(1)] and L = anchor_lookup [OF assms(1,5)]
  let ?L = "[EntryLock p, PmipLock]"
  obtain s3 where s3: "\<And>info propagate. lma_dereg conf en (Some p) info propagate
         (s\<lparr>tqs := tqs s, held := ?L, heap := (heap s)(p := (heap s p)\<lparr>e_mh_vec := e_mh_vec (heap s p)\<rparr>)\<rparr>)
         = dereg_answer conf en p info propagate s3"
      "entry_step p (s\<lparr>tqs := tqs s, held := ?L\<rparr>) s3" "heap s3 p = (heap s p)\<lparr>e_mh_vec := e_mh_vec (heap s p), e_mn_addr := mn_addr (heap s p)\<rparr>"
      "p \<in> alive s3"
    by (rule anchor_dereg [OF assms(1,2) L(1) assms(6) refl I(6), of "e_mh_vec (heap s p)" ?L]) (rule that)
  have dg: "lma_dereg conf en (Some p) (Some info) True (s\<lparr>held := ?L\<rparr>) = dereg_answer conf en p (Some info) True s3"
    using s3(1) by simp
  have n: "length (e_mn_nai (heap s3 p)) = NAI_SIZE" using I(7) [OF L(1)] by (simp add: s3(3) binding_ok_def)
  let ?s4 = "s3\<lparr>out := out s3 @ [SendMH (pba_packet (LmaAddress conf) tszero ((heap s3 p)\<lparr>e_seqno_in := i_seqno info\<rparr>))],
     heap := (heap s3)(p := (heap s3 p)\<lparr>e_seqno_in := i_seqno info, e_seqno_out := i_seqno info, e_type := BCE_NO_ENTRY\<rparr>)\<rparr>"
  have h: "held ?s4 = ?L" using s3(2) by (simp add: entry_step_def)
  have rel: "pmipcache_release_entry p ?s4 = ?s4\<lparr>held := []\<rparr>" by (rule release_entry_held [OF h])
  have d: "pmip_bce_delete p (?s4\<lparr>held := []\<rparr>) = Done (deleted p (?s4\<lparr>held := []\<rparr>))"
    by (rule pmip_bce_delete_deleted) (use s3(4) in simp_all)
  have "mn_addr_of p (deleted p (?s4\<lparr>held := []\<rparr>)) = Fault UseAfterFree"
    by (simp add: mn_addr_of_def deref_def deleted_def)
  then show ?thesis
    using assms(3,4) L(2,4) rel d
    by (simp add: lma_fsm_def lma_fsm_pmip_def pbu_event_def L(6,7) nonnull_def deref_alive dg
        dereg_answer_sent [OF s3(4) env_okD(1) [OF assms(2)] n])
qed

section \<open>What the sub-procedures need when they return\<close>

lemma lma_reg_slot:
  assumes "lma_reg conf en (Some p) s = Done x" "p \<in> alive s"
  shows "slot_ok conf (e_mn_serv_mag_addr (heap s p)) s"
proof -
  obtain y where "pmip_tunnel_add conf en (OurAddress conf) (e_mn_serv_mag_addr (heap s p)) (e_link (heap s p)) s = Done y"
    using assms by (auto simp: lma_reg_def deref_alive andThen_Done_iff)
  then show ?thesis using pmip_tunnel_add_Done_iff by (metis prod.exhaust)
qed

lemma lma_dereg_known:
  assumes "lma_dereg conf en (Some p) info propagate s = Done x" "p \<in> alive s"
  shows "tunnel_known conf (e_tunnel (heap s p)) s"
proof -
  obtain y where "pmip_tunnel_del conf en (e_tunnel (heap s p)) (unrouted conf p s) = Done y"
    using assms by (auto simp: lma_dereg_start andThen_Done_iff)
  then have "tunnel_known conf (e_tunnel (heap s p)) (unrouted conf p s)"
    using pmip_tunnel_del_Done_iff by (metis prod.exhaust)
  then show ?thesis by (simp add: tunnel_known_def)
qed

section \<open>The activations of the anchor\<close>

text \<open>A message of any kind: what the parser makes of it.\<close>

lemma option_stage:
  assumes "(case o1 of None \<Rightarrow> Done i | Some p \<Rightarrow> andThen (read_bytes m (p + k) n) (\<lambda>b. Done (f b))) = Done i'"
    and "P i" "\<And>b. length b = n \<Longrightarrow> P (f b)"
  shows "P i'"
  using assms by (auto simp: andThen_Done_iff read_bytes_def split: option.splits if_splits)

definition keeps_sender :: "msg_info \<Rightarrow> msg_info \<Rightarrow> bool" where
  "keeps_sender info info' \<longleftrightarrow> length (i_mn_nai info') = NAI_SIZE \<and> i_src info' = i_src info
     \<and> i_mn_serv_mag_addr info' = i_mn_serv_mag_addr info \<and> i_lifetime info' = i_lifetime info"

lemma parse_common_sender:
  assumes "parse_common msg mo info = Done info'" "length (i_mn_nai info) = NAI_SIZE"
  shows "keeps_sender info info'"
proof -
  obtain i1 i2 i3 where
    s1: "(case mh_opt mo IP6_MHOPT_MOBILE_NODE_IDENTIFIER of None \<Rightarrow> Done info
       | Some p \<Rightarrow> andThen (read_bytes msg (p + 3) NAI_SIZE) (\<lambda>nai. Done (info\<lparr>i_mn_nai := nai\<rparr>))) = Done i1"
    and s2: "(case mh_opt mo IP6_MHOPT_HOME_NETWORK_PREFIX of None \<Rightarrow> Done i1
       | Some p \<Rightarrow> andThen (read_bytes msg (p + 4) 16) (\<lambda>b. Done (i1\<lparr>i_mn_prefix := in6_of b\<rparr>))) = Done i2"
    and s3: "(case mh_opt mo IP6_MHOPT_MOBILE_NODE_LINK_LAYER_IDENTIFIER of None \<Rightarrow> Done i2
       | Some p \<Rightarrow> andThen (read_bytes msg (p + 4) 8) (\<lambda>b. Done (i2\<lparr>i_mn_iid := in6_of (replicate 8 0 @ b)\<rparr>))) = Done i3"
    and s4: "(case mh_opt mo IP6_MHOPT_TIME_STAMP of None \<Rightarrow> Done i3
       | Some p \<Rightarrow> andThen (read_bytes msg (p + 2) 8) (\<lambda>b. Done (i3\<lparr>i_timestamp :=
           \<lparr>ts_first = le32 (b ! 0) (b ! 1) (b ! 2) (b ! 3), ts_second = le32 (b ! 4) (b ! 5) (b ! 6) (b ! 7)\<rparr>\<rparr>))) = Done info'"
    using assms(1) unfolding parse_common_def andThen_Done_iff by blast
  have "keeps_sender info i1" by (rule option_stage [OF s1]) (use assms(2) in \<open>simp_all add: keeps_sender_def\<close>)
  then have "keeps_sender info i2" by (rule option_stage [OF s2]) (use \<open>keeps_sender info i1\<close> in \<open>simp add: keeps_sender_def\<close>)
  then have "keeps_sender info i3" by (rule option_stage [OF s3]) (use \<open>keeps_sender info i2\<close> in \<open>simp add: keeps_sender_def\<close>)
  then show ?thesis by (rule option_stage [OF s4]) (use \<open>keeps_sender info i3\<close> in \<open>simp add: keeps_sender_def\<close>)
qed

lemma pbu_parsed:
  assumes "mh_pbu_parse conf msg_info_zero mh len src dst iif = Done info" "src \<noteq> in6addr_any"
  shows "pbu_event info \<or> i_msg_event info \<noteq> hasPBU" "i_src info = src" "i_mn_serv_mag_addr info = src"
proof -
  have z: "length (i_mn_nai msg_info_zero) = NAI_SIZE" "i_msg_event msg_info_zero \<noteq> hasPBU" "tv_nsec (i_lifetime msg_info_zero) = 0"
    by (simp_all add: msg_info_zero_def nai_zero_def tszero_def)
  let ?i = "msg_info_zero\<lparr>i_src := src, i_dst := dst, i_iif := iif, i_mn_serv_mag_addr := src\<rparr>"
  consider "info = ?i" | mo f l n i2 where "parse_common mh mo (?i\<lparr>i_PBU_flags := f,
        i_lifetime := TS (int (unat (l :: u16)) * 4) (tv_nsec (i_lifetime ?i)), i_seqno := n\<rparr>) = Done i2"
      "info = i2\<lparr>i_msg_event := hasPBU\<rparr>"
    using assms(1) by (auto simp: mh_pbu_parse_def Let_def andThen_Done_iff simp del: msg_info.update_convs split: if_splits)
  then have "(pbu_event info \<or> i_msg_event info \<noteq> hasPBU) \<and> i_src info = src \<and> i_mn_serv_mag_addr info = src"
  proof cases
    case 2
    have "keeps_sender (?i\<lparr>i_PBU_flags := f, i_lifetime := TS (int (unat l) * 4) (tv_nsec (i_lifetime ?i)), i_seqno := n\<rparr>) i2"
      by (rule parse_common_sender [OF 2(1)]) (simp add: z)
    then show ?thesis using 2(2) z assms(2) by (simp add: pbu_event_def keeps_sender_def)
  qed (use z in simp)
  then show "pbu_event info \<or> i_msg_event info \<noteq> hasPBU" "i_src info = src" "i_mn_serv_mag_addr info = src" by blast+
qed

text \<open>A binding update that is carried out keeps the invariant.\<close>

lemma lma_fsm_inv:
  assumes "anchor_inv conf s" "env_ok conf en" "pbu_event info" "lma_fsm conf en info s = Done s'"
  shows "anchor_inv conf s'"
proof (cases "lookup s (i_mn_nai info, i_src info)")
  case None
  note I = anchor_invD [OF assms(1)]
  have ex: "pmip_cache_exists (i_mn_nai info) (i_src info) s = Done (-1, s)"
    using pmip_cache_exists_eq [of s "i_mn_nai info" "i_src info"] None I(3) by simp
  show ?thesis
  proof (cases "0 < tv_sec (i_lifetime info)")
    case True
    note A = admitted_props [OF assms(1,2) None]
    obtain x where r: "lma_reg conf en (Some (brk s)) (admitted conf en info s) = Done x"
      using assms(4) lma_fsm_new_start [OF assms(1-3) True None] by (auto simp: andThen_Done_iff)
    then have "slot_ok conf (i_src info) (admitted conf en info s)" using lma_reg_slot [OF r] A(3,9) by simp
    then have "slot_ok conf (i_src info) s" using slot_ok_cong [OF A(14)] by simp
    then show ?thesis using lma_registers_new [OF assms(1-3) True None] assms(4) by (metis outcome.inject(2))
  next
    case False
    then show ?thesis using assms(1,3,4) ex by (simp add: lma_fsm_def lma_fsm_no_entry_def pbu_event_def)
  qed
next
  case (Some p)
  note L = anchor_lookup [OF assms(1) Some]
  show ?thesis
  proof (cases "0 < tv_sec (i_lifetime info)")
    case True
    obtain r s1 where "lma_update_binding_entry conf en (Some p) (Some info) (s\<lparr>held := [EntryLock p, PmipLock]\<rparr>) = Done (r, s1)"
      using assms(4) lma_fsm_known_start [OF assms(1-3) True Some] by (auto simp: andThen_Done_iff)
    then show ?thesis using lma_rebinds [OF assms(1-3) True Some] assms(4) by (metis outcome.inject(2))
  next
    case False
    then have l0: "tv_sec (i_lifetime info) = 0" using assms(3) by (simp add: pbu_event_def)
    have "\<exists>x. lma_dereg conf en (Some p) (Some info) True (s\<lparr>held := [EntryLock p, PmipLock]\<rparr>) = Done x"
      using assms(3,4) l0 L
      by (auto simp: lma_fsm_def lma_fsm_pmip_def pbu_event_def nonnull_def deref_alive andThen_Done_iff)
    then have "tunnel_known conf (e_tunnel (heap s p)) (s\<lparr>held := [EntryLock p, PmipLock]\<rparr>)"
      using lma_dereg_known L(2) by fastforce
    then have "tunnel_known conf (e_tunnel (heap s p)) s" by (simp add: tunnel_known_def)
    then show ?thesis using deregistration_faults [OF assms(1-3) l0 Some] assms(4) by simp
  qed
qed

text \<open>New flows.\<close>

lemma iterate_find_NAI_state:
  assumes "cache_inv s" "PmipLock \<notin> set (held s)"
  shows "\<exists>r a'. pmip_cache_iterate find_NAI a s = Done (r, a', s)"
proof -
  have "cached s \<subseteq> alive s" using assms(1) by (simp add: cache_inv_def)
  then show ?thesis
    using assms(2) find_NAI_iterate [of "table_elems (g_pmip_hash s)" "s\<lparr>held := PmipLock # held s\<rparr>" a]
    by (simp add: pmip_cache_iterate_def acquire_free pmip_hash_iterate_def table_iterate_elems release_def split: option.splits)
qed

definition flow_only :: "sys \<Rightarrow> sys \<Rightarrow> bool" where
  "flow_only s s' \<longleftrightarrow> (\<exists>h a b H c d. s' = s\<lparr>fl_heap := h, fl_alive := a, fl_brk := b, flowmob_hash := H,
     flowmob_cache_count := c, draws := d\<rparr>)"

lemma flow_onlyI:
  "s' = s\<lparr>fl_heap := fl_heap s', fl_alive := fl_alive s', fl_brk := fl_brk s', flowmob_hash := flowmob_hash s',
     flowmob_cache_count := flowmob_cache_count s', draws := draws s'\<rparr> \<Longrightarrow> flow_only s s'"
  unfolding flow_only_def by blast

lemma anchor_inv_flow: "anchor_inv conf s \<Longrightarrow> flow_only s s' \<Longrightarrow> flow_inv s' \<Longrightarrow> anchor_inv conf s'"
  by (auto simp: flow_only_def anchor_inv_def cache_inv_def bce_rd_def [abs_def] lookup_def)

lemma schedule_flow_inv:
  assumes "cache_inv s" "flow_inv s" "PmipLock \<notin> set (held s)" "memok en"
  shows "\<exists>m s'. flowScheduler_schedule_flow en k s = Done (m, s') \<and> flow_only s s' \<and> flow_inv s'"
proof -
  obtain r a where it: "pmip_cache_iterate find_NAI \<lparr>as_ip6 = ip6_dest k, as_client_nai = nai_zero, as_BID = 0\<rparr> s = Done (r, a, s)"
    using iterate_find_NAI_state [OF assms(1,3)] by blast
  obtain m where m: "get_flow_fwmark en (as_client_nai a) s = (m, s\<lparr>draws := draws s + 1\<rparr>)"
    using get_flow_fwmark_state by (metis prod.exhaust)
  let ?s = "s\<lparr>draws := draws s + 1\<rparr>" and ?p = "fl_brk s"
  let ?f = "\<lparr>fc_key = k, fc_BID = as_BID a, fc_client_nai = as_client_nai a, fc_mark = m\<rparr>"
  let ?s1 = "?s\<lparr>fl_brk := ?p + 1, fl_alive := insert ?p (fl_alive s), fl_heap := (fl_heap s)(?p := ?f)\<rparr>"
  have fi: "flow_inv ?s" by (rule flow_inv_frame [OF assms(2)]) simp_all
  have fo: "flow_only s s" "flow_only s ?s" by (rule flow_onlyI, simp)+
  consider p where "flowmob_cache_get k s = Some p" | "flowmob_cache_get k s = None" "m = 0" | "flowmob_cache_get k s = None" "m > 0"
    by (cases "flowmob_cache_get k s"; cases "m = 0") (auto simp: word_gt_0)
  then show ?thesis
  proof cases
    case 3
    have g: "flowmob_cache_get k ?s = None" using 3(1) by (simp add: flowmob_cache_get_def fl_rd_def [abs_def])
    obtain s' h c where s': "flowmob_cache_add en ?p ?s1 = (Some ?p, s')" "flow_inv s'"
        "s' = ?s1\<lparr>flowmob_hash := h, flowmob_cache_count := c\<rparr>"
      using flow_add [OF fi, of ?f ?p ?s1 en] g assms(4) by auto
    have "flow_only s s'" by (rule flow_onlyI) (simp add: s'(3))
    then show ?thesis
      using it m 3 assms(4) s'(1,2) by (simp add: flowScheduler_schedule_flow_def flowmob_cache_alloc_def fl_modify_def)
  qed (use it m fo fi assms(2) in \<open>auto simp: flowScheduler_schedule_flow_def\<close>)
qed

text \<open>Timers of tunnels.\<close>

lemma anchor_inv_tunnels:
  assumes "anchor_inv conf s" "s' = s\<lparr>tctl := c, g_tunnel_timer_table := g, tqs := q\<rparr>" "tq_inv q"
    and "\<And>p. pending q (TqBce p) = pending (tqs s) (TqBce p)" "\<And>p. task q (TqBce p) = task (tqs s) (TqBce p)"
  shows "anchor_inv conf s'"
proof -
  have "tun_frame s s'" unfolding assms(2) by (rule tun_frameI) (use assms(3-5) in simp_all)
  note C = cache_inv_tun [OF anchor_invD(1) [OF assms(1)] this]
  show ?thesis using assms(1) C assms(2-5) unfolding anchor_inv_def by simp
qed

text \<open>One activation: a message from a gateway, the packet of a flow, or the runner of the timer queue.  The
  runner takes the first due timer and clears \<open>curr\<close> when its task returns.\<close>

definition run_timer :: "config \<Rightarrow> env \<Rightarrow> timer_id \<Rightarrow> sys \<Rightarrow> sys outcome" where
  "run_timer conf en i s = (case i of
     TqTunnel k \<Rightarrow> pmip_timer_tunnel_expired_handler en k s
   | TqBce p \<Rightarrow> (case task (tqs s) i of
       Some Bce_expired \<Rightarrow> pmip_timer_bce_expired_handler conf en p s
     | Some Retrans_pbu \<Rightarrow> pmip_timer_retrans_pbu_handler conf en p s
     | _ \<Rightarrow> Fault NullDeref))"

definition run_due :: "config \<Rightarrow> env \<Rightarrow> sys \<Rightarrow> sys outcome" where
  "run_due conf en s = (case runner_pop (now en) (tqs s) of
     None \<Rightarrow> Done s
   | Some (i, q) \<Rightarrow> andThen (run_timer conf en i (s\<lparr>tqs := q\<rparr>)) (\<lambda>s. Done (s\<lparr>tqs := (tqs s)\<lparr>curr := None\<rparr>\<rparr>)))"

inductive lma_step :: "config \<Rightarrow> sys \<Rightarrow> sys \<Rightarrow> bool" for conf where
  recv_pbu: "env_ok conf en \<Longrightarrow> src \<noteq> in6addr_any \<Longrightarrow> pmip_lma_recv_pbu conf en mh src dst iif s = Done s' \<Longrightarrow> lma_step conf s s'"
| new_flow: "env_ok conf en \<Longrightarrow> flowScheduler_schedule_flow en k s = Done (m, s') \<Longrightarrow> lma_step conf s s'"
| timer: "env_ok conf en \<Longrightarrow> is_ha conf \<Longrightarrow> \<not> is_mag conf \<Longrightarrow> run_due conf en s = Done s' \<Longrightarrow> lma_step conf s s'"

definition lma_start :: "config \<Rightarrow> sys \<Rightarrow> bool" where
  "lma_start conf s \<longleftrightarrow> (\<exists>en conf0. memok en \<and> pmip_lma_init conf0 en True True sys_boot = Done (0, conf, s))"

definition lma_reachable :: "config \<Rightarrow> sys \<Rightarrow> bool" where
  "lma_reachable conf s \<longleftrightarrow> (\<exists>s0. lma_start conf s0 \<and> rtranclp (lma_step conf) s0 s)"

inductive_cases lma_stepE: "lma_step conf s s'"

text \<open>Every step keeps the invariant.\<close>

lemma runner_pop_fields:
  assumes "runner_pop t q = Some (i, q')"
  shows "curr q' = Some i" "task q' = task q"
  using assms by (auto simp: runner_pop_def split: list.splits if_splits)

lemma bce_handler_known:
  assumes "anchor_inv conf s" "is_ha conf" "\<not> is_mag conf" "p \<in> cached s" "curr q \<noteq> None"
    and "pmip_timer_bce_expired_handler conf en p (s\<lparr>tqs := q\<rparr>) = Done s'"
  shows "tunnel_known conf (e_tunnel (heap s p)) s"
proof -
  note I = anchor_invD [OF assms(1)]
  have al: "p \<in> alive (s\<lparr>tqs := q\<rparr>)" "held (s\<lparr>tqs := q\<rparr>) = []" "curr (tqs (s\<lparr>tqs := q\<rparr>)) \<noteq> None"
    using I(3) I(10) [OF assms(4)] assms(5) by simp_all
  obtain v where "pmip_timer_bce_expired_handler conf en p (s\<lparr>tqs := q\<rparr>) =
    andThen (lma_dereg conf en (Some p) None False
        (s\<lparr>tqs := q, held := [EntryLock p, PmipLock], heap := (heap s)(p := (heap s p)\<lparr>e_mh_vec := v\<rparr>)\<rparr>))
      (\<lambda>(_, s). pmip_bce_delete p (pmipcache_release_entry p s))"
    by (rule bce_expired_start [OF assms(2,3) al, of en]) simp
  from this [symmetric] obtain x where "lma_dereg conf en (Some p) None False
      (s\<lparr>tqs := q, held := [EntryLock p, PmipLock], heap := (heap s)(p := (heap s p)\<lparr>e_mh_vec := v\<rparr>)\<rparr>) = Done x"
    unfolding assms(6) andThen_Done_iff by blast
  from lma_dereg_known [OF this] al(1) show ?thesis by (simp add: tunnel_known_def)
qed

lemma run_due_inv:
  assumes "anchor_inv conf s" "env_ok conf en" "is_ha conf" "\<not> is_mag conf" "run_due conf en s = Done s'"
  shows "anchor_inv conf s'"
proof (cases "runner_pop (now en) (tqs s)")
  case None
  then show ?thesis using assms(1,5) by (simp add: run_due_def)
next
  case (Some x)
  then obtain i q where pop: "runner_pop (now en) (tqs s) = Some (i, q)" by (cases x) auto
  note I = anchor_invD [OF assms(1)] and R = runner_pop_fields [OF pop]
  have P: "pending (tqs s) i \<noteq> None" "pending q = (pending (tqs s))(i := None)" using tq.pop_Some [OF I(6) pop] by auto
  have qi: "tq_inv q" by (rule tq.invar_pop [OF I(6) pop])
  obtain s1 where s1: "run_timer conf en i (s\<lparr>tqs := q\<rparr>) = Done s1" "s' = s1\<lparr>tqs := (tqs s1)\<lparr>curr := None\<rparr>\<rparr>"
    using assms(5) pop by (auto simp: run_due_def andThen_Done_iff)
  show ?thesis
  proof (cases i)
    case (TqBce p)
    then have c: "p \<in> cached s" using P(1) I(9) [of p] by simp
    have h: "pmip_timer_bce_expired_handler conf en p (s\<lparr>tqs := q\<rparr>) = Done s1"
      using s1(1) TqBce I(8) [OF c] R(2) by (simp add: run_timer_def)
    have cq: "curr q \<noteq> None" using R(1) by simp
    have "anchor_inv conf s1"
      using binding_expires [OF assms(1-4) c bce_handler_known [OF assms(1,3,4) c cq h] qi cq R(2)] P(2) TqBce h
      by (metis outcome.inject(2))
    then show ?thesis by (simp add: s1(2))
  next
    case (TqTunnel k)
    obtain c g where "s1 = s\<lparr>tqs := q, tctl := c, g_tunnel_timer_table := g\<rparr>"
      using s1(1) TqTunnel tunnel_expired_frame [of en k "s\<lparr>tqs := q\<rparr>" s1] I(3) by (auto simp: run_timer_def)
    then have "s' = s\<lparr>tctl := c, g_tunnel_timer_table := g, tqs := q\<lparr>curr := None\<rparr>\<rparr>" by (simp add: s1(2))
    then show ?thesis
      by (rule anchor_inv_tunnels [OF assms(1)]) (use qi P(2) R(2) TqTunnel in \<open>simp_all add: curr_only\<close>)
  qed
qed

lemma recv_pbu_inv:
  assumes "anchor_inv conf s" "env_ok conf en" "src \<noteq> in6addr_any" "pmip_lma_recv_pbu conf en mh src dst iif s = Done s'"
  shows "anchor_inv conf s'"
proof -
  obtain info where i: "mh_pbu_parse conf msg_info_zero mh (length mh) src dst iif = Done info" "lma_fsm conf en info s = Done s'"
    using assms(4) by (auto simp: pmip_lma_recv_pbu_def andThen_Done_iff)
  note P = pbu_parsed [OF i(1) assms(3)]
  show ?thesis
  proof (cases "i_msg_event info = hasPBU")
    case True
    then show ?thesis using P(1) lma_fsm_inv [OF assms(1,2) _ i(2)] by blast
  next
    case False
    note I = anchor_invD [OF assms(1)]
    show ?thesis
    proof (cases "lookup s (i_mn_nai info, src)")
      case None
      then have "pmip_cache_exists (i_mn_nai info) src s = Done (-1, s)"
        using pmip_cache_exists_eq [of s "i_mn_nai info" src] I(3) by simp
      then show ?thesis using False i(2) P(3) assms(1) by (simp add: lma_fsm_def lma_fsm_no_entry_def)
    next
      case (Some p)
      then show ?thesis
        using False i(2) P(3) anchor_lookup(6) [OF assms(1) Some] by (simp add: lma_fsm_def lma_fsm_pmip_def nonnull_def)
    qed
  qed
qed

lemma lma_step_inv:
  assumes "anchor_inv conf s" "lma_step conf s s'"
  shows "anchor_inv conf s'"
  using assms(2)
proof cases
  case (recv_pbu en src mh dst iif)
  then show ?thesis using recv_pbu_inv [OF assms(1)] by blast
next
  case (new_flow en k m)
  note I = anchor_invD [OF assms(1)]
  obtain m1 s1 where "flowScheduler_schedule_flow en k s = Done (m1, s1)" "flow_only s s1" "flow_inv s1"
    using schedule_flow_inv [OF I(1,2) _ env_okD(1) [OF new_flow(1)], of k] I(3) by auto
  then show ?thesis using new_flow(2) anchor_inv_flow [OF assms(1)] by auto
next
  case (timer en)
  then show ?thesis using run_due_inv [OF assms(1)] by blast
qed

section \<open>Start-up\<close>

lemma static_tunnels_frame:
  "static_tunnels conf en ms s = Done s' \<Longrightarrow> \<exists>s1 es. tun_frame s s1 \<and> s' = s1\<lparr>out := es\<rparr>"
proof (induction ms arbitrary: s)
  case Nil
  then show ?case using tun_frame_refl [of s] by (intro exI [of _ s] exI [of _ "out s"]) simp
next
  case (Cons m ms)
  obtain t s1 where t: "pmip_tunnel_add conf en (LmaAddress conf) (MagAddressEgress conf m) (link_index en) s = Done (t, s1)"
      "static_tunnels conf en ms (fmpmip_lma_to_mag_routing_tables_init t (MAGRoutingLookupTable conf m) s1) = Done s'"
    using Cons.prems by (auto simp: andThen_Done_iff)
  obtain s2 es where s2: "tun_frame (fmpmip_lma_to_mag_routing_tables_init t (MAGRoutingLookupTable conf m) s1) s2" "s' = s2\<lparr>out := es\<rparr>"
    using Cons.IH [OF t(2)] by blast
  obtain c g q where q: "s2 = (fmpmip_lma_to_mag_routing_tables_init t (MAGRoutingLookupTable conf m) s1)\<lparr>tctl := c, g_tunnel_timer_table := g, tqs := q\<rparr>"
      "\<forall>p. task q (TqBce p) = task (tqs s1) (TqBce p)" "tq_inv (tqs s1) \<longrightarrow> tq_inv q \<and> (\<forall>p. pending q (TqBce p) = pending (tqs s1) (TqBce p))"
    using s2(1) unfolding tun_frame_def by (auto simp: fmpmip_lma_to_mag_routing_tables_init_def emit_def Let_def)
  have "s' = (s1\<lparr>tctl := c, g_tunnel_timer_table := g, tqs := q\<rparr>)\<lparr>out := es\<rparr>"
    using s2(2) q(1) by (simp add: fmpmip_lma_to_mag_routing_tables_init_def emit_def Let_def)
  moreover have "tun_frame s1 (s1\<lparr>tctl := c, g_tunnel_timer_table := g, tqs := q\<rparr>)"
    by (rule tun_frameI) (use q(2,3) in simp_all)
  ultimately show ?case using tun_frame_trans [OF pmip_tunnel_add_frame [OF t(1)]] by blast
qed

lemma tunnels_init_frame:
  assumes "pmip_tunnels_init conf en s = Done s'"
  shows "\<exists>s1 es. tun_frame (s\<lparr>g_tunnel_timer_table := replicate PMIP_MAX_MAGS tunnel_timer_zero\<rparr>) s1 \<and> s' = s1\<lparr>out := es\<rparr>"
proof -
  define s0 where "s0 = s\<lparr>g_tunnel_timer_table := replicate PMIP_MAX_MAGS tunnel_timer_zero\<rparr>"
  have id: "tun_frame s0 x \<Longrightarrow> \<exists>s1 es. tun_frame s0 s1 \<and> x = s1\<lparr>out := es\<rparr>" for x
    by (intro exI [of _ x] exI [of _ "out x"]) simp
  define L where "L = static_tunnels conf en [0..<NumMags conf] s0"
  define A where "A = pmip_tunnel_add conf en (MagAddressEgress conf 0) (LmaAddress conf) (link_index en) s0"
  have "pmip_tunnels_init conf en s = (if TunnelingEnabled conf \<and> \<not> DynamicTunnelingEnabled conf then
      if is_ha conf then L else if is_mag conf then andThen A (\<lambda>(_, s1). Done s1) else Done s0 else Done s0)"
    by (simp only: pmip_tunnels_init_def Let_def s0_def L_def A_def)
  then have "s' = s0 \<or> L = Done s' \<or> (\<exists>t. A = Done (t, s'))"
    using assms by (cases A) (auto split: if_splits prod.splits)
  then consider "s' = s0" | "static_tunnels conf en [0..<NumMags conf] s0 = Done s'"
    | t where "pmip_tunnel_add conf en (MagAddressEgress conf 0) (LmaAddress conf) (link_index en) s0 = Done (t, s')"
    unfolding L_def A_def by blast
  then have "\<exists>s1 es. tun_frame s0 s1 \<and> s' = s1\<lparr>out := es\<rparr>"
  proof cases
    case 1
    show ?thesis unfolding 1 by (rule id [OF tun_frame_refl])
  next
    case 2
    then show ?thesis by (rule static_tunnels_frame)
  next
    case 3
    show ?thesis by (rule id [OF pmip_tunnel_add_frame [OF 3]])
  qed
  then show ?thesis by (simp only: s0_def)
qed

text \<open>The state after start-up without static tunnels.\<close>

definition lma_boot :: sys where
  "lma_boot = sys_boot\<lparr>g_pmip_hash := \<lparr>buckets = PMIP_CACHE_BUCKETS, hash_buckets = replicate PMIP_CACHE_BUCKETS []\<rparr>,
     flowmob_hash := \<lparr>buckets = FLOWMOB_CACHE_BUCKETS, hash_buckets = replicate FLOWMOB_CACHE_BUCKETS []\<rparr>\<rparr>"

lemma empty_elems: "table_elems \<lparr>buckets = n, hash_buckets = replicate m []\<rparr> = []"
  by (simp add: table_elems_def)

lemma empty_table_wf:
  "pmip_hash_wf rd \<lparr>buckets = PMIP_CACHE_BUCKETS, hash_buckets = replicate PMIP_CACHE_BUCKETS []\<rparr>"
  "flow_hash_wf rd' \<lparr>buckets = FLOWMOB_CACHE_BUCKETS, hash_buckets = replicate FLOWMOB_CACHE_BUCKETS []\<rparr>"
  by (rule ph.cinv_empty fh.cinv_empty; simp)+

lemma anchor_inv_empty:
  assumes "g_pmip_hash s = \<lparr>buckets = PMIP_CACHE_BUCKETS, hash_buckets = replicate PMIP_CACHE_BUCKETS []\<rparr>"
    and "flowmob_hash s = \<lparr>buckets = FLOWMOB_CACHE_BUCKETS, hash_buckets = replicate FLOWMOB_CACHE_BUCKETS []\<rparr>"
    and "alive s = {}" "fl_alive s = {}" "g_pmip_cache_count s = 0" "flowmob_cache_count s = 0" "held s = []"
    and "hnp_inv (hnp s)" "croutes s = client_route_init" "tq_inv (tqs s)" "\<And>p. pending (tqs s) (TqBce p) = None"
  shows "anchor_inv conf s" "lookup s k = None"
proof -
  have c: "cache_inv s" using assms empty_table_wf(1) by (simp add: cache_inv_def empty_elems)
  have "flow_inv s" using assms empty_table_wf(2) by (simp add: flow_inv_def empty_elems)
  moreover have l: "lookup s k = None" for k
    using lookup_Some_iff [OF c, of k "the (lookup s k)"] assms(1) by (cases "lookup s k") (simp_all add: empty_elems)
  ultimately show "anchor_inv conf s"
    using c assms by (simp add: anchor_inv_def empty_elems routes_inv_def client_route_init_def routes_of_def get_route_for_client_def)
  show "lookup s k = None" by (rule l)
qed

lemma lma_boot_inv: "anchor_inv conf lma_boot" "lookup lma_boot k = None"
  by (rule anchor_inv_empty; simp add: lma_boot_def sys_boot_def tq_inv_init hnp_inv_boot)+

lemma lma_init_inv:
  assumes "memok en" "pmip_lma_init conf0 en True True sys_boot = Done (0, conf, s)"
  shows "anchor_inv conf s"
proof -
  let ?s0 = "sys_boot\<lparr>croutes := client_route_init, g_pmip_hash := \<lparr>buckets = PMIP_CACHE_BUCKETS, hash_buckets = replicate PMIP_CACHE_BUCKETS []\<rparr>\<rparr>"
  let ?s1 = "?s0\<lparr>g_tunnel_timer_table := replicate PMIP_MAX_MAGS tunnel_timer_zero\<rparr>"
  have "pmip_common_init en True (sys_boot\<lparr>croutes := client_route_init\<rparr>) = Done (0, ?s0)"
    using assms(1) by (simp add: pmip_common_init_def pmip_cache_init_def pmip_hash_init_def acquire_def release_def sys_boot_def)
  then obtain s2 where s2: "pmip_tunnels_init conf0 en ?s0 = Done s2"
      "s = s2\<lparr>hnp := pmip_lma_mn_to_hnp_cache_init (hnp s2), flowmob_hash := \<lparr>buckets = FLOWMOB_CACHE_BUCKETS, hash_buckets = replicate FLOWMOB_CACHE_BUCKETS []\<rparr>\<rparr>"
    using assms by (auto simp: pmip_lma_init_def andThen_Done_iff flowmob_cache_init_def flow_mob_hash_init_def Let_def)
  have "\<exists>s3 es. tun_frame ?s1 s3 \<and> s2 = s3\<lparr>out := es\<rparr>" by (rule tunnels_init_frame [OF s2(1)])
  then obtain c g q es where "s2 = ?s1\<lparr>tctl := c, g_tunnel_timer_table := g, tqs := q, out := es\<rparr>" "tq_inv q" "\<And>p. pending q (TqBce p) = None"
    by (auto simp: tun_frame_def sys_boot_def tq_inv_init)
  with s2(2) have s: "s = ?s1\<lparr>tctl := c, g_tunnel_timer_table := g, tqs := q, out := es, hnp := pmip_lma_mn_to_hnp_cache_init hnp_cache_boot,
      flowmob_hash := \<lparr>buckets = FLOWMOB_CACHE_BUCKETS, hash_buckets = replicate FLOWMOB_CACHE_BUCKETS []\<rparr>\<rparr>"
    and q: "tq_inv q" "\<And>p. pending q (TqBce p) = None"
    by (simp_all add: sys_boot_def)
  have hb: "pmip_lma_mn_to_hnp_cache_init hnp_cache_boot = hnp_cache_boot"
    by (simp add: pmip_lma_mn_to_hnp_cache_init_def hnp_cache_boot_def)
  show ?thesis by (rule anchor_inv_empty) (use q hnp_inv_boot(1) in \<open>simp_all add: s sys_boot_def hb\<close>)
qed

interpretation lma: daemon "lma_start conf" "lma_step conf" "anchor_inv conf" for conf
  by unfold_locales (auto simp: lma_start_def intro: lma_init_inv lma_step_inv)

section \<open>A concrete instance\<close>

lemma slot_for_free:
  assumes "t \<in> set (g_tunnel_timer_table s)" "tt_remote t = in6addr_any"
  shows "slot_for r s"
  using timer_index_loop_cases [of "g_tunnel_timer_table s" r 0 "-1"] assms
  by (auto simp: slot_for_def pmip_tunnel_get_timer_index_def)

text \<open>An anchor without tunnels and one with static tunnels, and an update from a gateway.\<close>

definition conf_anchor :: config where
  "conf_anchor = conf_example\<lparr>is_mag := False, is_ha := True, TunnelingEnabled := False\<rparr>"

definition conf_static :: config where
  "conf_static = conf_example\<lparr>is_mag := False, is_ha := True, DynamicTunnelingEnabled := False\<rparr>"

definition mag_a :: in6_addr where "mag_a = In6 0x20 1 0 0 0 0 0 0 0 0 0 0 0 0 0 3"
definition mag_b :: in6_addr where "mag_b = In6 0x20 1 0 0 0 0 0 0 0 0 0 0 0 0 0 4"

definition pbu_example :: "in6_addr \<Rightarrow> int \<Rightarrow> msg_info" where
  "pbu_example src l = msg_info_zero\<lparr>i_src := src, i_mn_serv_mag_addr := src, i_msg_event := hasPBU, i_lifetime := TS l 0\<rparr>"

lemma pbu_example_fields [simp]:
  "i_mn_nai (pbu_example a l) = nai_zero" "i_src (pbu_example a l) = a" "i_lifetime (pbu_example a l) = TS l 0"
  "i_mn_prefix (pbu_example a l) = in6addr_any" "i_mn_iid (pbu_example a l) = in6addr_any"
  by (simp_all add: pbu_example_def msg_info_zero_def)

lemma example_ok:
  "env_ok conf_anchor env_example" "env_ok conf_static env_example" "mag_a \<noteq> mag_b" "mag_b \<noteq> mag_a" "mag_a \<noteq> in6addr_any"
  "slot_ok conf_anchor a s" "tunnel_known conf_anchor t s" "tunnel_known conf_static t s" "slot_ok conf_static a lma_boot"
  "is_ha conf_anchor" "\<not> is_mag conf_anchor"
  "a \<in> {mag_a, mag_b} \<Longrightarrow> 0 \<le> l \<Longrightarrow> pbu_event (pbu_example a l)"
proof -
  show "slot_ok conf_static a lma_boot"
    unfolding slot_ok_def
    by (intro impI slot_for_free [of tunnel_timer_zero]) (simp_all add: lma_boot_def sys_boot_def tunnel_timer_zero_def)
qed (auto simp: env_ok_def conf_anchor_def conf_static_def conf_example_def env_example_def mag_a_def mag_b_def in6addr_any_def
    slot_ok_def tunnel_known_def pbu_event_def pbu_example_def msg_info_zero_def nai_zero_def)

text \<open>The state after the first update.\<close>

lemma bound_example:
  assumes "conf = conf_anchor \<or> conf = conf_static"
  obtains s where "lma_fsm conf env_example (pbu_example mag_a 40) lma_boot = Done s" "anchor_inv conf s"
    "lookup s (nai_zero, mag_a) = Some 0" "lookup s (nai_zero, mag_b) = None" "cached s = {0}"
    "e_mn_nai (heap s 0) = nai_zero" "e_mn_serv_mag_addr (heap s 0) = mag_a"
    "hnp s = pmip_insert_into_hnp_cache (EUI64_to_EUI48 in6addr_any) in6addr_any nai_zero hnp_cache_boot"
proof -
  have b: "brk lma_boot = 0" "cached lma_boot = {}" by (simp_all add: lma_boot_def sys_boot_def empty_elems)
  have e: "env_ok conf env_example" "slot_ok conf (i_src (pbu_example mag_a 40)) lma_boot" "pbu_event (pbu_example mag_a 40)"
      "0 < tv_sec (i_lifetime (pbu_example mag_a 40))"
    using assms example_ok by auto
  obtain t s where r: "lma_fsm conf env_example (pbu_example mag_a 40) lma_boot = Done s" "anchor_inv conf s"
      "lookup s = (lookup lma_boot)((i_mn_nai (pbu_example mag_a 40), i_src (pbu_example mag_a 40)) \<mapsto> brk lma_boot)"
      "hnp s = pmip_insert_into_hnp_cache (EUI64_to_EUI48 (i_mn_iid (pbu_example mag_a 40))) (i_mn_prefix (pbu_example mag_a 40))
         (i_mn_nai (pbu_example mag_a 40)) (hnp lma_boot)"
    by (rule lma_registers_new [OF lma_boot_inv(1) e(1,3,4) lma_boot_inv(2) e(2)]) (rule that)
  have h: "hnp lma_boot = hnp_cache_boot" by (simp add: lma_boot_def sys_boot_def)
  have lk: "lookup s = [(nai_zero, mag_a) \<mapsto> 0]" using r(3) lma_boot_inv(2) b(1) by (auto simp: fun_eq_iff)
  note c = lookup_Some_iff [OF anchor_invD(1) [OF r(2)]]
  have "p \<in> cached s \<longleftrightarrow> p = 0" for p 
    using c [of "bce_key (heap s p)" p] lk c [of "(nai_zero, mag_a)" 0] by (cases "p = 0") (auto split: if_splits)
  then have "cached s = {0}" by blast
  moreover have "bce_key (heap s 0) = (nai_zero, mag_a)" using c [of "(nai_zero, mag_a)" 0] lk by simp
  ultimately show ?thesis using r(1,2,4) h lk example_ok(4) by (intro that) (auto simp: bce_key_def)
qed

text \<open>A state with one binding whose timer is due.\<close>

definition due_example :: sys where
  "due_example = (flow_example (pmip_entry_zero\<lparr>e_type := BCE_PMIP, e_mn_serv_mag_addr := mag_a\<rparr>) flow_entry_zero
      \<lparr>list_HEAD = [\<lparr>r_client_nai = nai_zero, r_mag = [\<lparr>ip6_addr = mag_a, mag_mark = get_mag_mark conf_anchor mag_a\<rparr>]\<rparr>],
       number_of_clients = 1, number_of_routes = 1\<rparr>)
    \<lparr>tqs := \<lparr>tq_list = [TqBce 0], expires = (\<lambda>_. tszero)(TqBce 0 := TS 90 0), task = (\<lambda>_. None)(TqBce 0 \<mapsto> Bce_expired),
       curr = None, killed = False, signalled = True\<rparr>\<rparr>"

lemma ts_less: "TS a b < TS c d \<longleftrightarrow> a < c \<or> a = c \<and> b < d"
  by (auto simp: less_timespec_def tsafter_def simp del: tsafter_less)

lemma due_example_fields:
  "held due_example = []" "cached due_example = {0}" "hnp due_example = hnp_cache_boot" "alive due_example = {0}"
  "bce_key (heap due_example p) = (nai_zero, mag_a)" "binding_ok (heap due_example p)"
  "task (tqs due_example) (TqBce 0) = Some Bce_expired" "tq_inv (tqs due_example)"
  "pending (tqs due_example) (TqBce p) \<noteq> None \<longleftrightarrow> p = 0" "\<exists>q. runner_pop (TS 100 0) (tqs due_example) = Some (TqBce 0, q)"
  by (simp_all add: due_example_def flow_example_def table_elems_def pmip_lma_mn_to_hnp_cache_init_def hnp_cache_boot_def
      bce_key_def pmip_entry_zero_def binding_ok_def nai_zero_def example_ok(5) tq_inv_def ts_simps pending_def runner_pop_def
      ts_less)

lemma due_example_cache: "cache_inv due_example" "flow_inv due_example"
proof -
  show "flow_inv due_example" unfolding due_example_def flow_inv_upd by (rule flow_example_inv)
  show "cache_inv due_example"
    by (rule cache_inv_frame [OF flow_example_inv(1) [of "pmip_entry_zero\<lparr>e_type := BCE_PMIP, e_mn_serv_mag_addr := mag_a\<rparr>" flow_entry_zero client_route_init]])
      (use due_example_fields(8,9) in \<open>simp_all add: due_example_def flow_example_def\<close>)
qed

lemma due_example_inv: "anchor_inv conf_anchor due_example"
proof -
  have l: "lookup due_example (n, a) \<noteq> None \<longleftrightarrow> (n, a) = (nai_zero, mag_a)" for n a
    using lookup_Some_iff [OF due_example_cache(1), of "(n, a)"] due_example_fields(2,5) by (cases "lookup due_example (n, a)") auto
  have c: "croutes due_example = \<lparr>list_HEAD = [\<lparr>r_client_nai = nai_zero, r_mag = [\<lparr>ip6_addr = mag_a, mag_mark = get_mag_mark conf_anchor mag_a\<rparr>]\<rparr>],
       number_of_clients = 1, number_of_routes = 1\<rparr>" by (simp add: due_example_def flow_example_def)
  have r: "routes_of (croutes due_example) n = (if n = nai_zero then [mag_a] else [])" for n
    by (simp add: c routes_of_def get_route_for_client_def)
  have "routes_inv conf_anchor (croutes due_example)" by (simp add: c routes_inv_def)
  then show ?thesis using due_example_cache due_example_fields l r hnp_inv_boot(1) by (auto simp: anchor_inv_def)
qed

section \<open>Properties\<close>

text \<open>C2: every state the anchor reaches from its start-up, by whatever binding updates, flows and timers in
  whatever order, satisfies the invariant: the table, the flow cache and the timer queue are well
  formed, exactly the cached bindings have a running expiry timer, a client's list of gateways is
  the set of gateways it has a binding with, and no lock is left held.\<close>

theorem lma_reachable_invariant:
  assumes "lma_reachable conf s"
  shows "anchor_inv conf s"
  using assms unfolding lma_reachable_def by (rule lma.reached_inv)

theorem lma_reachable_invariant_witness:
  "\<exists>conf s. pmip_lma_init conf_anchor env_example True True sys_boot = Done (0, conf, s) \<and> anchor_inv conf s"
proof -
  have "\<exists>conf s. pmip_lma_init conf_anchor env_example True True sys_boot = Done (0, conf, s)"
    by (simp add: pmip_lma_init_def pmip_common_init_def pmip_cache_init_def pmip_hash_init_def acquire_def sys_boot_def
        env_example_def conf_anchor_def pmip_tunnels_init_def flowmob_cache_init_def flow_mob_hash_init_def conf_example_def)
  then obtain conf s where c: "pmip_lma_init conf_anchor env_example True True sys_boot = Done (0, conf, s)"
    by blast
  have "memok env_example" by (simp add: env_example_def)
  then have "lma_reachable conf s" using c by (auto simp: lma_reachable_def lma_start_def)
  from lma_reachable_invariant [OF this] c(1) show ?thesis by blast
qed

text \<open>C9: a binding update with a positive lifetime, for a node that has no binding with the sending gateway,
  creates exactly that binding: it stores the node's identity, prefix and lifetime, sets up the route
  to the node's address, arms the expiry timer for the granted lifetime and acknowledges the update
  with its sequence number and timestamp; no other binding changes and the invariant holds again.\<close>

theorem lma_registers:
  assumes "anchor_inv conf s" "env_ok conf en" "pbu_event info" "0 < tv_sec (i_lifetime info)"
    and "lookup s (i_mn_nai info, i_src info) = None" "slot_ok conf (i_src info) s"
  shows "\<exists>t p s'. lma_fsm conf en info s = Done s' \<and> anchor_inv conf s'
    \<and> lookup s' = (lookup s)((i_mn_nai info, i_src info) \<mapsto> p) \<and> (\<forall>q \<in> cached s. heap s' q = heap s q)
    \<and> heap s' p = bound_entry conf en info t (last_BID s + 1)
    \<and> pending (tqs s') (TqBce p) = Some (tsadd (now en) (TS (tv_sec (i_lifetime info)) 0))
    \<and> (\<exists>es. out s' = out s @ route_effect conf (mn_route_add t (fresh_entry conf info))
         @ SendMH (pba_packet (OurAddress conf) (TS (tv_sec (i_lifetime info)) 0) ((fresh_entry conf info)\<lparr>e_status := 0\<rparr>)) # es)"
proof -
  obtain t s' where "lma_fsm conf en info s = Done s'" "anchor_inv conf s'"
    "lookup s' = (lookup s)((i_mn_nai info, i_src info) \<mapsto> brk s)" "\<forall>q \<in> cached s. heap s' q = heap s q"
    "heap s' (brk s) = bound_entry conf en info t (last_BID s + 1)"
    "pending (tqs s') (TqBce (brk s)) = Some (tsadd (now en) (TS (tv_sec (i_lifetime info)) 0))"
    "\<exists>es. out s' = out s @ route_effect conf (mn_route_add t (fresh_entry conf info))
       @ SendMH (pba_packet (OurAddress conf) (TS (tv_sec (i_lifetime info)) 0) ((fresh_entry conf info)\<lparr>e_status := 0\<rparr>)) # es"
    by (rule lma_registers_new [OF assms]) (rule that)
  then show ?thesis by blast
qed

theorem lma_registers_witness:
  "\<exists>p s'. lma_fsm conf_static env_example (pbu_example mag_a 40) lma_boot = Done s' \<and> lookup s' (nai_zero, mag_a) = Some p
    \<and> pending (tqs s') (TqBce p) = Some (TS 140 0)"
proof -
  have "tsadd (now env_example) (TS 40 0) = TS 140 0" by (simp add: env_example_def ts_simps)
  moreover have "0 < tv_sec (i_lifetime (pbu_example mag_a 40))" "pbu_event (pbu_example mag_a 40)" by (simp_all add: example_ok)
  ultimately show ?thesis
    using lma_registers [OF lma_boot_inv(1) [of conf_static] example_ok(2) _ _ lma_boot_inv(2) example_ok(9), of "pbu_example mag_a 40"]
    by fastforce
qed

text \<open>C10: a binding update from the gateway that already serves the node renews the binding: the entry keeps
  its place in the cache and its identifier, takes over the values of the message, its timer is armed
  again for the new lifetime, an acknowledgement is the last message sent, and no other binding
  changes.\<close>

theorem lma_renews:
  assumes "anchor_inv conf s" "env_ok conf en" "pbu_event info" "0 < tv_sec (i_lifetime info)"
    and "lookup s (i_mn_nai info, i_src info) = Some p" "tunnel_known conf (e_tunnel (heap s p)) s"
  shows "\<exists>s'. lma_fsm conf en info s = Done s' \<and> anchor_inv conf s' \<and> lookup s' = lookup s
    \<and> heap s' = (heap s)(p := rebound_entry conf en info (heap s p))
    \<and> pending (tqs s') (TqBce p) = Some (tsadd (now en) (TS (tv_sec (i_lifetime info)) 0))
    \<and> last (out s') = SendMH (pba_packet (OurAddress conf) (TS (tv_sec (i_lifetime info)) 0)
         ((updated_entry conf info (heap s p))\<lparr>e_status := 0\<rparr>))"
proof -
  let ?s = "s\<lparr>held := [EntryLock p, PmipLock]\<rparr>"
  have "p \<in> alive ?s" "tunnel_known conf (e_tunnel (heap ?s p)) ?s"
    using anchor_lookup(2) [OF assms(1,5)] assms(6) by (simp_all add: tunnel_known_def)
  then obtain r s1 where "lma_update_binding_entry conf en (Some p) (Some info) ?s = Done (r, s1)"
    using lma_update_Done [OF _ assms(2)] by blast
  from lma_rebinds [OF assms(1-5) this] show ?thesis by (metis last_snoc)
qed

theorem lma_renews_witness:
  "\<exists>s s'. lma_fsm conf_static env_example (pbu_example mag_a 40) lma_boot = Done s
    \<and> lma_fsm conf_static env_example (pbu_example mag_a 80) s = Done s' \<and> pending (tqs s') (TqBce 0) = Some (TS 180 0)"
proof -
  obtain s where s: "lma_fsm conf_static env_example (pbu_example mag_a 40) lma_boot = Done s" "anchor_inv conf_static s"
      "lookup s (nai_zero, mag_a) = Some 0"
    by (rule bound_example [of conf_static]) (auto intro: that)
  have "tsadd (now env_example) (TS 80 0) = TS 180 0" by (simp add: env_example_def ts_simps)
  moreover have "0 < tv_sec (i_lifetime (pbu_example mag_a 80))" "pbu_event (pbu_example mag_a 80)" by (simp_all add: example_ok)
  ultimately show ?thesis
    using lma_renews [OF s(2) example_ok(2), of "pbu_example mag_a 80" 0] s example_ok(8) by fastforce
qed

text \<open>C26: an update from another gateway does not replace the binding the node already has: the cache is
  looked up by the node and the sending gateway, so the branch for a handover is not taken, the node
  ends with two bindings and both gateways stay in its list.\<close>

theorem update_from_other_gateway:
  assumes "anchor_inv conf s" "env_ok conf en" "pbu_event info" "0 < tv_sec (i_lifetime info)"
    and "lookup s (i_mn_nai info, old) = Some p" "lookup s (i_mn_nai info, i_src info) = None" "slot_ok conf (i_src info) s"
  shows "\<exists>q s'. lma_fsm conf en info s = Done s' \<and> lookup s' (i_mn_nai info, old) = Some p \<and> heap s' p = heap s p
    \<and> lookup s' (i_mn_nai info, i_src info) = Some q \<and> q \<noteq> p
    \<and> {old, i_src info} \<subseteq> set (routes_of (croutes s') (i_mn_nai info))"
proof -
  obtain s' where s': "lma_fsm conf en info s = Done s'" "anchor_inv conf s'"
      "lookup s' = (lookup s)((i_mn_nai info, i_src info) \<mapsto> brk s)" "\<forall>q \<in> cached s. heap s' q = heap s q"
    by (rule lma_registers_new [OF assms(1-4,6,7)]) (rule that)
  note p = anchor_lookup [OF assms(1,5)]
  have ne: "old \<noteq> i_src info" using assms(5,6) by auto
  have "brk s \<noteq> p" using p(2) anchor_invD(1) [OF assms(1)] by (auto simp: cache_inv_def)
  moreover have "lookup s' (i_mn_nai info, old) = Some p" using s'(3) assms(5) ne by simp
  ultimately show ?thesis
    using s' p(1) anchor_invD(11) [OF s'(2), of old "i_mn_nai info"] anchor_invD(11) [OF s'(2), of "i_src info" "i_mn_nai info"]
    by auto
qed

theorem update_from_other_gateway_witness:
  "\<exists>s q s'. lma_fsm conf_anchor env_example (pbu_example mag_a 40) lma_boot = Done s
    \<and> lma_fsm conf_anchor env_example (pbu_example mag_b 40) s = Done s'
    \<and> lookup s' (nai_zero, mag_a) = Some 0 \<and> lookup s' (nai_zero, mag_b) = Some q"
proof -
  obtain s where s: "lma_fsm conf_anchor env_example (pbu_example mag_a 40) lma_boot = Done s" "anchor_inv conf_anchor s"
      "lookup s (nai_zero, mag_a) = Some 0" "lookup s (nai_zero, mag_b) = None"
    by (rule bound_example [of conf_anchor]) (auto intro: that)
  have "0 < tv_sec (i_lifetime (pbu_example mag_b 40))" "pbu_event (pbu_example mag_b 40)" by (simp_all add: example_ok)
  with update_from_other_gateway [OF s(2) example_ok(1), of "pbu_example mag_b 40" mag_a 0] s example_ok(6) show ?thesis by fastforce
qed

text \<open>C23: a binding update with lifetime zero from the serving gateway deregisters the node and frees its entry,
  and then the address of the node is computed once more through the pointer to the freed entry.\<close>

theorem lma_dereg_use_after_free:
  assumes "anchor_inv conf s" "env_ok conf en" "pbu_event info" "tv_sec (i_lifetime info) = 0"
    and "lookup s (i_mn_nai info, i_src info) = Some p" "tunnel_known conf (e_tunnel (heap s p)) s"
  shows "lma_fsm conf en info s = Fault UseAfterFree"
  by (rule deregistration_faults [OF assms])

theorem lma_dereg_use_after_free_witness:
  "\<exists>s. lma_fsm conf_static env_example (pbu_example mag_a 40) lma_boot = Done s
    \<and> lma_fsm conf_static env_example (pbu_example mag_a 0) s = Fault UseAfterFree"
proof -
  obtain s where s: "lma_fsm conf_static env_example (pbu_example mag_a 40) lma_boot = Done s" "anchor_inv conf_static s"
      "lookup s (nai_zero, mag_a) = Some 0"
    by (rule bound_example [of conf_static]) (auto intro: that)
  have "tv_sec (i_lifetime (pbu_example mag_a 0)) = 0" "pbu_event (pbu_example mag_a 0)" by (simp_all add: example_ok)
  with lma_dereg_use_after_free [OF s(2) example_ok(2), of "pbu_example mag_a 0" 0] s example_ok(8) show ?thesis by fastforce
qed

text \<open>C11: when the expiry timer of a binding is the first due timer, running the timer queue removes exactly
  that binding: the route to the node is deleted, the entry is freed, the gateway leaves the client's
  list, the other bindings stay as they are and the invariant holds again.\<close>

theorem lma_expiry:
  assumes "anchor_inv conf s" "env_ok conf en" "is_ha conf" "\<not> is_mag conf"
    and "runner_pop (now en) (tqs s) = Some (TqBce p, q)" "tunnel_known conf (e_tunnel (heap s p)) s"
  shows "\<exists>s'. run_due conf en s = Done s' \<and> anchor_inv conf s' \<and> lookup s' = (lookup s)(bce_key (heap s p) := None)
    \<and> p \<notin> alive s' \<and> (\<forall>x. x \<noteq> p \<longrightarrow> heap s' x = heap s x)
    \<and> e_mn_serv_mag_addr (heap s p) \<notin> set (routes_of (croutes s') (e_mn_nai (heap s p)))
    \<and> (\<exists>es. out s' = out s @ route_effect conf (mn_route_del (e_tunnel (heap s p)) (heap s p)) @ es)"
proof -
  note I = anchor_invD [OF assms(1)] and R = runner_pop_fields [OF assms(5)]
  have P: "pending (tqs s) (TqBce p) \<noteq> None" "pending q = (pending (tqs s))(TqBce p := None)" using tq.pop_Some [OF I(6) assms(5)] by auto
  have c: "p \<in> cached s" using P(1) I(9) [of p] by simp
  have cq: "curr q \<noteq> None" using R(1) by simp
  obtain s1 where s1: "pmip_timer_bce_expired_handler conf en p (s\<lparr>tqs := q\<rparr>) = Done s1" "anchor_inv conf s1"
      "lookup s1 = (lookup s)(bce_key (heap s p) := None)" "alive s1 = alive s - {p}" "\<forall>x. x \<noteq> p \<longrightarrow> heap s1 x = heap s x"
      "\<exists>es. out s1 = out s @ route_effect conf (mn_route_del (e_tunnel (heap s p)) (heap s p)) @ es"
    by (rule binding_expires [OF assms(1-4) c assms(6) tq.invar_pop [OF I(6) assms(5)] cq R(2) P(2)])
  have "run_due conf en s = Done (s1\<lparr>tqs := (tqs s1)\<lparr>curr := None\<rparr>\<rparr>)"
    using assms(5) s1(1) I(8) [OF c] R(2) by (simp add: run_due_def run_timer_def)
  moreover have "e_mn_serv_mag_addr (heap s p) \<notin> set (routes_of (croutes s1) (e_mn_nai (heap s p)))"
    using anchor_invD(11) [OF s1(2), of "e_mn_serv_mag_addr (heap s p)" "e_mn_nai (heap s p)"] s1(3) by (simp add: bce_key_def)
  ultimately show ?thesis using s1 by (simp add: cache_inv_curr)
qed

theorem lma_expiry_witness:
  "\<exists>s'. run_due conf_anchor env_example due_example = Done s' \<and> lookup s' (nai_zero, mag_a) = None \<and> 0 \<notin> alive s'"
proof -
  obtain q where "runner_pop (now env_example) (tqs due_example) = Some (TqBce 0, q)"
    using due_example_fields(10) by (auto simp: env_example_def)
  from lma_expiry [OF due_example_inv example_ok(1,10,11) this example_ok(7)] show ?thesis
    using due_example_fields(5) [of 0] by auto
qed

text \<open>When the node comes back through the same gateway with another home network prefix than the anchor has
  on record, the route and the use of the tunnel are given up and only an acknowledgement follows:
  no route is set up for the new address although the binding says so.\<close>

lemma prefix_change_loses_route:
  assumes "anchor_inv conf s" "env_ok conf en" "pbu_event info" "0 < tv_sec (i_lifetime info)"
    and "lookup s (i_mn_nai info, i_src info) = Some p" "tunnel_known conf (e_tunnel (heap s p)) s"
    and "lma_mnid_hnp_map (EUI64_to_EUI48 (i_mn_iid info)) (hnp s) = (px, 1)" "px \<noteq> i_mn_prefix info" "TunnelingEnabled conf"
  shows "\<exists>s' a pkt. lma_fsm conf en info s = Done s' \<and> e_mn_prefix (heap s' p) = i_mn_prefix info
    \<and> e_tunnel (heap s' p) = e_tunnel (heap s p)
    \<and> out s' = out s @ [RouteDel (e_tunnel (heap s p)) RT6_TABLE_MIP6 IP6_RT_PRIO_MIP6_FWD (in6addr_any, 0) (a, 128), SendMH pkt]"
proof -
  let ?s = "s\<lparr>held := [EntryLock p, PmipLock]\<rparr>"
  let ?t = "?s\<lparr>heap := (heap s)(p := identified conf info (heap s p))\<rparr>"
  have al: "p \<in> alive ?s" "p \<in> alive ?t" using anchor_lookup(2) [OF assms(1,5)] by simp_all
  have tk: "tunnel_known conf (e_tunnel (heap ?t p)) ?t" using assms(6) by (simp add: tunnel_known_def identified_def)
  obtain s2 where s2: "drop_tunnel conf en p ?t = Done s2" using drop_tunnel_Done [OF al(2) tk] by blast
  have o2: "out s2 = out s @ [RouteDel (e_tunnel (heap s p)) RT6_TABLE_MIP6 IP6_RT_PRIO_MIP6_FWD (in6addr_any, 0) (mn_addr (heap ?t p), 128)]"
    using s2 al(2) assms(9)
    by (auto simp: drop_tunnel_def mn_addr_of_eq deref_alive andThen_Done_iff lma_remove_route_def emit_def identified_def
        dest!: tun_frame_fields [OF pmip_tunnel_del_frame [OF _ env_okD(3) [OF assms(2)]]])
  have al2: "p \<in> alive s2" using drop_tunnel_step [OF al(2) assms(2) s2] al(2) by (simp add: entry_step_def)
  have "lma_switch conf en p info ?t = Done (1, s2)" using assms(7,8) s2 by (simp add: lma_switch_def)
  then obtain r s1 where u: "lma_update_binding_entry conf en (Some p) (Some info) ?s = Done (r, s1)" "out s1 = out s2"
    using al2 by (auto simp: lma_update_switch [OF al(1)] modify_alive mn_addr_of_eq)
  show ?thesis
    by (rule lma_rebinds [OF assms(1-5) u(1)])
      (use u(2) o2 in \<open>auto simp: rebound_entry_def updated_entry_def\<close>)
qed

lemma prefix_change_loses_route_witness:
  "\<exists>s s' a pkt. lma_fsm conf_static env_example (pbu_example mag_a 40) lma_boot = Done s
    \<and> lma_fsm conf_static env_example ((pbu_example mag_a 40)\<lparr>i_mn_prefix := mag_b\<rparr>) s = Done s'
    \<and> e_mn_prefix (heap s' 0) = mag_b
    \<and> out s' = out s @ [RouteDel (e_tunnel (heap s 0)) RT6_TABLE_MIP6 IP6_RT_PRIO_MIP6_FWD (in6addr_any, 0) (a, 128), SendMH pkt]"
proof -
  let ?i = "(pbu_example mag_a 40)\<lparr>i_mn_prefix := mag_b\<rparr>"
  obtain s where s: "lma_fsm conf_static env_example (pbu_example mag_a 40) lma_boot = Done s" "anchor_inv conf_static s"
      "lookup s (nai_zero, mag_a) = Some 0"
      "hnp s = pmip_insert_into_hnp_cache (EUI64_to_EUI48 in6addr_any) in6addr_any nai_zero hnp_cache_boot"
    by (rule bound_example [of conf_static]) (auto intro: that)
  have m: "lma_mnid_hnp_map (EUI64_to_EUI48 (i_mn_iid ?i)) (hnp s) = (in6addr_any, 1)"
    unfolding s(4) using insert_fresh(2) [OF hnp_inv_boot] by (simp add: hnp_cache_boot_def)
  have p: "pbu_event ?i" "0 < tv_sec (i_lifetime ?i)" "TunnelingEnabled conf_static" "in6addr_any \<noteq> i_mn_prefix ?i"
      "lookup s (i_mn_nai ?i, i_src ?i) = Some 0"
    using example_ok(12) [of mag_a 40] s(3)
    by (simp_all add: pbu_event_def pbu_example_def conf_static_def conf_example_def mag_b_def in6addr_any_def msg_info_zero_def)
  from prefix_change_loses_route [OF s(2) example_ok(2) p(1,2,5) example_ok(8) m p(4,3)] s(1) show ?thesis by auto
qed

end
