(* ===== verification/Mag_Binding.thy ===== *)
theory Mag_Binding
  imports Lma_Steps
begin

text \<open>
  Correctness of the gateway: attachment of a node, acknowledgements, retransmission, reachability tests
  and detachment, as steps on one binding.
\<close>

section \<open>The procedures as entry steps\<close>

lemma mh_send_pbu_Done:
  obtains ts v pkt where "mh_send_pbu True t src dst lifetime oif e n =
     Done (0, e\<lparr>e_seqno_out := ucast n, e_timestamp := ts, e_mh_vec := v\<rparr>, n + 1, Some pkt)" "v \<noteq> []"
proof -
  have "\<exists>x pkt. mh_send_pbu True t src dst lifetime oif e n = Done (0, x, n + 1, Some pkt)
      \<and> x = e\<lparr>e_seqno_out := ucast n, e_timestamp := e_timestamp x, e_mh_vec := e_mh_vec x\<rparr> \<and> e_mh_vec x \<noteq> []"
    by (simp add: mh_send_pbu_def mh_create_def mh_len_def get_new_pbu_sequence_number_def pmip_mh_send_def Let_def
        split: option.splits prod.splits)
  then show ?thesis using that by metis
qed

definition pbu_sent :: "nat \<Rightarrow> sys \<Rightarrow> sys \<Rightarrow> bool" where
  "pbu_sent p s s' \<longleftrightarrow> (\<exists>ts v pkt. s' = s\<lparr>heap := (heap s)(p := (heap s p)\<lparr>e_seqno_out := ucast (seq s), e_timestamp := ts, e_mh_vec := v\<rparr>),
     seq := seq s + 1, out := out s @ [SendMH pkt]\<rparr> \<and> v \<noteq> [])"

lemma send_pbu_sent:
  assumes "p \<in> alive s" "memok en"
  shows "\<exists>s' e pkt. send_pbu conf en src lifetime p s = Done s' \<and> pbu_sent p s s'
    \<and> mh_send_pbu True (tod en) src (LmaAddress conf) lifetime 0 (heap s p) (seq s) = Done (0, e, seq s + 1, Some pkt)
    \<and> out s' = out s @ [SendMH pkt]"
proof -
  obtain ts v pkt where "mh_send_pbu True (tod en) src (LmaAddress conf) lifetime 0 (heap s p) (seq s) =
     Done (0, (heap s p)\<lparr>e_seqno_out := ucast (seq s), e_timestamp := ts, e_mh_vec := v\<rparr>, seq s + 1, Some pkt)" "v \<noteq> []"
    by (rule mh_send_pbu_Done)
  then show ?thesis
    using assms by (auto simp: send_pbu_def cache_simps emit_packet_def emit_def pbu_sent_def)
qed

lemma pbu_sent_step: "pbu_sent p s s' \<Longrightarrow> entry_step p s s'"
  by (auto simp: pbu_sent_def entry_step_def)

definition ra_bytes :: "env \<Rightarrow> nat \<Rightarrow> sys \<Rightarrow> byte list" where
  "ra_bytes en p s = ra_header (router_ad_iface s) (check_ip6_forwarding en)
     @ ra_prefix_option (Adv_Prefix (router_ad_iface s)) (e_mn_prefix (heap s p)) @ ra_home_agent_option (router_ad_iface s)"

lemma kickoff_ra_eq:
  "memok en \<Longrightarrow> p \<in> alive s \<Longrightarrow> mag_kickoff_ra en p s =
     Done (s\<lparr>out := out s @ [SendRA (e_link (heap s p)) (e_mn_link_local_addr (heap s p)) (ra_bytes en p s)]\<rparr>)"
  by (simp add: mag_kickoff_ra_def deref_alive Let_def ra_bytes_def emit_def)

lemma start_retrans_eq:
  "p \<in> alive s \<Longrightarrow> start_retrans conf en p s = Done (s\<lparr>heap := (heap s)(p := (heap s p)\<lparr>e_add_time := now en\<rparr>),
     tqs := add_task_abs (tsadd (now en) (RetransmissionTimeOut conf)) (TqBce p) Retrans_pbu (tqs s)\<rparr>)"
  by (simp add: start_retrans_def modify_alive arm_bce_def)

text \<open>What the invariant says of one binding of the gateway: it is in one of the two states, it is stored
  under the gateway's own address, and a binding that waits for an acknowledgement has a message to
  send again.\<close>

definition gw_binding :: "config \<Rightarrow> pmip_entry \<Rightarrow> timer_task option \<Rightarrow> bool" where
  "gw_binding conf e t \<longleftrightarrow> e_mn_serv_mag_addr e = OurAddress conf \<and> (e_type e = BCE_TEMP \<or> e_type e = BCE_PMIP)
     \<and> (t = Some Retrans_pbu \<and> e_mh_vec e \<noteq> [] \<or> t = Some Bce_expired \<and> e_type e = BCE_PMIP)"

definition gateway_inv :: "config \<Rightarrow> sys \<Rightarrow> bool" where
  "gateway_inv conf s \<longleftrightarrow> cache_inv s \<and> held s = []
     \<and> (\<forall>p \<in> cached s. gw_binding conf (heap s p) (task (tqs s) (TqBce p)))
     \<and> (\<forall>p. pending (tqs s) (TqBce p) \<noteq> None \<longleftrightarrow> p \<in> cached s)"

lemma gateway_invD:
  assumes "gateway_inv conf s"
  shows "cache_inv s" "p \<in> cached s \<Longrightarrow> e_mn_serv_mag_addr (heap s p) = OurAddress conf" "held s = []" "tq_inv (tqs s)"
    "p \<in> cached s \<Longrightarrow> gw_binding conf (heap s p) (task (tqs s) (TqBce p))"
    "pending (tqs s) (TqBce p) \<noteq> None \<longleftrightarrow> p \<in> cached s" "p \<in> cached s \<Longrightarrow> p \<in> alive s"
  using assms by (auto simp: gateway_inv_def cache_inv_def gw_binding_def)

text \<open>A step on one cached binding that leaves it in order and timed keeps the invariant; the timer queue may
  have lost the timer of the binding before the step.\<close>

lemma gateway_inv_step:
  assumes "gateway_inv conf s" "p \<in> cached s" "entry_step p (s\<lparr>tqs := q, held := l\<rparr>) s'"
    and "tq_inv q" "\<And>x. x \<noteq> p \<Longrightarrow> pending q (TqBce x) = pending (tqs s) (TqBce x)" "\<And>x. x \<noteq> p \<Longrightarrow> task q (TqBce x) = task (tqs s) (TqBce x)"
    and "e_mn_nai (heap s' p) = e_mn_nai (heap s p)" "gw_binding conf (heap s' p) (task (tqs s') (TqBce p))"
    and "pending (tqs s') (TqBce p) \<noteq> None"
  shows "gateway_inv conf (s'\<lparr>held := []\<rparr>)" "lookup (s'\<lparr>held := []\<rparr>) = lookup s"
proof -
  note I = gateway_invD [OF assms(1)] and S = assms(3) [unfolded entry_step_def]
  have kp: "bce_key (heap s' p) = bce_key (heap s p)"
    using assms(7,8) I(5) [OF assms(2)] by (simp add: bce_key_def gw_binding_def)
  have k: "bce_key (heap s' x) = bce_key (heap s x)" for x using S kp by (cases "x = p") simp_all
  have q': "tq_inv (tqs s')" "x \<noteq> p \<Longrightarrow> pending (tqs s') (TqBce x) = pending (tqs s) (TqBce x)" for x using S assms(4,5) by simp_all
  have P: "pending (tqs s') (TqBce x) \<noteq> None \<longleftrightarrow> x \<in> cached s" for x
    using q'(2) [of x] I(6) [of x] assms(2,9) by (cases "x = p") simp_all
  have "cache_inv s'" by (rule cache_inv_frame [OF I(1)]) (use S q' k P I(7) in simp_all)
  moreover have "gw_binding conf (heap s' x) (task (tqs s') (TqBce x))" if "x \<in> cached s" for x
    using I(5) [OF that] assms(6,8) S by (cases "x = p") simp_all
  ultimately show "gateway_inv conf (s'\<lparr>held := []\<rparr>)" using S P by (simp add: gateway_inv_def)
  have "lookup s' = lookup s" by (rule lookup_frame [OF I(1)]) (use S k in simp_all)
  then show "lookup (s'\<lparr>held := []\<rparr>) = lookup s" by simp
qed

section \<open>Waiting for an acknowledgement\<close>

definition awaits :: "config \<Rightarrow> env \<Rightarrow> nat \<Rightarrow> sys \<Rightarrow> sys \<Rightarrow> bool" where
  "awaits conf en p s s' \<longleftrightarrow> entry_step p s s'
     \<and> (\<exists>ts v. heap s' p = (heap s p)\<lparr>e_seqno_out := ucast (seq s), e_timestamp := ts, e_mh_vec := v, e_add_time := now en\<rparr> \<and> v \<noteq> [])
     \<and> task (tqs s') (TqBce p) = Some Retrans_pbu
     \<and> (tq_inv (tqs s) \<longrightarrow> pending (tqs s') (TqBce p) = Some (tsadd (now en) (RetransmissionTimeOut conf)))
     \<and> (\<exists>pkt. out s' = out s @ [SendMH pkt])"

lemma awaitsI:
  assumes "p \<in> alive s" "env_ok conf en" "pbu_sent p s s1"
  shows "\<exists>s'. start_retrans conf en p s1 = Done s' \<and> awaits conf en p s s'"
proof -
  let ?e = "tsadd (now en) (RetransmissionTimeOut conf)"
  let ?t = "s1\<lparr>heap := (heap s1)(p := (heap s1 p)\<lparr>e_add_time := now en\<rparr>), tqs := add_task_abs ?e (TqBce p) Retrans_pbu (tqs s1)\<rparr>"
  have al: "p \<in> alive s1" and q: "tqs s1 = tqs s" using assms(1,3) by (auto simp: pbu_sent_def)
  have "entry_step p s s1" by (rule pbu_sent_step [OF assms(3)])
  moreover have "entry_step p s1 ?t"
    using env_okD(2) [OF assms(2)] by (simp add: entry_step_def tq.invar_add tq.pend_add add_task_abs_fields)
  ultimately have "entry_step p s ?t" by (rule entry_step_trans)
  moreover have "\<exists>ts v. heap ?t p = (heap s p)\<lparr>e_seqno_out := ucast (seq s), e_timestamp := ts, e_mh_vec := v, e_add_time := now en\<rparr> \<and> v \<noteq> []"
    using assms(3) unfolding pbu_sent_def by (elim exE) (simp, blast)
  moreover have "\<exists>pkt. out ?t = out s @ [SendMH pkt]" using assms(3) by (auto simp: pbu_sent_def)
  ultimately show ?thesis
    using al q by (auto simp: start_retrans_eq awaits_def add_task_abs_fields tq.pend_add)
qed

lemma start_registration_awaits:
  assumes "p \<in> alive s" "env_ok conf en"
  shows "\<exists>s'. mag_start_registration conf en p s = Done s' \<and> awaits conf en p s s'"
proof -
  obtain s1 where "send_pbu conf en (MagAddressEgress conf 0) (TS 10 0) p s = Done s1" "pbu_sent p s s1"
    using send_pbu_sent [OF assms(1) env_okD(1) [OF assms(2)]] by blast
  then show ?thesis using awaitsI [OF assms] by (simp add: mag_start_registration_def)
qed

text \<open>The update that starts a registration, as it is sent.\<close>

lemma start_registration_sends:
  assumes "p \<in> alive s" "env_ok conf en" "mag_start_registration conf en p s = Done s'"
  shows "\<exists>e pkt. mh_send_pbu True (tod en) (MagAddressEgress conf 0) (LmaAddress conf) (TS 10 0) 0 (heap s p) (seq s) = Done (0, e, seq s + 1, Some pkt)
    \<and> out s' = out s @ [SendMH pkt] \<and> heap s' p = e\<lparr>e_add_time := now en\<rparr> \<and> g_tunnel_timer_table s' = g_tunnel_timer_table s"
proof -
  obtain ts v pkt where "mh_send_pbu True (tod en) (MagAddressEgress conf 0) (LmaAddress conf) (TS 10 0) 0 (heap s p) (seq s) =
     Done (0, (heap s p)\<lparr>e_seqno_out := ucast (seq s), e_timestamp := ts, e_mh_vec := v\<rparr>, seq s + 1, Some pkt)" "v \<noteq> []"
    by (rule mh_send_pbu_Done)
  then show ?thesis
    using assms env_okD(1) [OF assms(2)]
    by (auto simp: mag_start_registration_def send_pbu_def cache_simps emit_packet_def emit_def start_retrans_eq)
qed

lemma force_update_awaits:
  assumes "p \<in> alive s" "env_ok conf en" "tq_inv (tqs s)"
  shows "\<exists>s'. mag_force_update_registration conf en p iif s = Done s' \<and> awaits conf en p s s'"
proof -
  define s0 where "s0 = (if task (tqs s) (TqBce p) \<noteq> None then s\<lparr>tqs := del_task (TqBce p) (tqs s)\<rparr> else s)"
  have s0: "entry_step p s s0" "p \<in> alive s0" "heap s0 = heap s" "seq s0 = seq s" "out s0 = out s" "tq_inv (tqs s0)"
    using assms(1,3) entry_step_disarm by (auto simp: s0_def tq.invar_del)
  obtain s1 where s1: "send_pbu conf en (MagAddressEgress conf 0) (PBULifeTime conf) p s0 = Done s1" "pbu_sent p s0 s1"
    using send_pbu_sent [OF s0(2) env_okD(1) [OF assms(2)]] by blast
  obtain s' where s': "start_retrans conf en p s1 = Done s'" "awaits conf en p s0 s'" using awaitsI [OF s0(2) assms(2) s1(2)] by blast
  have "mag_force_update_registration conf en p iif s = Done s'"
    using s1(1) s'(1) assms(1) by (simp add: mag_force_update_registration_def deref_alive s0_def)
  moreover have "awaits conf en p s s'" using s'(2) s0 entry_step_trans [OF s0(1)] by (simp add: awaits_def)
  ultimately show ?thesis by blast
qed

section \<open>The end of a registration\<close>

definition completed_entry :: "config \<Rightarrow> env \<Rightarrow> int \<Rightarrow> pmip_entry \<Rightarrow> pmip_entry" where
  "completed_entry conf en t e = e\<lparr>e_type := BCE_PMIP, e_n_rets_counter := MaxMessageRetransmissions conf, e_add_time := now en,
     e_tunnel := t, e_mn_addr := mn_addr e\<rparr>"

definition completed :: "config \<Rightarrow> env \<Rightarrow> nat \<Rightarrow> int \<Rightarrow> sys \<Rightarrow> sys \<Rightarrow> bool" where
  "completed conf en p t s s' \<longleftrightarrow> entry_step p s s' \<and> heap s' p = completed_entry conf en t (heap s p)
     \<and> task (tqs s') (TqBce p) = Some Bce_expired
     \<and> (tq_inv (tqs s) \<longrightarrow> pending (tqs s') (TqBce p) = Some (tsadd (now en) (e_lifetime (heap s p))))
     \<and> (\<exists>es b. out s' = out s @ es @ [SendRA (e_link (heap s p)) (e_mn_link_local_addr (heap s p)) b]
          @ [RuleAdd RT6_TABLE_MIP6 (IP6_RULE_PRIO_PMIP6_FWD - 1) (in6addr_any, 0) (mn_addr (heap s p), 128)]
          @ route_effect conf (RuleAdd RT6_TABLE_PMIP IP6_RULE_PRIO_PMIP6_FWD (mn_addr (heap s p), 128) (in6addr_any, 0))
          @ [RouteAdd (e_link (heap s p)) RT6_TABLE_MIP6 IP6_RT_PRIO_MIP6_FWD (in6addr_any, 0) (mn_addr (heap s p), 128)])"

lemma completedD:
  assumes "completed conf en p t s s'"
  shows "entry_step p s s'" "heap s' p = completed_entry conf en t (heap s p)" "task (tqs s') (TqBce p) = Some Bce_expired"
    "tq_inv (tqs s) \<Longrightarrow> pending (tqs s') (TqBce p) = Some (tsadd (now en) (e_lifetime (heap s p)))"
  using assms unfolding completed_def by blast+

lemma mag_setup_route_eq:
  "mag_setup_route conf a l s = s\<lparr>out := out s @ [RuleAdd RT6_TABLE_MIP6 (IP6_RULE_PRIO_PMIP6_FWD - 1) (in6addr_any, 0) (a, 128)]
     @ route_effect conf (RuleAdd RT6_TABLE_PMIP IP6_RULE_PRIO_PMIP6_FWD (a, 128) (in6addr_any, 0))
     @ [RouteAdd l RT6_TABLE_MIP6 IP6_RT_PRIO_MIP6_FWD (in6addr_any, 0) (a, 128)]\<rparr>"
  by (simp add: mag_setup_route_def route_effect_def emit_def Let_def)

lemma end_registration_completed:
  assumes "p \<in> alive s" "env_ok conf en" "0 \<le> tv_sec (e_lifetime (heap s p))" "slot_ok conf (LmaAddress conf) s"
  shows "\<exists>t s'. mag_end_registration conf en p iif s = Done s' \<and> completed conf en p t s s'"
proof -
  let ?e = "(heap s p)\<lparr>e_type := BCE_PMIP, e_n_rets_counter := MaxMessageRetransmissions conf, e_add_time := now en\<rparr>"
  let ?x = "tsadd (now en) (e_lifetime (heap s p))"
  let ?s1 = "s\<lparr>heap := (heap s)(p := ?e), tqs := add_task_abs ?x (TqBce p) Bce_expired (tqs s)\<rparr>"
  have x: "tsisset ?x" by (rule env_okD(4) [OF assms(2,3)])
  have e1: "entry_step p s ?s1" using x by (simp add: entry_step_def tq.invar_add tq.pend_add add_task_abs_fields)
  have "slot_ok conf (LmaAddress conf) ?s1" using slot_ok_cong [of ?s1 s] assms(4) by simp
  then obtain t s2 where t: "pmip_tunnel_add conf en (OurAddress conf) (LmaAddress conf) iif ?s1 = Done (t, s2)"
    using pmip_tunnel_add_Done_iff by blast
  note f = pmip_tunnel_add_frame [OF t]
  then obtain c g q where s2: "s2 = ?s1\<lparr>tctl := c, g_tunnel_timer_table := g, tqs := q\<rparr>"
      "\<forall>x. task q (TqBce x) = task (tqs ?s1) (TqBce x)"
      "tq_inv (tqs ?s1) \<longrightarrow> tq_inv q \<and> (\<forall>x. pending q (TqBce x) = pending (tqs ?s1) (TqBce x))"
    unfolding tun_frame_def by blast
  have q: "task q (TqBce p) = Some Bce_expired" "tq_inv (tqs s) \<Longrightarrow> pending q (TqBce p) = Some ?x"
    using s2(2,3) x by (simp_all add: add_task_abs_fields tq.invar_add tq.pend_add)
  define es where "es = (if tunnel_getusers t c = 1 then [uplink_route t] else [])"
  let ?a = "mn_addr (heap s p)"
  define s' where "s' = mag_setup_route conf ?a (e_link (heap s p)) (s2\<lparr>out := out s @ es
      @ [SendRA (e_link (heap s p)) (e_mn_link_local_addr (heap s p)) (ra_bytes en p s)],
      heap := (heap s)(p := completed_entry conf en t (heap s p))\<rparr>)"
  have "mag_end_registration conf en p iif s = Done s'"
    using assms(1) t env_okD(1) [OF assms(2)]
    by (simp add: mag_end_registration_def cache_simps s2(1) kickoff_ra_eq emit_def s'_def es_def completed_entry_def mn_addr_def
        ra_bytes_def split: if_splits)
  moreover have "entry_step p s s'"
    using entry_step_trans [OF e1 entry_step_tun [OF f]] by (simp add: s'_def s2(1) mag_setup_route_eq entry_step_def)
  moreover have "out s' = out s @ es @ [SendRA (e_link (heap s p)) (e_mn_link_local_addr (heap s p)) (ra_bytes en p s)]
          @ [RuleAdd RT6_TABLE_MIP6 (IP6_RULE_PRIO_PMIP6_FWD - 1) (in6addr_any, 0) (mn_addr (heap s p), 128)]
          @ route_effect conf (RuleAdd RT6_TABLE_PMIP IP6_RULE_PRIO_PMIP6_FWD (mn_addr (heap s p), 128) (in6addr_any, 0))
          @ [RouteAdd (e_link (heap s p)) RT6_TABLE_MIP6 IP6_RT_PRIO_MIP6_FWD (in6addr_any, 0) (mn_addr (heap s p), 128)]"
    by (simp add: s'_def mag_setup_route_eq)
  moreover have "heap s' p = completed_entry conf en t (heap s p)" "tqs s' = q" by (simp_all add: s'_def mag_setup_route_eq s2(1))
  ultimately show ?thesis using q unfolding completed_def by metis
qed

lemma end_registration_again:
  assumes "p \<in> alive s" "env_ok conf en" "0 \<le> tv_sec (e_lifetime (heap s p))"
  shows "\<exists>s'. mag_end_registration_no_new_tunnel conf en p iif s = Done s' \<and> entry_step p s s'
    \<and> heap s' p = (heap s p)\<lparr>e_type := BCE_PMIP, e_n_rets_counter := MaxMessageRetransmissions conf, e_add_time := now en\<rparr>
    \<and> task (tqs s') (TqBce p) = Some Bce_expired
    \<and> (tq_inv (tqs s) \<longrightarrow> pending (tqs s') (TqBce p) = Some (tsadd (now en) (e_lifetime (heap s p))))"
  using assms(1) env_okD(1) [OF assms(2)] env_okD(4) [OF assms(2,3)]
  by (simp add: mag_end_registration_no_new_tunnel_def cache_simps kickoff_ra_eq entry_step_def tq.invar_add tq.pend_add
      add_task_abs_fields)

section \<open>Deregistration at the gateway\<close>

lemma mag_remove_route_eq:
  "mag_remove_route conf a l s = s\<lparr>out := out s @ [RuleDel RT6_TABLE_MIP6 (IP6_RULE_PRIO_PMIP6_FWD - 1) (in6addr_any, 0) (a, 128)]
     @ route_effect conf (RuleDel RT6_TABLE_PMIP IP6_RULE_PRIO_PMIP6_FWD (a, 128) (in6addr_any, 0))
     @ [RouteDel l RT6_TABLE_MIP6 IP6_RT_PRIO_MIP6_FWD (in6addr_any, 0) (a, 128)]\<rparr>"
  by (simp add: mag_remove_route_def route_effect_def emit_def Let_def)

text \<open>The rules and the route of the node are removed and, as the last thing, the anchor is told.\<close>

definition mag_route_removal :: "config \<Rightarrow> pmip_entry \<Rightarrow> effect list" where
  "mag_route_removal conf e = [RuleDel RT6_TABLE_MIP6 (IP6_RULE_PRIO_PMIP6_FWD - 1) (in6addr_any, 0) (mn_addr e, 128)]
     @ route_effect conf (RuleDel RT6_TABLE_PMIP IP6_RULE_PRIO_PMIP6_FWD (mn_addr e, 128) (in6addr_any, 0))
     @ [RouteDel (e_link e) RT6_TABLE_MIP6 IP6_RT_PRIO_MIP6_FWD (in6addr_any, 0) (mn_addr e, 128)]"

text \<open>The route through the tunnel goes with the last binding that uses it.\<close>

definition uplink_removal :: "pmip_entry \<Rightarrow> sys \<Rightarrow> effect list" where
  "uplink_removal e s = (if tunnel_getusers (e_tunnel e) (tctl s) = 1 then [uplink_route_del (e_tunnel e)] else [])"

text \<open>The entry the departure update is built from.\<close>

definition left_entry :: "pmip_entry \<Rightarrow> pmip_entry" where
  "left_entry e = e\<lparr>e_type := BCE_NO_ENTRY, e_mn_addr := mn_addr e\<rparr>"

definition unregistered :: "config \<Rightarrow> nat \<Rightarrow> sys \<Rightarrow> sys" where
  "unregistered conf p s = s\<lparr>heap := (heap s)(p := left_entry (heap s p)),
     out := out s @ mag_route_removal conf (heap s p) @ uplink_removal (heap s p) s\<rparr>"

lemma mag_dereg_start:
  "p \<in> alive s \<Longrightarrow> mag_dereg conf en p propagate s =
     andThen (pmip_tunnel_del conf en (e_tunnel (heap s p)) (unregistered conf p s)) (\<lambda>(_, s).
       if propagate then send_pbu conf en (OurAddress conf) tszero p s else Done s)"
  by (simp add: mag_dereg_def cache_simps mn_addr_def mag_remove_route_eq unregistered_def left_entry_def uplink_removal_def emit_def Let_def mag_route_removal_def)

lemma mag_dereg_step:
  assumes "p \<in> alive s" "env_ok conf en" "tunnel_known conf (e_tunnel (heap s p)) s"
  shows "\<exists>s' e pkt. mag_dereg conf en p True s = Done s' \<and> entry_step p s s'
    \<and> e_mn_nai (heap s' p) = e_mn_nai (heap s p) \<and> e_mn_serv_mag_addr (heap s' p) = e_mn_serv_mag_addr (heap s p)
    \<and> (tq_inv (tqs s) \<longrightarrow> pending (tqs s') (TqBce p) = pending (tqs s) (TqBce p))
    \<and> mh_send_pbu True (tod en) (OurAddress conf) (LmaAddress conf) tszero 0 (left_entry (heap s p)) (seq s) = Done (0, e, seq s + 1, Some pkt)
    \<and> out s' = out s @ mag_route_removal conf (heap s p) @ uplink_removal (heap s p) s @ [SendMH pkt]"
proof -
  let ?u = "unregistered conf p s"
  have u: "entry_step p s ?u" by (simp add: unregistered_def left_entry_def entry_step_def)
  have "tunnel_known conf (e_tunnel (heap s p)) ?u" using assms(3) by (simp add: tunnel_known_def unregistered_def)
  then obtain r s1 where d: "pmip_tunnel_del conf en (e_tunnel (heap s p)) ?u = Done (r, s1)" using pmip_tunnel_del_Done by blast
  note f = pmip_tunnel_del_frame [OF d env_okD(3) [OF assms(2)]]
  have al: "p \<in> alive s1" using tun_frame_fields [OF f] assms(1) by (simp add: unregistered_def)
  obtain s' e pkt where s': "send_pbu conf en (OurAddress conf) tszero p s1 = Done s'" "pbu_sent p s1 s'"
      "mh_send_pbu True (tod en) (OurAddress conf) (LmaAddress conf) tszero 0 (heap s1 p) (seq s1) = Done (0, e, seq s1 + 1, Some pkt)"
      "out s' = out s1 @ [SendMH pkt]"
    using send_pbu_sent [OF al env_okD(1) [OF assms(2)]] by blast
  have "mag_dereg conf en p True s = Done s'" using d s'(1) by (simp add: mag_dereg_start [OF assms(1)])
  moreover have "entry_step p s s'"
    by (rule entry_step_trans [OF u entry_step_trans [OF entry_step_tun [OF f] pbu_sent_step [OF s'(2)]]])
  moreover have "heap s1 p = left_entry (heap s p)" "seq s1 = seq s" "out s1 = out s @ mag_route_removal conf (heap s p) @ uplink_removal (heap s p) s"
    using tun_frame_fields [OF f] f by (auto simp: unregistered_def tun_frame_def)
  moreover have "e_mn_nai (heap s' p) = e_mn_nai (heap s p) \<and> e_mn_serv_mag_addr (heap s' p) = e_mn_serv_mag_addr (heap s p)"
    using s'(2) tun_frame_fields [OF f] by (auto simp: pbu_sent_def unregistered_def left_entry_def)
  moreover have "tq_inv (tqs s) \<longrightarrow> pending (tqs s') (TqBce p) = pending (tqs s) (TqBce p)"
    using s'(2) f by (auto simp: pbu_sent_def tun_frame_def unregistered_def)
  ultimately show ?thesis using s'(3,4) by auto
qed

text \<open>Deleting the binding afterwards.\<close>

lemma gateway_inv_delete:
  assumes "gateway_inv conf s" "p \<in> cached s" "entry_step p (s\<lparr>tqs := q, held := l\<rparr>) s1"
    and "tq_inv q" "\<And>x. x \<noteq> p \<Longrightarrow> pending q (TqBce x) = pending (tqs s) (TqBce x)" "\<And>x. x \<noteq> p \<Longrightarrow> task q (TqBce x) = task (tqs s) (TqBce x)"
    and "bce_key (heap s1 p) = bce_key (heap s p)" "EntryLock p \<notin> set h"
  shows "pmip_bce_delete p (s1\<lparr>held := h\<rparr>) = Done (deleted p (s1\<lparr>held := h\<rparr>))"
    "gateway_inv conf (deleted p (s1\<lparr>held := h\<rparr>)\<lparr>held := []\<rparr>)" "lookup (deleted p (s1\<lparr>held := h\<rparr>)) = (lookup s)(bce_key (heap s p) := None)"
proof -
  note I = gateway_invD [OF assms(1)] and S = assms(3) [unfolded entry_step_def]
  let ?t = "s1\<lparr>held := h\<rparr>"
  have qi: "tq_inv (tqs s1)" "x \<noteq> p \<Longrightarrow> pending (tqs s1) (TqBce x) = pending (tqs s) (TqBce x)" for x using S assms(4,5) by simp_all
  have kx: "bce_key (heap ?t x) = bce_key (heap s x)" for x using S assms(7) by (cases "x = p") simp_all
  have px: "x \<in> alive s" if "pending (tqs ?t) (TqBce x) \<noteq> None" for x
    using that qi(2) [of x] I(6) [of x] I(7) [of x] I(7) [OF assms(2)] by (cases "x = p") simp_all
  have ct: "cache_inv ?t" by (rule cache_inv_frame [OF I(1)]) (use S qi(1) kx px in simp_all)
  have lt: "lookup ?t = lookup s" by (rule lookup_frame [OF I(1)]) (use S kx in simp_all)
  have pc: "p \<in> cached ?t" using S assms(2) by simp
  note D = deleted_inv [OF ct pc]
  show "pmip_bce_delete p ?t = Done (deleted p ?t)"
    by (rule pmip_bce_delete_deleted) (use S I(7) [OF assms(2)] assms(8) in simp_all)
  show "lookup (deleted p ?t) = (lookup s)(bce_key (heap s p) := None)" using D lt kx by simp
  have B: "gw_binding conf (heap (deleted p ?t) x) (task (tqs (deleted p ?t)) (TqBce x))" if "x \<in> cached s - {p}" for x
    using that I(5) [of x] S assms(6) by (simp add: deleted_def)
  have P: "pending (tqs (deleted p ?t)) (TqBce x) \<noteq> None \<longleftrightarrow> x \<in> cached s - {p}" for x
    using D qi(2) [of x] I(6) [of x] by (cases "x = p") simp_all
  have "cached (deleted p ?t) = cached s - {p}" using D S by simp
  then show "gateway_inv conf (deleted p ?t\<lparr>held := []\<rparr>)"
    using D B P unfolding gateway_inv_def by simp
qed

end
