(* ===== verification/Mag_Steps.thy ===== *)
theory Mag_Steps
  imports Mag_Binding
begin

text \<open>
  The state machine of the gateway: what each event does to a binding in each state, the handlers of its
  timers, and the invariant of the states it reaches.
\<close>

section \<open>Looking a binding up\<close>

abbreviation locked :: "nat \<Rightarrow> sys \<Rightarrow> sys" where
  "locked p s \<equiv> s\<lparr>held := [EntryLock p, PmipLock, FsmLock]\<rparr>"

lemma gateway_lookup:
  assumes "gateway_inv conf s" "lookup s (n, OurAddress conf) = Some p"
  shows "p \<in> cached s" "p \<in> alive s" "e_mn_nai (heap s p) = n" "e_mn_serv_mag_addr (heap s p) = OurAddress conf"
    "e_type (heap s p) = BCE_TEMP \<or> e_type (heap s p) = BCE_PMIP"
    "pmip_cache_exists n (OurAddress conf) s = Done (e_type (heap s p), s)"
    "pmip_cache_get n (OurAddress conf) (s\<lparr>held := [FsmLock]\<rparr>) = Done (Some p, locked p s)"
proof -
  note I = gateway_invD [OF assms(1)]
  show p: "p \<in> cached s" and "e_mn_nai (heap s p) = n" "e_mn_serv_mag_addr (heap s p) = OurAddress conf"
    using lookup_Some_iff [OF I(1)] assms(2) by (auto simp: bce_key_def)
  show al: "p \<in> alive s" by (rule I(7) [OF p])
  show "e_type (heap s p) = BCE_TEMP \<or> e_type (heap s p) = BCE_PMIP" using I(5) [OF p] by (simp add: gw_binding_def)
  show "pmip_cache_exists n (OurAddress conf) s = Done (e_type (heap s p), s)"
    using pmip_cache_exists_eq [of s n "OurAddress conf"] assms(2) al I(3) by simp
  show "pmip_cache_get n (OurAddress conf) (s\<lparr>held := [FsmLock]\<rparr>) = Done (Some p, locked p s)"
    using pmip_cache_get_hit [of "s\<lparr>held := [FsmLock]\<rparr>" n "OurAddress conf" p] assms(2) al by simp
qed

lemma gateway_lookup_None:
  assumes "gateway_inv conf s" "lookup s (n, OurAddress conf) = None"
  shows "pmip_cache_exists n (OurAddress conf) s = Done (-1, s)"
  using pmip_cache_exists_eq [of s n "OurAddress conf"] assms gateway_invD(3) [OF assms(1)] by simp

lemma unlock_entry: "held s = [EntryLock p, PmipLock, FsmLock] \<Longrightarrow> pmipcache_release_entry p s = s\<lparr>held := [FsmLock]\<rparr>"
  by (simp add: pmipcache_release_entry_def release_def)

lemma unlock_fsm: "release FsmLock (s\<lparr>held := [FsmLock]\<rparr>) = s\<lparr>held := []\<rparr>"
  by (simp add: release_def)

definition mine :: "config \<Rightarrow> msg_info \<Rightarrow> bool" where
  "mine conf info \<longleftrightarrow> (i_msg_event info = hasPBA \<longrightarrow> i_dst info = MagAddressEgress conf 0)"

lemma mag_fsm_known:
  assumes "gateway_inv conf s" "lookup s (i_mn_nai info, OurAddress conf) = Some p" "mine conf info"
  shows "mag_fsm conf en info s =
    andThen (if e_type (heap s p) = BCE_TEMP then mag_fsm_temp conf en info (s\<lparr>held := [FsmLock]\<rparr>)
             else mag_fsm_pmip conf en info (s\<lparr>held := [FsmLock]\<rparr>)) (\<lambda>s. Done (release FsmLock s))"
  using gateway_lookup(5,6) [OF assms(1,2)] assms(3) gateway_invD(3) [OF assms(1)]
  by (auto simp: mag_fsm_def mine_def acquire_def)

lemma mag_fsm_unknown:
  assumes "gateway_inv conf s" "lookup s (i_mn_nai info, OurAddress conf) = None" "mine conf info"
  shows "mag_fsm conf en info s =
    andThen (mag_fsm_no_entry conf en info (s\<lparr>held := [FsmLock]\<rparr>)) (\<lambda>s. Done (release FsmLock s))"
  using gateway_lookup_None [OF assms(1,2)] assms(3) gateway_invD(3) [OF assms(1)]
  by (auto simp: mag_fsm_def mine_def acquire_def)

section \<open>Acknowledgements\<close>

definition granted :: "msg_info \<Rightarrow> nat \<Rightarrow> timespec \<Rightarrow> sys \<Rightarrow> sys" where
  "granted info p l s = (locked p s)\<lparr>tqs := del_task (TqBce p) (tqs s),
     heap := (heap s)(p := (heap s p)\<lparr>e_PBA_flags := i_PBA_flags info, e_lifetime := l\<rparr>)\<rparr>"

lemma granted_step:
  assumes "tq_inv (tqs s)"
  shows "entry_step p (s\<lparr>tqs := tqs s, held := [EntryLock p, PmipLock, FsmLock]\<rparr>) (granted info p l s)"
  using assms by (simp add: granted_def entry_step_def tq.invar_del tq.pend_del)

lemma end_registration_slot:
  assumes "mag_end_registration conf en p iif s = Done s'" "p \<in> alive s"
  shows "slot_ok conf (LmaAddress conf) s"
proof -
  let ?s = "s\<lparr>heap := (heap s)(p := (heap s p)\<lparr>e_type := BCE_PMIP, e_n_rets_counter := MaxMessageRetransmissions conf, e_add_time := now en\<rparr>),
     tqs := add_task_abs (tsadd (now en) (e_lifetime (heap s p))) (TqBce p) Bce_expired (tqs s)\<rparr>"
  obtain x where "pmip_tunnel_add conf en (OurAddress conf) (LmaAddress conf) iif ?s = Done x"
    using assms by (auto simp: mag_end_registration_def cache_simps andThen_Done_iff)
  then have "slot_ok conf (LmaAddress conf) ?s" using pmip_tunnel_add_Done_iff by (metis prod.exhaust)
  then show ?thesis using slot_ok_cong [of ?s s] by simp
qed

lemma pba_lifetime_bounds: "0 \<le> l \<Longrightarrow> 0 \<le> pba_lifetime l" "pba_lifetime l \<le> l" "1 < l \<Longrightarrow> pba_lifetime l < l \<and> 0 < pba_lifetime l"
  by (auto simp: pba_lifetime_def)

lemma pba_completes:
  assumes "gateway_inv conf s" "env_ok conf en" "lookup s (i_mn_nai info, OurAddress conf) = Some p" "e_type (heap s p) = BCE_TEMP"
    and "i_msg_event info = hasPBA" "i_dst info = MagAddressEgress conf 0" "0 \<le> tv_sec (i_lifetime info)"
    and "is_pba_is_response_to_last_pbu_sent info (heap s p)" "slot_ok conf (LmaAddress conf) s"
  obtains t s1 where "mag_fsm conf en info s = Done (s1\<lparr>held := []\<rparr>)" "gateway_inv conf (s1\<lparr>held := []\<rparr>)"
    "lookup (s1\<lparr>held := []\<rparr>) = lookup s"
    "completed conf en p t (granted info p (TS (pba_lifetime (tv_sec (i_lifetime info))) (tv_nsec (e_lifetime (heap s p)))) s) s1"
proof -
  note I = gateway_invD [OF assms(1)] and L = gateway_lookup [OF assms(1,3)]
  let ?l = "TS (pba_lifetime (tv_sec (i_lifetime info))) (tv_nsec (e_lifetime (heap s p)))"
  let ?g = "granted info p ?l s"
  have m: "mine conf info" using assms(5,6) by (simp add: mine_def)
  have g: "p \<in> alive ?g" "0 \<le> tv_sec (e_lifetime (heap ?g p))" "slot_ok conf (LmaAddress conf) ?g" "tq_inv (tqs ?g)"
    using L(2) pba_lifetime_bounds(1) [OF assms(7)] slot_ok_cong [of ?g s] assms(9) I(4) by (simp_all add: granted_def tq.invar_del)
  obtain t s1 where s1: "mag_end_registration conf en p (i_iif info) ?g = Done s1" "completed conf en p t ?g s1"
    using end_registration_completed [OF g(1) assms(2) g(2,3)] by blast
  note C = completedD [OF s1(2)]
  have st: "entry_step p (s\<lparr>tqs := tqs s, held := [EntryLock p, PmipLock, FsmLock]\<rparr>) s1"
    by (rule entry_step_trans [OF granted_step [OF I(4)] C(1)])
  have h1: "held s1 = [EntryLock p, PmipLock, FsmLock]" using st by (simp add: entry_step_def)
  have fs: "mag_fsm conf en info s = Done (s1\<lparr>held := []\<rparr>)"
    using s1(1) L(2) assms(4,5,8) unlock_entry [OF h1]
    by (simp add: mag_fsm_known [OF assms(1,3) m] mag_fsm_temp_def L(7) nonnull_def deref_alive modify_alive granted_def release_def)
  have "gw_binding conf (heap s1 p) (task (tqs s1) (TqBce p))" "e_mn_nai (heap s1 p) = e_mn_nai (heap s p)"
      "pending (tqs s1) (TqBce p) \<noteq> None"
    using C(2,3,4) g(4) L(4) by (simp_all add: completed_entry_def granted_def gw_binding_def)
  with gateway_inv_step [OF assms(1) L(1) st I(4)] fs s1(2) show ?thesis using that by blast
qed

text \<open>A message that does not answer the last update changes nothing.\<close>

lemma pba_unmatched:
  assumes "gateway_inv conf s" "lookup s (i_mn_nai info, OurAddress conf) = Some p" "i_msg_event info = hasPBA"
    and "\<not> is_pba_is_response_to_last_pbu_sent info (heap s p)"
  shows "mag_fsm conf en info s = Done s"
proof (cases "i_dst info = MagAddressEgress conf 0")
  case True
  then have m: "mine conf info" by (simp add: mine_def)
  note I = gateway_invD [OF assms(1)] and L = gateway_lookup [OF assms(1,2)]
  have u: "pmipcache_release_entry p (locked p s) = s\<lparr>held := [FsmLock]\<rparr>" using unlock_entry [of "locked p s" p] by simp
  have "s\<lparr>held := []\<rparr> = s" using I(3) by simp
  then show ?thesis
    using L(2,5) assms(3,4) u unlock_fsm [of s]
    by (auto simp: mag_fsm_known [OF assms(1,2) m] mag_fsm_temp_def mag_fsm_pmip_def L(7) nonnull_def deref_alive Let_def)
next
  case False
  then show ?thesis using assms(3) by (simp add: mag_fsm_def)
qed

section \<open>Events of a registered node\<close>

text \<open>The work of an event between locking and unlocking the entry.\<close>

definition pmip_work :: "config \<Rightarrow> env \<Rightarrow> msg_info \<Rightarrow> nat \<Rightarrow> sys \<Rightarrow> sys outcome" where
  "pmip_work conf en info p s =
     (if i_msg_event info = hasPBA then
        if is_pba_is_response_to_last_pbu_sent info (heap s p) then
          mag_end_registration_no_new_tunnel conf en p (i_iif info)
            (s\<lparr>tqs := del_task (TqBce p) (tqs s), heap := (heap s)(p := (heap s p)\<lparr>e_PBA_flags := i_PBA_flags info,
               e_lifetime := TS (pba_lifetime (tv_sec (i_lifetime info))) 0\<rparr>)\<rparr>)
        else Done s
      else if i_msg_event info = hasNA then
        mag_force_update_registration conf en p (i_iif info)
          (s\<lparr>heap := (heap s)(p := (heap s p)\<lparr>e_n_rets_counter := MaxMessageRetransmissions conf\<rparr>), tqs := del_task (TqBce p) (tqs s)\<rparr>)
      else andThen (mag_kickoff_ra en p s) (mag_force_update_registration conf en p (i_iif info)))"

lemma mag_fsm_pmip_work:
  assumes "gateway_inv conf s" "lookup s (i_mn_nai info, OurAddress conf) = Some p" "mine conf info" "e_type (heap s p) = BCE_PMIP"
    and "i_msg_event info \<in> {hasPBA, hasNA, hasWLCCP, hasODTONELinkEvent}"
  shows "mag_fsm conf en info s = andThen (pmip_work conf en info p (locked p s)) (\<lambda>s. Done (release FsmLock (pmipcache_release_entry p s)))"
proof -
  note L = gateway_lookup [OF assms(1,2)]
  show ?thesis
    using L(2) assms(4,5)
    by (auto simp: mag_fsm_known [OF assms(1-3)] mag_fsm_pmip_def L(7) nonnull_def deref_alive modify_alive Let_def pmip_work_def
        andThen_assoc)
qed

definition timed :: "config \<Rightarrow> sys \<Rightarrow> nat \<Rightarrow> sys \<Rightarrow> bool" where
  "timed conf s p s1 \<longleftrightarrow> entry_step p (s\<lparr>tqs := tqs s, held := [EntryLock p, PmipLock, FsmLock]\<rparr>) s1
     \<and> e_mn_nai (heap s1 p) = e_mn_nai (heap s p) \<and> gw_binding conf (heap s1 p) (task (tqs s1) (TqBce p))
     \<and> e_type (heap s1 p) = BCE_PMIP \<and> pending (tqs s1) (TqBce p) \<noteq> None"

lemma awaits_timed:
  assumes "gateway_inv conf s" "p \<in> cached s" "e_type (heap s p) = BCE_PMIP" "awaits conf en p s0 s1"
    and "entry_step p (s\<lparr>tqs := tqs s, held := [EntryLock p, PmipLock, FsmLock]\<rparr>) s0" "heap s0 p = (heap s p)\<lparr>e_n_rets_counter := c\<rparr>"
  shows "timed conf s p s1"
proof -
  note I = gateway_invD [OF assms(1)] and B = gateway_invD(5) [OF assms(1,2)]
  have A: "entry_step p s0 s1" "task (tqs s1) (TqBce p) = Some Retrans_pbu"
      "tq_inv (tqs s0) \<longrightarrow> pending (tqs s1) (TqBce p) = Some (tsadd (now en) (RetransmissionTimeOut conf))"
      "\<exists>ts v. heap s1 p = (heap s0 p)\<lparr>e_seqno_out := ucast (seq s0), e_timestamp := ts, e_mh_vec := v, e_add_time := now en\<rparr> \<and> v \<noteq> []"
    using assms(4) unfolding awaits_def by blast+
  have q: "tq_inv (tqs s0)" using assms(5) I(4) by (simp add: entry_step_def)
  show ?thesis
    using A q B assms(3,6) entry_step_trans [OF assms(5) A(1)] by (auto simp: timed_def gw_binding_def)
qed

lemma pmip_work_timed:
  assumes "gateway_inv conf s" "env_ok conf en" "p \<in> cached s" "e_type (heap s p) = BCE_PMIP"
    and "i_msg_event info \<in> {hasPBA, hasNA, hasWLCCP, hasODTONELinkEvent}" "0 \<le> tv_sec (i_lifetime info)"
  shows "\<exists>s1. pmip_work conf en info p (locked p s) = Done s1 \<and> timed conf s p s1"
proof -
  note I = gateway_invD [OF assms(1)] and B = gateway_invD(5) [OF assms(1,3)]
  have al: "p \<in> alive s" by (rule I(7) [OF assms(3)])
  let ?k = "s\<lparr>tqs := tqs s, held := [EntryLock p, PmipLock, FsmLock]\<rparr>"
  consider "i_msg_event info = hasPBA" "is_pba_is_response_to_last_pbu_sent info (heap s p)"
    | "i_msg_event info = hasPBA" "\<not> is_pba_is_response_to_last_pbu_sent info (heap s p)"
    | "i_msg_event info = hasNA" | "i_msg_event info = hasWLCCP \<or> i_msg_event info = hasODTONELinkEvent"
    using assms(5) by auto
  then show ?thesis
  proof cases
    case 1
    let ?l = "TS (pba_lifetime (tv_sec (i_lifetime info))) 0"
    let ?g = "granted info p ?l s"
    have g: "p \<in> alive ?g" "0 \<le> tv_sec (e_lifetime (heap ?g p))" "tq_inv (tqs ?g)"
      using al pba_lifetime_bounds(1) [OF assms(6)] I(4) by (simp_all add: granted_def tq.invar_del)
    obtain s1 where s1: "mag_end_registration_no_new_tunnel conf en p (i_iif info) ?g = Done s1" "entry_step p ?g s1"
        "heap s1 p = (heap ?g p)\<lparr>e_type := BCE_PMIP, e_n_rets_counter := MaxMessageRetransmissions conf, e_add_time := now en\<rparr>"
        "task (tqs s1) (TqBce p) = Some Bce_expired" "pending (tqs s1) (TqBce p) \<noteq> None"
      using end_registration_again [OF g(1) assms(2) g(2)] g(3) by fastforce
    then have "timed conf s p s1"
      using entry_step_trans [OF granted_step [OF I(4)] s1(2)] B by (simp add: timed_def gw_binding_def granted_def)
    then show ?thesis using s1(1) 1 by (simp add: pmip_work_def granted_def)
  next
    case 2
    then show ?thesis using B assms(4) I(6) [of p] assms(3) by (simp add: pmip_work_def timed_def)
  next
    case 3
    let ?s = "(locked p s)\<lparr>heap := (heap s)(p := (heap s p)\<lparr>e_n_rets_counter := MaxMessageRetransmissions conf\<rparr>), tqs := del_task (TqBce p) (tqs s)\<rparr>"
    have st: "entry_step p ?k ?s" using I(4) by (simp add: entry_step_def tq.invar_del tq.pend_del)
    have "p \<in> alive ?s" "tq_inv (tqs ?s)" using al I(4) by (simp_all add: tq.invar_del)
    from force_update_awaits [OF this(1) assms(2) this(2)] show ?thesis
      using 3 awaits_timed [OF assms(1,3,4) _ st, of en _ "MaxMessageRetransmissions conf"] by (auto simp: pmip_work_def)
  next
    case 4
    let ?s = "(locked p s)\<lparr>out := out s @ [SendRA (e_link (heap s p)) (e_mn_link_local_addr (heap s p)) (ra_bytes en p (locked p s))]\<rparr>"
    have st: "entry_step p ?k ?s" by (simp add: entry_step_def)
    have "p \<in> alive ?s" "tq_inv (tqs ?s)" using al I(4) by simp_all
    from force_update_awaits [OF this(1) assms(2) this(2)] show ?thesis
      using 4 al env_okD(1) [OF assms(2)] awaits_timed [OF assms(1,3,4) _ st, of en _ "e_n_rets_counter (heap s p)"]
      by (auto simp: pmip_work_def kickoff_ra_eq)
  qed
qed

lemma pmip_event:
  assumes "gateway_inv conf s" "env_ok conf en" "lookup s (i_mn_nai info, OurAddress conf) = Some p" "mine conf info"
    and "e_type (heap s p) = BCE_PMIP" "i_msg_event info \<in> {hasPBA, hasNA, hasWLCCP, hasODTONELinkEvent}" "0 \<le> tv_sec (i_lifetime info)"
  shows "\<exists>s1. mag_fsm conf en info s = Done (s1\<lparr>held := []\<rparr>) \<and> timed conf s p s1 \<and> gateway_inv conf (s1\<lparr>held := []\<rparr>)
    \<and> lookup (s1\<lparr>held := []\<rparr>) = lookup s"
proof -
  note L = gateway_lookup [OF assms(1,3)]
  obtain s1 where s1: "pmip_work conf en info p (locked p s) = Done s1" "timed conf s p s1"
    using pmip_work_timed [OF assms(1,2) L(1) assms(5-7)] by blast
  then have t: "entry_step p (s\<lparr>tqs := tqs s, held := [EntryLock p, PmipLock, FsmLock]\<rparr>) s1"
     "e_mn_nai (heap s1 p) = e_mn_nai (heap s p)" "gw_binding conf (heap s1 p) (task (tqs s1) (TqBce p))" "pending (tqs s1) (TqBce p) \<noteq> None"
    unfolding timed_def by blast+
  have h1: "held s1 = [EntryLock p, PmipLock, FsmLock]" using t(1) by (simp add: entry_step_def)
  note G = gateway_inv_step [OF assms(1) L(1) t(1) gateway_invD(4) [OF assms(1)] refl refl t(2-4)]
  show ?thesis
    using s1 G unlock_entry [OF h1] by (auto simp: mag_fsm_pmip_work [OF assms(1,3,4,5,6)] release_def)
qed

section \<open>Detachment\<close>

lemma mag_dereg_known:
  assumes "mag_dereg conf en p propagate s = Done s'" "p \<in> alive s"
  shows "tunnel_known conf (e_tunnel (heap s p)) s"
proof -
  obtain x where "pmip_tunnel_del conf en (e_tunnel (heap s p)) (unregistered conf p s) = Done x"
    using assms by (auto simp: mag_dereg_start andThen_Done_iff)
  then have "tunnel_known conf (e_tunnel (heap s p)) (unregistered conf p s)" using pmip_tunnel_del_Done_iff by (metis prod.exhaust)
  then show ?thesis by (simp add: tunnel_known_def unregistered_def)
qed

lemma mag_fsm_dereg_start:
  assumes "gateway_inv conf s" "lookup s (i_mn_nai info, OurAddress conf) = Some p" "e_type (heap s p) = BCE_PMIP" "i_msg_event info = hasDEREG"
  shows "mag_fsm conf en info s = andThen (mag_dereg conf en p True (locked p s)) (\<lambda>s.
    andThen (pmip_bce_delete p (pmipcache_release_entry p s)) (\<lambda>s. Done (release FsmLock s)))"
proof -
  note L = gateway_lookup [OF assms(1,2)]
  have "mine conf info" using assms(4) by (simp add: mine_def)
  from mag_fsm_known [OF assms(1,2) this] show ?thesis
    using assms(3,4) by (simp add: mag_fsm_pmip_def L(7) nonnull_def Let_def andThen_assoc)
qed

lemma detaches:
  assumes "gateway_inv conf s" "env_ok conf en" "lookup s (i_mn_nai info, OurAddress conf) = Some p" "e_type (heap s p) = BCE_PMIP"
    and "i_msg_event info = hasDEREG" "tunnel_known conf (e_tunnel (heap s p)) s"
  obtains s' e pkt where "mag_fsm conf en info s = Done s'" "gateway_inv conf s'" "p \<notin> alive s'"
    "lookup s' = (lookup s)((i_mn_nai info, OurAddress conf) := None)"
    "mh_send_pbu True (tod en) (OurAddress conf) (LmaAddress conf) tszero 0 (left_entry (heap s p)) (seq s) = Done (0, e, seq s + 1, Some pkt)"
    "out s' = out s @ mag_route_removal conf (heap s p) @ uplink_removal (heap s p) s @ [SendMH pkt]"
proof -
  note I = gateway_invD [OF assms(1)] and L = gateway_lookup [OF assms(1,3)]
  have al: "p \<in> alive (locked p s)" using L(2) by simp
  have "tunnel_known conf (e_tunnel (heap (locked p s) p)) (locked p s)" using assms(6) by (simp add: tunnel_known_def)
  from mag_dereg_step [OF al assms(2) this] obtain s1 e pkt where s1: "mag_dereg conf en p True (locked p s) = Done s1"
      "entry_step p (locked p s) s1" "e_mn_nai (heap s1 p) = e_mn_nai (heap s p)" "e_mn_serv_mag_addr (heap s1 p) = e_mn_serv_mag_addr (heap s p)"
      "mh_send_pbu True (tod en) (OurAddress conf) (LmaAddress conf) tszero 0 (left_entry (heap s p)) (seq s) = Done (0, e, seq s + 1, Some pkt)"
      "out s1 = out s @ mag_route_removal conf (heap s p) @ uplink_removal (heap s p) s @ [SendMH pkt]"
    by (auto simp: uplink_removal_def)
  have st: "entry_step p (s\<lparr>tqs := tqs s, held := [EntryLock p, PmipLock, FsmLock]\<rparr>) s1" using s1(2) by simp
  have h1: "held s1 = [EntryLock p, PmipLock, FsmLock]" using s1(2) by (simp add: entry_step_def)
  have k: "bce_key (heap s1 p) = bce_key (heap s p)" using s1(3,4) by (simp add: bce_key_def)
  note G = gateway_inv_delete [OF assms(1) L(1) st I(4) refl refl k, of "[FsmLock]", simplified]
  have r: "release FsmLock (deleted p (s1\<lparr>held := [FsmLock]\<rparr>)) = deleted p (s1\<lparr>held := [FsmLock]\<rparr>)\<lparr>held := []\<rparr>"
    by (simp add: release_def deleted_def)
  show ?thesis
  proof (rule that [of _ e pkt])
    show "mag_fsm conf en info s = Done (deleted p (s1\<lparr>held := [FsmLock]\<rparr>)\<lparr>held := []\<rparr>)"
      using s1(1) G(1) r unlock_entry [OF h1] by (simp add: mag_fsm_dereg_start [OF assms(1,3-5)])
    show "lookup (deleted p (s1\<lparr>held := [FsmLock]\<rparr>)\<lparr>held := []\<rparr>) = (lookup s)((i_mn_nai info, OurAddress conf) := None)"
      using G(3) L(3,4) by (simp add: bce_key_def)
    show "gateway_inv conf (deleted p (s1\<lparr>held := [FsmLock]\<rparr>)\<lparr>held := []\<rparr>)" by (rule G(2))
  qed (use s1(5,6) in \<open>simp_all add: deleted_def\<close>)
qed

section \<open>Attachment\<close>

definition temp_entry :: "config \<Rightarrow> msg_info \<Rightarrow> ip6mn_nai \<Rightarrow> in6_addr \<Rightarrow> pmip_entry" where
  "temp_entry conf info nai prefix = pmip_entry_zero\<lparr>e_type := BCE_TEMP, e_mn_nai := nai, e_mn_prefix := prefix, e_mn_suffix := i_mn_iid info,
     e_mn_hw_address := EUI64_to_EUI48 (i_mn_iid info), e_our_addr := OurAddress conf, e_mn_serv_mag_addr := OurAddress conf,
     e_mn_serv_lma_addr := LmaAddress conf, e_PBU_flags := IP6_MH_BU_ACK OR IP6_MH_BU_PR, e_link := i_iif info,
     e_mn_link_local_addr := link_local_addr (i_mn_iid info)\<rparr>"

definition arrived :: "config \<Rightarrow> env \<Rightarrow> msg_info \<Rightarrow> ip6mn_nai \<Rightarrow> in6_addr \<Rightarrow> hnp_cache \<Rightarrow> sys \<Rightarrow> sys" where
  "arrived conf en info nai prefix c s = (snd (pmip_cache_alloc en BCE_TEMP s))\<lparr>hnp := c,
     heap := (heap s)(brk s := temp_entry conf info nai prefix)\<rparr>"

lemma mag_new_mn_start:
  assumes "memok en" "mnid_hnp_map (radius_server en) (junk_addr en) (EUI64_to_EUI48 (i_mn_iid info)) (i_mn_nai info) (hnp s)
      = Done (prefix, nai, r, c)" "0 \<le> r"
  shows "mag_new_mn conf en info s = andThen (mag_start_registration conf en (brk s) (arrived conf en info nai prefix c s)) (\<lambda>s'.
     andThen (pmip_cache_add conf en (brk s) s') (\<lambda>(_, s'). Done s'))"
  using assms
  by (simp add: mag_new_mn_def pmip_cache_alloc_def nonnull_def modify_def mag_pmip_md_def Let_def arrived_def temp_entry_def
      pmip_entry_zero_def)

lemma arrived_props:
  assumes "gateway_inv conf s" "memok en"
  shows "cache_inv (arrived conf en info nai prefix c s)" "lookup (arrived conf en info nai prefix c s) = lookup s"
    "alive (arrived conf en info nai prefix c s) = insert (brk s) (alive s)" "brk s \<notin> cached s"
    "held (arrived conf en info nai prefix c s) = held s"
    "heap (arrived conf en info nai prefix c s) = (heap s)(brk s := temp_entry conf info nai prefix)"
    "out (arrived conf en info nai prefix c s) = out s" "seq (arrived conf en info nai prefix c s) = seq s"
    "g_pmip_hash (arrived conf en info nai prefix c s) = g_pmip_hash s"
    "pending (tqs (arrived conf en info nai prefix c s)) = pending (tqs s)" "last_BID (arrived conf en info nai prefix c s) = last_BID s"
    "q \<noteq> brk s \<Longrightarrow> task (tqs (arrived conf en info nai prefix c s)) (TqBce q) = task (tqs s) (TqBce q)"
proof -
  let ?a = "pmip_cache_alloc en BCE_TEMP s" and ?s = "arrived conf en info nai prefix c s"
  note I = gateway_invD [OF assms(1)]
  have a: "?a = (Some (brk s), snd ?a)" using assms(2) by (simp add: pmip_cache_alloc_def)
  note A = pmip_cache_alloc_inv [OF I(1) a]
  show nc: "brk s \<notin> cached s" using I(1) by (auto simp: cache_inv_def)
  have fr: "g_pmip_hash ?s = g_pmip_hash (snd ?a)" "alive ?s = alive (snd ?a)" "tqs ?s = tqs (snd ?a)"
    "\<And>q. q \<in> cached (snd ?a) \<Longrightarrow> bce_key (heap ?s q) = bce_key (heap (snd ?a) q)"
    using nc A by (auto simp: arrived_def)
  have pa: "q \<in> alive (snd ?a)" if "pending (tqs (snd ?a)) (TqBce q) \<noteq> None" for q using A that by (auto simp: cache_inv_def)
  show "cache_inv ?s"
    by (rule cache_inv_frame [OF conjunct1 [OF A] fr(1,2) _ _ _ _ fr(4)]) (use A pa fr(3) in \<open>auto simp: arrived_def cache_inv_def\<close>)
  show "lookup ?s = lookup s" using lookup_frame [OF conjunct1 [OF A] fr(1,4)] A by simp
  show "pending (tqs ?s) = pending (tqs s)" using A fr(3) by simp
qed (use assms(2) in \<open>auto simp: arrived_def pmip_cache_alloc_def\<close>)

end
