(* ===== verification/Mag_Attach.thy ===== *)
theory Mag_Attach
  imports Mag_Steps
begin

text \<open>
  Attachment of a node to the gateway, the timers of its bindings, and the invariant of the states the
  gateway reaches.
\<close>

section \<open>Attachment of a new node\<close>

text \<open>A node whose prefix is known and that has no binding gets one, waiting for the acknowledgement.\<close>

lemma attaches:
  assumes "gateway_inv conf s" "env_ok conf en" "lookup s (nai, OurAddress conf) = None"
    and "mnid_hnp_map (radius_server en) (junk_addr en) (EUI64_to_EUI48 (i_mn_iid info)) (i_mn_nai info) (hnp s) = Done (prefix, nai, r, c)" "0 \<le> r"
  obtains s' where "mag_new_mn conf en info (s\<lparr>held := [FsmLock]\<rparr>) = Done (s'\<lparr>held := [FsmLock]\<rparr>)" "gateway_inv conf s'"
    "lookup s' = (lookup s)((nai, OurAddress conf) \<mapsto> brk s)" "\<forall>q \<in> cached s. heap s' q = heap s q"
    "\<exists>ts v. heap s' (brk s) = (temp_entry conf info nai prefix)\<lparr>e_seqno_out := ucast (seq s), e_timestamp := ts, e_mh_vec := v, e_add_time := now en,
       e_BID := last_BID s + 1, e_n_rets_counter := MaxMessageRetransmissions conf\<rparr>"
    "pending (tqs s') (TqBce (brk s)) = Some (tsadd (now en) (RetransmissionTimeOut conf))" "task (tqs s') (TqBce (brk s)) = Some Retrans_pbu"
    "\<exists>e pkt. mh_send_pbu True (tod en) (MagAddressEgress conf 0) (LmaAddress conf) (TS 10 0) 0 (temp_entry conf info nai prefix) (seq s)
        = Done (0, e, seq s + 1, Some pkt) \<and> out s' = out s @ [SendMH pkt]
      \<and> heap s' (brk s) = e\<lparr>e_add_time := now en, e_BID := last_BID s + 1, e_n_rets_counter := MaxMessageRetransmissions conf\<rparr>"
    "g_tunnel_timer_table s' = g_tunnel_timer_table s"
proof -
  let ?p = "brk s" and ?s = "arrived conf en info nai prefix c (s\<lparr>held := [FsmLock]\<rparr>)" and ?k = "(nai, OurAddress conf)"
  note I = gateway_invD [OF assms(1)]
  have m: "memok en" by (rule env_okD(1) [OF assms(2)])
  have ar: "?s = (arrived conf en info nai prefix c s)\<lparr>held := [FsmLock]\<rparr>" using m by (simp add: arrived_def pmip_cache_alloc_def)
  note A = arrived_props [OF assms(1) m]
  have pa: "?p \<in> alive ?s" "?p \<notin> cached ?s" using A(3,4,9) by (simp_all add: ar)
  obtain s1 where s1: "mag_start_registration conf en ?p ?s = Done s1" "awaits conf en ?p ?s s1"
    using start_registration_awaits [OF pa(1) assms(2)] by blast
  have W: "entry_step ?p ?s s1" "task (tqs s1) (TqBce ?p) = Some Retrans_pbu"
      "tq_inv (tqs ?s) \<longrightarrow> pending (tqs s1) (TqBce ?p) = Some (tsadd (now en) (RetransmissionTimeOut conf))"
      "\<exists>pkt. out s1 = out ?s @ [SendMH pkt]"
    using s1(2) unfolding awaits_def by blast+
  obtain ts v where h1: "heap s1 ?p = (temp_entry conf info nai prefix)\<lparr>e_seqno_out := ucast (seq s), e_timestamp := ts, e_mh_vec := v, e_add_time := now en\<rparr>"
      "v \<noteq> []"
    using s1(2) A(6,8) unfolding awaits_def ar by auto
  note S = W(1) [unfolded entry_step_def]
  have cs: "cache_inv ?s" "lookup ?s = lookup s" using A(1,2) by (simp_all add: ar)
  note C = entry_step_cache [OF W(1) cs(1) _ pa(1)]
  have k1: "bce_key (heap s1 ?p) = ?k" "e_type (heap s1 ?p) = BCE_TEMP" "e_unreach (heap s1 ?p) = 0"
    by (simp_all add: h1(1) temp_entry_def bce_key_def pmip_entry_zero_def)
  have c1: "cache_inv s1" "lookup s1 = lookup s" "cached s1 = cached s" "?p \<in> alive s1" "?p \<notin> cached s1"
    using C cs(2) A(9) pa S by (auto simp: ar)
  have hl: "held s1 = [FsmLock]" "last_BID s1 = last_BID s" using S A(11) by (simp_all add: ar)
  obtain h where h: "pmip_cache_add conf en ?p s1 = Done (Some ?p, added conf en ?p h s1)"
      "pmip_hash_wf (\<lambda>q. bce_key (heap s1 q)) h" "mset (table_elems h) = add_mset ?p (mset (table_elems (g_pmip_hash s1)))"
    using pmip_cache_add_added [OF c1(1,4,5) _ m, of conf] k1(1) c1(2) assms(3) hl by auto
  let ?t = "added conf en ?p h s1"
  have D: "cache_inv ?t" "lookup ?t = (lookup s)(?k \<mapsto> ?p)" "cached ?t = insert ?p (cached s)"
    using added_inv [OF c1(1,4,5) _ h(2,3), of en conf] k1 c1(2,3) assms(3) by auto
  have T: "heap ?t = (heap s1)(?p := (temp_entry conf info nai prefix)\<lparr>e_seqno_out := ucast (seq s), e_timestamp := ts, e_mh_vec := v, e_add_time := now en,
        e_BID := last_BID s + 1, e_n_rets_counter := MaxMessageRetransmissions conf\<rparr>)" "out ?t = out s1" "tqs ?t = tqs s1" "held ?t = [FsmLock]"
    using k1(2,3) hl by (simp_all add: added_def Let_def h1(1) temp_entry_def pmip_entry_zero_def)
  have q0: "tq_inv (tqs ?s)" using cs(1) by (simp add: cache_inv_def)
  have H: "heap ?t q = heap s q" if "q \<in> cached s" for q using that A(4,6) S T(1) by (auto simp: ar)
  have tk: "task (tqs ?t) (TqBce q) = task (tqs s) (TqBce q)" if "q \<noteq> ?p" for q
    using S A(12) [OF that] T(3) that by (simp add: ar)
  have Bp: "gw_binding conf (heap ?t ?p) (task (tqs ?t) (TqBce ?p))" using T(1,3) W(2) h1(2) by (simp add: gw_binding_def temp_entry_def)
  have Bq: "gw_binding conf (heap ?t q) (task (tqs ?t) (TqBce q))" if "q \<in> cached s" for q
  proof -
    have "q \<noteq> ?p" using that A(4) by blast
    then show ?thesis using H [OF that] tk I(5) [OF that] by simp
  qed
  have B: "gw_binding conf (heap ?t q) (task (tqs ?t) (TqBce q))" if "q \<in> insert ?p (cached s)" for q using that Bp Bq by blast
  have P: "pending (tqs ?t) (TqBce q) \<noteq> None \<longleftrightarrow> q \<in> insert ?p (cached s)" for q
    using S A(10) I(6) [of q] T(3) W(3) q0 by (cases "q = ?p") (simp_all add: ar)
  obtain e pkt where ep: "mh_send_pbu True (tod en) (MagAddressEgress conf 0) (LmaAddress conf) (TS 10 0) 0 (temp_entry conf info nai prefix) (seq s)
        = Done (0, e, seq s + 1, Some pkt)" "out s1 = out s @ [SendMH pkt]" "heap s1 ?p = e\<lparr>e_add_time := now en\<rparr>"
      "g_tunnel_timer_table s1 = g_tunnel_timer_table s"
    using start_registration_sends [OF pa(1) assms(2) s1(1)] A(6,7,8) m by (auto simp: ar arrived_def pmip_cache_alloc_def)
  have hp: "heap ?t ?p = e\<lparr>e_add_time := now en, e_BID := last_BID s + 1, e_n_rets_counter := MaxMessageRetransmissions conf\<rparr>"
    using ep(3) k1(2,3) hl by (simp add: added_def Let_def)
  have out1: "\<exists>e pkt. mh_send_pbu True (tod en) (MagAddressEgress conf 0) (LmaAddress conf) (TS 10 0) 0 (temp_entry conf info nai prefix) (seq s)
        = Done (0, e, seq s + 1, Some pkt) \<and> out (?t\<lparr>held := []\<rparr>) = out s @ [SendMH pkt]
      \<and> heap (?t\<lparr>held := []\<rparr>) ?p = e\<lparr>e_add_time := now en, e_BID := last_BID s + 1, e_n_rets_counter := MaxMessageRetransmissions conf\<rparr>"
    using ep(1,2) T(2) hp by simp
  have new: "mag_new_mn conf en info (s\<lparr>held := [FsmLock]\<rparr>) = Done ?t"
    using mag_new_mn_start [OF m, of info "s\<lparr>held := [FsmLock]\<rparr>"] assms(4,5) s1(1) h(1) by simp
  show ?thesis
  proof (rule that)
    show "gateway_inv conf (?t\<lparr>held := []\<rparr>)" unfolding gateway_inv_def using D(1,3) B P by simp
    show "mag_new_mn conf en info (s\<lparr>held := [FsmLock]\<rparr>) = Done (?t\<lparr>held := []\<rparr>\<lparr>held := [FsmLock]\<rparr>)"
      using new T(4) by simp
    show "\<exists>e pkt. mh_send_pbu True (tod en) (MagAddressEgress conf 0) (LmaAddress conf) (TS 10 0) 0 (temp_entry conf info nai prefix) (seq s)
        = Done (0, e, seq s + 1, Some pkt) \<and> out (?t\<lparr>held := []\<rparr>) = out s @ [SendMH pkt]
      \<and> heap (?t\<lparr>held := []\<rparr>) ?p = e\<lparr>e_add_time := now en, e_BID := last_BID s + 1, e_n_rets_counter := MaxMessageRetransmissions conf\<rparr>"
      by (rule out1)
    show "g_tunnel_timer_table (?t\<lparr>held := []\<rparr>) = g_tunnel_timer_table s" using ep(4) by (simp add: added_def Let_def)
  qed (use D(2) H T W(2,3) q0 in auto)
qed


section \<open>Attachment reported by the link\<close>

definition link_event :: "hnp_cache \<Rightarrow> nat \<Rightarrow> byte list \<Rightarrow> int \<Rightarrow> msg_info" where
  "link_event c ev mac iif = msg_info_zero\<lparr>i_mn_iid := EUI48_to_EUI64 (mac48_addr mac), i_iif := iif,
     i_mn_nai := get_node_nai (mac48_addr mac) c, i_msg_event := ev\<rparr>"

lemma link_event_fields [simp]:
  "i_mn_iid (link_event c ev mac iif) = EUI48_to_EUI64 (mac48_addr mac)" "i_iif (link_event c ev mac iif) = iif"
  "i_msg_event (link_event c ev mac iif) = ev" "i_mn_nai (link_event c ev mac iif) = get_node_nai (mac48_addr mac) c"
  by (simp_all add: link_event_def)

lemma associate_eq:
  "msg_handler_associate conf en mac iif s = mag_fsm conf en (link_event (hnp s) hasODTONELinkEvent mac iif) s"
  "msg_handler_deassociate conf en mac iif s = mag_fsm conf en (link_event (hnp s) hasDEREG mac iif) s"
  by (simp_all add: msg_handler_associate_def msg_handler_deassociate_def link_event_def Let_def)

lemma mac48_zeros: "length mac = 6 \<Longrightarrow> take 10 (s6_addr (mac48_addr mac)) = replicate 10 0"
  by (auto simp: mac48_addr_def in6_of_def numeral_eq_Suc length_Suc_conv)

text \<open>The entry of the prefix cache for a hardware address.\<close>

definition hnp_entry :: "hnp_cache \<Rightarrow> in6_addr \<Rightarrow> (in6_addr \<times> ip6mn_nai) option" where
  "hnp_entry c mnid = map_option (\<lambda>j. (map_prefix (g_mn_hn_map c ! j), map_nai (g_mn_hn_map c ! j))) (hnp_search c mnid 0)"

lemma associate_attaches:
  assumes "gateway_inv conf s" "env_ok conf en" "length mac = 6" "hnp_entry (hnp s) (mac48_addr mac) = Some (prefix, nai)"
    and "lookup s (nai, OurAddress conf) = None"
  obtains s' where "msg_handler_associate conf en mac (g_ingress_iif conf) s = Done s'" "gateway_inv conf s'"
    "lookup s' = (lookup s)((nai, OurAddress conf) \<mapsto> brk s)" "\<forall>q \<in> cached s. heap s' q = heap s q"
    "\<exists>e pkt. mh_send_pbu True (tod en) (MagAddressEgress conf 0) (LmaAddress conf) (TS 10 0) 0
        (temp_entry conf (link_event (hnp s) hasODTONELinkEvent mac (g_ingress_iif conf)) nai prefix) (seq s)
        = Done (0, e, seq s + 1, Some pkt) \<and> out s' = out s @ [SendMH pkt]
      \<and> heap s' (brk s) = e\<lparr>e_add_time := now en, e_BID := last_BID s + 1, e_n_rets_counter := MaxMessageRetransmissions conf\<rparr>"
    "pending (tqs s') (TqBce (brk s)) = Some (tsadd (now en) (RetransmissionTimeOut conf))" "task (tqs s') (TqBce (brk s)) = Some Retrans_pbu"
    "g_tunnel_timer_table s' = g_tunnel_timer_table s"
    "\<exists>ts v. heap s' (brk s) = (temp_entry conf (link_event (hnp s) hasODTONELinkEvent mac (g_ingress_iif conf)) nai prefix)
       \<lparr>e_seqno_out := ucast (seq s), e_timestamp := ts, e_mh_vec := v, e_add_time := now en,
       e_BID := last_BID s + 1, e_n_rets_counter := MaxMessageRetransmissions conf\<rparr>"
proof -
  let ?i = "link_event (hnp s) hasODTONELinkEvent mac (g_ingress_iif conf)"
  obtain j where j: "hnp_search (hnp s) (mac48_addr mac) 0 = Some j" "prefix = map_prefix (g_mn_hn_map (hnp s) ! j)"
      "nai = map_nai (g_mn_hn_map (hnp s) ! j)"
    using assms(4) by (auto simp: hnp_entry_def)
  have mac: "EUI64_to_EUI48 (i_mn_iid ?i) = mac48_addr mac" using EUI48_left_inverse [OF mac48_zeros [OF assms(3)]] by simp
  have n: "i_mn_nai ?i = nai" using j by (simp add: get_node_nai_def mn_nai_hnp_map_def)
  have h: "mnid_hnp_map (radius_server en) (junk_addr en) (EUI64_to_EUI48 (i_mn_iid ?i)) (i_mn_nai ?i) (hnp s) = Done (prefix, nai, 10, hnp s)"
    using j mac by (simp add: mnid_hnp_map_def)
  have m: "mine conf ?i" "lookup s (i_mn_nai ?i, OurAddress conf) = None" using assms(5) n by (simp_all add: mine_def)
  show ?thesis
  proof (rule attaches [OF assms(1,2,5) h])
    fix s' assume s': "mag_new_mn conf en ?i (s\<lparr>held := [FsmLock]\<rparr>) = Done (s'\<lparr>held := [FsmLock]\<rparr>)" "gateway_inv conf s'"
    have "s'\<lparr>held := []\<rparr> = s'" using gateway_invD(3) [OF s'(2)] by (cases s') simp
    then have "msg_handler_associate conf en mac (g_ingress_iif conf) s = Done s'"
      using s'(1) unlock_fsm [of s'] by (simp add: associate_eq mag_fsm_unknown [OF assms(1) m(2,1)] mag_fsm_no_entry_def)
    moreover assume "lookup s' = (lookup s)((nai, OurAddress conf) \<mapsto> brk s)" "\<forall>q \<in> cached s. heap s' q = heap s q"
      "\<exists>e pkt. mh_send_pbu True (tod en) (MagAddressEgress conf 0) (LmaAddress conf) (TS 10 0) 0 (temp_entry conf ?i nai prefix) (seq s)
        = Done (0, e, seq s + 1, Some pkt) \<and> out s' = out s @ [SendMH pkt]
      \<and> heap s' (brk s) = e\<lparr>e_add_time := now en, e_BID := last_BID s + 1, e_n_rets_counter := MaxMessageRetransmissions conf\<rparr>"
      "pending (tqs s') (TqBce (brk s)) = Some (tsadd (now en) (RetransmissionTimeOut conf))" "task (tqs s') (TqBce (brk s)) = Some Retrans_pbu"
      "g_tunnel_timer_table s' = g_tunnel_timer_table s"
      "\<exists>ts v. heap s' (brk s) = (temp_entry conf ?i nai prefix)\<lparr>e_seqno_out := ucast (seq s), e_timestamp := ts, e_mh_vec := v, e_add_time := now en,
       e_BID := last_BID s + 1, e_n_rets_counter := MaxMessageRetransmissions conf\<rparr>"
    ultimately show thesis using that s'(2) by blast
  qed simp
qed

end
