(* ===== verification/Mag_Timers.thy ===== *)
theory Mag_Timers
  imports Mag_Attach
begin

text \<open>
  The timers of the gateway's bindings: retransmission of an update that is not acknowledged, and the
  reachability test and removal of a binding whose lifetime is over.
\<close>

section \<open>A timer of a binding fires\<close>

text \<open>The situation in which the handler of a binding's timer runs: the timer has been taken from the queue.\<close>

definition fired :: "config \<Rightarrow> sys \<Rightarrow> nat \<Rightarrow> (timer_id, timer_task) tqueue \<Rightarrow> bool" where
  "fired conf s p q \<longleftrightarrow> gateway_inv conf s \<and> p \<in> cached s \<and> tq_inv q \<and> curr q \<noteq> None \<and> task q = task (tqs s)
     \<and> pending q = (pending (tqs s))(TqBce p := None)"

lemma firedD:
  assumes "fired conf s p q"
  shows "gateway_inv conf s" "p \<in> cached s" "tq_inv q" "curr q \<noteq> None" "p \<in> alive s" "held s = []"
    "x \<noteq> p \<Longrightarrow> pending q (TqBce x) = pending (tqs s) (TqBce x)" "task q (TqBce x) = task (tqs s) (TqBce x)"
    "gw_binding conf (heap s p) (task (tqs s) (TqBce p))"
  using assms gateway_invD(3,5,7) unfolding fired_def by auto

lemma retrans_gives_up:
  assumes "fired conf s p q" "e_n_rets_counter (heap s p) = 0"
  shows "\<exists>s'. pmip_timer_retrans_pbu_handler conf en p (s\<lparr>tqs := q\<rparr>) = Done s' \<and> gateway_inv conf s'
    \<and> lookup s' = (lookup s)(bce_key (heap s p) := None) \<and> p \<notin> alive s' \<and> out s' = out s"
proof -
  note F = firedD [OF assms(1)]
  let ?t = "s\<lparr>tqs := q, heap := (heap s)(p := (heap s p)\<lparr>e_mh_vec := []\<rparr>), held := [PmipLock]\<rparr>"
  obtain c where c: "curr q = Some c" using F(4) by blast
  have st: "entry_step p (s\<lparr>tqs := q, held := [PmipLock]\<rparr>) ?t" by (simp add: entry_step_def)
  have k: "bce_key (heap ?t p) = bce_key (heap s p)" by (simp add: bce_key_def)
  note G = gateway_inv_delete [OF F(1,2) st F(3,7,8) k, of "[PmipLock]", simplified]
  have "pmip_timer_retrans_pbu_handler conf en p (s\<lparr>tqs := q\<rparr>) = Done (release PmipLock (deleted p ?t))"
    using c F(5,6) assms(2) G(1)
    by (simp add: pmip_timer_retrans_pbu_handler_def cache_simps task_interrupted_def release_def [of "EntryLock p"])
  moreover have "release PmipLock (deleted p ?t) = deleted p ?t\<lparr>held := []\<rparr>" by (simp add: release_def deleted_def)
  moreover have "p \<notin> alive (deleted p ?t)" "out (deleted p ?t) = out s" by (simp_all add: deleted_def)
  ultimately show ?thesis using G(2,3) by simp
qed

lemma retrans_resends:
  assumes "fired conf s p q" "env_ok conf en" "e_n_rets_counter (heap s p) \<noteq> 0" "e_mh_vec (heap s p) \<noteq> []"
  shows "\<exists>s' v pkt. pmip_timer_retrans_pbu_handler conf en p (s\<lparr>tqs := q\<rparr>) = Done s' \<and> gateway_inv conf s' \<and> lookup s' = lookup s
    \<and> v \<noteq> [] \<and> heap s' p = (heap s p)\<lparr>e_n_rets_counter := e_n_rets_counter (heap s p) - 1, e_seqno_out := ucast (seq s), e_mh_vec := v,
         e_add_time := now en\<rparr>
    \<and> task (tqs s') (TqBce p) = Some Retrans_pbu
    \<and> pending (tqs s') (TqBce p) = Some (tsadd (now en) (RetransmissionTimeOut conf)) \<and> out s' = out s @ [SendMH pkt]"
proof -
  note F = firedD [OF assms(1)]
  obtain c where c: "curr q = Some c" using F(4) by blast
  let ?e = "heap s p" and ?x = "tsadd (now en) (RetransmissionTimeOut conf)"
  obtain b bs where v: "e_mh_vec ?e = b # bs" using assms(4) by (cases "e_mh_vec ?e") auto
  define vec where "vec = put16 6 (htons (ucast (seq s))) b # bs"
  obtain pkt v' where m: "pmip_mh_send (OurAddress conf) (LmaAddress conf) vec (e_link ?e) = (pkt, v')" by fastforce
  have v': "v' \<noteq> []" using m by (auto simp: pmip_mh_send_def vec_def Let_def split: prod.splits)
  let ?e' = "?e\<lparr>e_n_rets_counter := e_n_rets_counter ?e - 1, e_seqno_out := ucast (seq s), e_mh_vec := v', e_add_time := now en\<rparr>"
  define t where "t = s\<lparr>seq := seq s + 1, heap := (heap s)(p := ?e'), out := out s @ [SendMH pkt],
     tqs := add_task_abs ?x (TqBce p) Retrans_pbu q, held := [EntryLock p, PmipLock]\<rparr>"
  have run: "pmip_timer_retrans_pbu_handler conf en p (s\<lparr>tqs := q\<rparr>) = Done (t\<lparr>held := []\<rparr>)"
    using c F(5,6) assms(3) m v
    by (simp add: pmip_timer_retrans_pbu_handler_def cache_simps task_interrupted_def get_new_pbu_sequence_number_def put_seqno_def
        vec_def arm_bce_def emit_def release_def t_def Let_def)
  have x: "tsisset ?x" by (rule env_okD(2) [OF assms(2)])
  have st: "entry_step p (s\<lparr>tqs := q, held := [EntryLock p, PmipLock]\<rparr>) t"
    using x by (simp add: t_def entry_step_def tq.invar_add tq.pend_add add_task_abs_fields)
  have P: "task (tqs t) (TqBce p) = Some Retrans_pbu" "pending (tqs t) (TqBce p) = Some ?x"
    using x F(3) by (simp_all add: t_def add_task_abs_fields tq.pend_add)
  have B: "gw_binding conf (heap t p) (task (tqs t) (TqBce p))" using F(9) v' P(1) by (simp add: t_def gw_binding_def)
  have n: "e_mn_nai (heap t p) = e_mn_nai ?e" "pending (tqs t) (TqBce p) \<noteq> None" using P by (simp_all add: t_def)
  note G = gateway_inv_step [OF F(1,2) st F(3,7,8) n(1) B n(2)]
  show ?thesis using run G P v' by (intro exI [of _ "t\<lparr>held := []\<rparr>"] exI [of _ v'] exI [of _ pkt]) (simp add: t_def)
qed

section \<open>Expiry of a registered binding\<close>

text \<open>While the counter is not used up the node is asked whether it is still there.\<close>

lemma expired_probes:
  assumes "fired conf s p q" "env_ok conf en" "is_mag conf" "\<not> is_ha conf" "e_n_rets_counter (heap s p) \<noteq> 0"
    and "task (tqs s) (TqBce p) = Some Bce_expired"
  shows "\<exists>s'. pmip_timer_bce_expired_handler conf en p (s\<lparr>tqs := q\<rparr>) = Done s' \<and> gateway_inv conf s' \<and> lookup s' = lookup s
    \<and> heap s' p = (heap s p)\<lparr>e_mn_addr := mn_addr (heap s p), e_add_time := now en, e_n_rets_counter := e_n_rets_counter (heap s p) - 1\<rparr>
    \<and> task (tqs s') (TqBce p) = Some Bce_expired
    \<and> pending (tqs s') (TqBce p) = Some (tsadd (now en) (RetransmissionTimeOut conf))
    \<and> out s' = out s @ [SendNS (e_link (heap s p)) (mn_addr (heap s p))]"
proof -
  note F = firedD [OF assms(1)]
  obtain c where c: "curr q = Some c" using F(4) by blast
  let ?e = "heap s p" and ?x = "tsadd (now en) (RetransmissionTimeOut conf)"
  let ?e' = "?e\<lparr>e_mn_addr := mn_addr ?e, e_add_time := now en, e_n_rets_counter := e_n_rets_counter ?e - 1\<rparr>"
  define t where "t = s\<lparr>heap := (heap s)(p := ?e'), out := out s @ [SendNS (e_link ?e) (mn_addr ?e)],
     tqs := add_task_abs ?x (TqBce p) Bce_expired q, held := [EntryLock p, PmipLock]\<rparr>"
  have run: "pmip_timer_bce_expired_handler conf en p (s\<lparr>tqs := q\<rparr>) = Done (t\<lparr>held := []\<rparr>)"
    using c F(5,6) assms(3-5)
    by (simp add: pmip_timer_bce_expired_handler_def cache_simps task_interrupted_def arm_bce_def emit_def release_def t_def mn_addr_def
        Let_def)
  have x: "tsisset ?x" by (rule env_okD(2) [OF assms(2)])
  have st: "entry_step p (s\<lparr>tqs := q, held := [EntryLock p, PmipLock]\<rparr>) t"
    using x by (simp add: t_def entry_step_def tq.invar_add tq.pend_add add_task_abs_fields)
  have P: "task (tqs t) (TqBce p) = Some Bce_expired" "pending (tqs t) (TqBce p) = Some ?x"
    using x F(3) by (simp_all add: t_def add_task_abs_fields tq.pend_add)
  have B: "gw_binding conf (heap t p) (task (tqs t) (TqBce p))" using F(9) P(1) assms(6) by (auto simp: t_def gw_binding_def)
  have n: "e_mn_nai (heap t p) = e_mn_nai ?e" "pending (tqs t) (TqBce p) \<noteq> None" using P by (simp_all add: t_def)
  note G = gateway_inv_step [OF F(1,2) st F(3,7,8) n(1) B n(2)]
  show ?thesis using run G P by (intro exI [of _ "t\<lparr>held := []\<rparr>"]) (simp add: t_def)
qed

text \<open>Afterwards the binding is removed as on a detachment.\<close>

lemma expired_start:
  assumes "fired conf s p q" "is_mag conf" "e_n_rets_counter (heap s p) = 0"
  shows "pmip_timer_bce_expired_handler conf en p (s\<lparr>tqs := q\<rparr>) =
    andThen (mag_dereg conf en p True (s\<lparr>tqs := q, held := [EntryLock p, PmipLock], heap := (heap s)(p := (heap s p)\<lparr>e_mh_vec := []\<rparr>)\<rparr>))
      (\<lambda>s. pmip_bce_delete p (pmipcache_release_entry p s))"
proof -
  note F = firedD [OF assms(1)]
  obtain c where c: "curr q = Some c" using F(4) by blast
  show ?thesis
    using c F(5,6) assms(2,3) by (simp add: pmip_timer_bce_expired_handler_def cache_simps task_interrupted_def Let_def)
qed

lemma expired_removes:
  assumes "fired conf s p q" "env_ok conf en" "is_mag conf" "e_n_rets_counter (heap s p) = 0" "tunnel_known conf (e_tunnel (heap s p)) s"
  shows "\<exists>s' e pkt. pmip_timer_bce_expired_handler conf en p (s\<lparr>tqs := q\<rparr>) = Done s' \<and> gateway_inv conf s'
    \<and> lookup s' = (lookup s)(bce_key (heap s p) := None) \<and> p \<notin> alive s'
    \<and> mh_send_pbu True (tod en) (OurAddress conf) (LmaAddress conf) tszero 0 (left_entry ((heap s p)\<lparr>e_mh_vec := []\<rparr>)) (seq s) = Done (0, e, seq s + 1, Some pkt)
    \<and> out s' = out s @ mag_route_removal conf (heap s p) @ uplink_removal (heap s p) s @ [SendMH pkt]"
proof -
  note F = firedD [OF assms(1)]
  let ?L = "[EntryLock p, PmipLock]"
  let ?s = "s\<lparr>tqs := q, held := ?L, heap := (heap s)(p := (heap s p)\<lparr>e_mh_vec := []\<rparr>)\<rparr>"
  have al: "p \<in> alive ?s" using F(5) by simp
  have "tunnel_known conf (e_tunnel (heap ?s p)) ?s" using assms(5) by (simp add: tunnel_known_def)
  from mag_dereg_step [OF al assms(2) this] obtain s1 e pkt where s1: "mag_dereg conf en p True ?s = Done s1" "entry_step p ?s s1"
      "e_mn_nai (heap s1 p) = e_mn_nai (heap s p)" "e_mn_serv_mag_addr (heap s1 p) = e_mn_serv_mag_addr (heap s p)"
      "mh_send_pbu True (tod en) (OurAddress conf) (LmaAddress conf) tszero 0 (left_entry (heap ?s p)) (seq s) = Done (0, e, seq s + 1, Some pkt)"
      "out s1 = out s @ mag_route_removal conf (heap ?s p) @ uplink_removal (heap ?s p) ?s @ [SendMH pkt]"
    by auto
  have st: "entry_step p (s\<lparr>tqs := q, held := ?L\<rparr>) s1"
    by (rule entry_step_trans [OF _ s1(2)]) (simp add: entry_step_def)
  have h1: "held s1 = ?L" using st by (simp add: entry_step_def)
  have k: "bce_key (heap s1 p) = bce_key (heap s p)" using s1(3,4) by (simp add: bce_key_def)
  note G = gateway_inv_delete [OF F(1,2) st F(3,7,8) k, of "[]", simplified]
  have "pmip_timer_bce_expired_handler conf en p (s\<lparr>tqs := q\<rparr>) = Done (deleted p (s1\<lparr>held := []\<rparr>))"
    using s1(1) G(1) release_entry_held [OF h1] by (simp add: expired_start [OF assms(1,3,4)])
  moreover have "deleted p (s1\<lparr>held := []\<rparr>)\<lparr>held := []\<rparr> = deleted p (s1\<lparr>held := []\<rparr>)" by (simp add: deleted_def)
  moreover have "mag_route_removal conf (heap ?s p) = mag_route_removal conf (heap s p)" "uplink_removal (heap ?s p) ?s = uplink_removal (heap s p) s"
    by (simp_all add: mag_route_removal_def uplink_removal_def mn_addr_def)
  moreover have "p \<notin> alive (deleted p (s1\<lparr>held := []\<rparr>))" "out (deleted p (s1\<lparr>held := []\<rparr>)) = out s1" by (simp_all add: deleted_def)
  ultimately show ?thesis using G(2,3) s1(5,6) by (intro exI [of _ "deleted p (s1\<lparr>held := []\<rparr>)"] exI [of _ e] exI [of _ pkt]) simp
qed


section \<open>The runner of the queue\<close>

lemma gateway_inv_curr [simp]: "gateway_inv conf (s\<lparr>tqs := (tqs s)\<lparr>curr := c\<rparr>\<rparr>) = gateway_inv conf s"
  by (simp add: gateway_inv_def cache_inv_curr curr_only)

lemma due_fired:
  assumes "gateway_inv conf s" "runner_pop (now en) (tqs s) = Some (TqBce p, q)"
  shows "fired conf s p q"
proof -
  note I = gateway_invD [OF assms(1)] and R = runner_pop_fields [OF assms(2)]
  have "pending (tqs s) (TqBce p) \<noteq> None" "pending q = (pending (tqs s))(TqBce p := None)" using tq.pop_Some [OF I(4) assms(2)] by auto
  then show ?thesis using assms(1) I(6) [of p] R tq.invar_pop [OF I(4) assms(2)] by (simp add: fired_def)
qed

text \<open>The lifetime timer of a binding of the gateway: what a due timer does, whichever it is.\<close>

lemma run_due_bce:
  assumes "gateway_inv conf s" "runner_pop (now en) (tqs s) = Some (TqBce p, q)"
  shows "run_due conf en s = andThen (if task (tqs s) (TqBce p) = Some Retrans_pbu then pmip_timer_retrans_pbu_handler conf en p (s\<lparr>tqs := q\<rparr>)
     else pmip_timer_bce_expired_handler conf en p (s\<lparr>tqs := q\<rparr>)) (\<lambda>s. Done (s\<lparr>tqs := (tqs s)\<lparr>curr := None\<rparr>\<rparr>))"
proof -
  have "fired conf s p q" by (rule due_fired [OF assms])
  note F = firedD [OF this]
  show ?thesis using F(8) [of p] F(9) assms(2) by (auto simp: run_due_def run_timer_def gw_binding_def)
qed

text \<open>A binding waits for an acknowledgement that does not come: its timer fires \<open>n\<close> times, the packets \<open>es\<close> are
  sent by it, and between the activations the rest of the gateway may work as long as it leaves the
  binding alone.\<close>

definition undisturbed :: "nat \<Rightarrow> sys \<Rightarrow> sys \<Rightarrow> bool" where
  "undisturbed p s s' \<longleftrightarrow> heap s' p = heap s p \<and> (p \<in> cached s' \<longleftrightarrow> p \<in> cached s) \<and> task (tqs s') (TqBce p) = task (tqs s) (TqBce p)"

inductive unanswered :: "config \<Rightarrow> nat \<Rightarrow> nat \<Rightarrow> effect list \<Rightarrow> sys \<Rightarrow> sys \<Rightarrow> bool" for conf p where
  start: "unanswered conf p 0 [] s s"
| fires: "unanswered conf p n es s t \<Longrightarrow> env_ok conf en \<Longrightarrow> runner_pop (now en) (tqs t) = Some (TqBce p, q) \<Longrightarrow> run_due conf en t = Done s'
    \<Longrightarrow> out s' = out t @ e \<Longrightarrow> unanswered conf p (Suc n) (es @ e) s s'"
| other: "unanswered conf p n es s t \<Longrightarrow> gateway_inv conf s' \<Longrightarrow> undisturbed p t s' \<Longrightarrow> unanswered conf p n es s s'"

definition waiting :: "nat \<Rightarrow> nat \<Rightarrow> sys \<Rightarrow> bool" where
  "waiting p k s \<longleftrightarrow> p \<in> cached s \<and> task (tqs s) (TqBce p) = Some Retrans_pbu \<and> e_n_rets_counter (heap s p) = int k"

lemma waiting_fires:
  assumes "gateway_inv conf s" "env_ok conf en" "runner_pop (now en) (tqs s) = Some (TqBce p, q)" "waiting p k s"
  shows "\<exists>s'. run_due conf en s = Done s' \<and> gateway_inv conf s'
    \<and> (case k of 0 \<Rightarrow> p \<notin> cached s' \<and> out s' = out s | Suc k' \<Rightarrow> waiting p k' s' \<and> (\<exists>pkt. out s' = out s @ [SendMH pkt]))"
proof -
  have f: "fired conf s p q" by (rule due_fired [OF assms(1,3)])
  have t: "task (tqs s) (TqBce p) = Some Retrans_pbu" "e_n_rets_counter (heap s p) = int k" "p \<in> cached s"
    using assms(4) by (simp_all add: waiting_def)
  show ?thesis
  proof (cases k)
    case 0
    then obtain s' where "pmip_timer_retrans_pbu_handler conf en p (s\<lparr>tqs := q\<rparr>) = Done s'" "gateway_inv conf s'" "p \<notin> alive s'" "out s' = out s"
      using retrans_gives_up [OF f] t(2) by auto
    then show ?thesis using 0 t(1) gateway_invD(7) [of conf s' p] by (auto simp: run_due_bce [OF assms(1,3)])
  next
    case (Suc k')
    have v: "e_mh_vec (heap s p) \<noteq> []" using firedD(9) [OF f] t(1) by (simp add: gw_binding_def)
    have "e_n_rets_counter (heap s p) \<noteq> 0" using Suc t(2) by simp
    from retrans_resends [OF f assms(2) this v] obtain s' where s': "pmip_timer_retrans_pbu_handler conf en p (s\<lparr>tqs := q\<rparr>) = Done s'"
        "gateway_inv conf s'" "lookup s' = lookup s" "e_n_rets_counter (heap s' p) = int k'" "task (tqs s') (TqBce p) = Some Retrans_pbu"
        "pending (tqs s') (TqBce p) \<noteq> None" "\<exists>pkt. out s' = out s @ [SendMH pkt]"
      using Suc t(2) by auto
    then have "p \<in> cached s'" using gateway_invD(6) [OF s'(2)] by blast
    then show ?thesis using s' Suc t(1) by (auto simp: run_due_bce [OF assms(1,3)] waiting_def)
  qed
qed

lemma unanswered_bound:
  assumes "unanswered conf p n es s s'" "gateway_inv conf s" "waiting p k s"
  shows "gateway_inv conf s' \<and> (n \<le> k \<and> waiting p (k - n) s' \<and> length es = n \<or> n = Suc k \<and> p \<notin> cached s' \<and> length es = k)
    \<and> (\<forall>e \<in> set es. \<exists>pkt. e = SendMH pkt)"
  using assms
proof induction
  case (start s)
  then show ?case by simp
next
  case (fires n es s t en q s' e)
  then have I: "gateway_inv conf t" by blast
  have c: "p \<in> cached t" using firedD(2) [OF due_fired [OF I fires.hyps(3)]] .
  then have w: "n \<le> k" "waiting p (k - n) t" "length es = n" "\<forall>e \<in> set es. \<exists>pkt. e = SendMH pkt" using fires by auto
  from waiting_fires [OF I fires.hyps(2,3) w(2)] fires.hyps(4) have r: "gateway_inv conf s'"
      "case k - n of 0 \<Rightarrow> p \<notin> cached s' \<and> out s' = out t | Suc k' \<Rightarrow> waiting p k' s' \<and> (\<exists>pkt. out s' = out t @ [SendMH pkt])"
    by auto
  show ?case
  proof (cases "n = k")
    case True
    then have "p \<notin> cached s'" "e = []" using r(2) fires.hyps(5) by auto
    then show ?thesis using r(1) w True by simp
  next
    case False
    then have d: "k - n = Suc (k - Suc n)" using w(1) by simp
    then obtain pkt where "waiting p (k - Suc n) s'" "e = [SendMH pkt]" using r(2) fires.hyps(5) by auto
    then show ?thesis using r(1) w False by simp
  qed
next
  case (other n es s t s')
  then show ?case by (auto simp: undisturbed_def waiting_def)
qed

end
