(* ===== verification/Odtone.thy ===== *)
theory Odtone
  imports Pmip_Handler
begin

text \<open>
  \<open>src/src/pmip/pmip_odtone.c\<close>: the client of the media independent handover (MIH) function, which
  tells the gateway of the nodes that attach and detach.  Messages are a header of eight bytes and a
  list of type-length-value fields in a buffer of 500 bytes.  The buffer has the type \<open>char\<close>, which
  is signed: lengths are read with their sign.  A decoder that does not end has the value \<open>None\<close>.
\<close>

section \<open>Requests\<close>

abbreviation (input) MIHLink_MAX_LENGTH :: nat where "MIHLink_MAX_LENGTH \<equiv> 500"

definition store :: "byte list \<Rightarrow> nat \<Rightarrow> byte list \<Rightarrow> byte list outcome" where
  "store str off bs = (if off + length bs \<le> length str then Done (take off str @ bs @ drop (off + length bs) str) else Fault OutOfBounds)"

definition mih_header :: "u16 \<Rightarrow> u16 \<Rightarrow> u16 \<Rightarrow> byte list" where
  "mih_header Message_ID Transaction_ID Payload_Length = [16, 0] @ bytes16 Message_ID @ bytes16 Transaction_ID @ bytes16 Payload_Length"

text \<open>The names of the client and of the MIH function are copied by \<open>strcpy\<close> to arrays of four bytes.\<close>

definition mih_names :: "config \<Rightarrow> byte list \<Rightarrow> byte list outcome" where
  "mih_names conf str =
     andThen (store str 8 [1, 5, 4]) (\<lambda>str.
     andThen (store str 11 (MIHFClientUserName conf @ [0])) (\<lambda>str.
     andThen (store str 15 [2, 5, 4]) (\<lambda>str.
       store str 18 (MIHF_ID conf @ [0]))))"

definition transaction :: "env \<Rightarrow> sys \<Rightarrow> u16 \<times> sys" where
  "transaction en s = (of_nat (rand en (draws s)), s\<lparr>draws := draws s + 1\<rparr>)"

definition send_user_reg_indication :: "config \<Rightarrow> env \<Rightarrow> sys \<Rightarrow> sys outcome" where
  "send_user_reg_indication conf en s =
     (case transaction en s of (transaction_id, s) \<Rightarrow>
        andThen (store (replicate MIHLink_MAX_LENGTH 0) 0 (mih_header 7175 transaction_id 14)) (\<lambda>str.
        andThen (mih_names conf str) (\<lambda>str.
          Done (emit (SendMIH (take 22 str)) s))))"

definition send_capability_discover_request :: "config \<Rightarrow> env \<Rightarrow> sys \<Rightarrow> sys outcome" where
  "send_capability_discover_request conf en s =
     (case transaction en s of (transaction_id, s) \<Rightarrow>
        andThen (store (replicate MIHLink_MAX_LENGTH 0) 0 (mih_header 5121 transaction_id 14)) (\<lambda>str.
        andThen (mih_names conf str) (\<lambda>str.
          Done (emit (SendMIH (take 22 str)) s))))"

text \<open>The events asked for are the detection of a link (1), link up (2) and link down (4).\<close>

definition send_event_subscribe_request :: "config \<Rightarrow> env \<Rightarrow> sys \<Rightarrow> sys outcome" where
  "send_event_subscribe_request conf en s =
     (case transaction en s of (transaction_id, s) \<Rightarrow>
        andThen (store (replicate MIHLink_MAX_LENGTH 0) 0 (mih_header 5124 transaction_id 34)) (\<lambda>str.
        andThen (mih_names conf str) (\<lambda>str.
        andThen (store str 22 ([13, 12, 19, 0, 0, 6, 6] @ LinkMacAddress conf @ [0])) (\<lambda>str.
        andThen (store str 36 [5, 4, 0, 0, 0, 1 OR 2 OR 4]) (\<lambda>str.
          Done (emit (SendMIH (take 42 str)) s))))))"

section \<open>Decoding\<close>

definition str_at :: "byte list \<Rightarrow> int \<Rightarrow> byte outcome" where
  "str_at str i = (if 0 \<le> i \<and> i < int (length str) then Done (str ! nat i) else Fault OutOfBounds)"

definition str_bytes :: "byte list \<Rightarrow> int \<Rightarrow> nat \<Rightarrow> byte list outcome" where
  "str_bytes str i n = (if 0 \<le> i \<and> i + int n \<le> int (length str) then Done (take n (drop (nat i) str)) else Fault OutOfBounds)"

text \<open>Both operands of the disjunction are promoted with their sign.\<close>

definition payload_length_of :: "byte \<Rightarrow> byte \<Rightarrow> u16" where
  "payload_length_of b6 b7 = push_bit 8 (scast b6) OR scast b7"

function link_loop :: "config \<Rightarrow> byte list \<Rightarrow> int \<Rightarrow> int \<Rightarrow> int outcome" where
  "link_loop conf str numberOfElemets index =
     andThen (str_bytes str (index + 9) 6) (\<lambda>mac.
       if mac = LinkMacAddress conf then Done 1
       else if numberOfElemets - 1 > 0 then link_loop conf str (numberOfElemets - 1) (index + 14) else Done 0)"
  by pat_completeness auto
termination by (relation "measure (\<lambda>(conf, str, n, i). nat n)") auto

declare link_loop.simps [simp del]

definition check_if_cap_discovery_matches :: "config \<Rightarrow> byte list \<Rightarrow> int \<Rightarrow> int outcome" where
  "check_if_cap_discovery_matches conf str index =
     andThen (str_at str (index + 2)) (\<lambda>n. link_loop conf str (sint n) (index + 2))"

text \<open>The loop of both decoders: the index of the first field whose type is sought.\<close>

partial_function (option) tlv_find :: "(byte \<Rightarrow> bool) \<Rightarrow> byte list \<Rightarrow> int \<Rightarrow> int \<Rightarrow> int option outcome option" where
  "tlv_find sought str payload_length i =
     (if i < payload_length then
        case str_at str i of
          Fault f \<Rightarrow> Some (Fault f)
        | Done t \<Rightarrow>
            if sought t then Some (Done (Some i))
            else case str_at str (i + 1) of
              Fault f \<Rightarrow> Some (Fault f)
            | Done l \<Rightarrow> tlv_find sought str payload_length (i + 1 + sint l + 1)
      else Some (Done None))"

definition tlv_scan :: "(byte \<Rightarrow> bool) \<Rightarrow> byte list \<Rightarrow> int option outcome option" where
  "tlv_scan sought str =
     (case andThen (str_at str 6) (\<lambda>b6. andThen (str_at str 7) (\<lambda>b7. Done (payload_length_of b6 b7))) of
        Fault f \<Rightarrow> Some (Fault f)
      | Done n \<Rightarrow> tlv_find sought str (uint n) 8)"

definition decode_capability_discover_response :: "config \<Rightarrow> byte list \<Rightarrow> int outcome option" where
  "decode_capability_discover_response conf str =
     map_option (\<lambda>r. andThen r (\<lambda>f. case f of None \<Rightarrow> Done (-1) | Some i \<Rightarrow> check_if_cap_discovery_matches conf str i))
       (tlv_scan (\<lambda>t. t = 9) str)"

text \<open>The size of the address, and the address in newly allocated memory.\<close>

definition decode_link_event_indication :: "bool \<Rightarrow> byte list \<Rightarrow> (int \<times> byte list option) outcome option" where
  "decode_link_event_indication mem str =
     map_option (\<lambda>r. andThen r (\<lambda>f. case f of
         None \<Rightarrow> Done (-1, None)
       | Some i \<Rightarrow>
           andThen (str_at str (i + 5)) (\<lambda>addressSize.
             if \<not> mem then Fault NullDeref
             else andThen (str_bytes str (i + 6) (unat addressSize)) (\<lambda>mac. Done (uint addressSize, Some mac)))))
       (tlv_scan (\<lambda>t. t = 16 \<or> t = 15) str)"

section \<open>Incoming messages\<close>

text \<open>
  One iteration of \<open>process_incoming_message\<close>.  When no address is found the pointer still has the
  value of the message before, whose memory was freed, or none.  The handlers copy six bytes.
\<close>

definition with_mac :: "(int \<times> byte list option) outcome \<Rightarrow> (byte list \<Rightarrow> 'a outcome) \<Rightarrow> 'a outcome" where
  "with_mac r f = andThen r (\<lambda>(addrSize, macaddress). case macaddress of
       None \<Rightarrow> Fault UseAfterFree
     | Some mac \<Rightarrow> if length mac < 6 then Fault OutOfBounds else f (take 6 mac))"

definition process_incoming_message :: "config \<Rightarrow> env \<Rightarrow> int \<Rightarrow> byte list \<Rightarrow> sys \<Rightarrow> sys outcome option" where
  "process_incoming_message conf en g_pcap_iif msg s =
     (let str = take MIHLink_MAX_LENGTH msg @ replicate (MIHLink_MAX_LENGTH - length msg) 0;
          Message_ID = le16 (str ! 2) (str ! 3) in
      if Message_ID = 4097 then
        map_option (\<lambda>r. andThen r (\<lambda>n. if n \<noteq> 0 then send_event_subscribe_request conf en s else Done s))
          (decode_capability_discover_response conf str)
      else if Message_ID = 11266 then
        map_option (\<lambda>r. with_mac r (\<lambda>mac. msg_handler_associate conf en mac g_pcap_iif s)) (decode_link_event_indication (memok en) str)
      else if Message_ID = 11267 then
        map_option (\<lambda>r. with_mac r (\<lambda>mac. msg_handler_deassociate conf en mac g_pcap_iif s)) (decode_link_event_indication (memok en) str)
      else Some (Done s))"

section \<open>The fields of a message\<close>

definition tlv_ok :: "(byte \<Rightarrow> bool) \<Rightarrow> byte \<times> byte list \<Rightarrow> bool" where
  "tlv_ok sought f \<longleftrightarrow> \<not> sought (fst f) \<and> length (snd f) < 128"

definition tlv_bytes :: "(byte \<times> byte list) list \<Rightarrow> byte list" where
  "tlv_bytes fs = concat (map (\<lambda>(t, v). [t, of_nat (length v)] @ v) fs)"

lemma tlv_bytes_simps [simp]:
  "tlv_bytes [] = []" "tlv_bytes ((t, v) # fs) = [t, of_nat (length v)] @ v @ tlv_bytes fs"
  by (simp_all add: tlv_bytes_def)

lemma str_at_append [simp]:
  "str_at (pre @ b # post) (int (length pre)) = Done b" "str_at (pre @ a # b # post) (int (length pre) + 1) = Done b"
  by (simp_all add: str_at_def nth_append nat_add_distrib)

lemma str_bytes_append: "str = pre @ bs @ post \<Longrightarrow> i = int (length pre) \<Longrightarrow> n = length bs \<Longrightarrow> str_bytes str i n = Done bs"
  by (simp add: str_bytes_def)

lemma sint_small: "n < 128 \<Longrightarrow> sint (of_nat n :: byte) = int n"
  by (simp add: sint_uint signed_take_bit_int_eq_self unsigned_of_nat take_bit_nat_eq_self)

lemma tlv_find_chain:
  assumes "list_all (tlv_ok sought) fs" "int (length pre + length (tlv_bytes fs)) < n"
  shows "tlv_find sought (pre @ tlv_bytes fs @ post) n (int (length pre))
    = tlv_find sought (pre @ tlv_bytes fs @ post) n (int (length pre + length (tlv_bytes fs)))"
  using assms
proof (induction fs arbitrary: pre)
  case (Cons f fs)
  obtain k v where f: "f = (k, v)" by (cases f)
  let ?pre = "pre @ [k, of_nat (length v)] @ v" and ?str = "pre @ tlv_bytes (f # fs) @ post"
  have k: "\<not> sought k" "sint (of_nat (length v) :: byte) = int (length v)" using Cons.prems(1) by (simp_all add: f tlv_ok_def sint_small)
  have b: "?str = ?pre @ tlv_bytes fs @ post" by (simp add: f)
  have i: "int (length pre) + 1 + int (length v) + 1 = int (length ?pre)" by simp
  have "tlv_find sought ?str n (int (length pre)) = tlv_find sought ?str n (int (length ?pre))"
    using Cons.prems(2) k unfolding i [symmetric] by (subst tlv_find.simps) (simp add: f)
  also have "\<dots> = tlv_find sought ?str n (int (length ?pre + length (tlv_bytes fs)))"
    unfolding b by (rule Cons.IH) (use Cons.prems in \<open>simp_all add: f\<close>)
  finally show ?case by (simp add: f)
qed simp

text \<open>A field whose length is \<open>-2\<close> is followed by itself.\<close>

lemma tlv_find_stuck:
  assumes "i < n" "str_at str i = Done t" "\<not> sought t" "str_at str (i + 1) = Done 254"
  shows "tlv_find sought str n i = None"
proof -
  have "so = sought \<longrightarrow> st = str \<longrightarrow> m = n \<longrightarrow> j \<noteq> i" if "tlv_find so st m j = Some y" for so st m j y
  proof (rule tlv_find.raw_induct [OF _ that, where P = "\<lambda>so st m j y. so = sought \<longrightarrow> st = str \<longrightarrow> m = n \<longrightarrow> j \<noteq> i"])
    fix f so st m j y
    assume IH: "\<And>so st m j y. f so st m j = Some y \<Longrightarrow> so = sought \<longrightarrow> st = str \<longrightarrow> m = n \<longrightarrow> j \<noteq> i"
      and r: "(if j < m then case str_at st j of Fault e \<Rightarrow> Some (Fault e)
          | Done t \<Rightarrow> if so t then Some (Done (Some j)) else case str_at st (j + 1) of Fault e \<Rightarrow> Some (Fault e)
            | Done l \<Rightarrow> f so st m (j + 1 + sint l + 1) else Some (Done None)) = Some y"
    show "so = sought \<longrightarrow> st = str \<longrightarrow> m = n \<longrightarrow> j \<noteq> i"
    proof (intro impI notI)
      assume e: "so = sought" "st = str" "m = n" "j = i"
      have l: "i + 1 + sint (254 :: byte) + 1 = i" by simp
      have "f so st m j = Some y" using r assms unfolding e by (simp only: outcome.case if_True if_False l)
      from IH [OF this] e show False by simp
    qed
  qed
  then have "tlv_find sought str n i \<noteq> Some y" for y by blast
  then show ?thesis by (cases "tlv_find sought str n i") auto
qed

text \<open>The low byte of the length is taken with its sign, which sets the high byte.\<close>

lemma high_bit: "bit (b :: byte) 7 \<longleftrightarrow> 128 \<le> b"
proof -
  have "unat b < 256" using unsigned_less [where 'b = 8 and w = b] by simp
  then have "odd (unat b div 128) \<longleftrightarrow> 128 \<le> unat b" by (cases "unat b < 128") (auto simp: div_nat_eqI [of _ 1])
  moreover have "bit (unat b) 7 = bit b 7" by (simp add: bit_unsigned_iff)
  ultimately show ?thesis by (simp add: bit_iff_odd [of "unat b"] word_le_nat_alt)
qed

lemma payload_length_plain:
  assumes "lo < 128"
  shows "uint (payload_length_of hi lo) = 256 * uint hi + uint lo"
proof -
  have m: "\<not> bit lo 7" using assms by (simp add: high_bit)
  have s: "(scast lo :: u16) = ucast lo" by (rule bit_word_eqI) (use m in \<open>auto simp: bit_simps min_def le_eq_less_or_eq [of 7] dest: bit_imp_le_length\<close>)
  have n: "n - 8 = 7" if "7 \<le> n - 8" "n < 16" for n :: nat using that by simp
  have "push_bit 8 (scast hi :: u16) = push_bit 8 (ucast hi)" by (rule bit_word_eqI) (auto simp: bit_simps min_def, (metis n)+)
  moreover have "push_bit 8 (ucast hi :: u16) OR ucast lo = push_bit 8 (ucast hi) + ucast lo"
    by (rule disjunctive_add [symmetric]) (auto simp: bit_simps dest: bit_imp_le_length [of lo])
  ultimately have p: "payload_length_of hi lo = push_bit 8 (ucast hi) + ucast lo" by (simp add: payload_length_of_def s)
  have "uint hi < 256" "uint lo < 256" using uint_lt2p [of hi] uint_lt2p [of lo] by simp_all
  then show ?thesis unfolding p
    by (simp add: uint_word_ariths push_bit_eq_mult unsigned_ucast_eq take_bit_int_eq_self)
qed

lemma payload_length_signed:
  assumes "128 \<le> lo"
  shows "payload_length_of hi lo = 0xFF00 OR ucast lo"
proof -
  have m: "(0xFF00 :: u16) = push_bit 8 (mask 8)" by (simp add: mask_eq_exp_minus_1)
  show ?thesis unfolding payload_length_of_def m
    by (rule bit_word_eqI) (use assms high_bit [of lo] in \<open>auto simp: bit_simps min_def not_less le_eq_less_or_eq [of 7]\<close>)
qed

definition mih_bytes :: "u16 \<Rightarrow> u16 \<Rightarrow> byte \<Rightarrow> byte \<Rightarrow> byte list \<Rightarrow> byte list" where
  "mih_bytes mid tid hi lo body = [16, 0] @ bytes16 mid @ bytes16 tid @ [hi, lo] @ body"

lemma tlv_scan_fields:
  assumes "list_all (tlv_ok sought) fs" "lo < 128" "8 + int (length (tlv_bytes fs)) < 256 * uint hi + uint lo"
    and "str = mih_bytes mid tid hi lo (tlv_bytes fs @ post)"
  shows "tlv_scan sought str = tlv_find sought str (256 * uint hi + uint lo) (8 + int (length (tlv_bytes fs)))"
proof -
  let ?pre = "[16, 0] @ bytes16 mid @ bytes16 tid @ [hi, lo]"
  have b: "str = ?pre @ tlv_bytes fs @ post" "length ?pre = 8" by (simp_all add: assms(4) mih_bytes_def)
  have "str_at str 6 = Done hi" "str_at str 7 = Done lo" by (simp_all add: assms(4) mih_bytes_def str_at_def bytes16_def)
  then have "tlv_scan sought str = tlv_find sought str (256 * uint hi + uint lo) 8"
    using payload_length_plain [OF assms(2)] by (simp add: tlv_scan_def)
  also have "\<dots> = tlv_find sought str (256 * uint hi + uint lo) (8 + int (length (tlv_bytes fs)))"
    using tlv_find_chain [OF assms(1), of ?pre "256 * uint hi + uint lo" post] assms(3) unfolding b by simp
  finally show ?thesis .
qed

lemma received_eq:
  assumes "length msg \<le> MIHLink_MAX_LENGTH" "msg = mih_bytes mid tid hi lo body"
  shows "take MIHLink_MAX_LENGTH msg @ replicate (MIHLink_MAX_LENGTH - length msg) 0
      = mih_bytes mid tid hi lo (body @ replicate (MIHLink_MAX_LENGTH - length msg) 0)"
    and "le16 ((mih_bytes mid tid hi lo b) ! 2) ((mih_bytes mid tid hi lo b) ! 3) = mid"
  using assms by (simp_all add: mih_bytes_def bytes16_def)

abbreviation is_router :: "byte \<Rightarrow> bool" where
  "is_router t \<equiv> t = 16 \<or> t = 15"

text \<open>The field with the address of the node, behind any other fields.\<close>

lemma link_event_decoded:
  assumes "list_all (tlv_ok is_router) fs" "is_router t" "length mac = 6" "lo < 128"
    and "8 + int (length (tlv_bytes fs)) < 256 * uint hi + uint lo"
    and "str = mih_bytes mid tid hi lo (tlv_bytes fs @ [t, l, a, b, c, 6] @ mac @ rest)"
  shows "decode_link_event_indication True str = Some (Done (6, Some mac))"
proof -
  let ?i = "8 + int (length (tlv_bytes fs))" and ?pre = "[16, 0] @ bytes16 mid @ bytes16 tid @ [hi, lo] @ tlv_bytes fs"
  have b: "str = ?pre @ [t, l, a, b, c, 6] @ mac @ rest" "int (length ?pre) = ?i" by (simp_all add: assms(6) mih_bytes_def)
  have at: "str_at str ?i = Done t" "str_at str (?i + 5) = Done 6"
    unfolding b(2) [symmetric] b(1) by (simp_all add: str_at_def nth_append nat_add_distrib)
  have mac: "str_bytes str (?i + 6) 6 = Done mac"
    by (rule str_bytes_append [of _ "?pre @ [t, l, a, b, c, 6]" _ rest]) (use assms(3) in \<open>simp_all add: b(1)\<close>)
  have "tlv_scan is_router str = Some (Done (Some ?i))"
    using tlv_scan_fields [OF assms(1,4,5,6)] at(1) assms(2,5) by (simp add: tlv_find.simps)
  then show ?thesis using at(2) mac by (simp add: decode_link_event_indication_def)
qed

section \<open>The requests as bytes\<close>

lemma store_prefix:
  assumes "take off str = pre" "off + length bs \<le> length str" "k \<le> length bs"
  shows "\<exists>str'. store str off bs = Done str' \<and> take (off + k) str' = pre @ take k bs \<and> length str' = length str"
  using assms by (auto simp: store_def min_def)

definition names_fit :: "config \<Rightarrow> bool" where
  "names_fit conf \<longleftrightarrow> 4 \<le> length (MIHFClientUserName conf) \<and> length (MIHFClientUserName conf) < 489
     \<and> 4 \<le> length (MIHF_ID conf) \<and> length (MIHF_ID conf) < 482"

definition names_bytes :: "config \<Rightarrow> byte list" where
  "names_bytes conf = [1, 5, 4] @ take 4 (MIHFClientUserName conf) @ [2, 5, 4] @ take 4 (MIHF_ID conf)"

lemma length_names_bytes: "names_fit conf \<Longrightarrow> length (names_bytes conf) = 14"
  by (simp add: names_bytes_def names_fit_def)

text \<open>Names of four characters or more are cut to four: the rest, and the terminating zero, is overwritten by the
  fields that follow.\<close>

lemma mih_names_bytes:
  assumes "names_fit conf" "take 8 str = h" "length str = MIHLink_MAX_LENGTH"
  shows "\<exists>str'. mih_names conf str = Done str' \<and> take 22 str' = h @ names_bytes conf \<and> length str' = MIHLink_MAX_LENGTH"
proof -
  let ?u = "MIHFClientUserName conf" and ?m = "MIHF_ID conf"
  note f = assms(1) [unfolded names_fit_def]
  obtain s1 where 1: "store str 8 [1, 5, 4] = Done s1" "take 11 s1 = h @ [1, 5, 4]" "length s1 = 500"
    using store_prefix [OF assms(2), of "[1, 5, 4]" 3] assms(3) by auto
  obtain s2 where 2: "store s1 11 (?u @ [0]) = Done s2" "take 15 s2 = h @ [1, 5, 4] @ take 4 ?u" "length s2 = 500"
    using store_prefix [OF 1(2), of "?u @ [0]" 4] 1(3) f by auto
  obtain s3 where 3: "store s2 15 [2, 5, 4] = Done s3" "take 18 s3 = h @ [1, 5, 4] @ take 4 ?u @ [2, 5, 4]" "length s3 = 500"
    using store_prefix [OF 2(2), of "[2, 5, 4]" 3] 2(3) by auto
  obtain s4 where "store s3 18 (?m @ [0]) = Done s4" "take 22 s4 = h @ [1, 5, 4] @ take 4 ?u @ [2, 5, 4] @ take 4 ?m" "length s4 = 500"
    using store_prefix [OF 3(2), of "?m @ [0]" 4] 3(3) f by auto
  with 1 2 3 show ?thesis by (simp add: mih_names_def names_bytes_def)
qed

lemma length_mih_header [simp]: "length (mih_header a b c) = 8"
  by (simp add: mih_header_def)

lemma request_start:
  assumes "names_fit conf"
  shows "\<exists>str str'. store (replicate MIHLink_MAX_LENGTH 0) 0 (mih_header a b c) = Done str \<and> mih_names conf str = Done str'
    \<and> take 22 str' = mih_header a b c @ names_bytes conf \<and> length str' = MIHLink_MAX_LENGTH"
proof -
  obtain str where "store (replicate MIHLink_MAX_LENGTH 0) 0 (mih_header a b c) = Done str" "take 8 str = mih_header a b c"
      "length str = MIHLink_MAX_LENGTH"
    using store_prefix [of 0 "replicate MIHLink_MAX_LENGTH (0 :: byte)" "[]" "mih_header a b c" 8] by auto
  with mih_names_bytes [OF assms, of str] show ?thesis by auto
qed

lemma registration_request:
  assumes "names_fit conf"
  shows "send_user_reg_indication conf en s
    = Done (emit (SendMIH (mih_header 7175 (of_nat (rand en (draws s))) 14 @ names_bytes conf)) (s\<lparr>draws := draws s + 1\<rparr>))"
    and "send_capability_discover_request conf en s
    = Done (emit (SendMIH (mih_header 5121 (of_nat (rand en (draws s))) 14 @ names_bytes conf)) (s\<lparr>draws := draws s + 1\<rparr>))"
  using request_start [OF assms, of 7175 "of_nat (rand en (draws s))" 14] request_start [OF assms, of 5121 "of_nat (rand en (draws s))" 14]
  by (auto simp: send_user_reg_indication_def send_capability_discover_request_def transaction_def)

lemma subscribe_request:
  assumes "names_fit conf" "length (LinkMacAddress conf) = 6"
  shows "send_event_subscribe_request conf en s
    = Done (emit (SendMIH (mih_header 5124 (of_nat (rand en (draws s))) 34 @ names_bytes conf
        @ [13, 12, 19, 0, 0, 6, 6] @ LinkMacAddress conf @ [0] @ [5, 4, 0, 0, 0, 7])) (s\<lparr>draws := draws s + 1\<rparr>))"
proof -
  let ?l = "[13, 12, 19, 0, 0, 6, 6] @ LinkMacAddress conf @ [0]"
  obtain s1 s2 where 1: "store (replicate MIHLink_MAX_LENGTH 0) 0 (mih_header 5124 (of_nat (rand en (draws s))) 34) = Done s1"
      "mih_names conf s1 = Done s2" "take 22 s2 = mih_header 5124 (of_nat (rand en (draws s))) 34 @ names_bytes conf" "length s2 = MIHLink_MAX_LENGTH"
    using request_start [OF assms(1), of 5124 "of_nat (rand en (draws s))" 34] by blast
  obtain s3 where 2: "store s2 22 ?l = Done s3" "take 36 s3 = mih_header 5124 (of_nat (rand en (draws s))) 34 @ names_bytes conf @ ?l" "length s3 = 500"
    using store_prefix [OF 1(3), of ?l 14] 1(4) assms(2) by auto
  obtain s4 where "store s3 36 [5, 4, 0, 0, 0, 7] = Done s4"
      "take 42 s4 = mih_header 5124 (of_nat (rand en (draws s))) 34 @ names_bytes conf @ ?l @ [5, 4, 0, 0, 0, 7]"
    using store_prefix [OF 2(2), of "[5, 4, 0, 0, 0, 7]" 6] 2(3) by auto
  with 1(1,2) 2(1) show ?thesis by (simp add: send_event_subscribe_request_def transaction_def)
qed

text \<open>The client subscribes to the events also when the answer has no list of links: \<open>-1\<close> counts as true.\<close>

lemma subscribes_without_list:
  assumes "decode_capability_discover_response conf str = Some (Done (-1))" "length str = MIHLink_MAX_LENGTH" "le16 (str ! 2) (str ! 3) = 4097"
  shows "process_incoming_message conf en iif str s = Some (send_event_subscribe_request conf en s)"
  using assms by (simp add: process_incoming_message_def Let_def)

text \<open>What a message can do.\<close>

lemma with_mac_Done: "with_mac r f = Done x \<Longrightarrow> \<exists>mac. length mac = 6 \<and> f mac = Done x"
  by (auto simp: with_mac_def andThen_Done_iff not_less split: option.splits if_splits) (metis length_take min.absorb2)

lemma incoming_cases:
  assumes "process_incoming_message conf en iif msg s = Some (Done s')"
  obtains "s' = s" | "send_event_subscribe_request conf en s = Done s'"
  | mac where "length mac = 6" "msg_handler_associate conf en mac iif s = Done s'"
  | mac where "length mac = 6" "msg_handler_deassociate conf en mac iif s = Done s'"
  using assms
  by (auto simp: process_incoming_message_def Let_def andThen_Done_iff split: if_splits dest!: with_mac_Done)

lemma subscribe_state:
  "send_event_subscribe_request conf en s = Done s' \<Longrightarrow> \<exists>bs. s' = emit (SendMIH bs) (s\<lparr>draws := draws s + 1\<rparr>)"
  by (auto simp: send_event_subscribe_request_def transaction_def andThen_Done_iff)

section \<open>Properties\<close>

text \<open>C32: a link-up or link-down message that carries the hardware address of the node behind any other
  fields, and whose length has no sign bit in its low byte, is handed over to the state
  machine as the attachment or the detachment of that node.\<close>

theorem link_event_message:
  assumes "mid = 11266 \<or> mid = 11267" "list_all (tlv_ok is_router) fs" "is_router t" "length mac = 6" "lo < 128"
    and "8 + int (length (tlv_bytes fs)) < 256 * uint hi + uint lo" "memok en" "length msg \<le> MIHLink_MAX_LENGTH"
    and "msg = mih_bytes mid tid hi lo (tlv_bytes fs @ [t, l, a, b, c, 6] @ mac @ rest)"
  shows "process_incoming_message conf en iif msg s
    = Some (if mid = 11266 then msg_handler_associate conf en mac iif s else msg_handler_deassociate conf en mac iif s)"
proof -
  let ?str = "mih_bytes mid tid hi lo (tlv_bytes fs @ [t, l, a, b, c, 6] @ mac @ rest @ replicate (MIHLink_MAX_LENGTH - length msg) 0)"
  have "decode_link_event_indication True ?str = Some (Done (6, Some mac))"
    by (rule link_event_decoded [OF assms(2-6)]) simp
  moreover have "take MIHLink_MAX_LENGTH msg @ replicate (MIHLink_MAX_LENGTH - length msg) 0 = ?str"
    using received_eq(1) [OF assms(8,9)] by simp
  ultimately show ?thesis
    using assms(1,4,7) received_eq(2) [OF assms(8,9)] by (auto simp: process_incoming_message_def with_mac_def Let_def)
qed

theorem link_event_message_witness:
  "\<forall>s. process_incoming_message conf_example env_example 3 (mih_bytes 11266 7 0 40 (tlv_bytes [(1, [4, 97])] @ [16, 10, 19, 0, 6, 6] @ [1, 2, 3, 4, 5, 6] @ replicate 20 0)) s
    = Some (if (11266 :: u16) = 11266 then msg_handler_associate conf_example env_example [1, 2, 3, 4, 5, 6] 3 s
        else msg_handler_deassociate conf_example env_example [1, 2, 3, 4, 5, 6] 3 s)"
  by (rule allI, rule link_event_message [OF _ _ _ _ _ _ _ _ refl]) (simp_all add: tlv_ok_def env_example_def mih_bytes_def)

text \<open>C33: the length of a field is read with its sign.  A message of any of the kinds the client decodes with a field of
  length 254, which reads as minus two, makes the decoder return to that field
  forever: the listener does not come back.\<close>

theorem listener_hangs:
  assumes "mid = 4097 \<or> mid = 11266 \<or> mid = 11267" "list_all (tlv_ok (\<lambda>t. is_router t \<or> t = 9)) fs" "\<not> is_router k \<and> k \<noteq> 9" "lo < 128"
    and "8 + int (length (tlv_bytes fs)) < 256 * uint hi + uint lo" "length msg \<le> MIHLink_MAX_LENGTH"
    and "msg = mih_bytes mid tid hi lo (tlv_bytes fs @ [k, 254] @ rest)"
  shows "process_incoming_message conf en iif msg s = None"
proof -
  let ?str = "mih_bytes mid tid hi lo (tlv_bytes fs @ [k, 254] @ rest @ replicate (MIHLink_MAX_LENGTH - length msg) 0)"
  let ?i = "8 + int (length (tlv_bytes fs))" and ?pre = "[16, 0] @ bytes16 mid @ bytes16 tid @ [hi, lo] @ tlv_bytes fs"
  have b: "?str = ?pre @ [k, 254] @ rest @ replicate (MIHLink_MAX_LENGTH - length msg) 0" "int (length ?pre) = ?i"
    by (simp_all add: mih_bytes_def)
  have at: "str_at ?str ?i = Done k" "str_at ?str (?i + 1) = Done 254"
    unfolding b(2) [symmetric] b(1) by (simp_all add: str_at_def nth_append nat_add_distrib)
  have "tlv_scan sought ?str = None" if so: "\<And>t. sought t \<Longrightarrow> is_router t \<or> t = 9" for sought
  proof -
    have "list_all (tlv_ok sought) fs" using assms(2) so by (auto simp: list_all_iff tlv_ok_def)
    from tlv_scan_fields [OF this assms(4,5) refl] have "tlv_scan sought ?str = tlv_find sought ?str (256 * uint hi + uint lo) ?i" .
    then show ?thesis using tlv_find_stuck [OF assms(5) at(1) _ at(2)] so assms(3) by auto
  qed
  from this [of "\<lambda>t. t = 9"] this [of is_router] have "tlv_scan (\<lambda>t. t = 9) ?str = None" "tlv_scan is_router ?str = None" by blast+
  moreover have "take MIHLink_MAX_LENGTH msg @ replicate (MIHLink_MAX_LENGTH - length msg) 0 = ?str"
    using received_eq(1) [OF assms(6,7)] by simp
  ultimately show ?thesis using assms(1) received_eq(2) [OF assms(6,7)]
    by (auto simp: process_incoming_message_def decode_capability_discover_response_def decode_link_event_indication_def Let_def)
qed

theorem listener_hangs_witness:
  "\<forall>s. process_incoming_message conf_example env_example 3 (mih_bytes 11266 7 0 40 (tlv_bytes [] @ [1, 254] @ [])) s = None"
  by (rule allI, rule listener_hangs [OF _ _ _ _ _ _ refl]) (simp_all add: mih_bytes_def)

end
