(* ===== verification/Mag_Reach.thy ===== *)
theory Mag_Reach
  imports Mag_Timers Odtone
begin

text \<open>
  The gateway as a state machine, in the build with the ODTONE client (\<open>USE_ODTONE\<close>) and without the
  RADIUS client: messages of the MIH function with any content, which report attachments and
  detachments, acknowledgements, neighbour advertisements and timers, and the invariant of every state reached from the start-up.
\<close>

section \<open>A new node\<close>

lemma gateway_inv_idle: "gateway_inv conf s \<Longrightarrow> gateway_inv conf (s\<lparr>held := []\<rparr>)"
proof -
  assume g: "gateway_inv conf s"
  have "s\<lparr>held := []\<rparr> = s" using gateway_invD(3) [OF g] by (cases s) simp
  then show ?thesis using g by simp
qed

lemma leaks_entry:
  assumes "gateway_inv conf s" "memok en"
  shows "gateway_inv conf ((snd (pmip_cache_alloc en BCE_TEMP s))\<lparr>hnp := c\<rparr>)"
proof -
  let ?a = "pmip_cache_alloc en BCE_TEMP s"
  note I = gateway_invD [OF assms(1)]
  have a: "?a = (Some (brk s), snd ?a)" using assms(2) by (simp add: pmip_cache_alloc_def)
  note A = pmip_cache_alloc_inv [OF I(1) a]
  have h: "heap (snd ?a) q = heap s q \<and> task (tqs (snd ?a)) (TqBce q) = task (tqs s) (TqBce q)" if "q \<in> cached s" for q
  proof -
    have "q \<noteq> brk s" using that I(7) A by blast
    then show ?thesis using assms(2) by (simp add: pmip_cache_alloc_def)
  qed
  have "cache_inv ((snd ?a)\<lparr>hnp := c\<rparr>)"
    by (rule cache_inv_frame [OF conjunct1 [OF A]]) (use A in \<open>auto simp: cache_inv_def\<close>)
  then show ?thesis using A h I(3,5,6) by (simp add: gateway_inv_def)
qed

lemma mag_new_mn_inv:
  assumes "gateway_inv conf s" "env_ok conf en" "radius_server en = None" "lookup s (i_mn_nai info, OurAddress conf) = None"
    and "i_mn_nai info = get_node_nai (EUI64_to_EUI48 (i_mn_iid info)) (hnp s)"
    and "mag_new_mn conf en info (s\<lparr>held := [FsmLock]\<rparr>) = Done s'"
  shows "gateway_inv conf (release FsmLock s')"
proof (cases "hnp_search (hnp s) (EUI64_to_EUI48 (i_mn_iid info)) 0")
  case None
  have m: "memok en" by (rule env_okD(1) [OF assms(2)])
  have "s' = (snd (pmip_cache_alloc en BCE_TEMP (s\<lparr>held := [FsmLock]\<rparr>)))\<lparr>hnp := hnp s\<rparr>"
    using assms(3,6) None m by (auto simp: mag_new_mn_def mnid_hnp_map_def Let_def pmip_cache_alloc_def)
  then have "release FsmLock s' = ((snd (pmip_cache_alloc en BCE_TEMP s))\<lparr>hnp := hnp s\<rparr>)"
    using m gateway_invD(3) [OF assms(1)] by (simp add: pmip_cache_alloc_def release_def)
  then show ?thesis using leaks_entry [OF assms(1) m, of "hnp s"] by simp
next
  case (Some j)
  then have h: "mnid_hnp_map (radius_server en) (junk_addr en) (EUI64_to_EUI48 (i_mn_iid info)) (i_mn_nai info) (hnp s)
      = Done (map_prefix (g_mn_hn_map (hnp s) ! j), i_mn_nai info, 10, hnp s)"
    using assms(5) by (simp add: mnid_hnp_map_def get_node_nai_def mn_nai_hnp_map_def)
  obtain t where t: "mag_new_mn conf en info (s\<lparr>held := [FsmLock]\<rparr>) = Done (t\<lparr>held := [FsmLock]\<rparr>)" "gateway_inv conf t"
    by (rule attaches [OF assms(1,2,4) h]) simp_all
  then have "release FsmLock s' = t" using assms(6) gateway_invD(3) [OF t(2)] by (auto simp: release_def)
  then show ?thesis using t(2) by simp
qed

section \<open>Every event keeps the invariant\<close>

definition mag_event :: "hnp_cache \<Rightarrow> msg_info \<Rightarrow> bool" where
  "mag_event c info \<longleftrightarrow> 0 \<le> tv_sec (i_lifetime info) \<and> i_msg_event info \<notin> {hasRS, hasWLCCP}
     \<and> (i_msg_event info = hasODTONELinkEvent \<longrightarrow> i_mn_nai info = get_node_nai (EUI64_to_EUI48 (i_mn_iid info)) c)"

lemma mag_fsm_inv_unknown:
  assumes "gateway_inv conf s" "env_ok conf en" "radius_server en = None" "mag_event (hnp s) info" "mine conf info"
    and "lookup s (i_mn_nai info, OurAddress conf) = None" "mag_fsm conf en info s = Done s'"
  shows "gateway_inv conf s'"
proof -
  obtain s1 where s1: "mag_fsm_no_entry conf en info (s\<lparr>held := [FsmLock]\<rparr>) = Done s1" "s' = release FsmLock s1"
    using assms(7) by (auto simp: mag_fsm_unknown [OF assms(1,6,5)] andThen_Done_iff)
  show ?thesis
  proof (cases "i_iif info = g_ingress_iif conf \<and> i_msg_event info = hasODTONELinkEvent")
    case True
    then show ?thesis
      using s1 mag_new_mn_inv [OF assms(1-3,6)] assms(4) by (simp add: mag_fsm_no_entry_def mag_event_def)
  next
    case False
    then have "s1 = s\<lparr>held := [FsmLock]\<rparr>" using s1(1) assms(4) by (auto simp: mag_fsm_no_entry_def mag_event_def split: if_splits)
    then show ?thesis using s1(2) gateway_inv_idle [OF assms(1)] by (simp add: unlock_fsm)
  qed
qed

lemma mag_fsm_inv_temp:
  assumes "gateway_inv conf s" "env_ok conf en" "mag_event (hnp s) info" "mine conf info"
    and "lookup s (i_mn_nai info, OurAddress conf) = Some p" "e_type (heap s p) = BCE_TEMP" "mag_fsm conf en info s = Done s'"
  shows "gateway_inv conf s'"
proof -
  note L = gateway_lookup [OF assms(1,5)]
  consider "i_msg_event info \<noteq> hasPBA" | "i_msg_event info = hasPBA" "\<not> is_pba_is_response_to_last_pbu_sent info (heap s p)"
    | "i_msg_event info = hasPBA" "is_pba_is_response_to_last_pbu_sent info (heap s p)" by blast
  then show ?thesis
  proof cases
    case 1
    then show ?thesis
      using assms(6,7) gateway_inv_idle [OF assms(1)] by (auto simp: mag_fsm_known [OF assms(1,5,4)] mag_fsm_temp_def unlock_fsm)
  next
    case 2
    then show ?thesis using pba_unmatched [OF assms(1,5) 2] assms(1,7) by simp
  next
    case 3
    let ?g = "granted info p (TS (pba_lifetime (tv_sec (i_lifetime info))) (tv_nsec (e_lifetime (heap s p)))) s"
    obtain x where "mag_end_registration conf en p (i_iif info) ?g = Done x"
      using assms(6,7) 3 L(2)
      by (auto simp: mag_fsm_known [OF assms(1,5,4)] mag_fsm_temp_def L(7) nonnull_def deref_alive modify_alive granted_def andThen_Done_iff)
    then have "slot_ok conf (LmaAddress conf) ?g" by (rule end_registration_slot) (use L(2) in \<open>simp add: granted_def\<close>)
    then have "slot_ok conf (LmaAddress conf) s" using slot_ok_cong [of ?g s] by (simp add: granted_def)
    moreover have "i_dst info = MagAddressEgress conf 0" "0 \<le> tv_sec (i_lifetime info)" using assms(3,4) 3(1) by (simp_all add: mine_def mag_event_def)
    ultimately show ?thesis
      using pba_completes [OF assms(1,2,5,6) 3(1) _ _ 3(2)] assms(7) by (metis outcome.inject(2))
  qed
qed

lemma mag_fsm_inv_pmip:
  assumes "gateway_inv conf s" "env_ok conf en" "mag_event (hnp s) info" "mine conf info"
    and "lookup s (i_mn_nai info, OurAddress conf) = Some p" "e_type (heap s p) = BCE_PMIP" "mag_fsm conf en info s = Done s'"
  shows "gateway_inv conf s'"
proof -
  note L = gateway_lookup [OF assms(1,5)]
  have l: "0 \<le> tv_sec (i_lifetime info)" using assms(3) by (simp add: mag_event_def)
  consider "i_msg_event info \<in> {hasPBA, hasNA, hasWLCCP, hasODTONELinkEvent}" | "i_msg_event info = hasDEREG"
    | "i_msg_event info \<notin> {hasPBA, hasNA, hasWLCCP, hasODTONELinkEvent, hasDEREG, hasRS}"
    using assms(3) by (auto simp: mag_event_def)
  then show ?thesis
  proof cases
    case 1
    then show ?thesis using pmip_event [OF assms(1,2,5,4,6) 1 l] assms(7) by auto
  next
    case 2
    obtain x where "mag_dereg conf en p True (locked p s) = Done x"
      using assms(7) by (auto simp: mag_fsm_dereg_start [OF assms(1,5,6) 2] andThen_Done_iff)
    from mag_dereg_known [OF this] have "tunnel_known conf (e_tunnel (heap s p)) s" using L(2) by (simp add: tunnel_known_def)
    then show ?thesis using detaches [OF assms(1,2,5,6) 2] assms(7) by (metis outcome.inject(2))
  next
    case 3
    then show ?thesis
      using assms(6,7) gateway_inv_idle [OF assms(1)] by (auto simp: mag_fsm_known [OF assms(1,5,4)] mag_fsm_pmip_def unlock_fsm)
  qed
qed

lemma mag_fsm_inv:
  assumes "gateway_inv conf s" "env_ok conf en" "radius_server en = None" "mag_event (hnp s) info" "mag_fsm conf en info s = Done s'"
  shows "gateway_inv conf s'"
proof (cases "mine conf info")
  case False
  then show ?thesis using assms(1,5) by (simp add: mine_def mag_fsm_def)
next
  case m: True
  show ?thesis
  proof (cases "lookup s (i_mn_nai info, OurAddress conf)")
    case None
    then show ?thesis using mag_fsm_inv_unknown [OF assms(1-4) m None assms(5)] by simp
  next
    case (Some p)
    then show ?thesis
      using gateway_lookup(5) [OF assms(1) Some] mag_fsm_inv_temp [OF assms(1,2,4) m Some _ assms(5)]
        mag_fsm_inv_pmip [OF assms(1,2,4) m Some _ assms(5)] by blast
  qed
qed


section \<open>The activations of the gateway\<close>

text \<open>The structure the acknowledgement is parsed into is not initialised; the step asks that the garbage in it
  is not an event of its own.\<close>

inductive mag_step :: "config \<Rightarrow> sys \<Rightarrow> sys \<Rightarrow> bool" for conf where
  recv_mih: "env_ok conf en \<Longrightarrow> radius_server en = None \<Longrightarrow> process_incoming_message conf en iif msg s = Some (Done s')
    \<Longrightarrow> mag_step conf s s'"
| recv_pba: "env_ok conf en \<Longrightarrow> radius_server en = None \<Longrightarrow> i_msg_event (junk_info en) = 0 \<Longrightarrow> 0 \<le> tv_sec (i_lifetime (junk_info en))
    \<Longrightarrow> pmip_mag_recv_pba conf en mh src dst iif s = Done s' \<Longrightarrow> mag_step conf s s'"
| recv_na: "env_ok conf en \<Longrightarrow> radius_server en = None \<Longrightarrow> pmip_mag_recv_na conf en target len saddr daddr iif hoplimit s = Done s'
    \<Longrightarrow> mag_step conf s s'"
| timer: "env_ok conf en \<Longrightarrow> is_mag conf \<Longrightarrow> \<not> is_ha conf \<Longrightarrow> run_due conf en s = Done s' \<Longrightarrow> mag_step conf s s'"

definition mag_start :: "config \<Rightarrow> sys \<Rightarrow> bool" where
  "mag_start conf s \<longleftrightarrow> (\<exists>en conf0 ingress file ld. memok en
     \<and> pmip_mag_init conf0 en True True ingress file ld sys_boot = Done (Some (0, conf, s)))"

definition mag_reachable :: "config \<Rightarrow> sys \<Rightarrow> bool" where
  "mag_reachable conf s \<longleftrightarrow> (\<exists>s0. mag_start conf s0 \<and> rtranclp (mag_step conf) s0 s)"

inductive_cases mag_stepE: "mag_step conf s s'"

lemma link_event_known:
  "length mac = 6 \<Longrightarrow> ev = hasODTONELinkEvent \<or> ev = hasDEREG \<Longrightarrow> mag_event c (link_event c ev mac iif)"
  using EUI48_left_inverse [OF mac48_zeros] by (auto simp: mag_event_def link_event_def msg_info_zero_def tszero_def)

lemma pba_parsed:
  assumes "mh_pba_parse info0 mh len src dst iif = Done info" "i_msg_event info0 = 0" "0 \<le> tv_sec (i_lifetime info0)"
  shows "mag_event c info"
proof -
  consider "info = info0\<lparr>i_src := src, i_dst := dst, i_iif := iif\<rparr>"
    | i2 n f l where "info = i2\<lparr>i_seqno := n, i_PBA_flags := f, i_lifetime := TS (int (unat (l :: u16)) * 4) (tv_nsec (i_lifetime i2)),
        i_msg_event := hasPBA\<rparr>"
    using assms(1) by (auto simp: mh_pba_parse_def Let_def andThen_Done_iff simp del: msg_info.update_convs split: if_splits)
  then show ?thesis by cases (use assms(2,3) in \<open>simp_all add: mag_event_def\<close>)
qed

lemma mag_tunnel_timer:
  assumes "gateway_inv conf s" "s' = s\<lparr>tctl := c, g_tunnel_timer_table := g, tqs := q\<rparr>" "tq_inv q"
    and "\<And>p. pending q (TqBce p) = pending (tqs s) (TqBce p)" "\<And>p. task q (TqBce p) = task (tqs s) (TqBce p)"
  shows "gateway_inv conf s'"
proof -
  have "tun_frame s s'" unfolding assms(2) by (rule tun_frameI) (use assms(3-5) in simp_all)
  note C = cache_inv_tun [OF gateway_invD(1) [OF assms(1)] this]
  show ?thesis using assms(1) C assms(2-5) unfolding gateway_inv_def by simp
qed

lemma mag_bce_timer:
  assumes "gateway_inv conf s" "env_ok conf en" "is_mag conf" "\<not> is_ha conf"
    and "runner_pop (now en) (tqs s) = Some (TqBce p, q)" "run_due conf en s = Done s'"
  shows "gateway_inv conf s'"
proof -
  have f: "fired conf s p q" by (rule due_fired [OF assms(1,5)])
  note F = firedD [OF f]
  consider k where "waiting p k s" | "task (tqs s) (TqBce p) = Some Retrans_pbu" "e_n_rets_counter (heap s p) < 0"
    | "task (tqs s) (TqBce p) = Some Bce_expired" "e_n_rets_counter (heap s p) = 0"
    | "task (tqs s) (TqBce p) = Some Bce_expired" "e_n_rets_counter (heap s p) \<noteq> 0"
    using F(2,9) by (cases "0 \<le> e_n_rets_counter (heap s p)") (auto simp: gw_binding_def waiting_def dest: nonneg_int_cases)
  then show ?thesis
  proof cases
    case (1 k)
    then show ?thesis using waiting_fires [OF assms(1,2,5) 1] assms(6) by auto
  next
    case 2
    then show ?thesis using retrans_resends [OF f assms(2)] F(9) assms(6) by (auto simp: run_due_bce [OF assms(1,5)] gw_binding_def)
  next
    case 3
    then obtain x where "mag_dereg conf en p True (s\<lparr>tqs := q, held := [EntryLock p, PmipLock], heap := (heap s)(p := (heap s p)\<lparr>e_mh_vec := []\<rparr>)\<rparr>) = Done x"
      using assms(6) by (auto simp: run_due_bce [OF assms(1,5)] expired_start [OF f assms(3)] andThen_Done_iff)
    from mag_dereg_known [OF this] have "tunnel_known conf (e_tunnel (heap s p)) s" using F(5) by (simp add: tunnel_known_def)
    from expired_removes [OF f assms(2,3) 3(2) this] show ?thesis using 3(1) assms(6) by (auto simp: run_due_bce [OF assms(1,5)])
  next
    case 4
    from expired_probes [OF f assms(2-4) 4(2,1)] show ?thesis using 4 assms(6) by (auto simp: run_due_bce [OF assms(1,5)])
  qed
qed

lemma mag_run_due_inv:
  assumes "gateway_inv conf s" "env_ok conf en" "is_mag conf" "\<not> is_ha conf" "run_due conf en s = Done s'"
  shows "gateway_inv conf s'"
proof (cases "runner_pop (now en) (tqs s)")
  case None
  then show ?thesis using assms(1,5) by (simp add: run_due_def)
next
  case (Some x)
  then obtain i q where pop: "runner_pop (now en) (tqs s) = Some (i, q)" by (cases x) auto
  note I = gateway_invD [OF assms(1)] and R = runner_pop_fields [OF pop]
  show ?thesis
  proof (cases i)
    case (TqBce p)
    then show ?thesis using mag_bce_timer [OF assms(1-4) _ assms(5)] pop by simp
  next
    case (TqTunnel k)
    have P: "pending q = (pending (tqs s))(i := None)" "tq_inv q" using tq.pop_Some [OF I(4) pop] tq.invar_pop [OF I(4) pop] by auto
    obtain c g where "s' = s\<lparr>tctl := c, g_tunnel_timer_table := g, tqs := q\<lparr>curr := None\<rparr>\<rparr>"
      using assms(5) pop TqTunnel tunnel_expired_frame [of en k "s\<lparr>tqs := q\<rparr>"] I(3)
      by (fastforce simp: run_due_def run_timer_def andThen_Done_iff)
    then show ?thesis
      by (rule mag_tunnel_timer [OF assms(1)]) (use P R(2) TqTunnel in \<open>simp_all add: curr_only\<close>)
  qed
qed

lemma mag_mih_inv:
  assumes "gateway_inv conf s" "env_ok conf en" "radius_server en = None" "process_incoming_message conf en iif msg s = Some (Done s')"
  shows "gateway_inv conf s'"
  using assms(4)
proof (cases rule: incoming_cases)
  case 2
  then show ?thesis using subscribe_state [OF 2] assms(1) by (auto simp: gateway_inv_def cache_inv_def emit_def bce_rd_def [abs_def])
next
  case (3 mac)
  then show ?thesis using mag_fsm_inv [OF assms(1-3) link_event_known [of mac hasODTONELinkEvent]] by (simp add: associate_eq)
next
  case (4 mac)
  then show ?thesis using mag_fsm_inv [OF assms(1-3) link_event_known [of mac hasDEREG]] by (simp add: associate_eq)
qed (use assms(1) in simp)

lemma mag_step_inv:
  assumes "gateway_inv conf s" "mag_step conf s s'"
  shows "gateway_inv conf s'"
  using assms(2)
proof cases
  case (recv_mih en iif msg)
  then show ?thesis by (rule mag_mih_inv [OF assms(1)])
next
  case (recv_pba en mh src dst iif)
  then obtain info where i: "mh_pba_parse (junk_info en) mh (length mh) src dst iif = Done info" "mag_fsm conf en info s = Done s'"
    by (auto simp: pmip_mag_recv_pba_def andThen_Done_iff)
  show ?thesis by (rule mag_fsm_inv [OF assms(1) recv_pba(1,2) pba_parsed [OF i(1) recv_pba(3,4)] i(2)])
next
  case (recv_na en target len saddr daddr iif hoplimit)
  have "mag_event (hnp s) (icmp_na_parse (hnp s) target saddr daddr iif hoplimit)"
    by (simp add: mag_event_def icmp_na_parse_def msg_info_zero_def tszero_def)
  from mag_fsm_inv [OF assms(1) recv_na(1,2) this] show ?thesis
    using recv_na(3) assms(1) by (auto simp: pmip_mag_recv_na_def split: if_splits)
next
  case (timer en)
  then show ?thesis using mag_run_due_inv [OF assms(1)] by blast
qed


section \<open>Start-up\<close>

lemma gateway_inv_empty:
  assumes "g_pmip_hash s = \<lparr>buckets = PMIP_CACHE_BUCKETS, hash_buckets = replicate PMIP_CACHE_BUCKETS []\<rparr>"
    and "alive s = {}" "g_pmip_cache_count s = 0" "held s = []" "tq_inv (tqs s)" "\<And>p. pending (tqs s) (TqBce p) = None"
  shows "gateway_inv conf s"
proof -
  have "cache_inv s" using assms empty_table_wf(1) by (simp add: cache_inv_def empty_elems)
  then show ?thesis using assms by (simp add: gateway_inv_def empty_elems)
qed

lemma mag_init_inv:
  assumes "memok en" "pmip_mag_init conf0 en True True ingress file ld sys_boot = Done (Some (0, conf, s))"
  shows "gateway_inv conf s"
proof -
  let ?s0 = "sys_boot\<lparr>g_pmip_hash := \<lparr>buckets = PMIP_CACHE_BUCKETS, hash_buckets = replicate PMIP_CACHE_BUCKETS []\<rparr>,
     out := [RuleAdd RT6_TABLE_MIP6 IP6_RULE_PRIO_MIP6_FWD (in6addr_any, 0) (in6addr_any, 0)]\<rparr>"
  have "pmip_common_init en True sys_boot
      = Done (0, sys_boot\<lparr>g_pmip_hash := \<lparr>buckets = PMIP_CACHE_BUCKETS, hash_buckets = replicate PMIP_CACHE_BUCKETS []\<rparr>\<rparr>)"
    using assms(1) by (simp add: pmip_common_init_def pmip_cache_init_def pmip_hash_init_def acquire_def release_def sys_boot_def)
  then obtain s2 c where s2: "pmip_tunnels_init conf0 en ?s0 = Done s2"
      "s = (init_iface_ra (s2\<lparr>seq := init_pbu_sequence_number (seq s2)\<rparr>))\<lparr>hnp := c\<rparr>"
    using assms(2) by (auto simp: pmip_mag_init_def andThen_Done_iff emit_def sys_boot_def Let_def split: option.splits)
  obtain t g q es where "s2 = ?s0\<lparr>g_tunnel_timer_table := replicate PMIP_MAX_MAGS tunnel_timer_zero, tctl := t, g_tunnel_timer_table := g, tqs := q, out := es\<rparr>"
      "tq_inv q" "\<And>p. pending q (TqBce p) = None"
    using tunnels_init_frame [OF s2(1)] by (auto simp: tun_frame_def sys_boot_def tq_inv_init)
  then show ?thesis
    by (intro gateway_inv_empty) (simp_all add: s2(2) init_iface_ra_def sys_boot_def Let_def)
qed

interpretation gw: daemon "mag_start conf" "mag_step conf" "gateway_inv conf" for conf
  by unfold_locales (auto simp: mag_start_def intro: mag_init_inv mag_step_inv)

end
