(* ===== verification/Mag_Properties.thy ===== *)
theory Mag_Properties
  imports Mag_Reach
begin

text \<open>
  The properties of the gateway, with a concrete gateway on which they are applied.
\<close>

section \<open>A concrete gateway\<close>

definition conf_gateway :: config where
  "conf_gateway = conf_example\<lparr>TunnelingEnabled := False\<rparr>"

definition mac_example :: "byte list" where
  "mac_example = [0x00, 0x1B, 0x63, 0x84, 0x45, 0xE6]"

definition nai_example :: ip6mn_nai where
  "nai_example = replicate NAI_SIZE 0x61"

definition ld_boot :: load_state where
  "ld_boot = \<lparr>ld_cache = hnp_cache_boot, ld_j = 0, ld_str_addr = [], ld_str_addr_iid = [], ld_ap = 0, ld_ap1 = 0\<rparr>"

definition gw_boot :: sys where
  "gw_boot = sys_boot\<lparr>g_pmip_hash := \<lparr>buckets = PMIP_CACHE_BUCKETS, hash_buckets = replicate PMIP_CACHE_BUCKETS []\<rparr>,
     hnp := pmip_insert_into_hnp_cache (mac48_addr mac_example) mag_b nai_example hnp_cache_boot\<rparr>"

lemma gw_boot_inv: "gateway_inv conf gw_boot"
  by (rule gateway_inv_empty) (simp_all add: gw_boot_def sys_boot_def tq_inv_init)

lemma gw_boot_lookup: "lookup gw_boot k = None"
  using lookup_Some_iff [OF gateway_invD(1) [OF gw_boot_inv], of k "the (lookup gw_boot k)"]
  by (cases "lookup gw_boot k") (simp_all add: gw_boot_def empty_elems)

lemma hnp_entry_insert:
  assumes "hnp_inv c" "\<not> hnp_known c mnid" "g_mn_count c < MAX_MOBILES"
  shows "hnp_entry (pmip_insert_into_hnp_cache mnid prefix nai c) mnid = Some (prefix, nai)"
  using insert_fresh(2) [OF assms, of mnid prefix nai] insert_fresh(3) [OF assms, of mnid prefix nai]
  by (auto simp: hnp_entry_def lma_mnid_hnp_map_def mn_nai_hnp_map_def split: option.splits)

lemma gw_boot_hnp: "hnp_entry (hnp gw_boot) (mac48_addr mac_example) = Some (mag_b, nai_example)"
  using hnp_entry_insert [OF hnp_inv_boot(1)] by (simp add: gw_boot_def hnp_known_def hnp_cache_boot_def)

lemma gateway_ok:
  "env_ok conf_gateway env_example" "length mac_example = 6" "radius_server env_example = None" "OurAddress conf_gateway = MagAddressEgress conf_gateway 0"
  "tunnel_known conf_gateway t s" "slot_ok conf_gateway a s" "is_mag conf_gateway" "\<not> is_ha conf_gateway" "MaxMessageRetransmissions conf_gateway = 3"
  by (simp_all add: env_ok_def conf_gateway_def conf_example_def env_example_def mac_example_def tunnel_known_def slot_ok_def)


text \<open>The gateway after the node has attached.\<close>

lemma attached_example:
  obtains s where "msg_handler_associate conf_gateway env_example mac_example (g_ingress_iif conf_gateway) gw_boot = Done s"
    "gateway_inv conf_gateway s" "lookup s (nai_example, OurAddress conf_gateway) = Some 0" "e_type (heap s 0) = BCE_TEMP"
    "waiting 0 3 s" "pending (tqs s) (TqBce 0) = Some (TS 102 0)"
proof -
  have b: "brk gw_boot = 0" by (simp add: gw_boot_def sys_boot_def)
  have t: "tsadd (now env_example) (RetransmissionTimeOut conf_gateway) = TS 102 0"
    by (simp add: env_example_def conf_gateway_def conf_example_def ts_simps)
  obtain s where s: "msg_handler_associate conf_gateway env_example mac_example (g_ingress_iif conf_gateway) gw_boot = Done s"
      "gateway_inv conf_gateway s" "lookup s = (lookup gw_boot)((nai_example, OurAddress conf_gateway) \<mapsto> brk gw_boot)"
      "task (tqs s) (TqBce (brk gw_boot)) = Some Retrans_pbu"
      "pending (tqs s) (TqBce (brk gw_boot)) = Some (tsadd (now env_example) (RetransmissionTimeOut conf_gateway))"
      "\<exists>ts v. heap s (brk gw_boot) = (temp_entry conf_gateway (link_event (hnp gw_boot) hasODTONELinkEvent mac_example (g_ingress_iif conf_gateway))
         nai_example mag_b) \<lparr>e_seqno_out := ucast (seq gw_boot), e_timestamp := ts, e_mh_vec := v, e_add_time := now env_example,
       e_BID := last_BID gw_boot + 1, e_n_rets_counter := MaxMessageRetransmissions conf_gateway\<rparr>"
    by (rule associate_attaches [OF gw_boot_inv gateway_ok(1,2) gw_boot_hnp gw_boot_lookup]) (rule that)
  have "e_n_rets_counter (heap s 0) = 3" "e_type (heap s 0) = BCE_TEMP" using s(6) b gateway_ok(9) by (auto simp: temp_entry_def)
  moreover have l: "lookup s (nai_example, OurAddress conf_gateway) = Some 0" using s(3) b by simp
  ultimately show ?thesis
    using s(1,2,4,5) b t gateway_lookup(1) [OF s(2) l] by (intro that) (simp_all add: waiting_def)
qed

definition pba_for :: "config \<Rightarrow> pmip_entry \<Rightarrow> int \<Rightarrow> msg_info" where
  "pba_for conf e l = msg_info_zero\<lparr>i_msg_event := hasPBA, i_dst := MagAddressEgress conf 0, i_seqno := e_seqno_out e,
     i_timestamp := e_timestamp e, i_mn_prefix := e_mn_prefix e, i_mn_iid := e_mn_suffix e, i_mn_nai := e_mn_nai e, i_lifetime := TS l 0\<rparr>"

lemma pba_for_fields [simp]:
  "i_msg_event (pba_for conf e l) = hasPBA" "i_dst (pba_for conf e l) = MagAddressEgress conf 0" "i_lifetime (pba_for conf e l) = TS l 0"
  "i_mn_nai (pba_for conf e l) = e_mn_nai e" "is_pba_is_response_to_last_pbu_sent (pba_for conf e l) e"
  by (simp_all add: pba_for_def is_pba_is_response_to_last_pbu_sent_def)

text \<open>A gateway with one registered binding, and one with a binding whose update was not answered.\<close>

definition conf_due :: config where
  "conf_due = conf_gateway\<lparr>OurAddress := mag_a\<rparr>"

definition gw_registered :: sys where
  "gw_registered = due_example"

definition gw_due :: sys where
  "gw_due = due_example\<lparr>heap := (heap due_example)(0 := (heap due_example 0)\<lparr>e_mh_vec := [replicate 12 0], e_n_rets_counter := 1\<rparr>),
     tqs := (tqs due_example)\<lparr>task := (task (tqs due_example))(TqBce 0 \<mapsto> Retrans_pbu)\<rparr>\<rparr>"

lemma get_node_nai_boot: "get_node_nai m hnp_cache_boot = nai_zero"
  using hnp_search_None_iff [of hnp_cache_boot m] hnp_inv_boot(2) [of m] by (simp add: get_node_nai_def mn_nai_hnp_map_def)

lemma registered_entry: "e_mn_serv_mag_addr (heap due_example p) = mag_a" "e_type (heap due_example p) = BCE_PMIP"
  using due_example_fields(5) [of p] by (simp_all add: bce_key_def due_example_def flow_example_def)

lemma gw_registered_inv: "gateway_inv conf_due gw_registered"
  using due_example_cache(1) due_example_fields registered_entry by (simp add: gateway_inv_def gw_registered_def gw_binding_def conf_due_def)

lemma gw_due_inv: "gateway_inv conf_due gw_due"
proof -
  have q: "tq_inv (tqs gw_due) = tq_inv (tqs due_example)" "pending (tqs gw_due) = pending (tqs due_example)"
    by (simp_all add: gw_due_def tq_inv_def pending_def fun_eq_iff)
  have "cache_inv gw_due"
    by (rule cache_inv_frame [OF due_example_cache(1)]) (use due_example_fields q in \<open>auto simp: gw_due_def bce_key_def\<close>)
  then show ?thesis using due_example_fields registered_entry q by (simp add: gateway_inv_def gw_due_def gw_binding_def conf_due_def)
qed

lemma gw_due_fields:
  "waiting 0 1 gw_due" "env_ok conf_due env_example" "\<exists>q. runner_pop (now env_example) (tqs gw_due) = Some (TqBce 0, q)"
  using due_example_fields(2) gateway_ok(1)
  by (simp_all add: waiting_def gw_due_def conf_due_def env_ok_def)
    (simp add: due_example_def env_example_def runner_pop_def ts_less)

section \<open>Properties\<close>

text \<open>C3: every state the gateway reaches from its start-up, by whatever attachments, detachments, acknowledgements,
  neighbour advertisements and timers in whatever order, satisfies the invariant: the table and the
  timer queue are well formed, every binding is stored under the gateway's own address, is either
  waiting for an acknowledgement with a message to send again or registered, exactly the cached
  bindings have a running timer, and no lock is left held.\<close>

theorem mag_reachable_invariant:
  assumes "mag_reachable conf s"
  shows "gateway_inv conf s"
  using assms unfolding mag_reachable_def by (rule gw.reached_inv)

theorem mag_reachable_invariant_witness:
  "\<exists>conf s. pmip_mag_init conf_gateway env_example True True 3 (Some []) ld_boot sys_boot = Done (Some (0, conf, s)) \<and> gateway_inv conf s"
proof -
  have "\<exists>conf s. pmip_mag_init conf_gateway env_example True True 3 (Some []) ld_boot sys_boot = Done (Some (0, conf, s))"
    by (simp add: pmip_mag_init_def pmip_common_init_def pmip_cache_init_def pmip_hash_init_def acquire_def sys_boot_def
        env_example_def conf_gateway_def pmip_tunnels_init_def conf_example_def pmip_mn_to_hnp_cache_init_def Let_def)
  then obtain conf s where c: "pmip_mag_init conf_gateway env_example True True 3 (Some []) ld_boot sys_boot = Done (Some (0, conf, s))" by blast
  have "memok env_example" by (simp add: env_example_def)
  then have "mag_reachable conf s" using c unfolding mag_reachable_def mag_start_def by blast
  from mag_reachable_invariant [OF this] c show ?thesis by blast
qed

text \<open>C4: a node that attaches, whose prefix is known and that has no binding, gets one that waits for the
  acknowledgement: a Proxy Binding Update for it is sent to the anchor and kept for retransmission,
  the retransmission timer is armed with the full number of attempts, and no other binding changes.\<close>

theorem mag_attaches:
  assumes "gateway_inv conf s" "env_ok conf en" "length mac = 6" "hnp_entry (hnp s) (mac48_addr mac) = Some (prefix, nai)"
    and "lookup s (nai, OurAddress conf) = None"
  shows "\<exists>p s' e pkt. msg_handler_associate conf en mac (g_ingress_iif conf) s = Done s' \<and> gateway_inv conf s'
    \<and> lookup s' = (lookup s)((nai, OurAddress conf) \<mapsto> p) \<and> (\<forall>q \<in> cached s. heap s' q = heap s q)
    \<and> e_type (heap s' p) = BCE_TEMP \<and> e_mn_prefix (heap s' p) = prefix \<and> e_mn_suffix (heap s' p) = EUI48_to_EUI64 (mac48_addr mac)
    \<and> e_n_rets_counter (heap s' p) = MaxMessageRetransmissions conf
    \<and> mh_send_pbu True (tod en) (MagAddressEgress conf 0) (LmaAddress conf) (TS 10 0) 0
        (temp_entry conf (link_event (hnp s) hasODTONELinkEvent mac (g_ingress_iif conf)) nai prefix) (seq s) = Done (0, e, seq s + 1, Some pkt)
    \<and> out s' = out s @ [SendMH pkt] \<and> e_mh_vec (heap s' p) = e_mh_vec e
    \<and> pending (tqs s') (TqBce p) = Some (tsadd (now en) (RetransmissionTimeOut conf)) \<and> task (tqs s') (TqBce p) = Some Retrans_pbu"
proof -
  let ?te = "temp_entry conf (link_event (hnp s) hasODTONELinkEvent mac (g_ingress_iif conf)) nai prefix"
  obtain s' where s': "msg_handler_associate conf en mac (g_ingress_iif conf) s = Done s'" "gateway_inv conf s'"
    "lookup s' = (lookup s)((nai, OurAddress conf) \<mapsto> brk s)" "\<forall>q \<in> cached s. heap s' q = heap s q"
    "\<exists>e pkt. mh_send_pbu True (tod en) (MagAddressEgress conf 0) (LmaAddress conf) (TS 10 0) 0 ?te (seq s) = Done (0, e, seq s + 1, Some pkt)
      \<and> out s' = out s @ [SendMH pkt]
      \<and> heap s' (brk s) = e\<lparr>e_add_time := now en, e_BID := last_BID s + 1, e_n_rets_counter := MaxMessageRetransmissions conf\<rparr>"
    "pending (tqs s') (TqBce (brk s)) = Some (tsadd (now en) (RetransmissionTimeOut conf))" "task (tqs s') (TqBce (brk s)) = Some Retrans_pbu"
    "\<exists>ts v. heap s' (brk s) = ?te\<lparr>e_seqno_out := ucast (seq s), e_timestamp := ts, e_mh_vec := v, e_add_time := now en,
       e_BID := last_BID s + 1, e_n_rets_counter := MaxMessageRetransmissions conf\<rparr>"
    by (rule associate_attaches [OF assms]) (rule that)
  have "e_type (heap s' (brk s)) = BCE_TEMP" "e_mn_prefix (heap s' (brk s)) = prefix" "e_mn_suffix (heap s' (brk s)) = EUI48_to_EUI64 (mac48_addr mac)"
    using s'(8) by (auto simp: temp_entry_def)
  moreover obtain e pkt where "mh_send_pbu True (tod en) (MagAddressEgress conf 0) (LmaAddress conf) (TS 10 0) 0 ?te (seq s) = Done (0, e, seq s + 1, Some pkt)"
      "out s' = out s @ [SendMH pkt]" "e_n_rets_counter (heap s' (brk s)) = MaxMessageRetransmissions conf" "e_mh_vec (heap s' (brk s)) = e_mh_vec e"
    using s'(5) by auto
  ultimately show ?thesis using s'(1-4,6,7) by blast
qed

theorem mag_attaches_witness:
  "\<exists>p s'. msg_handler_associate conf_gateway env_example mac_example (g_ingress_iif conf_gateway) gw_boot = Done s'
    \<and> lookup s' (nai_example, OurAddress conf_gateway) = Some p \<and> e_mn_prefix (heap s' p) = mag_b"
  using mag_attaches [OF gw_boot_inv gateway_ok(1,2) gw_boot_hnp gw_boot_lookup] by fastforce

text \<open>C5: the acknowledgement that answers the last update of a waiting binding completes its registration: the
  binding is registered, its retransmission timer becomes an expiry timer that runs out before the
  lifetime the anchor granted, the prefix is announced to the node and the rules and the route for
  its address are set up, and nothing else changes.\<close>

theorem mag_completes:
  assumes "gateway_inv conf s" "env_ok conf en" "lookup s (i_mn_nai info, OurAddress conf) = Some p" "e_type (heap s p) = BCE_TEMP"
    and "i_msg_event info = hasPBA" "i_dst info = MagAddressEgress conf 0" "1 < tv_sec (i_lifetime info)"
    and "is_pba_is_response_to_last_pbu_sent info (heap s p)" "slot_ok conf (LmaAddress conf) s"
  shows "\<exists>l s' es b. mag_fsm conf en info s = Done s' \<and> gateway_inv conf s' \<and> lookup s' = lookup s \<and> (\<forall>q. q \<noteq> p \<longrightarrow> heap s' q = heap s q)
    \<and> e_type (heap s' p) = BCE_PMIP \<and> e_lifetime (heap s' p) = TS l (tv_nsec (e_lifetime (heap s p))) \<and> 0 < l \<and> l < tv_sec (i_lifetime info)
    \<and> task (tqs s') (TqBce p) = Some Bce_expired \<and> pending (tqs s') (TqBce p) = Some (tsadd (now en) (e_lifetime (heap s' p)))
    \<and> out s' = out s @ es @ [SendRA (e_link (heap s p)) (e_mn_link_local_addr (heap s p)) b,
          RuleAdd RT6_TABLE_MIP6 (IP6_RULE_PRIO_PMIP6_FWD - 1) (in6addr_any, 0) (mn_addr (heap s p), 128)]
        @ route_effect conf (RuleAdd RT6_TABLE_PMIP IP6_RULE_PRIO_PMIP6_FWD (mn_addr (heap s p), 128) (in6addr_any, 0))
        @ [RouteAdd (e_link (heap s p)) RT6_TABLE_MIP6 IP6_RT_PRIO_MIP6_FWD (in6addr_any, 0) (mn_addr (heap s p), 128)]"
proof -
  let ?l = "TS (pba_lifetime (tv_sec (i_lifetime info))) (tv_nsec (e_lifetime (heap s p)))"
  let ?g = "granted info p ?l s"
  have l0: "0 \<le> tv_sec (i_lifetime info)" using assms(7) by simp
  obtain t s1 where s1: "mag_fsm conf en info s = Done (s1\<lparr>held := []\<rparr>)" "gateway_inv conf (s1\<lparr>held := []\<rparr>)" "lookup (s1\<lparr>held := []\<rparr>) = lookup s"
      "completed conf en p t ?g s1"
    by (rule pba_completes [OF assms(1-6) l0 assms(8,9)])
  note C = completedD [OF s1(4)]
  have g: "heap ?g p = (heap s p)\<lparr>e_PBA_flags := i_PBA_flags info, e_lifetime := ?l\<rparr>" "out ?g = out s" "tq_inv (tqs ?g)"
    using gateway_invD(4) [OF assms(1)] by (simp_all add: granted_def tq.invar_del)
  have h: "heap s1 q = heap s q" if "q \<noteq> p" for q using C(1) that by (simp add: entry_step_def granted_def)
  have a: "mn_addr (heap ?g p) = mn_addr (heap s p)" by (simp add: g(1) mn_addr_def)
  obtain es b where "out s1 = out ?g @ es @ [SendRA (e_link (heap ?g p)) (e_mn_link_local_addr (heap ?g p)) b]
          @ [RuleAdd RT6_TABLE_MIP6 (IP6_RULE_PRIO_PMIP6_FWD - 1) (in6addr_any, 0) (mn_addr (heap ?g p), 128)]
          @ route_effect conf (RuleAdd RT6_TABLE_PMIP IP6_RULE_PRIO_PMIP6_FWD (mn_addr (heap ?g p), 128) (in6addr_any, 0))
          @ [RouteAdd (e_link (heap ?g p)) RT6_TABLE_MIP6 IP6_RT_PRIO_MIP6_FWD (in6addr_any, 0) (mn_addr (heap ?g p), 128)]"
    using s1(4) unfolding completed_def by blast
  then have o: "out s1 = out s @ es @ [SendRA (e_link (heap s p)) (e_mn_link_local_addr (heap s p)) b,
          RuleAdd RT6_TABLE_MIP6 (IP6_RULE_PRIO_PMIP6_FWD - 1) (in6addr_any, 0) (mn_addr (heap s p), 128)]
        @ route_effect conf (RuleAdd RT6_TABLE_PMIP IP6_RULE_PRIO_PMIP6_FWD (mn_addr (heap s p), 128) (in6addr_any, 0))
        @ [RouteAdd (e_link (heap s p)) RT6_TABLE_MIP6 IP6_RT_PRIO_MIP6_FWD (in6addr_any, 0) (mn_addr (heap s p), 128)]"
    by (simp add: a g(2)) (simp add: g(1))
  show ?thesis
    using s1(1-3) h C(2,3) C(4) [OF g(3)] pba_lifetime_bounds(3) [OF assms(7)] o
    by (intro exI [of _ "pba_lifetime (tv_sec (i_lifetime info))"] exI [of _ "s1\<lparr>held := []\<rparr>"] exI [of _ es] exI [of _ b])
      (simp add: completed_entry_def g(1))
qed

theorem mag_completes_witness:
  "\<exists>s s'. msg_handler_associate conf_gateway env_example mac_example (g_ingress_iif conf_gateway) gw_boot = Done s
    \<and> mag_fsm conf_gateway env_example (pba_for conf_gateway (heap s 0) 40) s = Done s' \<and> e_type (heap s' 0) = BCE_PMIP"
proof -
  obtain s where s: "msg_handler_associate conf_gateway env_example mac_example (g_ingress_iif conf_gateway) gw_boot = Done s"
      "gateway_inv conf_gateway s" "lookup s (nai_example, OurAddress conf_gateway) = Some 0" "e_type (heap s 0) = BCE_TEMP"
    by (rule attached_example) (rule that)
  have "lookup s (i_mn_nai (pba_for conf_gateway (heap s 0) 40), OurAddress conf_gateway) = Some 0"
    using s(3) gateway_lookup(3) [OF s(2,3)] by simp
  from mag_completes [OF s(2) gateway_ok(1) this s(4) _ _ _ _ gateway_ok(6)] s(1) show ?thesis by fastforce
qed


text \<open>C6: an acknowledgement that is addressed to another gateway, or that differs from the last update of the
  binding in sequence number, timestamp, prefix or node identifier, changes nothing at all, whatever
  the state of the binding.\<close>

theorem mag_ignores_foreign_pba:
  assumes "gateway_inv conf s" "lookup s (i_mn_nai info, OurAddress conf) = Some p" "i_msg_event info = hasPBA"
    and "i_dst info \<noteq> MagAddressEgress conf 0 \<or> i_seqno info \<noteq> e_seqno_out (heap s p) \<or> i_timestamp info \<noteq> e_timestamp (heap s p)
      \<or> i_mn_prefix info \<noteq> e_mn_prefix (heap s p) \<or> i_mn_iid info \<noteq> e_mn_suffix (heap s p)"
  shows "mag_fsm conf en info s = Done s"
proof (cases "i_dst info = MagAddressEgress conf 0")
  case True
  then have "\<not> is_pba_is_response_to_last_pbu_sent info (heap s p)"
    using assms(4) by (auto simp: is_pba_is_response_to_last_pbu_sent_def intro: ip6ts.equality)
  then show ?thesis by (rule pba_unmatched [OF assms(1-3)])
next
  case False
  then show ?thesis using assms(3) by (simp add: mag_fsm_def)
qed

theorem mag_ignores_foreign_pba_witness:
  "\<exists>s. msg_handler_associate conf_gateway env_example mac_example (g_ingress_iif conf_gateway) gw_boot = Done s
    \<and> mag_fsm conf_gateway env_example ((pba_for conf_gateway (heap s 0) 40)\<lparr>i_seqno := e_seqno_out (heap s 0) + 1\<rparr>) s = Done s"
proof -
  obtain s where s: "msg_handler_associate conf_gateway env_example mac_example (g_ingress_iif conf_gateway) gw_boot = Done s"
      "gateway_inv conf_gateway s" "lookup s (nai_example, OurAddress conf_gateway) = Some 0"
    by (rule attached_example) (rule that)
  let ?i = "(pba_for conf_gateway (heap s 0) 40)\<lparr>i_seqno := e_seqno_out (heap s 0) + 1\<rparr>"
  have "lookup s (i_mn_nai ?i, OurAddress conf_gateway) = Some 0" using s(3) gateway_lookup(3) [OF s(2,3)] by simp
  from mag_ignores_foreign_pba [OF s(2) this, of env_example] s(1) show ?thesis by simp
qed

text \<open>C7: an update that is never acknowledged is sent again at most as often as the counter says, each time by
  one message; when the timer fires once more the binding is deleted without any message, so the
  timer cannot fire yet again, whatever else the gateway does in between.\<close>

theorem retransmissions_bounded:
  assumes "unanswered conf p n es s s'" "gateway_inv conf s" "waiting p k s"
  shows "n \<le> Suc k \<and> length es = min n k \<and> (\<forall>e \<in> set es. \<exists>pkt. e = SendMH pkt) \<and> (p \<in> cached s' \<longleftrightarrow> n \<le> k)"
  using unanswered_bound [OF assms] by (auto simp: waiting_def)

theorem retransmissions_bounded_witness:
  "\<exists>s' es. run_due conf_due env_example gw_due = Done s' \<and> out s' = out gw_due @ es \<and> length es = 1 \<and> 0 \<in> cached s'"
proof -
  obtain q where q: "runner_pop (now env_example) (tqs gw_due) = Some (TqBce 0, q)" using gw_due_fields(3) by blast
  obtain s' pkt where s': "run_due conf_due env_example gw_due = Done s'" "out s' = out gw_due @ [SendMH pkt]"
    using waiting_fires [OF gw_due_inv gw_due_fields(2) q gw_due_fields(1)] by auto
  have "unanswered conf_due 0 (Suc 0) ([] @ [SendMH pkt]) gw_due s'"
    by (rule unanswered.fires [OF unanswered.start gw_due_fields(2) q s'])
  from retransmissions_bounded [OF this gw_due_inv gw_due_fields(1)] s' show ?thesis by auto
qed

text \<open>C8: when the link reports that a registered node has left, the rules and the route for its address are
  removed, the route through the tunnel too when no other binding uses the tunnel, and as the last
  thing the anchor is sent the proxy binding update with lifetime zero that \<open>mh_send_pbu\<close> builds for
  this node; the binding is deleted and freed and no other binding is affected.\<close>

theorem mag_detaches:
  assumes "gateway_inv conf s" "env_ok conf en" "lookup s (get_node_nai (mac48_addr mac) (hnp s), OurAddress conf) = Some p"
    and "e_type (heap s p) = BCE_PMIP" "tunnel_known conf (e_tunnel (heap s p)) s"
  shows "\<exists>s' e pkt. msg_handler_deassociate conf en mac iif s = Done s' \<and> gateway_inv conf s' \<and> p \<notin> alive s'
    \<and> lookup s' = (lookup s)((get_node_nai (mac48_addr mac) (hnp s), OurAddress conf) := None)
    \<and> mh_send_pbu True (tod en) (OurAddress conf) (LmaAddress conf) tszero 0
        ((heap s p)\<lparr>e_type := BCE_NO_ENTRY, e_mn_addr := mn_addr (heap s p)\<rparr>) (seq s) = Done (0, e, seq s + 1, Some pkt)
    \<and> out s' = out s @ mag_route_removal conf (heap s p)
        @ (if tunnel_getusers (e_tunnel (heap s p)) (tctl s) = 1 then [uplink_route_del (e_tunnel (heap s p))] else []) @ [SendMH pkt]"
proof -
  let ?i = "link_event (hnp s) hasDEREG mac iif"
  have l: "lookup s (i_mn_nai ?i, OurAddress conf) = Some p" using assms(3) by simp
  obtain s' e pkt where "mag_fsm conf en ?i s = Done s'" "gateway_inv conf s'" "p \<notin> alive s'"
      "lookup s' = (lookup s)((i_mn_nai ?i, OurAddress conf) := None)"
      "mh_send_pbu True (tod en) (OurAddress conf) (LmaAddress conf) tszero 0 (left_entry (heap s p)) (seq s) = Done (0, e, seq s + 1, Some pkt)"
      "out s' = out s @ mag_route_removal conf (heap s p) @ uplink_removal (heap s p) s @ [SendMH pkt]"
    by (rule detaches [OF assms(1,2) l assms(4) _ assms(5)]) simp_all
  then show ?thesis unfolding associate_eq link_event_fields left_entry_def uplink_removal_def by blast
qed

theorem mag_detaches_witness:
  "\<exists>s' e pkt. msg_handler_deassociate conf_due env_example mac_example 3 gw_registered = Done s' \<and> 0 \<notin> alive s'
    \<and> lookup s' (nai_zero, mag_a) = None
    \<and> mh_send_pbu True (tod env_example) mag_a (LmaAddress conf_due) tszero 0
        ((heap gw_registered 0)\<lparr>e_type := BCE_NO_ENTRY, e_mn_addr := mn_addr (heap gw_registered 0)\<rparr>) (seq gw_registered)
        = Done (0, e, seq gw_registered + 1, Some pkt)
    \<and> last (out s') = SendMH pkt"
proof -
  have n: "get_node_nai (mac48_addr mac_example) (hnp gw_registered) = nai_zero" "OurAddress conf_due = mag_a" "e_type (heap gw_registered 0) = BCE_PMIP"
    using registered_entry(2) by (simp_all add: gw_registered_def due_example_fields(3) get_node_nai_boot conf_due_def)
  have l: "lookup gw_registered (nai_zero, mag_a) = Some 0"
    using lookup_Some_iff [OF gateway_invD(1) [OF gw_registered_inv]] due_example_fields(2,5) by (simp add: gw_registered_def)
  have k: "tunnel_known conf_due (e_tunnel (heap gw_registered 0)) gw_registered"
    using gateway_ok(5) by (simp add: conf_due_def tunnel_known_def conf_gateway_def)
  have d: "lookup gw_registered (get_node_nai (mac48_addr mac_example) (hnp gw_registered), OurAddress conf_due) = Some 0" using l n by simp
  from mag_detaches [OF gw_registered_inv gw_due_fields(2) d n(3) k, of 3] n(1,2) show ?thesis by fastforce
qed

end
