(* ===== verification/Handshake.thy ===== *)
theory Handshake
  imports Mag_Properties
begin

text \<open>
  The two entities together: the registration of a node that attaches to the gateway, through the bytes
  of the update and of the acknowledgement.
\<close>

section \<open>The messages of a registration\<close>

text \<open>What the anchor reads from the update that the gateway sends for a new node.\<close>

definition read_update :: "config \<Rightarrow> env \<Rightarrow> in6_addr \<Rightarrow> ip6mn_nai \<Rightarrow> in6_addr \<Rightarrow> u32 \<Rightarrow> int \<Rightarrow> int \<Rightarrow> int \<Rightarrow> msg_info \<Rightarrow> bool" where
  "read_update conf en iid nai prefix n sec us iif info \<longleftrightarrow> i_msg_event info = hasPBU \<and> i_src info = MagAddressEgress conf 0
     \<and> i_mn_serv_mag_addr info = MagAddressEgress conf 0 \<and> i_mn_nai info = nai \<and> i_mn_prefix info = prefix \<and> i_mn_iid info = iid
     \<and> i_seqno info = ucast n \<and> i_timestamp info = timestamp_of sec us \<and> i_lifetime info = TS 8 0"

lemma node_id_eui: "get_node_id (EUI48_to_EUI64 (mac48_addr mac)) = EUI48_to_EUI64 (mac48_addr mac)"
  by (cases "mac48_addr mac") simp

lemma update_read:
  assumes "length (e_mn_nai e) = NAI_SIZE" "LmaAddress ca = LmaAddress conf" "tod en = Some (sec, us)" "get_node_id (e_mn_suffix e) = e_mn_suffix e"
    and "mh_send_pbu True (tod en) (MagAddressEgress conf 0) (LmaAddress conf) (TS 10 0) 0 e n = Done (0, e', n + 1, Some pkt)"
  shows "\<exists>info. mh_pbu_parse ca msg_info_zero (p_bytes pkt) (length (p_bytes pkt)) (p_src pkt) (p_dst pkt) iif = Done info
    \<and> read_update conf en (e_mn_suffix e) (e_mn_nai e) (e_mn_prefix e) n sec us iif info"
    "e_seqno_out e' = ucast n" "e_timestamp e' = timestamp_of sec us" "e_mn_suffix e' = e_mn_suffix e" "e_mn_prefix e' = e_mn_prefix e"
    "e_mn_nai e' = e_mn_nai e" "e_type e' = e_type e" "p_src pkt = MagAddressEgress conf 0"
proof -
  have l: "length (drop 8 (s6_addr (e_mn_suffix e))) = 8" by simp
  have b: "pkt = \<lparr>p_src = MagAddressEgress conf 0, p_dst = LmaAddress conf, p_oif = 0, p_bytes = pbu_header (ucast n) (e_PBU_flags e) 2
        @ concat (pbu_options (e_mn_nai e) (e_mn_prefix e) (drop 8 (s6_addr (e_mn_suffix e))) (timestamp_of sec us))\<rparr>"
    and "\<exists>v. e' = e\<lparr>e_seqno_out := ucast n, e_timestamp := timestamp_of sec us, e_mh_vec := v\<rparr>"
    using assms(5) by (auto simp: assms(3) mh_send_pbu_bytes [OF assms(1)])
  then show "e_seqno_out e' = ucast n" "e_timestamp e' = timestamp_of sec us" "e_mn_suffix e' = e_mn_suffix e" "e_mn_prefix e' = e_mn_prefix e"
    "e_mn_nai e' = e_mn_nai e" "e_type e' = e_type e" "p_src pkt = MagAddressEgress conf 0"
    by auto
  have "length (p_bytes pkt) = 140" using options_length(1) [OF assms(1) l] by (simp add: b)
  then show "\<exists>info. mh_pbu_parse ca msg_info_zero (p_bytes pkt) (length (p_bytes pkt)) (p_src pkt) (p_dst pkt) iif = Done info
    \<and> read_update conf en (e_mn_suffix e) (e_mn_nai e) (e_mn_prefix e) n sec us iif info"
    using mh_pbu_parse_bytes [OF assms(1), of ca msg_info_zero "ucast n" "e_PBU_flags e" 2 "e_mn_prefix e" "e_mn_suffix e" "timestamp_of sec us" "[]"
        "MagAddressEgress conf 0" iif] assms(2,4)
    by (simp add: b read_update_def msg_info_zero_def tszero_def)
qed


text \<open>What the gateway reads from the acknowledgement of a binding.\<close>

lemma acknowledgement_read:
  assumes "length (e_mn_nai e) = NAI_SIZE" "get_node_id (e_mn_suffix e) = e_mn_suffix e"
  shows "\<exists>info. mh_pba_parse junk (p_bytes (pba_packet src (TS 8 0) e)) (length (p_bytes (pba_packet src (TS 8 0) e))) a b iif = Done info
    \<and> i_msg_event info = hasPBA \<and> i_dst info = b \<and> tv_sec (i_lifetime info) = 8 \<and> i_mn_nai info = e_mn_nai e \<and> i_mn_prefix info = e_mn_prefix e
    \<and> i_mn_iid info = e_mn_suffix e \<and> i_seqno info = e_seqno_in e \<and> i_timestamp info = e_timestamp e"
proof -
  have l: "length (drop 8 (s6_addr (e_mn_suffix e))) = 8" by simp
  have "length (p_bytes (pba_packet src (TS 8 0) e)) = 132" using options_length(2) [OF assms(1) l] by (simp add: pba_packet_def)
  then show ?thesis
    using mh_pba_parse_bytes [OF assms(1), of junk "e_status e" "e_PBA_flags e" "e_seqno_in e" 2 "e_mn_prefix e" "e_mn_suffix e" "e_timestamp e" "[]" a b iif]
      assms(2)
    by (simp add: pba_packet_def)
qed

section \<open>The registration\<close>

text \<open>The anchor's part: the update creates the binding and its acknowledgement.\<close>

lemma anchor_answers:
  assumes "anchor_inv ca a" "env_ok ca ea" "read_update conf en iid nai prefix n sec us iif info" "MagAddressEgress conf 0 \<noteq> in6addr_any"
    and "length nai = NAI_SIZE" "lookup a (nai, MagAddressEgress conf 0) = None" "slot_ok ca (MagAddressEgress conf 0) a"
  shows "\<exists>q a' e es es'. lma_fsm ca ea info a = Done a' \<and> anchor_inv ca a' \<and> lookup a' = (lookup a)((nai, MagAddressEgress conf 0) \<mapsto> q)
    \<and> e_type (heap a' q) = BCE_PMIP \<and> mn_addr (heap a' q) = CONVERT_ID2ADDR prefix iid
    \<and> pending (tqs a') (TqBce q) = Some (tsadd (now ea) (TS 8 0)) \<and> out a' = out a @ es @ SendMH (pba_packet (OurAddress ca) (TS 8 0) e) # es'
    \<and> e_mn_nai e = nai \<and> e_mn_prefix e = prefix \<and> e_mn_suffix e = iid \<and> e_seqno_in e = ucast n \<and> e_timestamp e = timestamp_of sec us
    \<and> e_mn_serv_mag_addr e = MagAddressEgress conf 0"
proof -
  let ?e = "(fresh_entry ca info)\<lparr>e_status := 0\<rparr>"
  note R = assms(3) [unfolded read_update_def]
  have i: "pbu_event info" "0 < tv_sec (i_lifetime info)" "lookup a (i_mn_nai info, i_src info) = None" "slot_ok ca (i_src info) a"
    using R assms(4-7) by (simp_all add: pbu_event_def)
  obtain t a' where a': "lma_fsm ca ea info a = Done a'" "anchor_inv ca a'" "lookup a' = (lookup a)((i_mn_nai info, i_src info) \<mapsto> brk a)"
      "heap a' (brk a) = bound_entry ca ea info t (last_BID a + 1)"
      "pending (tqs a') (TqBce (brk a)) = Some (tsadd (now ea) (TS (tv_sec (i_lifetime info)) 0))"
      "\<exists>es. out a' = out a @ route_effect ca (mn_route_add t (fresh_entry ca info))
         @ SendMH (pba_packet (OurAddress ca) (TS (tv_sec (i_lifetime info)) 0) ?e) # es"
    by (rule lma_registers_new [OF assms(1,2) i]) (rule that)
  have "e_seqno_in ?e = ucast n" "e_timestamp ?e = timestamp_of sec us" using R by (simp_all add: fresh_entry_def updated_entry_def)
  moreover have "e_type (heap a' (brk a)) = BCE_PMIP" "mn_addr (heap a' (brk a)) = CONVERT_ID2ADDR prefix iid"
    using R by (simp_all add: a'(4) bound_entry_def reg_entry_def mn_addr_def)
  moreover obtain es' where "out a' = out a @ route_effect ca (mn_route_add t (fresh_entry ca info))
         @ SendMH (pba_packet (OurAddress ca) (TS 8 0) ?e) # es'" using a'(6) R by auto
  ultimately show ?thesis using a'(1-5) R
    by (intro exI [of _ "brk a"] exI [of _ a'] exI [of _ ?e] exI [of _ "route_effect ca (mn_route_add t (fresh_entry ca info))"] exI [of _ es'])
      simp
qed


text \<open>The gateway's part: the acknowledgement completes the waiting binding.\<close>

lemma gateway_completes:
  assumes "gateway_inv conf s" "env_ok conf en" "lookup s (i_mn_nai info, OurAddress conf) = Some p" "e_type (heap s p) = BCE_TEMP"
    and "i_msg_event info = hasPBA" "i_dst info = MagAddressEgress conf 0" "tv_sec (i_lifetime info) = 8"
    and "is_pba_is_response_to_last_pbu_sent info (heap s p)" "slot_ok conf (LmaAddress conf) s"
  shows "\<exists>s'. mag_fsm conf en info s = Done s' \<and> gateway_inv conf s' \<and> lookup s' = lookup s \<and> e_type (heap s' p) = BCE_PMIP
    \<and> mn_addr (heap s' p) = mn_addr (heap s p)
    \<and> pending (tqs s') (TqBce p) = Some (tsadd (now en) (TS 5 (tv_nsec (e_lifetime (heap s p)))))"
proof -
  let ?l = "TS (pba_lifetime (tv_sec (i_lifetime info))) (tv_nsec (e_lifetime (heap s p)))"
  have l0: "0 \<le> tv_sec (i_lifetime info)" using assms(7) by simp
  obtain t s1 where s1: "mag_fsm conf en info s = Done (s1\<lparr>held := []\<rparr>)" "gateway_inv conf (s1\<lparr>held := []\<rparr>)" "lookup (s1\<lparr>held := []\<rparr>) = lookup s"
      "completed conf en p t (granted info p ?l s) s1"
    by (rule pba_completes [OF assms(1-6) l0 assms(8,9)])
  note C = completedD [OF s1(4)]
  have "tq_inv (tqs (granted info p ?l s))" using gateway_invD(4) [OF assms(1)] by (simp add: granted_def tq.invar_del)
  note P = C(4) [OF this]
  show ?thesis
    using s1(1-3) C(2) P assms(7)
    by (intro exI [of _ "s1\<lparr>held := []\<rparr>"]) (simp add: completed_entry_def granted_def mn_addr_def pba_lifetime_def)
qed

end
