(* ===== verification/Packet_Queue.thy ===== *)
theory Packet_Queue
  imports Flow_Scheduler
begin

text \<open>
  \<open>src/src/pmip/fmpmip/fmpmip_packets_userspace_queue_handler.c\<close>: the packets that netfilter queues for
  the daemon are parsed for the identity of their flow, and the flow is scheduled.  \<open>buf\<close> is the memory
  from the start of the packet to the end of the receive buffer, of which the packet is the first
  \<open>len\<close> bytes; the pointers of \<open>struct packet\<close> are offsets into it.  The pointers to the transport
  header, which are stored and never used, are left out, and so are the socket and the thread.
\<close>

section \<open>Model\<close>

record packet =
  pk_len :: int
  raw_packet :: nat
  pk_ip6 :: nat
  transport_protocol :: int
  transport_source_port :: u16
  transport_destination_port :: u16

definition packet_zero :: packet where
  "packet_zero = \<lparr>pk_len = 0, raw_packet = 0, pk_ip6 = 0, transport_protocol = 0, transport_source_port = 0, transport_destination_port = 0\<rparr>"

abbreviation (input) IPPROTO_HOPOPTS :: int where "IPPROTO_HOPOPTS \<equiv> 0"
abbreviation (input) IPPROTO_UDP :: int where "IPPROTO_UDP \<equiv> 17"
abbreviation (input) IPPROTO_ROUTING :: int where "IPPROTO_ROUTING \<equiv> 43"
abbreviation (input) IPPROTO_FRAGMENT :: int where "IPPROTO_FRAGMENT \<equiv> 44"
abbreviation (input) IPPROTO_DSTOPTS :: int where "IPPROTO_DSTOPTS \<equiv> 60"

definition is_ext :: "int \<Rightarrow> bool" where
  "is_ext h \<longleftrightarrow> h = IPPROTO_HOPOPTS \<or> h = IPPROTO_ROUTING \<or> h = IPPROTO_FRAGMENT \<or> h = IPPROTO_DSTOPTS"

lemma ext_step: "- (uint (x :: byte) * 8) < 8"
  using uint_ge_0 [of x] by linarith

text \<open>The loop over the extension headers.\<close>

function skip_ext :: "byte list \<Rightarrow> int \<Rightarrow> packet \<Rightarrow> (int \<times> packet) outcome" where
  "skip_ext buf next_header p =
     (if \<not> is_ext next_header then Done (next_header, p)
      else if pk_len p < 8 then Done (-1, p)
      else case read_u8 buf (raw_packet p + 1) of
        Fault f \<Rightarrow> Fault f
      | Done ip6e_len \<Rightarrow>
          let n = (uint ip6e_len + 1) * 8 in
          if pk_len p < n then Done (-1, p)
          else case read_u8 buf (raw_packet p) of
            Fault f \<Rightarrow> Fault f
          | Done ip6e_nxt \<Rightarrow>
              skip_ext buf (uint ip6e_nxt) (p\<lparr>raw_packet := raw_packet p + nat n, pk_len := pk_len p - n\<rparr>))"
  by pat_completeness auto
termination by (relation "measure (\<lambda>(buf, h, p). nat (pk_len p))") (auto simp: ext_step)

declare skip_ext.simps [simp del]

definition parse_ipv6 :: "byte list \<Rightarrow> packet \<Rightarrow> (int \<times> packet) outcome" where
  "parse_ipv6 buf p =
     andThen (read_u8 buf (raw_packet p + 6)) (\<lambda>ip6_nxt.
       skip_ext buf (uint ip6_nxt) (p\<lparr>pk_ip6 := raw_packet p, raw_packet := raw_packet p + 40, pk_len := pk_len p - 40\<rparr>))"

definition parse_ports :: "byte list \<Rightarrow> int \<Rightarrow> nat \<Rightarrow> packet \<Rightarrow> packet outcome" where
  "parse_ports buf protocol n p =
     andThen (read_u16 buf (raw_packet p)) (\<lambda>source. andThen (read_u16 buf (raw_packet p + 2)) (\<lambda>dest.
       Done (p\<lparr>raw_packet := raw_packet p + n, pk_len := pk_len p - int n, transport_source_port := ntohs source,
               transport_destination_port := ntohs dest, transport_protocol := protocol\<rparr>)))"

definition parse_tcp :: "byte list \<Rightarrow> packet \<Rightarrow> packet outcome" where
  "parse_tcp buf p = parse_ports buf 6 20 p"

definition parse_udp :: "byte list \<Rightarrow> packet \<Rightarrow> packet outcome" where
  "parse_udp buf p = parse_ports buf 17 8 p"

text \<open>The version is shifted out of its byte before it is compared with \<open>0x45\<close>, so no packet is taken for IPv4.\<close>

definition parse_packet :: "byte list \<Rightarrow> int \<Rightarrow> (int \<times> packet) outcome" where
  "parse_packet buf len =
     andThen (read_u8 buf 0) (\<lambda>ipversion.
       let p = packet_zero\<lparr>pk_len := len\<rparr> in
       if sint ipversion div 16 = 0x45 then Done (0, p)
       else andThen (parse_ipv6 buf p) (\<lambda>(h, p).
         if h = 6 then andThen (parse_tcp buf p) (\<lambda>p. Done (1, p))
         else if h = IPPROTO_UDP then andThen (parse_udp buf p) (\<lambda>p. Done (1, p))
         else Done (0, p)))"

text \<open>The identity of the flow: the first word of the header is taken in the byte order of the machine.\<close>

definition packet_flow :: "byte list \<Rightarrow> packet \<Rightarrow> flow_key outcome" where
  "packet_flow buf p =
     andThen (read_bytes buf (pk_ip6 p) 40) (\<lambda>h.
       let ip6_flow = le32 (h ! 0) (h ! 1) (h ! 2) (h ! 3) in
       Done \<lparr>ip6_source = in6_of (take 16 (drop 8 h)), ip6_dest = in6_of (take 16 (drop 24 h)),
         proto = of_int (transport_protocol p), source_port = transport_source_port p,
         destination_port = transport_destination_port p,
         tclass = ucast (drop_bit 20 ip6_flow), label = ip6_flow AND 0x000fffff\<rparr>)"

definition schedule_packet :: "env \<Rightarrow> byte list \<Rightarrow> packet \<Rightarrow> sys \<Rightarrow> (u32 \<times> sys) outcome" where
  "schedule_packet en buf p s =
     andThen (packet_flow buf p) (\<lambda>k.
     andThen (flowScheduler_schedule_flow en k s) (\<lambda>(mark, s).
       Done (mark, if sint mark > 0 then flowMarker_add_fwmark en k mark s else s)))"

text \<open>The verdict is \<open>NF_ACCEPT\<close>, with a mark or without.  \<open>ph\<close> tells whether the message has a packet header.\<close>

definition process_queue_packet :: "env \<Rightarrow> bool \<Rightarrow> byte list \<Rightarrow> int \<Rightarrow> sys \<Rightarrow> (u32 option \<times> sys) outcome" where
  "process_queue_packet en ph buf len s =
     andThen (if ph then andThen (parse_packet buf len) (\<lambda>(result, p).
                if result > 0 then schedule_packet en buf p s else Done (0, s))
              else Done (0, s)) (\<lambda>(mark, s).
       Done (if mark > 0 then Some mark else None, s))"

section \<open>Reading beyond the packet\<close>

lemma skip_ext_total:
  assumes "int (raw_packet p) + pk_len p \<le> int l" "l \<le> length buf"
  shows "\<exists>h p'. skip_ext buf nh p = Done (h, p') \<and> pk_ip6 p' = pk_ip6 p \<and> raw_packet p' \<le> max (raw_packet p) l"
  using assms
proof (induction buf nh p rule: skip_ext.induct)
  case (1 buf nh p)
  show ?case
  proof (cases "is_ext nh \<and> 8 \<le> pk_len p")
    case False
    then show ?thesis by (auto simp: skip_ext.simps [of buf nh p])
  next
    case True
    then have r: "read_u8 buf (raw_packet p + 1) = Done (buf ! (raw_packet p + 1))" "read_u8 buf (raw_packet p) = Done (buf ! raw_packet p)"
      using 1(2,3) by (simp_all add: read_u8_def)
    let ?n = "(uint (buf ! (raw_packet p + 1)) + 1) * 8"
    let ?p = "p\<lparr>raw_packet := raw_packet p + nat ?n, pk_len := pk_len p - ?n\<rparr>"
    show ?thesis
    proof (cases "pk_len p < ?n")
      case False
      have "int (raw_packet ?p) + pk_len ?p \<le> int l" using 1(2) by simp
      from "1.IH" [OF _ _ r(1) refl False r(2) this 1(3)] True obtain h p' where
        "skip_ext buf (uint (buf ! raw_packet p)) ?p = Done (h, p')" "pk_ip6 p' = pk_ip6 p" "raw_packet p' \<le> max (raw_packet ?p) l"
        by auto
      moreover have "int (raw_packet ?p) = int (raw_packet p) + ?n" using uint_ge_0 [of "buf ! (raw_packet p + 1)"] by simp
      then have "raw_packet ?p \<le> l" using False 1(2) by linarith
      ultimately show ?thesis using True False r by (simp add: skip_ext.simps [of buf nh p] Let_def)
    qed (use True r in \<open>simp add: skip_ext.simps [of buf nh p] Let_def\<close>)
  qed
qed

lemma parse_packet_Done:
  assumes "nat (max 40 len) + 4 \<le> length buf"
  shows "\<exists>r p. parse_packet buf len = Done (r, p) \<and> pk_ip6 p = 0"
proof -
  let ?p = "packet_zero\<lparr>pk_len := len\<rparr>"
  let ?q = "?p\<lparr>pk_ip6 := raw_packet ?p, raw_packet := raw_packet ?p + 40, pk_len := pk_len ?p - 40\<rparr>"
  have z: "raw_packet ?q = 40" "pk_len ?q = len - 40" "pk_ip6 ?q = 0" by (simp_all add: packet_zero_def)
  obtain h p where hp: "skip_ext buf (uint (buf ! 6)) ?q = Done (h, p)" "pk_ip6 p = 0" "raw_packet p \<le> nat (max 40 len)"
  proof -
    have "int (raw_packet ?q) + pk_len ?q \<le> int (nat (max 40 len))" "nat (max 40 len) \<le> length buf" using assms unfolding z by linarith+
    from skip_ext_total [OF this, of "uint (buf ! 6)"] obtain h p where
      "skip_ext buf (uint (buf ! 6)) ?q = Done (h, p)" "pk_ip6 p = pk_ip6 ?q" "raw_packet p \<le> max (raw_packet ?q) (nat (max 40 len))" by blast
    then show thesis using that unfolding z by simp
  qed
  have "44 \<le> length buf" using assms by linarith
  then have r: "read_u8 buf 0 = Done (buf ! 0)" "read_u8 buf 6 = Done (buf ! 6)" by (auto simp: read_u8_def)
  have "read_u16 buf (raw_packet p) = Done (le16 (buf ! raw_packet p) (buf ! (raw_packet p + 1)))"
      "read_u16 buf (raw_packet p + 2) = Done (le16 (buf ! (raw_packet p + 2)) (buf ! (raw_packet p + 3)))"
    using hp(3) assms by (auto simp: read_u16_def numeral_eq_Suc)
  then show ?thesis
    using hp(1,2) r by (simp add: parse_packet_def parse_ipv6_def parse_tcp_def parse_udp_def parse_ports_def packet_zero_def Let_def)
qed

section \<open>Well-formed packets\<close>

text \<open>A chain of extension headers, each with its kind and its contents, in front of a transport header.\<close>

fun first_kind :: "(byte \<times> byte list) list \<Rightarrow> byte \<Rightarrow> byte" where
  "first_kind [] transport = transport"
| "first_kind ((k, d) # es) transport = k"

fun ext_chain :: "(byte \<times> byte list) list \<Rightarrow> byte \<Rightarrow> byte list" where
  "ext_chain [] transport = []"
| "ext_chain ((k, d) # es) transport = [first_kind es transport, of_nat (length d div 8)] @ d @ ext_chain es transport"

definition ext_ok :: "byte \<times> byte list \<Rightarrow> bool" where
  "ext_ok e \<longleftrightarrow> fst e \<in> {0, 43, 44, 60} \<and> length (snd e) mod 8 = 6 \<and> length (snd e) < 2048"

definition ip6_packet :: "byte list \<Rightarrow> byte list \<Rightarrow> in6_addr \<Rightarrow> in6_addr \<Rightarrow> (byte \<times> byte list) list \<Rightarrow> byte \<Rightarrow> u16 \<Rightarrow> u16 \<Rightarrow> byte list \<Rightarrow> byte list" where
  "ip6_packet flow plen src dst es transport sport dport rest =
     flow @ plen @ [first_kind es transport, 64] @ s6_addr src @ s6_addr dst @ ext_chain es transport
     @ bytes16 (htons sport) @ bytes16 (htons dport) @ rest"

lemma is_ext_kind: "k \<in> {0, 43, 44, 60} \<Longrightarrow> is_ext (uint (k :: byte))"
  by (auto simp: is_ext_def)

lemma ext_length:
  assumes "length (d :: byte list) mod 8 = 6" "length d < 2048"
  shows "(uint (of_nat (length d div 8) :: byte) + 1) * 8 = int (length d) + 2"
proof -
  obtain j where j: "length d = 8 * j + 6" using assms(1) mult_div_mod_eq [of 8 "length d"] by metis
  then have "j < 256" "length d div 8 = j" using assms(2) by simp_all
  then have "uint (of_nat (length d div 8) :: byte) = int j" by (simp add: uint_word_of_int take_bit_int_eq_self unsigned_of_nat take_bit_nat_eq_self)
  then show ?thesis using j by simp
qed

lemma skip_ext_chain:
  assumes "list_all ext_ok es" "\<not> is_ext (uint transport)" "raw_packet p = length pre" "int (length (ext_chain es transport)) \<le> pk_len p"
  shows "skip_ext (pre @ ext_chain es transport @ post) (uint (first_kind es transport)) p =
    Done (uint transport, p\<lparr>raw_packet := length pre + length (ext_chain es transport), pk_len := pk_len p - int (length (ext_chain es transport))\<rparr>)"
  using assms
proof (induction es arbitrary: pre p)
  case Nil
  then show ?case by (simp add: skip_ext.simps)
next
  case (Cons e es)
  obtain k d where e: "e = (k, d)" by (cases e)
  have ok: "is_ext (uint k)" "length d mod 8 = 6" "length d < 2048" using Cons.prems(1) is_ext_kind by (auto simp: e ext_ok_def)
  let ?buf = "pre @ ext_chain (e # es) transport @ post" and ?n = "int (length d) + 2"
  have d6: "6 \<le> length d" using ok(2) by (metis mod_less_eq_dividend)
  have r: "read_u8 ?buf (raw_packet p + 1) = Done (of_nat (length d div 8))" "read_u8 ?buf (raw_packet p) = Done (first_kind es transport)"
    using Cons.prems(3) by (simp_all add: read_u8_def e nth_append)
  have l: "\<not> pk_len p < 8" "\<not> pk_len p < ?n" using Cons.prems(4) d6 by (simp_all add: e)
  let ?pre = "pre @ [first_kind es transport, of_nat (length d div 8)] @ d"
  let ?p = "p\<lparr>raw_packet := raw_packet p + nat ?n, pk_len := pk_len p - ?n\<rparr>"
  have w: "uint (of_nat (length d div 8) :: byte) * 8 + 8 = ?n" using ext_length [OF ok(2,3)] by simp
  have b: "?buf = ?pre @ ext_chain es transport @ post" "first_kind (e # es) transport = k" by (simp_all add: e)
  have "skip_ext ?buf (uint k) p = skip_ext ?buf (uint (first_kind es transport)) ?p"
    by (subst skip_ext.simps) (simp del: ext_chain.simps add: ok(1) r r(1) [folded Suc_eq_plus1] l w Let_def)
  then have "skip_ext ?buf (uint (first_kind (e # es) transport)) p = skip_ext (?pre @ ext_chain es transport @ post) (uint (first_kind es transport)) ?p"
    by (simp only: b)
  also have "\<dots> = Done (uint transport, ?p\<lparr>raw_packet := length ?pre + length (ext_chain es transport),
      pk_len := pk_len ?p - int (length (ext_chain es transport))\<rparr>)"
    by (rule Cons.IH) (use Cons.prems in \<open>simp_all add: e nat_add_distrib\<close>)
  finally show ?case by (simp add: e algebra_simps)
qed

text \<open>The identity recorded for a packet.  The first four bytes are combined in the order of the machine.\<close>

definition recorded_flow :: "byte list \<Rightarrow> in6_addr \<Rightarrow> in6_addr \<Rightarrow> byte \<Rightarrow> u16 \<Rightarrow> u16 \<Rightarrow> flow_key" where
  "recorded_flow flow src dst transport sport dport =
     (let w = le32 (flow ! 0) (flow ! 1) (flow ! 2) (flow ! 3) in
      \<lparr>ip6_source = src, ip6_dest = dst, proto = ucast transport, source_port = sport, destination_port = dport,
       tclass = ucast (drop_bit 20 w), label = w AND 0x000fffff\<rparr>)"

lemma transport_kind: "t \<in> {6, 17} \<Longrightarrow> \<not> is_ext (uint (t :: byte)) \<and> (uint t = 6 \<or> uint t = 17)"
  by (auto simp: is_ext_def)

lemma not_version4: "sint (b :: byte) div 16 \<noteq> 0x45"
  using sint_lt [of b] by simp

lemma ports_read:
  "read_u16 (pre @ bytes16 (htons a) @ bytes16 (htons b) @ post) (length pre) = Done (htons a)"
  "read_u16 (pre @ bytes16 (htons a) @ bytes16 (htons b) @ post) (length pre + 2) = Done (htons b)"
  by (simp_all add: read_u16_def bytes16_def nth_append)

lemma length_ip6_header [simp]:
  "length flow = 4 \<Longrightarrow> length plen = 2 \<Longrightarrow> length (flow @ plen @ [a, b] @ s6_addr src @ s6_addr dst) = 40"
  by simp

lemma header_bytes:
  assumes "length flow = 4" "length plen = 2"
  shows "\<forall>i < 4. (flow @ plen @ [nxt, 64] @ s6_addr src @ s6_addr dst) ! i = flow ! i"
    "(flow @ plen @ [nxt, 64] @ s6_addr src @ s6_addr dst) ! 6 = nxt"
    "take 16 (drop 8 (flow @ plen @ [nxt, 64] @ s6_addr src @ s6_addr dst)) = s6_addr src"
    "take 16 (drop 24 (flow @ plen @ [nxt, 64] @ s6_addr src @ s6_addr dst)) = s6_addr dst"
  using assms by (simp_all add: nth_append)

lemma packet_flow_read:
  assumes "length flow = 4" "length plen = 2" "pk_ip6 p = 0" "transport_protocol p = uint transport"
    "transport_source_port p = sport" "transport_destination_port p = dport"
  shows "packet_flow (flow @ plen @ [nxt, 64] @ s6_addr src @ s6_addr dst @ rest) p = Done (recorded_flow flow src dst transport sport dport)"
proof -
  let ?h = "flow @ plen @ [nxt, 64] @ s6_addr src @ s6_addr dst"
  have "read_bytes (?h @ rest) 0 40 = Done ?h" using length_ip6_header [OF assms(1,2)] by (simp add: read_bytes_def)
  then have "packet_flow (?h @ rest) p = Done (recorded_flow flow src dst transport sport dport)"
    using header_bytes [OF assms(1,2)] assms(3-6) by (simp add: packet_flow_def recorded_flow_def Let_def del: append_assoc)
  then show ?thesis by simp
qed

lemma ip6_packet_parsed:
  assumes "length flow = 4" "length plen = 2" "list_all ext_ok es" "transport \<in> {6, 17}"
    and pk: "pk = ip6_packet flow plen src dst es transport sport dport rest"
  shows "\<exists>p. parse_packet (pk @ tail) (int (length pk)) = Done (1, p)
    \<and> packet_flow (pk @ tail) p = Done (recorded_flow flow src dst transport sport dport)"
proof -
  let ?pre = "flow @ plen @ [first_kind es transport, 64] @ s6_addr src @ s6_addr dst"
  let ?ch = "ext_chain es transport" and ?post = "bytes16 (htons sport) @ bytes16 (htons dport) @ rest @ tail"
  have b: "pk @ tail = ?pre @ ?ch @ ?post" by (simp add: pk ip6_packet_def)
  have l: "length ?pre = 40" using assms(1,2) by simp
  let ?p = "packet_zero\<lparr>pk_len := int (length pk)\<rparr>"
  let ?q = "?p\<lparr>pk_ip6 := raw_packet ?p, raw_packet := raw_packet ?p + 40, pk_len := pk_len ?p - 40\<rparr>"
  have q: "raw_packet ?q = length ?pre" "int (length ?ch) \<le> pk_len ?q"
    using l by (simp_all add: packet_zero_def pk ip6_packet_def assms(1,2))
  let ?r = "?q\<lparr>raw_packet := length ?pre + length ?ch, pk_len := pk_len ?q - int (length ?ch)\<rparr>"
  have t: "\<not> is_ext (uint transport)" "uint transport = 6 \<or> uint transport = 17" using transport_kind [OF assms(4)] by auto
  have r: "read_u8 (pk @ tail) 0 = Done ((pk @ tail) ! 0)" "read_u8 (pk @ tail) (raw_packet ?p + 6) = Done (first_kind es transport)"
    using assms(1,2) unfolding b by (simp_all add: read_u8_def nth_append packet_zero_def)
  have ports: "read_u16 (pk @ tail) (raw_packet ?r) = Done (htons sport)" "read_u16 (pk @ tail) (raw_packet ?r + 2) = Done (htons dport)"
    using ports_read [of "?pre @ ?ch" sport dport "rest @ tail"] unfolding b by (simp_all add: ac_simps)
  have six: "parse_ipv6 (pk @ tail) ?p = Done (uint transport, ?r)"
    unfolding parse_ipv6_def r andThen_simps using skip_ext_chain [OF assms(3) t(1) q, of ?post] unfolding b .
  obtain p where p: "parse_packet (pk @ tail) (int (length pk)) = Done (1, p)" "pk_ip6 p = 0" "transport_protocol p = uint transport"
      "transport_source_port p = sport" "transport_destination_port p = dport"
    using t(2) six r(1) ports not_version4
    by (auto simp: parse_packet_def parse_tcp_def parse_udp_def parse_ports_def packet_zero_def Let_def)
  from packet_flow_read [OF assms(1,2) p(2-5)] have "packet_flow (pk @ tail) p = Done (recorded_flow flow src dst transport sport dport)"
    unfolding b by simp
  with p(1) show ?thesis by blast
qed

lemma marker_installs:
  "fw_faithful en \<Longrightarrow> 0 < fw_installed (out (flowMarker_add_fwmark en k m s)) (mark_rule k m)"
  by (auto simp: flowMarker_add_fwmark_def fw_faithful_def Let_def)

lemma marker_cache:
  "flowmob_cache_get k' (flowMarker_add_fwmark en k m s) = flowmob_cache_get k' s"
  "flow_inv s \<Longrightarrow> flow_inv (flowMarker_add_fwmark en k m s)"
  "heap (flowMarker_add_fwmark en k m s) = heap s" "g_pmip_hash (flowMarker_add_fwmark en k m s) = g_pmip_hash s"
  by (simp_all add: flowmob_cache_get_def fl_rd_def [abs_def] flow_inv_frame flowMarker_add_fwmark_def Let_def emit_def)

text \<open>
  The traffic class is in the second half of the first byte and the first half of the second, the
  flow label in the remaining twenty bits.  The code takes other bits: it records the version and
  drops the bits 4 to 7 of the label, so flows that differ only there share an entry.
\<close>

lemma labels_confused:
  "recorded_flow [b0, b1, b2, b3 AND 15] src dst transport sport dport = recorded_flow [b0, b1, b2, b3] src dst transport sport dport"
proof -
  have m: "(15 :: byte) = mask 4" "(0x000fffff :: u32) = mask 20" by (simp_all add: mask_eq_exp_minus_1)
  have "(ucast (drop_bit 20 (le32 b0 b1 b2 (b3 AND 15))) :: u8) = ucast (drop_bit 20 (le32 b0 b1 b2 b3))"
    unfolding le32_def m by (rule bit_word_eqI) (auto simp: bit_simps)
  moreover have "le32 b0 b1 b2 (b3 AND 15) AND 0x000fffff = le32 b0 b1 b2 b3 AND 0x000fffff"
    unfolding le32_def m by (rule bit_word_eqI) (auto simp: bit_simps)
  ultimately show ?thesis by (simp add: recorded_flow_def Let_def)
qed

section \<open>Properties\<close>

text \<open>C31: parsing a queued packet reads at most four bytes beyond its end, or beyond the fixed header when the packet
  is shorter than that: the call returns for every content of the receive buffer that has this room.
  The loop over the extension headers always ends.\<close>

theorem parse_packet_bounded:
  assumes "nat (max 40 len) + 4 \<le> length buf"
  shows "\<exists>r p k. parse_packet buf len = Done (r, p) \<and> r \<in> {0, 1} \<and> packet_flow buf p = Done k"
proof -
  obtain r p where p: "parse_packet buf len = Done (r, p)" "pk_ip6 p = 0" using parse_packet_Done [OF assms] by blast
  have "40 \<le> length buf" using assms by linarith
  then have "read_bytes buf (pk_ip6 p) 40 = Done (take 40 buf)" by (simp add: read_bytes_def p(2))
  moreover have "r \<in> {0, 1}" using p(1) by (auto simp: parse_packet_def Let_def andThen_Done_iff split: if_splits)
  ultimately show ?thesis using p(1) by (simp add: packet_flow_def Let_def)
qed

theorem parse_packet_bounded_witness:
  "(\<exists>r p. parse_packet (replicate 44 0) 40 = Done (r, p)) \<and> parse_packet (replicate 6 0 @ [6] @ replicate 33 0) 40 = Fault OutOfBounds"
  using parse_packet_bounded [of 40 "replicate 44 0"]
  by (auto simp: parse_packet_def parse_ipv6_def read_u8_def skip_ext.simps is_ext_def parse_tcp_def parse_ports_def read_u16_def
      packet_zero_def nth_append)

text \<open>C30: a queued IPv6 packet with any well-formed chain of extension headers and a TCP or UDP header, of a flow that has
  no entry yet and goes to a node with a binding and gateways, is accepted with the mark of a
  gateway of the node; its addresses, protocol and ports are the ones of the packet, the flow is recorded under
  them, and a firewall rule with the mark is installed.\<close>

theorem queue_marks_new_flow:
  assumes "length flow = 4" "length plen = 2" "list_all ext_ok es" "transport \<in> {6, 17}"
    and "pk = ip6_packet flow plen src dst es transport sport dport rest"
    and "k = recorded_flow flow src dst transport sport dport"
    and "cache_inv s" "flow_inv s" "PmipLock \<notin> set (held s)" "memok en" "fw_faithful en" "flowmob_cache_get k s = None"
    and "find (\<lambda>p. e_mn_addr (heap s p) = dst) (table_elems (g_pmip_hash s)) = Some b"
    and "marks_of s (e_mn_nai (heap s b)) \<noteq> {}" "\<forall>m \<in> marks_of s (e_mn_nai (heap s b)). 0 < sint m"
  shows "\<exists>m p s'. process_queue_packet en True (pk @ tail) (int (length pk)) s = Done (Some m, s')
    \<and> m \<in> marks_of s (e_mn_nai (heap s b)) \<and> flow_inv s' \<and> flowmob_cache_get k s' = Some p
    \<and> fl_heap s' p = \<lparr>fc_key = k, fc_BID = e_BID (heap s b), fc_client_nai = e_mn_nai (heap s b), fc_mark = m\<rparr>
    \<and> (\<forall>k'. k' \<noteq> k \<longrightarrow> flowmob_cache_get k' s' = flowmob_cache_get k' s)
    \<and> heap s' = heap s \<and> g_pmip_hash s' = g_pmip_hash s \<and> 0 < fw_installed (out s') (mark_rule k m)"
proof -
  obtain q where q: "parse_packet (pk @ tail) (int (length pk)) = Done (1, q)" "packet_flow (pk @ tail) q = Done k"
    using ip6_packet_parsed [OF assms(1-5)] assms(6) by blast
  have d: "ip6_dest k = dst" by (simp add: assms(6) recorded_flow_def Let_def)
  have "0 \<notin> marks_of s (e_mn_nai (heap s b))" using assms(15) by force
  from schedules_new_flow [OF assms(7-10,12) assms(13) [folded d] assms(14) this] obtain m p s' where
    m: "flowScheduler_schedule_flow en k s = Done (m, s')" "m \<in> marks_of s (e_mn_nai (heap s b))" "flow_inv s'" "flowmob_cache_get k s' = Some p"
      "fl_heap s' p = \<lparr>fc_key = k, fc_BID = e_BID (heap s b), fc_client_nai = e_mn_nai (heap s b), fc_mark = m\<rparr>"
      "\<forall>k'. k' \<noteq> k \<longrightarrow> flowmob_cache_get k' s' = flowmob_cache_get k' s" "heap s' = heap s" "g_pmip_hash s' = g_pmip_hash s"
    by blast
  have m0: "0 < sint m" using m(2) assms(15) by blast
  then have "0 < m" by (metis sint_0 less_irrefl word_gt_0)
  then have "process_queue_packet en True (pk @ tail) (int (length pk)) s = Done (Some m, flowMarker_add_fwmark en k m s')"
    using q m(1) m0 by (simp add: process_queue_packet_def schedule_packet_def)
  then show ?thesis using m marker_installs [OF assms(11)] by (auto simp: marker_cache)
qed

text \<open>An IPv6 packet with an empty hop-by-hop header in front of UDP.\<close>

theorem queue_marks_new_flow_witness:
  "\<exists>s'. process_queue_packet (env_example\<lparr>fw_has := (\<lambda>h r. 0 < fw_installed h r)\<rparr>) True
       (ip6_packet [0x60, 0, 0, 5] [0, 16] in6addr_any in6addr_any [(0, replicate 6 0)] 17 1000 2000 [0, 8, 0, 0] @ [])
       (int (length (ip6_packet [0x60, 0, 0, 5] [0, 16] in6addr_any in6addr_any [(0, replicate 6 0)] 17 1000 2000 [0, 8, 0, 0])))
       (flow_example pmip_entry_zero flow_entry_zero route_example) = Done (Some 1, s')"
proof -
  let ?s = "flow_example pmip_entry_zero flow_entry_zero route_example" and ?en = "env_example\<lparr>fw_has := (\<lambda>h r. 0 < fw_installed h r)\<rparr>"
  let ?k = "recorded_flow [0x60, 0, 0, 5] in6addr_any in6addr_any 17 1000 2000"
  have h: "length [0x60, 0, 0, 5 :: byte] = 4" "length [0, 16 :: byte] = 2" "list_all ext_ok [(0, replicate 6 0)]" "(17 :: byte) \<in> {6, 17}"
    by (simp_all add: ext_ok_def)
  have f: "find (\<lambda>p. e_mn_addr (heap ?s p) = in6addr_any) (table_elems (g_pmip_hash ?s)) = Some 0" "e_mn_nai (heap ?s 0) = nai_zero"
    by (simp_all add: flow_example_def table_elems_def pmip_entry_zero_def)
  have g: "PmipLock \<notin> set (held ?s)" "memok ?en" "fw_faithful ?en" by (simp_all add: flow_example_inv env_example_def fw_faithful_def)
  have k: "flowmob_cache_get ?k ?s = None"
    by (simp add: flow_example_get flow_entry_zero_def flow_key_zero_def recorded_flow_def Let_def)
  have mk: "marks_of ?s (e_mn_nai (heap ?s 0)) \<noteq> {}" "\<forall>m \<in> marks_of ?s (e_mn_nai (heap ?s 0)). 0 < sint m" by (simp_all add: f(2))
  from queue_marks_new_flow [OF h refl refl flow_example_inv(1,2) g k f(1) mk, where rest = "[0, 8, 0, 0]" and tail = "[]"] show ?thesis by (auto simp: f(2))
qed

end
