(* ===== verification/Keygen.thy ===== *)
theory Keygen
  imports Task_Queue
begin

text \<open>
  \<open>src/src/keygen.c\<close>: the nonces and keys of the return routability procedure, which every instance of the daemon
  runs as a correspondent node.  Sixteen nonces are used in turn.  A nonce becomes valid when a token
  is asked for and no valid nonce lasts long enough; its timer replaces it by a new one.  HMAC and SHA-1 are those of OpenSSL or
  of \<open>crypto.c\<close>, depending on the build, and are parameters (record \<open>crypto\<close>; \<open>crypto.c\<close> is in theory \<open>Sha1\<close>), and so is the source of randomness.
\<close>

section \<open>Model\<close>

abbreviation (input) MAX_NONCES :: nat where "MAX_NONCES \<equiv> 16"
abbreviation (input) NONCE_LENGTH :: nat where "NONCE_LENGTH \<equiv> 8"
abbreviation (input) MAX_TOKEN_LIFETIME :: int where "MAX_TOKEN_LIFETIME \<equiv> 210"
abbreviation (input) MAX_NONCE_LIFETIME_TS :: timespec where "MAX_NONCE_LIFETIME_TS \<equiv> TS 240 0"
abbreviation (input) IP6_MH_BAS_HOME_NI_EXPIRED :: int where "IP6_MH_BAS_HOME_NI_EXPIRED \<equiv> 136"
abbreviation (input) IP6_MH_BAS_COA_NI_EXPIRED :: int where "IP6_MH_BAS_COA_NI_EXPIRED \<equiv> 137"
abbreviation (input) IP6_MH_BAS_NI_EXPIRED :: int where "IP6_MH_BAS_NI_EXPIRED \<equiv> 138"

record crypto =
  hmac_sha1 :: "byte list \<Rightarrow> byte list \<Rightarrow> byte list"
  sha1 :: "byte list \<Rightarrow> byte list"

record nonce_holder =
  nonce_index :: u16
  nonce :: "byte list"
  valid_until :: timespec

text \<open>The timers of the correspondent node, in a queue of their own.\<close>

datatype cn_timer = TqNonce nat | TqBc nat

datatype cn_task = Nonce_regen | Bc_expire

record kg_state =
  nonces :: "nonce_holder list"
  max_nce :: u16
  min_nce :: u16
  key_cn :: "byte list"
  cn_tq :: "(cn_timer, cn_task) tqueue"

definition nonce_regen :: "byte list \<Rightarrow> nat \<Rightarrow> 'z kg_state_scheme \<Rightarrow> 'z kg_state_scheme" where
  "nonce_regen random i s =
     (let n = nonces s ! i in
      s\<lparr>max_nce := max_nce s + 1, min_nce := min_nce s + 1,
        nonces := (nonces s)[i := \<lparr>nonce_index = nonce_index n + 16, nonce = random, valid_until = tszero\<rparr>]\<rparr>)"

definition nonce_init :: "(nat \<Rightarrow> byte list) \<Rightarrow> 'z kg_state_scheme \<Rightarrow> 'z kg_state_scheme" where
  "nonce_init random s =
     s\<lparr>nonces := fold (\<lambda>i ns. ns[i mod MAX_NONCES := \<lparr>nonce_index = of_nat i, nonce = random i, valid_until = tszero\<rparr>]) [1..<17] (nonces s),
       min_nce := 1, max_nce := 16\<rparr>"

definition get_nonce :: "'z kg_state_scheme \<Rightarrow> u16 \<Rightarrow> nat option" where
  "get_nonce s idx = (let i = unat (idx AND 15) in if nonce_index (nonces s ! i) = idx then Some i else None)"

definition activate :: "timespec \<Rightarrow> nat \<Rightarrow> 'z kg_state_scheme \<Rightarrow> 'z kg_state_scheme" where
  "activate now i s =
     (let v = tsadd now MAX_NONCE_LIFETIME_TS in
      s\<lparr>nonces := (nonces s)[i := (nonces s ! i)\<lparr>valid_until := v\<rparr>], cn_tq := add_task_abs v (TqNonce i) Nonce_regen (cn_tq s)\<rparr>)"

text \<open>The loop of \<open>_get_valid_nonce\<close>; the counter has sixteen bits, and the nonce is used without a test.\<close>

partial_function (option) valid_loop ::
    "timespec \<Rightarrow> u16 \<Rightarrow> u16 \<Rightarrow> 'z kg_state_scheme \<Rightarrow> (nat option \<times> 'z kg_state_scheme) outcome option" where
  "valid_loop now mx c s =
     (if c \<le> mx then
        case get_nonce s c of
          None \<Rightarrow> Some (Fault NullDeref)
        | Some i \<Rightarrow>
            let s1 = (if \<not> tsisset (valid_until (nonces s ! i)) then activate now i s else s) in
            if tv_sec (tssub (valid_until (nonces s1 ! i)) now) \<ge> MAX_TOKEN_LIFETIME then Some (Done (Some i, s1))
            else valid_loop now mx (c + 1) s1
      else Some (Done (None, s)))"

definition get_valid_nonce :: "timespec \<Rightarrow> 'z kg_state_scheme \<Rightarrow> (nat option \<times> 'z kg_state_scheme) outcome option" where
  "get_valid_nonce now s = valid_loop now (max_nce s) (min_nce s) s"

definition validate_nonce :: "timespec \<Rightarrow> 'z kg_state_scheme \<Rightarrow> u16 \<Rightarrow> nat option" where
  "validate_nonce now s nidx =
     (case get_nonce s nidx of
        None \<Rightarrow> None
      | Some i \<Rightarrow> if tv_sec (tssub (valid_until (nonces s ! i)) now) < 0 then None else Some i)"

definition build_kgen_token :: "crypto \<Rightarrow> byte list \<Rightarrow> in6_addr \<Rightarrow> byte list \<Rightarrow> byte \<Rightarrow> byte list" where
  "build_kgen_token cr key addr n ident = take 8 (hmac_sha1 cr key (s6_addr addr @ n @ [ident]))"

definition rr_cn_keygen_token :: "crypto \<Rightarrow> timespec \<Rightarrow> in6_addr \<Rightarrow> byte \<Rightarrow> 'z kg_state_scheme
    \<Rightarrow> (u16 \<times> byte list \<times> 'z kg_state_scheme) outcome option" where
  "rr_cn_keygen_token cr now addr kbit s =
     map_option (\<lambda>r. andThen r (\<lambda>(n, s). case n of
         None \<Rightarrow> Fault NullDeref
       | Some i \<Rightarrow> Done (nonce_index (nonces s ! i), build_kgen_token cr (key_cn s) addr (nonce (nonces s ! i)) kbit, s)))
       (get_valid_nonce now s)"

definition rr_cn_nonce_lft :: "u16 \<Rightarrow> 'z kg_state_scheme \<Rightarrow> timespec option" where
  "rr_cn_nonce_lft index s = map_option (\<lambda>i. valid_until (nonces s ! i)) (get_nonce s index)"

definition rr_mn_calc_Kbm :: "crypto \<Rightarrow> byte list \<Rightarrow> byte list option \<Rightarrow> byte list" where
  "rr_mn_calc_Kbm cr keygen_hoa keygen_coa =
     sha1 cr (take NONCE_LENGTH keygen_hoa @ (case keygen_coa of None \<Rightarrow> [] | Some k \<Rightarrow> take NONCE_LENGTH k))"

text \<open>The result is 0 and the key, or a status and no key.\<close>

definition rr_cn_calc_Kbm :: "crypto \<Rightarrow> timespec \<Rightarrow> u16 \<Rightarrow> u16 \<Rightarrow> in6_addr \<Rightarrow> in6_addr option \<Rightarrow> 'z kg_state_scheme \<Rightarrow> int \<times> byte list option" where
  "rr_cn_calc_Kbm cr now home_nonce_ind coa_nonce_ind hoa coa s =
     (let home_nce = validate_nonce now s home_nonce_ind;
          careof_nce = validate_nonce now s coa_nonce_ind;
          ret = (if home_nce = None then IP6_MH_BAS_HOME_NI_EXPIRED else 0);
          ret = (if coa \<noteq> None \<and> careof_nce = None
                 then if ret \<noteq> 0 then IP6_MH_BAS_NI_EXPIRED else IP6_MH_BAS_COA_NI_EXPIRED else ret)
      in if ret \<noteq> 0 then (ret, None)
         else let home_token = build_kgen_token cr (key_cn s) hoa (nonce (nonces s ! the home_nce)) 0 in
              (0, Some (case coa of
                 None \<Rightarrow> rr_mn_calc_Kbm cr home_token None
               | Some a \<Rightarrow> rr_mn_calc_Kbm cr home_token (Some (build_kgen_token cr (key_cn s) a (nonce (nonces s ! the careof_nce)) 1)))))"

definition rr_cn_init :: "byte list \<Rightarrow> (nat \<Rightarrow> byte list) \<Rightarrow> 'z kg_state_scheme \<Rightarrow> 'z kg_state_scheme" where
  "rr_cn_init key random s = nonce_init random (s\<lparr>key_cn := key\<rparr>)"

section \<open>The ring of nonces\<close>

text \<open>The slot and the nonce at a distance from the oldest one.\<close>

definition nslot :: "'z kg_state_scheme \<Rightarrow> nat \<Rightarrow> nat" where
  "nslot s k = (unat (min_nce s) + k) mod MAX_NONCES"

abbreviation nholder :: "'z kg_state_scheme \<Rightarrow> nat \<Rightarrow> nonce_holder" where
  "nholder s k \<equiv> nonces s ! nslot s k"

definition ring :: "'z kg_state_scheme \<Rightarrow> bool" where
  "ring s \<longleftrightarrow> length (nonces s) = MAX_NONCES \<and> max_nce s = min_nce s + 15
     \<and> (\<forall>k < MAX_NONCES. nonce_index (nholder s k) = min_nce s + of_nat k)"

text \<open>The first \<open>m\<close> nonces are valid, each more than thirty seconds longer than the one before, with a
  timer for the time they end; the others have no timer.\<close>

definition kg_active :: "'z kg_state_scheme \<Rightarrow> nat \<Rightarrow> bool" where
  "kg_active s m \<longleftrightarrow> m \<le> MAX_NONCES
     \<and> (\<forall>k < m. tsisset (valid_until (nholder s k)) \<and> ts_norm (valid_until (nholder s k))
          \<and> pending (cn_tq s) (TqNonce (nslot s k)) = Some (valid_until (nholder s k)))
     \<and> (\<forall>k < MAX_NONCES. m \<le> k \<longrightarrow> valid_until (nholder s k) = tszero \<and> pending (cn_tq s) (TqNonce (nslot s k)) = None)
     \<and> (\<forall>k. k + 1 < m \<longrightarrow> ts_ns (valid_until (nholder s k)) + 30 * TIME_SEC_NSEC < ts_ns (valid_until (nholder s (k + 1))))"

definition kg_inv :: "'z kg_state_scheme \<Rightarrow> bool" where
  "kg_inv s \<longleftrightarrow> ring s \<and> tq_inv (cn_tq s) \<and> (\<exists>m. kg_active s m) \<and> (\<forall>i. pending (cn_tq s) (TqNonce i) \<noteq> None \<longrightarrow> i < MAX_NONCES)"

text \<open>Every timer that is due has been run.\<close>

definition prompt :: "timespec \<Rightarrow> 'z kg_state_scheme \<Rightarrow> bool" where
  "prompt now s \<longleftrightarrow> (\<forall>i e. pending (cn_tq s) (TqNonce i) = Some e \<longrightarrow> now \<le> e)"

lemma and15: "unat ((c :: u16) AND 15) = unat c mod 16"
proof -
  have "(15 :: u16) = mask 4" by (simp add: mask_eq_exp_minus_1)
  then have "c AND 15 = take_bit 4 c" by (simp only: take_bit_eq_mask)
  then have "unat (c AND 15) = take_bit 4 (unat c)" by (simp only: unsigned_take_bit_eq)
  then show ?thesis by (simp add: take_bit_eq_mod)
qed

lemma slot_of: "unat ((min_nce s + of_nat k) AND 15) = nslot s k"
proof -
  have "unat (min_nce s + of_nat k) = (unat (min_nce s) + k) mod 65536"
    by (simp add: unat_word_ariths unsigned_of_nat take_bit_eq_mod mod_simps)
  then show ?thesis by (simp add: and15 nslot_def mod_mod_cancel)
qed

lemma nslot_less [simp]: "nslot s k < MAX_NONCES"
  by (simp add: nslot_def)

lemma nslot_cases:
  assumes "k < MAX_NONCES"
  shows "nslot s k = (if unat (min_nce s) mod 16 + k < 16 then unat (min_nce s) mod 16 + k else unat (min_nce s) mod 16 + k - 16)"
proof -
  have "nslot s k = (unat (min_nce s) mod 16 + k) mod 16" by (simp add: nslot_def mod_simps)
  moreover have "unat (min_nce s) mod 16 + k < 32" using assms mod_less_divisor [of 16 "unat (min_nce s)"] by linarith
  moreover have "x mod 16 = (if x < 16 then x else x - 16)" if "x < 32" for x :: nat using that by (simp add: le_mod_geq)
  ultimately show ?thesis by presburger
qed

lemma nslot_inj:
  assumes "k < MAX_NONCES" "j < MAX_NONCES"
  shows "nslot s k = nslot s j \<longleftrightarrow> k = j"
  using assms mod_less_divisor [of 16 "unat (min_nce s)"] by (auto simp: nslot_cases split: if_splits)

lemma nslot_onto:
  assumes "i < MAX_NONCES"
  shows "\<exists>k < MAX_NONCES. nslot s k = i"
proof -
  let ?r = "unat (min_nce s) mod 16"
  have "?r < 16" by simp
  then show ?thesis using assms
    by (intro exI [of _ "if ?r \<le> i then i - ?r else i + 16 - ?r"]) (auto simp: nslot_cases)
qed

lemma get_nonce_ring:
  assumes "ring s" "k < MAX_NONCES"
  shows "get_nonce s (min_nce s + of_nat k) = Some (nslot s k)"
  using assms by (simp add: get_nonce_def slot_of ring_def Let_def)

lemma remain_iff:
  assumes "ts_norm v" "ts_norm now"
  shows "n \<le> tv_sec (tssub v now) \<longleftrightarrow> ts_ns now + n * TIME_SEC_NSEC \<le> ts_ns v"
  using assms by (cases v; cases now) (auto simp: ts_simps Let_def)

lemma tsadd_sec:
  "ts_norm now \<Longrightarrow> ts_norm (tsadd now (TS n 0))" "ts_ns (tsadd now (TS n 0)) = ts_ns now + n * TIME_SEC_NSEC"
  "0 < tv_sec now \<Longrightarrow> 0 \<le> n \<Longrightarrow> tsisset (tsadd now (TS n 0))"
  by (auto simp: ts_simps Let_def)

section \<open>Finding a nonce\<close>

text \<open>The nonce lasts for the lifetime of a token.\<close>

definition lasting :: "timespec \<Rightarrow> 'z kg_state_scheme \<Rightarrow> nat \<Rightarrow> bool" where
  "lasting now s k \<longleftrightarrow> ts_ns now + MAX_TOKEN_LIFETIME * TIME_SEC_NSEC \<le> ts_ns (valid_until (nholder s k))"

lemma counter_le:
  assumes "ring s" "unat (min_nce s) + 15 < 65536" "k < MAX_NONCES"
  shows "min_nce s + of_nat k \<le> max_nce s"
proof -
  have "unat (min_nce s + of_nat i) = unat (min_nce s) + i" if "i < 16" for i
    using that assms(2) by (simp add: unat_word_ariths unsigned_of_nat take_bit_eq_mod)
  from this [of k] this [of 15] show ?thesis using assms(1,3) by (simp add: ring_def word_le_nat_alt)
qed

lemma activate_fields:
  "min_nce (activate now i s) = min_nce s" "max_nce (activate now i s) = max_nce s" "key_cn (activate now i s) = key_cn s"
  "nslot (activate now i s) k = nslot s k"
  "i < length (nonces s) \<Longrightarrow> nonces (activate now i s) ! j = (if j = i then (nonces s ! i)\<lparr>valid_until := tsadd now MAX_NONCE_LIFETIME_TS\<rparr> else nonces s ! j)"
  by (simp_all add: activate_def Let_def nslot_def)

lemma valid_loop_finds:
  assumes "ring s" "kg_active s m" "ts_norm now" "unat (min_nce s) + 15 < 65536"
    and "k \<le> j" "j < MAX_NONCES" "\<forall>i. k \<le> i \<and> i < j \<longrightarrow> i < m \<and> \<not> lasting now s i" "j = m \<or> j < m \<and> lasting now s j"
  shows "valid_loop now (max_nce s) (min_nce s + of_nat k) s
    = Some (Done (Some (nslot s j), if j = m then activate now (nslot s j) s else s))"
proof -
  have v: "tsisset (valid_until (nholder s i))" "(MAX_TOKEN_LIFETIME \<le> tv_sec (tssub (valid_until (nholder s i)) now)) = lasting now s i"
    if "i < m" for i
    using that assms(2) remain_iff [OF _ assms(3)] by (auto simp: kg_active_def lasting_def)
  have g: "get_nonce s (min_nce s + of_nat i) = Some (nslot s i)" "min_nce s + of_nat i \<le> max_nce s" if "i \<le> j" for i
    using that assms(6) get_nonce_ring [OF assms(1)] counter_le [OF assms(1,4)] by auto
  from assms(5) show ?thesis using assms(7)
  proof (induction rule: inc_induct)
    case base
    show ?case
    proof (cases "j = m")
      case True
      have "tsadd now MAX_NONCE_LIFETIME_TS = TS (tv_sec now + 240) (tv_nsec now)" "\<not> tsisset (valid_until (nholder s j))"
        using assms(2,3,6) True by (auto simp: kg_active_def ts_simps Let_def)
      moreover have "length (nonces s) = MAX_NONCES" using assms(1) by (simp add: ring_def)
      ultimately show ?thesis using True g [of j] by (subst valid_loop.simps) (simp add: activate_fields Let_def tssub_def)
    next
      case False
      then have "j < m" "lasting now s j" using assms(8) by auto
      then show ?thesis using False v g [of j] by (subst valid_loop.simps) (simp add: Let_def)
    qed
  next
    case (step n)
    then have "n < m" "\<not> lasting now s n" "n \<le> j" by auto
    then have "valid_loop now (max_nce s) (min_nce s + of_nat n) s = valid_loop now (max_nce s) (min_nce s + of_nat (Suc n)) s"
      using v [of n] g [of n] by (subst valid_loop.simps) (simp add: Let_def add.commute add.left_commute)
    then show ?case using step by simp
  qed
qed

text \<open>With all due timers run, some nonce lasts or can be made valid: at most seven are valid and do not last.\<close>

lemma active_gap:
  assumes "kg_active s m" "i \<le> k" "k < m"
  shows "ts_ns (valid_until (nholder s i)) + int (k - i) * (30 * TIME_SEC_NSEC) \<le> ts_ns (valid_until (nholder s k))"
  using assms(2,3)
proof (induction rule: dec_induct)
  case (step n)
  then have "ts_ns (valid_until (nholder s n)) + 30 * TIME_SEC_NSEC < ts_ns (valid_until (nholder s (n + 1)))"
    using assms(1) by (simp add: kg_active_def)
  then show ?case using step by (simp add: Suc_diff_le algebra_simps)
qed simp

lemma lasting_exists:
  assumes "kg_active s m" "prompt now s" "ts_norm now"
  obtains j where "j < MAX_NONCES" "j = m \<or> j < m \<and> lasting now s j" "\<forall>i < j. i < m \<and> \<not> lasting now s i"
proof -
  define good where "good j \<longleftrightarrow> j = m \<or> j < m \<and> lasting now s j" for j
  have "\<exists>j < MAX_NONCES. good j"
  proof (cases "m = MAX_NONCES")
    case True
    have p: "pending (cn_tq s) (TqNonce (nslot s 0)) = Some (valid_until (nholder s 0))" "ts_norm (valid_until (nholder s 0))"
      using assms(1) True by (auto simp: kg_active_def)
    have "now \<le> valid_until (nholder s 0)" using assms(2) p(1) by (auto simp: prompt_def)
    then have "ts_ns now \<le> ts_ns (valid_until (nholder s 0))" using assms(3) p(2) ts_less_ns by (metis not_less)
    then have "lasting now s 15" using active_gap [OF assms(1), of 0 15] True by (simp add: lasting_def)
    then show ?thesis using True by (intro exI [of _ 15]) (simp add: good_def)
  next
    case False
    then show ?thesis using assms(1) by (intro exI [of _ m]) (auto simp: good_def kg_active_def)
  qed
  then obtain j0 where j0: "j0 < MAX_NONCES" "good j0" by blast
  define j where "j = (LEAST j. good j)"
  have j: "good j" "j \<le> j0" "\<And>i. i < j \<Longrightarrow> \<not> good i" using j0(2) by (auto simp: j_def intro: LeastI Least_le dest: not_less_Least)
  have "j \<le> m" using j(3) by (metis good_def not_le)
  then have "\<forall>i < j. i < m \<and> \<not> lasting now s i" using j(3) by (auto simp: good_def)
  then show thesis by (intro that [of j]) (use j(1,2) j0(1) in \<open>auto simp: good_def\<close>)
qed

section \<open>Tokens\<close>

lemma activate_inv:
  assumes "kg_inv s" "kg_active s m" "m < MAX_NONCES" "\<forall>i < m. \<not> lasting now s i" "ts_norm now" "0 < tv_sec now"
  shows "kg_inv (activate now (nslot s m) s)"
proof -
  let ?s = "activate now (nslot s m) s" and ?v = "tsadd now MAX_NONCE_LIFETIME_TS"
  have r: "ring s" "tq_inv (cn_tq s)" "length (nonces s) = MAX_NONCES" using assms(1) by (auto simp: kg_inv_def ring_def)
  have v: "tsisset ?v" "ts_norm ?v" "ts_ns ?v = ts_ns now + 240 * TIME_SEC_NSEC"
    using tsadd_sec [of now 240] assms(5,6) by simp_all
  have h: "nholder ?s k = (if k = m then (nholder s m)\<lparr>valid_until := ?v\<rparr> else nholder s k)" if "k < MAX_NONCES" for k
    using that assms(3) r(3) by (simp add: activate_fields nslot_inj)
  have q: "tq_inv (cn_tq ?s)" "pending (cn_tq ?s) = (pending (cn_tq s))(TqNonce (nslot s m) \<mapsto> ?v)"
    using add_task_abs_inv [OF r(2) v(1)] add_task_abs_pending [OF r(2)] by (simp_all add: activate_def Let_def)
  have "ring ?s" using r(1) h by (simp add: ring_def activate_fields) (simp add: activate_def Let_def)
  moreover have "kg_active ?s (Suc m)"
  proof -
    have A: "tsisset (valid_until (nholder s k))" "ts_norm (valid_until (nholder s k))"
        "pending (cn_tq s) (TqNonce (nslot s k)) = Some (valid_until (nholder s k))" if "k < m" for k
      using that assms(2) by (auto simp: kg_active_def)
    have B: "valid_until (nholder s k) = tszero" "pending (cn_tq s) (TqNonce (nslot s k)) = None" if "m \<le> k" "k < MAX_NONCES" for k
      using that assms(2) by (auto simp: kg_active_def)
    have C: "ts_ns (valid_until (nholder s k)) + 30 * TIME_SEC_NSEC < ts_ns (valid_until (nholder s (k + 1)))" if "k + 1 < m" for k
      using that assms(2) by (auto simp: kg_active_def)
    have D: "ts_ns (valid_until (nholder s k)) + 30 * TIME_SEC_NSEC < ts_ns ?v" if "k < m" for k
      using that assms(4) v(3) by (auto simp: lasting_def)
    show ?thesis unfolding kg_active_def
    proof (intro conjI allI impI)
      fix k assume "k < Suc m"
      then show "tsisset (valid_until (nholder ?s k))" "ts_norm (valid_until (nholder ?s k))"
          "pending (cn_tq ?s) (TqNonce (nslot ?s k)) = Some (valid_until (nholder ?s k))"
        using A [of k] v(1,2) h [of k] q(2) assms(3) by (auto simp: activate_fields(4) nslot_inj less_Suc_eq)
    next
      fix k assume "k < MAX_NONCES" "Suc m \<le> k"
      then show "valid_until (nholder ?s k) = tszero" "pending (cn_tq ?s) (TqNonce (nslot ?s k)) = None"
        using B [of k] h [of k] q(2) assms(3) by (auto simp: activate_fields(4) nslot_inj)
    next
      fix k assume "k + 1 < Suc m"
      then show "ts_ns (valid_until (nholder ?s k)) + 30 * TIME_SEC_NSEC < ts_ns (valid_until (nholder ?s (k + 1)))"
        using C [of k] D [of k] h [of k] h [of "k + 1"] assms(3) by (cases "k + 1 = m") auto
    qed (use assms(3) in simp)
  qed
  moreover have "\<forall>i. pending (cn_tq ?s) (TqNonce i) \<noteq> None \<longrightarrow> i < MAX_NONCES" using q(2) assms(1) by (auto simp: kg_inv_def)
  ultimately show ?thesis using q(1) unfolding kg_inv_def by blast
qed

text \<open>The nonce with index \<open>i\<close> has the content \<open>x\<close> and lasts beyond the time \<open>t\<close>.\<close>

definition usable :: "timespec \<Rightarrow> 'z kg_state_scheme \<Rightarrow> u16 \<Rightarrow> byte list \<Rightarrow> bool" where
  "usable t s i x \<longleftrightarrow> (\<exists>n v. get_nonce s i = Some n \<and> n < MAX_NONCES \<and> nonce (nonces s ! n) = x \<and> valid_until (nonces s ! n) = v
     \<and> ts_norm v \<and> t < v \<and> pending (cn_tq s) (TqNonce n) = Some v)"

lemma usable_valid:
  assumes "usable t s i x" "now \<le> t" "ts_norm now"
  shows "\<exists>n. validate_nonce now s i = Some n \<and> nonce (nonces s ! n) = x"
proof -
  obtain n where n: "get_nonce s i = Some n" "nonce (nonces s ! n) = x" "ts_norm (valid_until (nonces s ! n))" "t < valid_until (nonces s ! n)"
    using assms(1) by (auto simp: usable_def)
  then have "ts_ns now < ts_ns (valid_until (nonces s ! n))" using assms(2,3) ts_less_ns by (metis le_less_trans)
  then have "0 \<le> tv_sec (tssub (valid_until (nonces s ! n)) now)" using remain_iff [OF n(3) assms(3), of 0] by simp
  then show ?thesis using n(1,2) by (simp add: validate_nonce_def)
qed

lemma token_issued:
  assumes "kg_inv s" "prompt now s" "ts_norm now" "0 < tv_sec now" "unat (min_nce s) + 15 < 65536"
  obtains i x s' where "rr_cn_keygen_token cr now a b s = Some (Done (i, build_kgen_token cr (key_cn s) a x b, s'))" "kg_inv s'" "key_cn s' = key_cn s"
    "\<And>t. ts_norm t \<Longrightarrow> t < tsadd now (TS MAX_TOKEN_LIFETIME 0) \<Longrightarrow> usable t s' i x"
    "\<And>t j y. usable t s j y \<Longrightarrow> usable t s' j y" "prompt now s'" "min_nce s' = min_nce s" "s' = s \<or> (\<exists>n < MAX_NONCES. s' = activate now n s)"
proof -
  have r: "ring s" "tq_inv (cn_tq s)" "length (nonces s) = MAX_NONCES" using assms(1) by (auto simp: kg_inv_def ring_def)
  obtain m where m: "kg_active s m" using assms(1) by (auto simp: kg_inv_def)
  obtain j where j: "j < MAX_NONCES" "j = m \<or> j < m \<and> lasting now s j" "\<forall>i < j. i < m \<and> \<not> lasting now s i"
    using lasting_exists [OF m assms(2,3)] by blast
  define s' where "s' = (if j = m then activate now (nslot s j) s else s)"
  let ?n = "nonces s' ! nslot s j" and ?v = "tsadd now MAX_NONCE_LIFETIME_TS"
  have g: "get_valid_nonce now s = Some (Done (Some (nslot s j), s'))"
    using valid_loop_finds [OF r(1) m assms(3,5), of 0 j] j by (simp add: get_valid_nonce_def s'_def)
  have inv: "kg_inv s'" using activate_inv [OF assms(1) m _ _ assms(3,4)] assms(1) j by (auto simp: s'_def)
  have k: "key_cn s' = key_cn s" "min_nce s' = min_nce s" by (simp_all add: s'_def activate_fields)
  have ix: "nonce_index ?n = min_nce s + of_nat j" "get_nonce s' (min_nce s + of_nat j) = Some (nslot s j)"
    using r(1) j(1) get_nonce_ring [of s' j] inv k(2) by (auto simp: s'_def ring_def activate_fields kg_inv_def nslot_def)
  have q: "pending (cn_tq s') = (if j = m then (pending (cn_tq s))(TqNonce (nslot s j) \<mapsto> ?v) else pending (cn_tq s))"
    using add_task_abs_pending [OF r(2)] by (simp add: s'_def activate_def Let_def)
  have v: "ts_norm (valid_until ?n)" "ts_ns now + MAX_TOKEN_LIFETIME * TIME_SEC_NSEC \<le> ts_ns (valid_until ?n)"
      "pending (cn_tq s') (TqNonce (nslot s j)) = Some (valid_until ?n)"
    using j(2) m r(3) tsadd_sec(1,2) [of now 240] assms(3) q by (auto simp: s'_def activate_fields kg_active_def lasting_def)
  have "ts_ns now \<le> ts_ns ?v" "ts_norm ?v" using tsadd_sec(1,2) [of now 240] assms(3) by simp_all
  then have "now \<le> ?v" using assms(3) ts_less_ns by (metis not_less)
  then have pr: "prompt now s'" using assms(2) q by (auto simp: prompt_def)
  show thesis
  proof (rule that [of "min_nce s + of_nat j" "nonce ?n" s'])
    show "rr_cn_keygen_token cr now a b s = Some (Done (min_nce s + of_nat j, build_kgen_token cr (key_cn s) a (nonce ?n) b, s'))"
      by (simp add: rr_cn_keygen_token_def g ix(1) k(1))
    fix t assume t: "ts_norm t" "t < tsadd now (TS MAX_TOKEN_LIFETIME 0)"
    have "ts_norm (tsadd now (TS MAX_TOKEN_LIFETIME 0))" "ts_ns (tsadd now (TS MAX_TOKEN_LIFETIME 0)) = ts_ns now + MAX_TOKEN_LIFETIME * TIME_SEC_NSEC"
      using tsadd_sec(1,2) [of now MAX_TOKEN_LIFETIME] assms(3) by simp_all
    then have "t < valid_until ?n" using t v(1,2) ts_less_ns by (metis order_less_le_trans)
    then show "usable t s' (min_nce s + of_nat j) (nonce ?n)" using ix(2) v(1,3) by (auto simp: usable_def)
  next
    fix t i y assume u: "usable t s i y"
    show "usable t s' i y"
    proof (cases "j = m")
      case True
      then have "pending (cn_tq s) (TqNonce (nslot s j)) = None" using m j(1) by (simp add: kg_active_def)
      then have "nonces s' ! n = nonces s ! n \<and> pending (cn_tq s') (TqNonce n) = pending (cn_tq s) (TqNonce n)"
        if "pending (cn_tq s) (TqNonce n) \<noteq> None" for n
        using that True r(3) q by (auto simp: s'_def activate_fields)
      moreover have "get_nonce s' i = get_nonce s i"
        using True r(3) by (auto simp: get_nonce_def s'_def activate_fields Let_def)
      ultimately show ?thesis using u by (fastforce simp: usable_def)
    qed (use u in \<open>simp add: s'_def\<close>)
  next
    show "s' = s \<or> (\<exists>n < MAX_NONCES. s' = activate now n s)" using nslot_less [of s j] by (auto simp: s'_def simp del: nslot_less)
  qed (use inv k pr in auto)
qed

section \<open>Replacing a nonce\<close>

lemma regen_fields:
  assumes "ring s" "i = nslot s 0"
  shows "nslot (nonce_regen r i s) k = nslot s (Suc k)" "length (nonces (nonce_regen r i s)) = MAX_NONCES"
    "k < 15 \<Longrightarrow> nholder (nonce_regen r i s) k = nholder s (Suc k)"
    "nholder (nonce_regen r i s) 15 = \<lparr>nonce_index = min_nce s + 16, nonce = r, valid_until = tszero\<rparr>"
proof -
  have l: "length (nonces s) = MAX_NONCES" "nonce_index (nholder s 0) = min_nce s" using assms(1) by (auto simp: ring_def)
  have m: "((u + 1) mod 65536 + k) mod 16 = (u + Suc k) mod 16" for u k :: nat
  proof -
    have "((u + 1) mod 65536 + k) mod 16 = ((u + 1) mod 65536 mod 16 + k) mod 16" by (simp only: mod_add_left_eq)
    also have "\<dots> = ((u + 1) mod 16 + k) mod 16" using mod_mod_cancel [of 16 65536 "u + 1"] by simp
    finally show ?thesis by (simp add: mod_add_left_eq)
  qed
  have u: "unat (min_nce s + 1) = (unat (min_nce s) + 1) mod 65536" by (simp add: unat_word_ariths)
  have n: "nslot (nonce_regen r i s) k = nslot s (Suc k)" for k
    unfolding nslot_def by (simp only: m [symmetric] u [symmetric]) (simp add: nonce_regen_def Let_def)
  show "nslot (nonce_regen r i s) k = nslot s (Suc k)" by (rule n)
  show "length (nonces (nonce_regen r i s)) = MAX_NONCES" using l(1) by (simp add: nonce_regen_def Let_def)
  show "nholder (nonce_regen r i s) k = nholder s (Suc k)" if "k < 15"
    unfolding n using that l(1) nslot_inj [of 0 "Suc k" s] by (simp add: nonce_regen_def Let_def assms(2))
  have "nslot s 16 = nslot s 0" by (simp add: nslot_def)
  then show "nholder (nonce_regen r i s) 15 = \<lparr>nonce_index = min_nce s + 16, nonce = r, valid_until = tszero\<rparr>"
    unfolding n using l by (simp add: nonce_regen_def Let_def assms(2))
qed

lemma regen_inv:
  assumes "kg_inv s" "runner_pop now (cn_tq s) = Some (TqNonce i, q)"
  shows "kg_inv (nonce_regen r i (s\<lparr>cn_tq := q\<rparr>))" "i = nslot s 0"
proof -
  have r: "ring s" "tq_inv (cn_tq s)" using assms(1) by (auto simp: kg_inv_def)
  obtain m where m: "kg_active s m" using assms(1) by (auto simp: kg_inv_def)
  obtain e where e: "pending (cn_tq s) (TqNonce i) = Some e" "\<forall>j e'. pending (cn_tq s) j = Some e' \<longrightarrow> e \<le> e'"
      "pending q = (pending (cn_tq s))(TqNonce i := None)"
    using runner_pop_pending [OF r(2) assms(2)] by blast
  have "i < MAX_NONCES" using assms(1) e(1) by (auto simp: kg_inv_def)
  then obtain k where k: "k < MAX_NONCES" "nslot s k = i" using nslot_onto [of i s] by blast
  have km: "k < m" using m e(1) k by (force simp: kg_active_def not_less)
  have A: "ts_norm (valid_until (nholder s j))" "pending (cn_tq s) (TqNonce (nslot s j)) = Some (valid_until (nholder s j))" if "j < m" for j
    using that m by (auto simp: kg_active_def)
  have "valid_until (nholder s k) \<le> valid_until (nholder s 0)" using e(1,2) A(2) [of k] A(2) [of 0] k(2) km by auto
  then have "ts_ns (valid_until (nholder s k)) \<le> ts_ns (valid_until (nholder s 0))" using A(1) km ts_less_ns by (metis not_less gr_zeroI not_less_zero)
  then have k0: "k = 0" using active_gap [OF m, of 0 k] km by auto
  then show i: "i = nslot s 0" using k(2) by simp
  let ?t = "s\<lparr>cn_tq := q\<rparr>" and ?s = "nonce_regen r i (s\<lparr>cn_tq := q\<rparr>)"
  have t: "ring ?t" "i = nslot ?t 0" "nslot ?t j = nslot s j" "nonces ?t = nonces s" "min_nce ?t = min_nce s" for j
    using r(1) i by (auto simp: ring_def nslot_def)
  note F = regen_fields [OF t(1,2), where r = r, unfolded t(3,4,5)]
  have Q: "cn_tq ?s = q" "min_nce ?s = min_nce s + 1" "max_nce ?s = max_nce s + 1" by (simp_all add: nonce_regen_def Let_def)
  have ix: "nonce_index (nholder ?s j) = min_nce ?s + of_nat j" if "j < MAX_NONCES" for j
  proof (cases "j = 15")
    case False
    then have "nholder ?s j = nholder s (Suc j)" "Suc j < MAX_NONCES" using that F(3) by auto
    then show ?thesis using r(1) Q(2) by (simp add: ring_def add.commute add.left_commute)
  qed (use F(4) Q(2) in simp)
  then have "ring ?s" using F(2) Q(2,3) r(1) by (simp add: ring_def)
  moreover have "kg_active ?s (m - 1)"
  proof -
    have m1: "m \<le> MAX_NONCES" using m by (simp add: kg_active_def)
    have p: "pending q (TqNonce (nslot s (Suc j))) = (if j = 15 then None else pending (cn_tq s) (TqNonce (nslot s (Suc j))))" if "j < MAX_NONCES" for j
    proof (cases "j = 15")
      case True
      have "nslot s 16 = nslot s 0" by (simp add: nslot_def)
      with True show ?thesis using e(3) i by simp
    next
      case False
      then show ?thesis using e(3) i that nslot_inj [of 0 "Suc j" s] by simp
    qed
    show ?thesis unfolding kg_active_def
    proof (intro conjI allI impI)
      fix j assume "j < m - 1"
      then have j: "Suc j < m" "j < 15" using m1 by auto
      then show "tsisset (valid_until (nholder ?s j))" "ts_norm (valid_until (nholder ?s j))"
          "pending (cn_tq ?s) (TqNonce (nslot ?s j)) = Some (valid_until (nholder ?s j))"
        using m F(3) [of j] F(1) [of j] p [of j] Q(1) by (auto simp: kg_active_def)
    next
      fix j assume j: "j < MAX_NONCES" "m - 1 \<le> j"
      show "valid_until (nholder ?s j) = tszero" "pending (cn_tq ?s) (TqNonce (nslot ?s j)) = None"
        using j m F(1,3) [of j] F(4) p [of j] Q(1) by (cases "j = 15"; auto simp: kg_active_def)+
    next
      fix j assume "j + 1 < m - 1"
      then have j: "Suc j + 1 < m" "j < 15" "Suc j < 15" using m1 by auto
      then show "ts_ns (valid_until (nholder ?s j)) + 30 * TIME_SEC_NSEC < ts_ns (valid_until (nholder ?s (j + 1)))"
        using m F(3) [of j] F(3) [of "Suc j"] by (simp add: kg_active_def)
    qed (use m1 in simp)
  qed
  moreover have "tq_inv q" by (rule runner_pop_inv [OF r(2) assms(2)])
  ultimately show "kg_inv ?s" using assms(1) e(3) Q(1) unfolding kg_inv_def by auto
qed

lemma regen_usable:
  assumes "usable t s j y" "tq_inv (cn_tq s)" "runner_pop now (cn_tq s) = Some (TqNonce i, q)" "now \<le> t"
  shows "usable t (nonce_regen r i (s\<lparr>cn_tq := q\<rparr>)) j y"
proof -
  obtain e where e: "pending (cn_tq s) (TqNonce i) = Some e" "e \<le> now" "pending q = (pending (cn_tq s))(TqNonce i := None)"
    using runner_pop_pending [OF assms(2,3)] by blast
  obtain n v where n: "get_nonce s j = Some n" "n < MAX_NONCES" "nonce (nonces s ! n) = y" "valid_until (nonces s ! n) = v" "ts_norm v" "t < v"
      "pending (cn_tq s) (TqNonce n) = Some v"
    using assms(1) by (auto simp: usable_def)
  have "n \<noteq> i"
  proof
    assume "n = i"
    then have "v \<le> t" using e(1,2) n(7) assms(4) by simp
    then show False using n(6) by simp
  qed
  then have x: "nonces (nonce_regen r i (s\<lparr>cn_tq := q\<rparr>)) ! n = nonces s ! n" "cn_tq (nonce_regen r i (s\<lparr>cn_tq := q\<rparr>)) = q"
    by (simp_all add: nonce_regen_def Let_def)
  have "get_nonce (nonce_regen r i (s\<lparr>cn_tq := q\<rparr>)) j = Some n" using n(1) x(1) by (auto simp: get_nonce_def Let_def split: if_splits)
  then show ?thesis using n x e(3) \<open>n \<noteq> i\<close> by (auto simp: usable_def)
qed

section \<open>Start\<close>

lemma init_nth:
  assumes "length ns = MAX_NONCES" "n \<le> MAX_NONCES" "1 \<le> j" "j \<le> n"
  shows "fold (\<lambda>i ns. ns[i mod MAX_NONCES := f i]) [1..<Suc n] ns ! (j mod MAX_NONCES) = f j"
    and "length (fold (\<lambda>i ns. ns[i mod MAX_NONCES := f i]) [1..<Suc n] ns) = MAX_NONCES"
proof -
  have l: "length (fold (\<lambda>i ns. ns[i mod MAX_NONCES := f i]) is ns) = MAX_NONCES" for "is"
    using assms(1) by (induction "is" arbitrary: ns) auto
  then show "length (fold (\<lambda>i ns. ns[i mod MAX_NONCES := f i]) [1..<Suc n] ns) = MAX_NONCES" .
  show "fold (\<lambda>i ns. ns[i mod MAX_NONCES := f i]) [1..<Suc n] ns ! (j mod MAX_NONCES) = f j"
    using assms(2-4)
  proof (induction n)
    case (Suc n)
    let ?p = "fold (\<lambda>i ns. ns[i mod MAX_NONCES := f i]) [1..<Suc n] ns"
    have e: "fold (\<lambda>i ns. ns[i mod MAX_NONCES := f i]) [1..<Suc (Suc n)] ns = ?p[Suc n mod MAX_NONCES := f (Suc n)]" by simp
    show ?case
    proof (cases "j = Suc n")
      case True
      then show ?thesis unfolding e using l by simp
    next
      case False
      then have "j mod MAX_NONCES \<noteq> Suc n mod MAX_NONCES" using Suc.prems by (cases "Suc n = 16") auto
      then show ?thesis unfolding e using Suc False by simp
    qed
  qed simp
qed

lemma rr_cn_init_inv:
  assumes "length (nonces s) = MAX_NONCES" "tq_inv (cn_tq s)" "\<And>i. pending (cn_tq s) (TqNonce i) = None"
  shows "kg_inv (rr_cn_init key random s)"
proof -
  let ?s = "rr_cn_init key random s" and ?f = "\<lambda>i. \<lparr>nonce_index = of_nat i, nonce = random i, valid_until = tszero\<rparr> :: nonce_holder"
  have f: "min_nce ?s = 1" "max_nce ?s = 16" "cn_tq ?s = cn_tq s"
      "nonces ?s = fold (\<lambda>i ns. ns[i mod MAX_NONCES := ?f i]) [1..<Suc 16] (nonces s)"
    by (simp_all add: rr_cn_init_def nonce_init_def)
  have h: "nholder ?s k = ?f (Suc k)" if "k < MAX_NONCES" for k
    using init_nth(1) [OF assms(1), of 16 "Suc k" ?f] that unfolding f(4) [symmetric] by (simp add: nslot_def f(1))
  have "ring ?s" using init_nth(2) [OF assms(1), of 16 1 ?f] h f by (simp add: ring_def)
  moreover have "kg_active ?s 0" using h f assms(3) by (simp add: kg_active_def)
  ultimately show ?thesis using assms(2,3) f(3) by (auto simp: kg_inv_def)
qed

section \<open>Properties\<close>

text \<open>Tokens issued and nonces replaced up to the time \<open>t\<close>.  When a token is issued the timers that were due before have run,
  and the counter of the nonces has not wrapped around.\<close>

inductive kg_run :: "crypto \<Rightarrow> timespec \<Rightarrow> 'z kg_state_scheme \<Rightarrow> 'z kg_state_scheme \<Rightarrow> bool" for cr t s where
  start: "kg_run cr t s s"
| issue: "kg_run cr t s s1 \<Longrightarrow> now \<le> t \<Longrightarrow> ts_norm now \<Longrightarrow> 0 < tv_sec now \<Longrightarrow> prompt now s1 \<Longrightarrow> unat (min_nce s1) + 15 < 65536
    \<Longrightarrow> rr_cn_keygen_token cr now a b s1 = Some (Done (i, tok, s2)) \<Longrightarrow> kg_run cr t s s2"
| regen: "kg_run cr t s s1 \<Longrightarrow> now \<le> t \<Longrightarrow> runner_pop now (cn_tq s1) = Some (TqNonce i, q) \<Longrightarrow> kg_run cr t s (nonce_regen r i (s1\<lparr>cn_tq := q\<rparr>))"

lemma kg_run_keeps:
  assumes "kg_run cr t s s'" "kg_inv s"
  shows "kg_inv s' \<and> key_cn s' = key_cn s \<and> (\<forall>i x. usable t s i x \<longrightarrow> usable t s' i x)"
  using assms
proof (induction rule: kg_run.induct)
  case (issue s1 now a b i tok s2)
  then have inv: "kg_inv s1" "key_cn s1 = key_cn s" "\<forall>i x. usable t s i x \<longrightarrow> usable t s1 i x" by auto
  obtain j x s' where j: "rr_cn_keygen_token cr now a b s1 = Some (Done (j, build_kgen_token cr (key_cn s1) a x b, s'))" "kg_inv s'" "key_cn s' = key_cn s1"
      "\<And>j y. usable t s1 j y \<Longrightarrow> usable t s' j y"
    using token_issued [OF inv(1) issue(5,3,4,6), of cr a b] by metis
  then show ?case using issue(7) inv by auto
next
  case (regen s1 now i q r)
  then show ?case using regen_inv(1) [of s1 now i q r] regen_usable [of t s1 _ _ now i q r] by (auto simp: kg_inv_def nonce_regen_def Let_def)
qed simp

text \<open>C39: return routability works: when a mobile node has got a home token and a care-of token and uses them within the 210 seconds that tokens last, whatever
  other tokens are issued and nonces replaced in the meantime, the key the correspondent node computes from
  the two nonce indices is the key that the mobile node computes from the tokens.\<close>

theorem kbm_agrees:
  assumes "kg_inv s0" "ts_norm t" "now3 \<le> t" "ts_norm now3"
    and "prompt now1 s0" "ts_norm now1" "0 < tv_sec now1" "unat (min_nce s0) + 15 < 65536" "t < tsadd now1 (TS MAX_TOKEN_LIFETIME 0)"
    and "rr_cn_keygen_token cr now1 hoa 0 s0 = Some (Done (hi, ht, s1))" "kg_run cr t s1 s2"
    and "prompt now2 s2" "ts_norm now2" "0 < tv_sec now2" "unat (min_nce s2) + 15 < 65536" "t < tsadd now2 (TS MAX_TOKEN_LIFETIME 0)"
    and "rr_cn_keygen_token cr now2 coa 1 s2 = Some (Done (ci, ct, s3))" "kg_run cr t s3 s4"
  shows "rr_cn_calc_Kbm cr now3 hi ci hoa (Some coa) s4 = (0, Some (rr_mn_calc_Kbm cr ht (Some ct)))"
proof -
  obtain x where x: "ht = build_kgen_token cr (key_cn s0) hoa x 0" "kg_inv s1" "key_cn s1 = key_cn s0" "usable t s1 hi x"
    using token_issued [OF assms(1,5-8), of cr hoa 0] assms(2,9,10) by (metis outcome.inject(2) option.inject prod.inject)
  have 2: "kg_inv s2" "key_cn s2 = key_cn s0" "usable t s2 hi x" using kg_run_keeps [OF assms(11) x(2)] x(3,4) by auto
  obtain y where y: "ct = build_kgen_token cr (key_cn s2) coa y 1" "kg_inv s3" "key_cn s3 = key_cn s2" "usable t s3 ci y" "usable t s3 hi x"
    using token_issued [OF 2(1) assms(12-15), of cr coa 1] assms(2,16,17) 2(3) by (metis outcome.inject(2) option.inject prod.inject)
  have 4: "key_cn s4 = key_cn s0" "usable t s4 hi x" "usable t s4 ci y" using kg_run_keeps [OF assms(18) y(2)] y(3-5) 2(2) by auto
  obtain n m where "validate_nonce now3 s4 hi = Some n" "nonce (nonces s4 ! n) = x" "validate_nonce now3 s4 ci = Some m" "nonce (nonces s4 ! m) = y"
    using usable_valid [OF 4(2) assms(3,4)] usable_valid [OF 4(3) assms(3,4)] by blast
  then show ?thesis using x(1) y(1) 2(2) 4(1) by (simp add: rr_cn_calc_Kbm_def)
qed

text \<open>Nonces of which none has been used.\<close>

definition kg_at :: "u16 \<Rightarrow> kg_state" where
  "kg_at mn = \<lparr>nonces = map (\<lambda>i. \<lparr>nonce_index = mn + of_nat ((i + 16 - unat mn mod 16) mod 16), nonce = replicate 8 0, valid_until = tszero\<rparr>) [0..<16],
     max_nce = mn + 15, min_nce = mn, key_cn = replicate 20 0, cn_tq = tq_init\<rparr>"

lemma kg_at_inv: "kg_inv (kg_at mn)" "prompt now (kg_at mn)"
proof -
  have n: "(nslot (kg_at mn) k + 16 - unat mn mod 16) mod 16 = k" if "k < MAX_NONCES" for k
  proof -
    have r: "unat (min_nce (kg_at mn)) mod 16 = unat mn mod 16" "unat mn mod 16 < 16" by (simp_all add: kg_at_def)
    show ?thesis using that r(2) unfolding nslot_cases [OF that] r(1) by (simp add: le_mod_geq)
  qed
  have h: "nholder (kg_at mn) k = \<lparr>nonce_index = mn + of_nat k, nonce = replicate 8 0, valid_until = tszero\<rparr>" if "k < MAX_NONCES" for k
  proof -
    have "nholder (kg_at mn) k = \<lparr>nonce_index = mn + of_nat ((nslot (kg_at mn) k + 16 - unat mn mod 16) mod 16), nonce = replicate 8 0, valid_until = tszero\<rparr>"
      using nslot_less [of "kg_at mn" k] by (simp add: kg_at_def del: nslot_less)
    then show ?thesis by (simp only: n [OF that])
  qed
  have p: "pending (cn_tq (kg_at mn)) i = None" for i by (simp add: kg_at_def pending_def tq_init_def)
  have "ring (kg_at mn)" using h by (simp add: ring_def) (simp add: kg_at_def)
  moreover have "kg_active (kg_at mn) 0" using h p by (simp add: kg_active_def)
  moreover have "tq_inv (cn_tq (kg_at mn))" by (simp add: kg_at_def tq_inv_init)
  ultimately show "kg_inv (kg_at mn)" using p by (auto simp: kg_inv_def)
  show "prompt now (kg_at mn)" using p by (simp add: prompt_def)
qed

theorem kbm_agrees_witness:
  "\<forall>cr hoa coa. \<exists>hi ht s1 ci ct s3. rr_cn_keygen_token cr (TS 100 0) hoa 0 (kg_at 1) = Some (Done (hi, ht, s1))
    \<and> rr_cn_keygen_token cr (TS 100 0) coa 1 s1 = Some (Done (ci, ct, s3))
    \<and> rr_cn_calc_Kbm cr (TS 300 0) hi ci hoa (Some coa) s3 = (0, Some (rr_mn_calc_Kbm cr ht (Some ct)))"
proof (intro allI)
  fix cr hoa coa
  have n: "ts_norm (TS 100 0)" "ts_norm (TS 300 0)" "0 < tv_sec (TS 100 0)" "TS 300 0 < tsadd (TS 100 0) (TS MAX_TOKEN_LIFETIME 0)"
    by (simp_all add: ts_simps less_timespec_def del: tsafter_less)
  have w: "unat (min_nce (kg_at 1)) + 15 < 65536" by (simp add: kg_at_def)
  obtain hi ht s1 where 1: "rr_cn_keygen_token cr (TS 100 0) hoa 0 (kg_at 1) = Some (Done (hi, ht, s1))" "kg_inv s1" "prompt (TS 100 0) s1" "min_nce s1 = min_nce (kg_at 1)"
    using token_issued [OF kg_at_inv n(1,3) w, of cr hoa 0] by metis
  have w1: "unat (min_nce s1) + 15 < 65536" using w 1(4) by simp
  obtain ci ct s3 where 2: "rr_cn_keygen_token cr (TS 100 0) coa 1 s1 = Some (Done (ci, ct, s3))"
    using token_issued [OF 1(2,3) n(1,3) w1, of cr coa 1] by metis
  have "rr_cn_calc_Kbm cr (TS 300 0) hi ci hoa (Some coa) s3 = (0, Some (rr_mn_calc_Kbm cr ht (Some ct)))"
    by (rule kbm_agrees [OF kg_at_inv(1) n(2) order.refl n(2) kg_at_inv(2) n(1,3) w n(4) 1(1) kg_run.start 1(3) n(1,3) w1 n(4) 2 kg_run.start])
  with 1(1) 2 show "\<exists>hi ht s1 ci ct s3. rr_cn_keygen_token cr (TS 100 0) hoa 0 (kg_at 1) = Some (Done (hi, ht, s1))
    \<and> rr_cn_keygen_token cr (TS 100 0) coa 1 s1 = Some (Done (ci, ct, s3))
    \<and> rr_cn_calc_Kbm cr (TS 300 0) hi ci hoa (Some coa) s3 = (0, Some (rr_mn_calc_Kbm cr ht (Some ct)))" by blast
qed

text \<open>The indices of the nonces have sixteen bits.  Once the index of the newest nonce has wrapped around and the oldest has not,
  the loop over the nonces does not run and the next test-init message makes the node dereference a null pointer.\<close>

lemma nonce_counter_wraps:
  assumes "ring s" "65536 \<le> unat (min_nce s) + 15"
  shows "rr_cn_keygen_token cr now a b s = Some (Fault NullDeref)"
proof -
  have "unat (max_nce s) = (unat (min_nce s) + 15) mod 65536" using assms(1) by (simp add: ring_def unat_word_ariths)
  moreover have "unat (min_nce s) < 65536" using unsigned_less [where 'b = 16 and w = "min_nce s"] by simp
  ultimately have "unat (max_nce s) < unat (min_nce s)" using assms(2) by (simp add: le_mod_geq)
  then have "\<not> min_nce s \<le> max_nce s" by (simp add: word_le_nat_alt)
  then show ?thesis by (simp add: rr_cn_keygen_token_def get_valid_nonce_def valid_loop.simps)
qed

lemma nonce_counter_wraps_witness:
  "\<forall>cr now a. rr_cn_keygen_token cr now a 0 (kg_at 65521) = Some (Fault NullDeref)"
proof (intro allI)
  fix cr now a
  have "ring (kg_at 65521)" using kg_at_inv(1) by (simp add: kg_inv_def)
  then show "rr_cn_keygen_token cr now a 0 (kg_at 65521) = Some (Fault NullDeref)"
    by (rule nonce_counter_wraps) (simp add: kg_at_def)
qed

end
