(* ===== verification/Mh_Send.thy ===== *)
theory Mh_Send
  imports Mobility_Header Keygen
begin

text \<open>
  \<open>src/src/mh.c\<close>: sending mobility messages of the Mobile IPv6 core, with the binding authorization data at their end.  A
  message is the bytes given to the socket, whose length field the code has filled in; the kernel fills in the checksum, which is
  zero while the authorization data is computed.  The policy module is the default one, which never advises a refresh.
\<close>

section \<open>Model\<close>

abbreviation (input) MIPV6_DIGEST_LEN :: nat where "MIPV6_DIGEST_LEN \<equiv> 12"
abbreviation (input) IP6_MH_TYPE_BRR :: nat where "IP6_MH_TYPE_BRR \<equiv> 0"
abbreviation (input) IP6_MH_TYPE_HOT :: nat where "IP6_MH_TYPE_HOT \<equiv> 3"
abbreviation (input) IP6_MH_TYPE_COT :: nat where "IP6_MH_TYPE_COT \<equiv> 4"
abbreviation (input) IP6_MH_TYPE_BU :: nat where "IP6_MH_TYPE_BU \<equiv> 5"
abbreviation (input) IP6_MH_TYPE_BACK :: nat where "IP6_MH_TYPE_BACK \<equiv> 6"

record in6_addr_bundle =
  ab_src :: in6_addr
  ab_dst :: in6_addr
  ab_local_coa :: "in6_addr option"
  ab_remote_coa :: "in6_addr option"
  ab_bind_coa :: "in6_addr option"

definition calculate_auth_data :: "crypto \<Rightarrow> iovec list \<Rightarrow> in6_addr \<Rightarrow> in6_addr \<Rightarrow> byte list \<Rightarrow> byte list" where
  "calculate_auth_data cr iov coa cn key = take MIPV6_DIGEST_LEN (hmac_sha1 cr key (s6_addr coa @ s6_addr cn @ concat iov))"

definition mh_verify_auth_data :: "crypto \<Rightarrow> byte list \<Rightarrow> nat \<Rightarrow> nat \<Rightarrow> in6_addr \<Rightarrow> in6_addr \<Rightarrow> byte list \<Rightarrow> int outcome" where
  "mh_verify_auth_data cr msg len opt coa cn key =
     andThen (read_u8 msg (opt + 1)) (\<lambda>l.
       if len < unat l \<or> MIPV6_DIGEST_LEN < unat l then Fault OutOfBounds
       else andThen (read_bytes msg 0 (len - unat l)) (\<lambda>m. andThen (read_bytes msg (opt + 2) (unat l)) (\<lambda>d.
         Done (if take (unat l) (calculate_auth_data cr [m] coa cn key) = d then 0 else - 1))))"

text \<open>The padded vectors with the length field of the header.\<close>

definition mh_fill :: "iovec list \<Rightarrow> iovec list" where
  "mh_fill vec = (let iov = mh_try_pad vec in (hd iov)[1 := of_nat (mh_length iov div 8) - 1] # tl iov)"

definition mh_sign :: "crypto \<Rightarrow> in6_addr \<Rightarrow> in6_addr \<Rightarrow> byte list \<Rightarrow> iovec list \<Rightarrow> iovec list" where
  "mh_sign cr coa cn key iov =
     (let b = last iov in
      if hd b = IP6_MHOPT_BAUTH
      then butlast iov @ [take 2 b @ calculate_auth_data cr (butlast iov @ [take (length b - MIPV6_DIGEST_LEN) b]) coa cn key]
      else iov)"

definition mh_send :: "crypto \<Rightarrow> in6_addr_bundle \<Rightarrow> iovec list \<Rightarrow> byte list option \<Rightarrow> byte list outcome" where
  "mh_send cr addrs mh_vec bind_key =
     (let iov = mh_fill mh_vec in
      case bind_key of
        None \<Rightarrow> Done (concat iov)
      | Some key \<Rightarrow>
          let cn = (if unat (hd iov ! 2) = IP6_MH_TYPE_BU then ab_dst addrs else ab_src addrs) in
          if length iov \<le> 1 \<or> ab_bind_coa addrs = None then Fault AssertFail
          else Done (concat (mh_sign cr (the (ab_bind_coa addrs)) cn key iov)))"

text \<open>The bytes of a binding acknowledgement, or none without memory.\<close>

definition mh_send_ba :: "bool \<Rightarrow> crypto \<Rightarrow> in6_addr_bundle \<Rightarrow> u8 \<Rightarrow> u8 \<Rightarrow> u16 \<Rightarrow> timespec \<Rightarrow> byte list option \<Rightarrow> byte list option outcome" where
  "mh_send_ba mem cr addrs status flags sequence lifetime key =
     andThen (mh_create mem IP6_MH_TYPE_BACK) (\<lambda>ba. case ba of
         None \<Rightarrow> Done None
       | Some h \<Rightarrow>
           andThen (mh_send cr addrs
             ((take 6 h @ [status, flags] @ bytes16 (htons sequence) @ bytes16 (htons (of_int (drop_bit 2 (tv_sec lifetime)))))
              # (if key \<noteq> None then [mh_create_opt_auth_data] else [])) key) (\<lambda>pkt. Done (Some pkt)))"

definition mh_send_ba_err :: "bool \<Rightarrow> crypto \<Rightarrow> in6_addr_bundle \<Rightarrow> u8 \<Rightarrow> u8 \<Rightarrow> u16 \<Rightarrow> byte list option \<Rightarrow> byte list option outcome" where
  "mh_send_ba_err mem cr addrs status flags seqno key = mh_send_ba mem cr addrs status flags seqno tszero key"

section \<open>Authorization data\<close>

lemma pad_loop_last: "pad_loop al n p (vs @ [v]) \<noteq> [] \<and> last (pad_loop al n p (vs @ [v])) = v"
  by (induction vs arbitrary: n p) (auto simp: Let_def)

lemma mh_fill_last: "\<exists>x iov. mh_fill (h # vs @ [v]) = h[1 := x] # iov @ [v]"
proof -
  obtain iov where "pad_loop mh_align (length h) 0 (vs @ [v]) = iov @ [v]"
    using pad_loop_last by (metis append_butlast_last_id)
  then show ?thesis by (auto simp: mh_fill_def mh_try_pad_def try_pad_def Let_def)
qed

text \<open>What a sender that knows the key signs, a receiver that knows it accepts, also after the kernel has written the checksum
  and the receiver has cleared it.\<close>

lemma mh_send_signed:
  assumes "6 \<le> length h" "ab_bind_coa a = Some coa" "\<And>k m. length (hmac_sha1 cr k m) = 20"
  obtains m where "mh_send cr a (h # vs @ [mh_create_opt_auth_data]) (Some key) = Done m"
    "mh_verify_auth_data cr m (length m) (length m - 14) coa (if unat (h ! 2) = IP6_MH_TYPE_BU then ab_dst a else ab_src a) key = Done 0"
    "take 6 m = (take 6 h)[1 := m ! 1]"
proof -
  let ?b = mh_create_opt_auth_data and ?cn = "if unat (h ! 2) = IP6_MH_TYPE_BU then ab_dst a else ab_src a"
  obtain x iov where f: "mh_fill (h # vs @ [?b]) = h[1 := x] # iov @ [?b]" using mh_fill_last by blast
  let ?c = "h[1 := x] @ concat iov @ [IP6_MHOPT_BAUTH, 12]"
  let ?d = "take MIPV6_DIGEST_LEN (hmac_sha1 cr key (s6_addr coa @ s6_addr ?cn @ ?c))" 
  have d: "length ?d = 12" using assms(3) by simp
  have t: "take (length ?b - MIPV6_DIGEST_LEN) ?b = [IP6_MHOPT_BAUTH, 12]" "take 2 ?b = [IP6_MHOPT_BAUTH, 12]" "hd ?b = IP6_MHOPT_BAUTH"
    by (simp_all add: mh_create_opt_auth_data_def numeral_eq_Suc)
  have "mh_send cr a (h # vs @ [?b]) (Some key) = Done (?c @ ?d)"
    using assms(2) t by (simp add: mh_send_def f mh_sign_def calculate_auth_data_def Let_def)
  moreover have "mh_verify_auth_data cr (?c @ ?d) (length (?c @ ?d)) (length (?c @ ?d) - 14) coa ?cn key = Done 0"
    using d by (simp add: mh_verify_auth_data_def read_u8_def read_bytes_def calculate_auth_data_def nth_append)
  moreover have "take 6 (?c @ ?d) = (take 6 h)[1 := (?c @ ?d) ! 1]" using assms(1) by (simp add: nth_append take_update_swap)
  ultimately show thesis by (rule that)
qed

end
