(* ===== verification/Sha1.thy ===== *)
theory Sha1
  imports Mh_Send
begin

text \<open>
  \<open>src/src/crypto.c\<close> and \<open>crypto.h\<close>: SHA-1 and HMAC-SHA1, which the build uses where it does not find OpenSSL
  (\<open>BUILTIN_CRYPTO\<close> in \<open>src/src/Makefile.am\<close>).  A context keeps the chaining variables, the number of blocks hashed and
  the bytes that do not fill a block yet.  The reference is the standard (FIPS 180-4 and RFC 2104), written over the whole
  message; \<open>sha_rep\<close> relates a context to the bytes given to it so far.  The host is little-endian.  What a context or a local
  variable holds before it is initialised is an argument, of the size of the C array.
\<close>

section \<open>Model\<close>

abbreviation (input) SHA_DIGESTSIZE :: nat where "SHA_DIGESTSIZE \<equiv> 20"
abbreviation (input) SHA_BLOCKSIZE :: nat where "SHA_BLOCKSIZE \<equiv> 64"

record SHA1_CTX =
  h0 :: u32
  h1 :: u32
  h2 :: u32
  h3 :: u32
  h4 :: u32
  nblocks :: u32
  sha_buf :: "byte list"
  sha_count :: nat

record HMAC_SHA1_CTX =
  ictx :: SHA1_CTX
  hmac_pad :: "byte list"

definition rol :: "u32 \<Rightarrow> nat \<Rightarrow> u32" where
  "rol x n = push_bit n x OR drop_bit (32 - n) x"

definition SHA1_init :: "SHA1_CTX \<Rightarrow> SHA1_CTX" where
  "SHA1_init ctx = ctx\<lparr>h0 := 0x67452301, h1 := 0xefcdab89, h2 := 0x98badcfe, h3 := 0x10325476, h4 := 0xc3d2e1f0,
     nblocks := 0, sha_count := 0\<rparr>"

definition F1 :: "u32 \<Rightarrow> u32 \<Rightarrow> u32 \<Rightarrow> u32" where "F1 x y z = z XOR (x AND (y XOR z))"
definition F2 :: "u32 \<Rightarrow> u32 \<Rightarrow> u32 \<Rightarrow> u32" where "F2 x y z = x XOR y XOR z"
definition F3 :: "u32 \<Rightarrow> u32 \<Rightarrow> u32 \<Rightarrow> u32" where "F3 x y z = (x AND y) OR (z AND (x OR y))"

text \<open>The macro \<open>M(i)\<close> replaces a word of the window of sixteen and yields it.\<close>

definition sha_M :: "nat \<Rightarrow> u32 list \<Rightarrow> u32 \<times> u32 list" where
  "sha_M i x =
     (let tm = x ! (i mod 16) XOR x ! ((i - 14) mod 16) XOR x ! ((i - 8) mod 16) XOR x ! ((i - 3) mod 16)
      in (rol tm 1, x[i mod 16 := rol tm 1]))"

text \<open>The macro \<open>R\<close> works on the variables its call names; \<open>v\<close> holds \<open>a\<close> to \<open>e\<close>.\<close>

fun sha_R :: "nat \<times> nat \<times> nat \<times> nat \<times> nat \<Rightarrow> (u32 \<Rightarrow> u32 \<Rightarrow> u32 \<Rightarrow> u32) \<Rightarrow> u32 \<Rightarrow> u32 \<Rightarrow> u32 list \<Rightarrow> u32 list" where
  "sha_R (a, b, c, d, e) f k m v =
     v[e := v ! e + (rol (v ! a) 5 + f (v ! b) (v ! c) (v ! d) + k + m), b := rol (v ! b) 30]"

definition sha_regs :: "(nat \<times> nat \<times> nat \<times> nat \<times> nat) list" where
  "sha_regs = [(0, 1, 2, 3, 4), (4, 0, 1, 2, 3), (3, 4, 0, 1, 2), (2, 3, 4, 0, 1), (1, 2, 3, 4, 0)]"

definition sha_fk :: "nat \<Rightarrow> (u32 \<Rightarrow> u32 \<Rightarrow> u32 \<Rightarrow> u32) \<times> u32" where
  "sha_fk i = (if i < 20 then (F1, 0x5A827999) else if i < 40 then (F2, 0x6ED9EBA1)
     else if i < 60 then (F3, 0x8F1BBCDC) else (F2, 0xCA62C1D6))"

definition sha_round :: "nat \<Rightarrow> u32 list \<times> u32 list \<Rightarrow> u32 list \<times> u32 list" where
  "sha_round i vx =
     (let (v, x) = vx; (m, x') = (if i < 16 then (x ! i, x) else sha_M i x); (f, k) = sha_fk i
      in (sha_R (sha_regs ! (i mod 5)) f k m v, x'))"

definition sha_load :: "byte list \<Rightarrow> u32 list" where
  "sha_load data = map (\<lambda>i. le32 (data ! (4 * i + 3)) (data ! (4 * i + 2)) (data ! (4 * i + 1)) (data ! (4 * i))) [0..<16]"

definition transform :: "SHA1_CTX \<Rightarrow> byte list \<Rightarrow> SHA1_CTX" where
  "transform ctx data =
     (let (v, x) = fold sha_round [0..<80] ([h0 ctx, h1 ctx, h2 ctx, h3 ctx, h4 ctx], sha_load data)
      in ctx\<lparr>h0 := h0 ctx + v ! 0, h1 := h1 ctx + v ! 1, h2 := h2 ctx + v ! 2, h3 := h3 ctx + v ! 3, h4 := h4 ctx + v ! 4\<rparr>)"

definition sha_put :: "byte \<Rightarrow> SHA1_CTX \<Rightarrow> SHA1_CTX" where
  "sha_put b ctx = ctx\<lparr>sha_buf := (sha_buf ctx)[sha_count ctx := b], sha_count := sha_count ctx + 1\<rparr>"

definition sha_flush :: "SHA1_CTX \<Rightarrow> SHA1_CTX" where
  "sha_flush ctx =
     (if sha_count ctx = 64 then (transform ctx (sha_buf ctx))\<lparr>sha_count := 0, nblocks := nblocks ctx + 1\<rparr> else ctx)"

fun sha_fill :: "byte list \<Rightarrow> SHA1_CTX \<Rightarrow> byte list \<times> SHA1_CTX" where
  "sha_fill [] ctx = ([], ctx)"
| "sha_fill (b # bs) ctx = (if sha_count ctx < 64 then sha_fill bs (sha_put b ctx) else (b # bs, ctx))"

function sha_blocks :: "byte list \<Rightarrow> SHA1_CTX \<Rightarrow> byte list \<times> SHA1_CTX" where
  "sha_blocks bs ctx =
     (if 64 \<le> length bs then sha_blocks (drop 64 bs) ((transform ctx bs)\<lparr>sha_count := 0, nblocks := nblocks ctx + 1\<rparr>)
      else (bs, ctx))"
  by pat_completeness auto
termination by (relation "measure (length \<circ> fst)") auto

declare sha_blocks.simps [simp del]

text \<open>No buffer is the null pointer, with which the function only hashes a full buffer.\<close>

definition SHA1_update :: "SHA1_CTX \<Rightarrow> byte list option \<Rightarrow> SHA1_CTX" where
  "SHA1_update ctx0 buf =
     (let ctx = sha_flush ctx0 in
      case buf of
        None \<Rightarrow> ctx
      | Some bs \<Rightarrow>
          if sha_count ctx \<noteq> 0 then
            let (bs1, ctx1) = sha_fill bs ctx; ctx2 = sha_flush ctx1 in
            if bs1 = [] then ctx2
            else let (bs3, ctx3) = sha_blocks bs1 ctx2 in snd (sha_fill bs3 ctx3)
          else let (bs3, ctx3) = sha_blocks bs ctx in snd (sha_fill bs3 ctx3))"

function sha_pad :: "nat \<Rightarrow> SHA1_CTX \<Rightarrow> SHA1_CTX" where
  "sha_pad n ctx = (if sha_count ctx < n then sha_pad n (sha_put 0 ctx) else ctx)"
  by pat_completeness auto
termination by (relation "measure (\<lambda>(n, ctx). n - sha_count ctx)") (auto simp: sha_put_def)

declare sha_pad.simps [simp del]

definition be_bytes32 :: "u32 \<Rightarrow> byte list" where
  "be_bytes32 w = [ucast (drop_bit 24 w), ucast (drop_bit 16 w), ucast (drop_bit 8 w), ucast w]"

text \<open>The number of bits of the message, in two words.\<close>

definition sha_bits :: "u32 \<Rightarrow> nat \<Rightarrow> u32 \<times> u32" where
  "sha_bits blocks cnt =
     (let lsb0 = push_bit 6 blocks;
          msb0 = drop_bit 26 blocks;
          lsb1 = lsb0 + of_nat cnt;
          msb1 = (if lsb1 < lsb0 then msb0 + 1 else msb0)
      in (push_bit 3 msb1 OR drop_bit 29 lsb1, push_bit 3 lsb1))"

definition SHA1_final :: "SHA1_CTX \<Rightarrow> byte list \<times> SHA1_CTX" where
  "SHA1_final ctx0 =
     (let ctx = SHA1_update ctx0 None;
          (msb, lsb) = sha_bits (nblocks ctx) (sha_count ctx);
          ctx1 = (if sha_count ctx < 56 then sha_pad 56 (sha_put 0x80 ctx)
                  else let c = SHA1_update (sha_pad 64 (sha_put 0x80 ctx)) None
                       in c\<lparr>sha_buf := replicate 56 0 @ drop 56 (sha_buf c)\<rparr>);
          ctx2 = ctx1\<lparr>sha_buf := take 56 (sha_buf ctx1) @ be_bytes32 msb @ be_bytes32 lsb\<rparr>;
          ctx3 = transform ctx2 (sha_buf ctx2);
          ctx4 = ctx3\<lparr>sha_buf := be_bytes32 (h0 ctx3) @ be_bytes32 (h1 ctx3) @ be_bytes32 (h2 ctx3) @ be_bytes32 (h3 ctx3)
                                @ be_bytes32 (h4 ctx3) @ drop 20 (sha_buf ctx3)\<rparr>
      in (take SHA_DIGESTSIZE (sha_buf ctx4), ctx4))"

definition xor_key :: "byte \<Rightarrow> byte list \<Rightarrow> byte list" where
  "xor_key b tkey = fold (\<lambda>i p. p[i := p ! i XOR tkey ! i]) [0..<length tkey] (replicate SHA_BLOCKSIZE b)"

text \<open>The key is copied to an array of twenty bytes before its length is looked at.\<close>

definition HMAC_SHA1_init :: "SHA1_CTX \<Rightarrow> HMAC_SHA1_CTX \<Rightarrow> byte list \<Rightarrow> HMAC_SHA1_CTX outcome" where
  "HMAC_SHA1_init tctx ctx key =
     (if SHA_DIGESTSIZE < length key then Fault OutOfBounds
      else let tkey = (if SHA_BLOCKSIZE < length key then fst (SHA1_final (SHA1_update (SHA1_init tctx) (Some key))) else key)
           in Done \<lparr>ictx = SHA1_update (SHA1_init (ictx ctx)) (Some (xor_key 0x36 tkey)), hmac_pad = xor_key 0x5C tkey\<rparr>)"

definition HMAC_SHA1_update :: "HMAC_SHA1_CTX \<Rightarrow> byte list \<Rightarrow> HMAC_SHA1_CTX" where
  "HMAC_SHA1_update ctx buf = ctx\<lparr>ictx := SHA1_update (ictx ctx) (Some buf)\<rparr>"

definition HMAC_SHA1_final :: "SHA1_CTX \<Rightarrow> HMAC_SHA1_CTX \<Rightarrow> byte list" where
  "HMAC_SHA1_final octx ctx =
     fst (SHA1_final (SHA1_update (SHA1_update (SHA1_init octx) (Some (hmac_pad ctx))) (Some (fst (SHA1_final (ictx ctx))))))"

text \<open>Bytes for keys and nonces, at most twenty, from two calls of \<open>random\<close>; \<open>long\<close> has eight bytes.\<close>

definition long_bytes :: "64 word \<Rightarrow> byte list" where
  "long_bytes w = map (\<lambda>i. ucast (drop_bit (8 * i) w)) [0..<8]"

definition random_bytes :: "SHA1_CTX \<Rightarrow> HMAC_SHA1_CTX \<Rightarrow> 64 word \<Rightarrow> 64 word \<Rightarrow> byte list \<Rightarrow> int \<Rightarrow> (int \<times> byte list) outcome" where
  "random_bytes junk ctx0 key msg buffer num =
     (if num < 1 then Done (- 1, buffer)
      else andThen (HMAC_SHA1_init junk ctx0 (long_bytes key)) (\<lambda>ctx.
        let bytes = HMAC_SHA1_final junk (HMAC_SHA1_update ctx (long_bytes msg));
            n = (if num > 20 then 20 else nat num)
        in if length buffer < n then Fault OutOfBounds else Done (0, take n bytes @ drop n buffer)))"

text \<open>The calls of the built-in library in \<open>keygen.c\<close> and \<open>mh.c\<close>: the branches without \<open>HAVE_LIBCRYPTO\<close>.\<close>

definition kgen_token_builtin :: "SHA1_CTX \<Rightarrow> HMAC_SHA1_CTX \<Rightarrow> byte list \<Rightarrow> in6_addr \<Rightarrow> byte list \<Rightarrow> byte \<Rightarrow> byte list outcome" where
  "kgen_token_builtin junk ctx0 key addr n ident =
     andThen (HMAC_SHA1_init junk ctx0 key) (\<lambda>ctx.
       let ctx1 = HMAC_SHA1_update ctx (s6_addr addr);
           ctx2 = HMAC_SHA1_update ctx1 (take NONCE_LENGTH n);
           ctx3 = HMAC_SHA1_update ctx2 [ident]
       in Done (take 8 (HMAC_SHA1_final junk ctx3)))"

definition calc_Kbm_builtin :: "SHA1_CTX \<Rightarrow> byte list \<Rightarrow> byte list option \<Rightarrow> byte list" where
  "calc_Kbm_builtin junk keygen_hoa keygen_coa =
     (let ctx = SHA1_update (SHA1_init junk) (Some (take NONCE_LENGTH keygen_hoa));
          ctx1 = (case keygen_coa of None \<Rightarrow> ctx | Some k \<Rightarrow> SHA1_update ctx (Some (take NONCE_LENGTH k)))
      in fst (SHA1_final ctx1))"

definition auth_data_builtin :: "SHA1_CTX \<Rightarrow> HMAC_SHA1_CTX \<Rightarrow> iovec list \<Rightarrow> in6_addr \<Rightarrow> in6_addr \<Rightarrow> byte list \<Rightarrow> byte list outcome" where
  "auth_data_builtin junk ctx0 iov coa cn key =
     andThen (HMAC_SHA1_init junk ctx0 key) (\<lambda>ctx.
       let ctx1 = HMAC_SHA1_update (HMAC_SHA1_update ctx (s6_addr coa)) (s6_addr cn);
           ctx2 = fold (\<lambda>v c. HMAC_SHA1_update c v) iov ctx1
       in Done (take MIPV6_DIGEST_LEN (HMAC_SHA1_final junk ctx2)))"

section \<open>The standards\<close>

text \<open>The words of a block and the schedule of eighty words.\<close>

definition be_word32 :: "byte list \<Rightarrow> u32" where
  "be_word32 bs = fold (\<lambda>b w. push_bit 8 w OR ucast b) bs 0"

definition sched_next :: "u32 list \<Rightarrow> u32 list" where
  "sched_next w = (let t = length w in w @ [word_rotl 1 (w ! (t - 3) XOR w ! (t - 8) XOR w ! (t - 14) XOR w ! (t - 16))])"

definition schedule :: "byte list \<Rightarrow> u32 list" where
  "schedule block = (sched_next ^^ 64) (map (\<lambda>i. be_word32 (take 4 (drop (4 * i) block))) [0..<16])"

definition fips_f :: "nat \<Rightarrow> u32 \<Rightarrow> u32 \<Rightarrow> u32 \<Rightarrow> u32" where
  "fips_f t x y z =
     (if t < 20 then (x AND y) XOR (NOT x AND z)
      else if 40 \<le> t \<and> t < 60 then (x AND y) XOR (x AND z) XOR (y AND z)
      else x XOR y XOR z)"

definition fips_K :: "nat \<Rightarrow> u32" where
  "fips_K t = (if t < 20 then 0x5a827999 else if t < 40 then 0x6ed9eba1 else if t < 60 then 0x8f1bbcdc else 0xca62c1d6)"

type_synonym chain = "u32 \<times> u32 \<times> u32 \<times> u32 \<times> u32"

fun fips_step :: "u32 list \<Rightarrow> nat \<Rightarrow> chain \<Rightarrow> chain" where
  "fips_step w t (a, b, c, d, e) = (word_rotl 5 a + fips_f t b c d + e + fips_K t + w ! t, a, word_rotl 30 b, c, d)"

fun chain_add :: "chain \<Rightarrow> chain \<Rightarrow> chain" where
  "chain_add (a, b, c, d, e) (a', b', c', d', e') = (a + a', b + b', c + c', d + d', e + e')"

definition compress :: "byte list \<Rightarrow> chain \<Rightarrow> chain" where
  "compress block h = chain_add h (fold (fips_step (schedule block)) [0..<80] h)"

definition chain_init :: chain where
  "chain_init = (0x67452301, 0xefcdab89, 0x98badcfe, 0x10325476, 0xc3d2e1f0)"

fun hash_blocks :: "nat \<Rightarrow> byte list \<Rightarrow> chain \<Rightarrow> chain" where
  "hash_blocks 0 bs h = h"
| "hash_blocks (Suc n) bs h = hash_blocks n (drop 64 bs) (compress (take 64 bs) h)"

definition fips_pad :: "byte list \<Rightarrow> byte list" where
  "fips_pad m = m @ [0x80] @ replicate ((119 - length m mod 64) mod 64) 0
     @ rev (long_bytes (8 * of_nat (length m)))"

fun chain_bytes :: "chain \<Rightarrow> byte list" where
  "chain_bytes (a, b, c, d, e) = be_bytes32 a @ be_bytes32 b @ be_bytes32 c @ be_bytes32 d @ be_bytes32 e"

definition fips_sha1 :: "byte list \<Rightarrow> byte list" where
  "fips_sha1 m = (let p = fips_pad m in chain_bytes (hash_blocks (length p div 64) p chain_init))"

definition rfc_key :: "byte list \<Rightarrow> byte list" where
  "rfc_key k = (let k' = (if 64 < length k then fips_sha1 k else k) in k' @ replicate (64 - length k') 0)"

definition rfc_hmac :: "byte list \<Rightarrow> byte list \<Rightarrow> byte list" where
  "rfc_hmac k m = fips_sha1 (map (\<lambda>b. b XOR 0x5c) (rfc_key k) @ fips_sha1 (map (\<lambda>b. b XOR 0x36) (rfc_key k) @ m))"

section \<open>A block\<close>

lemma rol_rotl:
  assumes "0 < n" "n < 32"
  shows "rol x n = word_rotl n x"
  unfolding rol_def
proof (rule bit_word_eqI)
  fix i assume "i < LENGTH(32)"
  then have i: "i < 32"
    by simp
  have m: "(i + 32 - n) mod 32 = (if n \<le> i then i - n else i + 32 - n)"
    using i assms by (auto simp: mod_if)
  have r: "bit (word_rotl n x) i = bit x ((i + 32 - n) mod 32)"
    using i assms by (simp add: bit_word_rotl_iff)
  have "\<not> bit x (i + (32 - n))" if "n \<le> i"
    using that assms by (auto dest: bit_imp_le_length)
  then show "bit (push_bit n x OR drop_bit (32 - n) x) i = bit (word_rotl n x) i"
    using i assms m r by (cases "n \<le> i") (auto simp: bit_push_bit_iff bit_drop_bit_eq bit_or_iff add.commute)
qed

lemma F1_choice: "F1 x y z = (x AND y) XOR (NOT x AND z)"
  unfolding F1_def by (rule bit_word_eqI) (auto simp: bit_simps)

lemma F3_majority: "F3 x y z = (x AND y) XOR (x AND z) XOR (y AND z)"
  unfolding F3_def by (rule bit_word_eqI) (auto simp: bit_simps)

lemma sha_fk_fips: "sha_fk t = (fips_f t, fips_K t)"
  by (auto simp: sha_fk_def fips_f_def fips_K_def fun_eq_iff F1_choice F3_majority F2_def)

lemma be_word32_le32: "be_word32 [b0, b1, b2, b3] = le32 b3 b2 b1 b0"
  unfolding be_word32_def le32_def
  by (rule bit_word_eqI) (auto simp: bit_simps)

lemma length_sched_next [simp]: "length ((sched_next ^^ n) w) = length w + n"
  by (induction n) (simp_all add: sched_next_def Let_def)

lemma sched_next_keeps: "i < length w \<Longrightarrow> (sched_next ^^ n) w ! i = w ! i"
  by (induction n) (simp_all add: sched_next_def Let_def nth_append)

definition view :: "nat \<Rightarrow> u32 list \<Rightarrow> chain" where
  "view t v = (case sha_regs ! (t mod 5) of (a, b, c, d, e) \<Rightarrow> (v ! a, v ! b, v ! c, v ! d, v ! e))"

lemma mod5_cases:
  obtains "t mod 5 = 0" "Suc t mod 5 = 1" | "t mod 5 = 1" "Suc t mod 5 = 2" | "t mod 5 = 2" "Suc t mod 5 = 3"
    | "t mod 5 = 3" "Suc t mod 5 = 4" | "t mod (5::nat) = 4" "Suc t mod 5 = 0"
proof -
  have "t mod 5 = 0 \<or> t mod 5 = 1 \<or> t mod 5 = 2 \<or> t mod 5 = 3 \<or> t mod 5 = 4"
    by auto
  then show thesis
    by (elim disjE) (auto simp: mod_Suc intro: that)
qed

lemma view_R:
  assumes "length v = 5" "view t v = (a, b, c, d, e)"
  shows "view (Suc t) (sha_R (sha_regs ! (t mod 5)) f k m v) = (e + (rol a 5 + f b c d + k + m), a, rol b 30, c, d)"
    and "length (sha_R (sha_regs ! (t mod 5)) f k m v) = 5"
proof -
  show "view (Suc t) (sha_R (sha_regs ! (t mod 5)) f k m v) = (e + (rol a 5 + f b c d + k + m), a, rol b 30, c, d)"
    using assms by (cases t rule: mod5_cases) (auto simp: view_def sha_regs_def)
  show "length (sha_R (sha_regs ! (t mod 5)) f k m v) = 5"
    using assms by (cases "sha_regs ! (t mod 5)") simp
qed

definition window :: "nat \<Rightarrow> u32 list \<Rightarrow> u32 list \<Rightarrow> bool" where
  "window t w x \<longleftrightarrow> length x = 16 \<and> (\<forall>j. t \<le> j + 16 \<and> j < max t 16 \<longrightarrow> x ! (j mod 16) = w ! j)"

definition is_schedule :: "u32 list \<Rightarrow> bool" where
  "is_schedule w \<longleftrightarrow> length w = 80 \<and>
     (\<forall>t. 16 \<le> t \<and> t < 80 \<longrightarrow> w ! t = word_rotl 1 (w ! (t - 3) XOR w ! (t - 8) XOR w ! (t - 14) XOR w ! (t - 16)))"

lemma sched_next_word:
  assumes "length w = 16" "k < n"
  shows "(sched_next ^^ n) w ! (16 + k) = (let u = (sched_next ^^ n) w; t = 16 + k in
    word_rotl 1 (u ! (t - 3) XOR u ! (t - 8) XOR u ! (t - 14) XOR u ! (t - 16)))"
  using assms(2)
proof (induction n)
  case (Suc n)
  let ?u = "(sched_next ^^ n) w"
  have u: "length ?u = 16 + n" "(sched_next ^^ Suc n) w = ?u @ [word_rotl 1 (?u ! (16 + n - 3) XOR ?u ! (16 + n - 8) XOR ?u ! (16 + n - 14) XOR ?u ! (16 + n - 16))]"
    using assms by (simp_all add: sched_next_def Let_def)
  show ?case
    unfolding u(2) using Suc u(1) by (cases "k = n") (auto simp: nth_append Let_def)
qed simp

lemma schedule_is: "is_schedule (schedule block)"
  unfolding is_schedule_def
proof (intro conjI allI impI)
  let ?m = "map (\<lambda>i. be_word32 (take 4 (drop (4 * i) block))) [0..<16]"
  show "length (schedule block) = 80"
    by (simp add: schedule_def)
  fix t :: nat assume t: "16 \<le> t \<and> t < 80"
  then show "schedule block ! t = word_rotl 1 (schedule block ! (t - 3) XOR schedule block ! (t - 8) XOR schedule block ! (t - 14) XOR schedule block ! (t - 16))"
    using sched_next_word [of ?m "t - 16" 64] less_diff_conv2 [of 16 t 64] by (simp add: schedule_def Let_def)
qed

lemma schedule_load:
  assumes "64 \<le> length block"
  shows "window 0 (schedule block) (sha_load block)"
proof -
  have "sha_load block ! i = schedule block ! i" if "i < 16" for i
  proof -
    have "take 4 (drop (4 * i) block) = [block ! (4 * i), block ! (4 * i + 1), block ! (4 * i + 2), block ! (4 * i + 3)]"
      by (rule nth_equalityI) (use that assms in \<open>auto simp: nth_Cons' numeral_eq_Suc less_Suc_eq\<close>)
    then show ?thesis
      using that by (simp add: schedule_def sched_next_keeps sha_load_def be_word32_le32)
  qed
  then show ?thesis
    by (simp add: window_def sha_load_def)
qed

lemma window_next:
  assumes "window t w x" "is_schedule w" "16 \<le> t" "t < 80"
  shows "sha_M t x = (w ! t, x[t mod 16 := w ! t])" "window (Suc t) w (x[t mod 16 := w ! t])"
proof -
  have x: "x ! (j mod 16) = w ! j" if "t \<le> j + 16" "j < t" for j
    using assms that by (simp add: window_def)
  have "x ! (t mod 16) = w ! (t - 16)"
    using x [of "t - 16"] assms by (simp add: le_mod_geq)
  then show "sha_M t x = (w ! t, x[t mod 16 := w ! t])"
    using assms x [of "t - 14"] x [of "t - 8"] x [of "t - 3"]
    by (simp add: sha_M_def Let_def rol_rotl is_schedule_def ac_simps)
  have "t mod 16 \<noteq> j mod 16" if "Suc t \<le> j + 16" "j < t" for j
    using that by (metis Suc_le_eq add.commute add_diff_inverse_nat less_diff_conv mod_eq_dvd_iff_nat nat_dvd_not_less nat_less_le not_less zero_less_diff)
  then show "window (Suc t) w (x[t mod 16 := w ! t])"
    using assms x by (auto simp: window_def less_Suc_eq nth_list_update)
qed

lemma rounds_fips:
  assumes "is_schedule w" "window 0 w x0" "length v0 = 5" "t \<le> 80"
  shows "case fold sha_round [0..<t] (v0, x0) of (v, x) \<Rightarrow>
    length v = 5 \<and> window t w x \<and> view t v = fold (fips_step w) [0..<t] (view 0 v0)"
  using assms(4)
proof (induction t)
  case (Suc t)
  obtain v x where vx: "fold sha_round [0..<t] (v0, x0) = (v, x)"
    by fastforce
  obtain a b c d e where v: "view t v = (a, b, c, d, e)"
    by (cases "view t v") auto
  have ih: "length v = 5" "window t w x" "fold (fips_step w) [0..<t] (view 0 v0) = (a, b, c, d, e)"
    using Suc vx v by auto
  obtain x' where m: "(if t < 16 then (x ! t, x) else sha_M t x) = (w ! t, x')" "window (Suc t) w x'"
  proof (cases "t < 16")
    case True
    then have "x ! t = w ! t" "window (Suc t) w x"
      using ih(2) by (auto simp: window_def dest: spec [of _ t])
    then show thesis
      using that True by simp
  next
    case False
    then show thesis
      using that window_next [OF ih(2) assms(1)] Suc.prems by simp
  qed
  have "sha_round t (v, x) = (sha_R (sha_regs ! (t mod 5)) (fips_f t) (fips_K t) (w ! t) v, x')"
    using m(1) by (simp add: sha_round_def sha_fk_fips Let_def)
  then show ?case
    using vx ih m(2) view_R [OF ih(1) v] by (simp add: rol_rotl ac_simps)
qed (use assms in simp)

definition chain :: "SHA1_CTX \<Rightarrow> chain" where
  "chain ctx = (h0 ctx, h1 ctx, h2 ctx, h3 ctx, h4 ctx)"

text \<open>The eighty rounds over a window of sixteen words and variables that change roles are the function of the standard.\<close>

lemma transform_compress:
  assumes "64 \<le> length data"
  shows "chain (transform ctx data) = compress data (chain ctx)"
    and "nblocks (transform ctx data) = nblocks ctx" "sha_buf (transform ctx data) = sha_buf ctx"
      "sha_count (transform ctx data) = sha_count ctx"
proof -
  let ?v0 = "[h0 ctx, h1 ctx, h2 ctx, h3 ctx, h4 ctx]"
  obtain v x where vx: "fold sha_round [0..<80] (?v0, sha_load data) = (v, x)"
    by fastforce
  have v: "view 80 v = fold (fips_step (schedule data)) [0..<80] (view 0 ?v0)"
    using rounds_fips [OF schedule_is schedule_load [OF assms], of ?v0 80] vx by simp
  have "view 0 ?v0 = chain ctx" "view 80 v = (v ! 0, v ! 1, v ! 2, v ! 3, v ! 4)"
    by (simp_all add: view_def sha_regs_def chain_def)
  then show "chain (transform ctx data) = compress data (chain ctx)"
    using v by (simp add: transform_def vx chain_def compress_def del: upt.simps)
qed (simp_all add: transform_def split_beta)

lemma compress_take: "64 \<le> length bs \<Longrightarrow> compress bs = compress (take 64 bs)"
proof -
  have "take 4 (drop (4 * i) bs) = take 4 (drop (4 * i) (take 64 bs))" if "i < 16" for i
    using that by (simp add: drop_take)
  then have "schedule bs = schedule (take 64 bs)"
    unfolding schedule_def by (intro arg_cong [where f = "sched_next ^^ 64"]) simp
  then show ?thesis
    by (simp add: compress_def fun_eq_iff)
qed

section \<open>A message in pieces\<close>

text \<open>A context that has been given the bytes \<open>m\<close>.\<close>

definition sha_rep :: "byte list \<Rightarrow> SHA1_CTX \<Rightarrow> bool" where
  "sha_rep m ctx \<longleftrightarrow> length (sha_buf ctx) = 64 \<and> sha_count ctx \<le> 64 \<and>
     (\<exists>n. length m = 64 * n + sha_count ctx \<and> nblocks ctx = of_nat n \<and>
          take (sha_count ctx) (sha_buf ctx) = drop (64 * n) m \<and> chain ctx = hash_blocks n m chain_init)"

lemma sha_repI:
  assumes "length (sha_buf ctx) = 64" "sha_count ctx \<le> 64" "length m = 64 * n + sha_count ctx" "nblocks ctx = of_nat n"
    "take (sha_count ctx) (sha_buf ctx) = drop (64 * n) m" "chain ctx = hash_blocks n m chain_init"
  shows "sha_rep m ctx"
  using assms by (auto simp: sha_rep_def)

lemma hash_blocks_append: "64 * n \<le> length m \<Longrightarrow> hash_blocks n (m @ bs) h = hash_blocks n m h"
  by (induction n arbitrary: m h) auto

lemma hash_blocks_Suc:
  "64 * Suc n \<le> length m \<Longrightarrow> hash_blocks (Suc n) m h = compress (take 64 (drop (64 * n) m)) (hash_blocks n m h)"
proof (induction n arbitrary: m h)
  case (Suc n)
  show ?case
    using Suc.IH [of "drop 64 m" "compress (take 64 m) h"] Suc.prems by (simp add: add.commute)
qed simp

lemma chain_update [simp]:
  "chain (ctx\<lparr>nblocks := n\<rparr>) = chain ctx" "chain (ctx\<lparr>sha_count := c\<rparr>) = chain ctx" "chain (ctx\<lparr>sha_buf := b\<rparr>) = chain ctx"
  by (simp_all add: chain_def)

lemma sha_rep_init: "length (sha_buf ctx) = 64 \<Longrightarrow> sha_rep [] (SHA1_init ctx)"
  by (rule sha_repI [where n = 0]) (simp_all add: SHA1_init_def chain_def chain_init_def)

text \<open>A whole block is hashed.\<close>

lemma sha_rep_block:
  assumes "sha_rep m ctx" "sha_count ctx = 0" "64 \<le> length bs"
  shows "sha_rep (m @ take 64 bs) ((transform ctx bs)\<lparr>sha_count := 0, nblocks := nblocks ctx + 1\<rparr>)"
proof -
  obtain n where n: "length m = 64 * n" "nblocks ctx = of_nat n" "chain ctx = hash_blocks n m chain_init"
    "length (sha_buf ctx) = 64"
    using assms by (auto simp: sha_rep_def)
  have "chain (transform ctx bs) = hash_blocks (Suc n) (m @ take 64 bs) chain_init"
    using assms n hash_blocks_Suc [of n "m @ take 64 bs"] by (simp add: transform_compress compress_take [OF assms(3)] hash_blocks_append del: hash_blocks.simps)
  then show ?thesis
    using assms n by (intro sha_repI [where n = "Suc n"]) (simp_all add: transform_compress del: hash_blocks.simps)
qed

lemma sha_rep_flush:
  assumes "sha_rep m ctx"
  shows "sha_rep m (sha_flush ctx)" "sha_count (sha_flush ctx) = sha_count ctx mod 64"
proof -
  show "sha_rep m (sha_flush ctx)"
  proof (cases "sha_count ctx = 64")
    case True
    obtain n where n: "length m = 64 * n + 64" "nblocks ctx = of_nat n" "chain ctx = hash_blocks n m chain_init"
      "sha_buf ctx = drop (64 * n) m"
      using assms True by (auto simp: sha_rep_def)
    let ?c = "ctx\<lparr>sha_count := 0\<rparr>"
    have "sha_rep (take (64 * n) m) ?c"
      using assms n hash_blocks_append [of n "take (64 * n) m" "drop (64 * n) m"]
      by (intro sha_repI [where n = n]) simp_all
    from sha_rep_block [OF this, of "sha_buf ctx"]
    have "sha_rep m ((transform ?c (sha_buf ctx))\<lparr>sha_count := 0, nblocks := nblocks ctx + 1\<rparr>)"
      using n by simp
    moreover have "(transform ?c (sha_buf ctx))\<lparr>sha_count := 0, nblocks := nblocks ctx + 1\<rparr> = sha_flush ctx"
      using True by (simp add: sha_flush_def transform_def split_beta Let_def)
    ultimately show ?thesis
      by simp
  qed (use assms in \<open>simp add: sha_flush_def\<close>)
  show "sha_count (sha_flush ctx) = sha_count ctx mod 64"
    using assms by (auto simp: sha_flush_def sha_rep_def mod_if)
qed

lemma sha_rep_put:
  assumes "sha_rep m ctx" "sha_count ctx < 64"
  shows "sha_rep (m @ [b]) (sha_put b ctx)"
proof -
  obtain n where n: "length m = 64 * n + sha_count ctx" "nblocks ctx = of_nat n" "chain ctx = hash_blocks n m chain_init"
    "take (sha_count ctx) (sha_buf ctx) = drop (64 * n) m" "length (sha_buf ctx) = 64"
    using assms by (auto simp: sha_rep_def)
  then show ?thesis
    using assms by (intro sha_repI [where n = n]) (simp_all add: sha_put_def hash_blocks_append take_Suc_conv_app_nth)
qed

lemma sha_rep_fill:
  assumes "sha_rep m ctx" "sha_fill bs ctx = (rest, ctx')"
  shows "\<exists>pre. bs = pre @ rest \<and> sha_rep (m @ pre) ctx' \<and> (rest \<noteq> [] \<longrightarrow> sha_count ctx' = 64)
    \<and> sha_count ctx' = min 64 (sha_count ctx + length bs)"
  using assms
proof (induction bs ctx arbitrary: m rule: sha_fill.induct)
  case (2 b bs ctx)
  show ?case
  proof (cases "sha_count ctx < 64")
    case True
    obtain pre where "bs = pre @ rest" "sha_rep ((m @ [b]) @ pre) ctx'" "rest \<noteq> [] \<longrightarrow> sha_count ctx' = 64"
      "sha_count ctx' = min 64 (sha_count (sha_put b ctx) + length bs)"
      using "2.IH" [OF True sha_rep_put [OF "2.prems"(1) True]] "2.prems"(2) True by auto
    then show ?thesis
      by (intro exI [of _ "b # pre"]) (simp add: sha_put_def)
  next
    case False
    then show ?thesis
      using "2.prems" by (auto simp: sha_rep_def)
  qed
qed (auto simp: sha_rep_def)

lemma sha_rep_blocks:
  assumes "sha_rep m ctx" "sha_count ctx = 0" "sha_blocks bs ctx = (rest, ctx')"
  shows "\<exists>pre. bs = pre @ rest \<and> sha_rep (m @ pre) ctx' \<and> sha_count ctx' = 0 \<and> length rest < 64"
  using assms
proof (induction bs ctx arbitrary: m rule: sha_blocks.induct)
  case (1 bs ctx)
  show ?case
  proof (cases "64 \<le> length bs")
    case True
    let ?c = "(transform ctx bs)\<lparr>sha_count := 0, nblocks := nblocks ctx + 1\<rparr>"
    obtain pre where "drop 64 bs = pre @ rest" "sha_rep ((m @ take 64 bs) @ pre) ctx'" "sha_count ctx' = 0" "length rest < 64"
      using "1.IH" [OF True sha_rep_block [OF "1.prems"(1,2) True]] "1.prems"(3) True by (auto simp: sha_blocks.simps [of bs])
    then show ?thesis
      by (intro exI [of _ "take 64 bs @ pre"]) (simp, metis append_take_drop_id)
  next
    case False
    then show ?thesis
      using "1.prems" by (auto simp: sha_blocks.simps [of bs])
  qed
qed

lemma sha_rep_rest:
  assumes "sha_rep m ctx" "sha_count ctx = 0" "sha_blocks bs ctx = (rest, c)"
  shows "sha_rep (m @ bs) (snd (sha_fill rest c))"
proof -
  obtain pre where p: "bs = pre @ rest" "sha_rep (m @ pre) c" "sha_count c = 0" "length rest < 64"
    using sha_rep_blocks [OF assms] by blast
  obtain r d where f: "sha_fill rest c = (r, d)"
    by fastforce
  then obtain pre' where q: "rest = pre' @ r" "sha_rep ((m @ pre) @ pre') d" "r \<noteq> [] \<longrightarrow> sha_count d = 64" "sha_count d = min 64 (length rest)"
    using sha_rep_fill [OF p(2) f] p(3) by auto
  then have "r = []"
    using p(4) by fastforce
  then show ?thesis
    using p(1) q f by simp
qed

text \<open>However the bytes are split, the context has been given all of them.\<close>

lemma SHA1_update_rep:
  assumes "sha_rep m ctx"
  shows "sha_rep (m @ bs) (SHA1_update ctx (Some bs))"
proof -
  let ?c = "sha_flush ctx"
  have c: "sha_rep m ?c"
    using assms by (rule sha_rep_flush)
  obtain r d where f: "sha_fill bs ?c = (r, d)"
    by fastforce
  obtain pre where p: "bs = pre @ r" "sha_rep (m @ pre) d" "r \<noteq> [] \<longrightarrow> sha_count d = 64"
    using sha_rep_fill [OF c f] by blast
  have d: "sha_rep (m @ pre) (sha_flush d)" "r \<noteq> [] \<longrightarrow> sha_count (sha_flush d) = 0"
    using sha_rep_flush [OF p(2)] p(3) by auto
  show ?thesis
  proof (cases "sha_count ?c = 0")
    case True
    then show ?thesis
      using sha_rep_rest [OF c True] by (auto simp: SHA1_update_def Let_def split_beta)
  next
    case False
    then show ?thesis
      using p(1) d f sha_rep_rest [OF d(1)] by (cases "r = []") (auto simp: SHA1_update_def Let_def split_beta)
  qed
qed

lemma SHA1_update_None:
  assumes "sha_rep m ctx"
  shows "sha_rep m (SHA1_update ctx None)" "sha_count (SHA1_update ctx None) < 64"
  using sha_rep_flush [OF assms] by (simp_all add: SHA1_update_def)

section \<open>The digest\<close>

lemma sha_rep_store:
  assumes "sha_rep m ctx" "sha_count ctx \<le> k" "k \<le> 64" "length b = 64" "take (sha_count ctx) b = take (sha_count ctx) (sha_buf ctx)"
  shows "sha_rep (m @ drop (sha_count ctx) (take k b)) (ctx\<lparr>sha_buf := b, sha_count := k\<rparr>)"
proof -
  obtain n where n: "length m = 64 * n + sha_count ctx" "nblocks ctx = of_nat n" "chain ctx = hash_blocks n m chain_init"
    "take (sha_count ctx) (sha_buf ctx) = drop (64 * n) m"
    using assms by (auto simp: sha_rep_def)
  have "take k b = take (sha_count ctx) b @ drop (sha_count ctx) (take k b)"
    using assms by (metis append_take_drop_id min.absorb2 min.commute take_take)
  then show ?thesis
    using assms n by (intro sha_repI [where n = n]) (auto simp: hash_blocks_append)
qed

lemma sha_pad_rep:
  assumes "sha_rep m ctx" "sha_count ctx \<le> k" "k \<le> 64"
  shows "sha_rep (m @ replicate (k - sha_count ctx) 0) (sha_pad k ctx)" "sha_count (sha_pad k ctx) = k"
  using assms
proof (induction k ctx arbitrary: m rule: sha_pad.induct)
  case (1 k ctx)
  {
    case 1
    show ?case
    proof (cases "sha_count ctx < k")
      case True
      then have "sha_rep ((m @ [0]) @ replicate (k - sha_count (sha_put 0 ctx)) 0) (sha_pad k (sha_put 0 ctx))"
        using "1.IH"(1) [OF True sha_rep_put [OF "1"(1)]] "1" by (simp add: sha_put_def)
      then show ?thesis
        using True by (simp add: sha_pad.simps [of k ctx] sha_put_def flip: replicate_Suc) (metis Suc_diff_Suc replicate_Suc)
    qed (use "1" in \<open>simp add: sha_pad.simps [of k ctx]\<close>)
  next
    case 2
    show ?case
    proof (cases "sha_count ctx < k")
      case True
      then show ?thesis
        using "1.IH"(2) [OF True sha_rep_put [OF "2"(1)]] "2" by (simp add: sha_put_def sha_pad.simps [of k ctx])
    qed (use "2" in \<open>simp add: sha_pad.simps [of k ctx]\<close>)
  }
qed

lemma length_long_bytes [simp]: "length (long_bytes w) = 8"
  by (simp add: long_bytes_def)

lemma be_long_bytes:
  "be_bytes32 (ucast (drop_bit 32 w)) @ be_bytes32 (ucast w) = rev (long_bytes w)" for w :: "64 word"
  by (simp add: be_bytes32_def long_bytes_def upt_rec) (intro conjI bit_word_eqI; auto simp: bit_simps)

lemma bits_shift:
  "push_bit 3 (ucast (drop_bit 32 w)) OR drop_bit 29 (ucast w) = (ucast (drop_bit 32 (push_bit 3 w)) :: u32)"
  "push_bit 3 (ucast w) = (ucast (push_bit 3 w) :: u32)" for w :: "64 word"
proof -
  show "push_bit 3 (ucast (drop_bit 32 w)) OR drop_bit 29 (ucast w) = (ucast (drop_bit 32 (push_bit 3 w)) :: u32)"
    by (rule bit_word_eqI) (auto simp: bit_simps)
  show "push_bit 3 (ucast w) = (ucast (push_bit 3 w) :: u32)"
    by (rule bit_word_eqI) (auto simp: bit_simps)
qed

text \<open>The carry the code tests for does not occur: a full buffer is hashed before.\<close>

lemma sha_bits_length:
  assumes "n < 2 ^ 32" "c < 64" "sha_bits (of_nat n) c = (msb, lsb)"
  shows "be_bytes32 msb @ be_bytes32 lsb = rev (long_bytes (8 * of_nat (64 * n + c)))"
proof -
  define l where "l = 64 * n + c"
  let ?w = "of_nat l :: 64 word"
  have l: "l < 2 ^ 64"
    using assms by (simp add: l_def)
  have ul: "unat (push_bit 6 (of_nat n) :: u32) = (n mod 2 ^ 26) * 64"
    using mod_mult_mult2 [of n 64 "2 ^ 26"] by (simp add: push_bit_eq_mult unat_word_ariths unat_of_nat mod_mult_left_eq)
  have "(ucast ?w :: u32) = of_nat l"
    using l by (simp add: unsigned_of_nat take_bit_nat_eq_self)
  then have lsb: "push_bit 6 (of_nat n) + of_nat c = (ucast ?w :: u32)"
    by (simp add: l_def push_bit_eq_mult mult.commute)
  have msb: "drop_bit 26 (of_nat n) = (ucast (drop_bit 32 ?w) :: u32)"
  proof (rule word_unat_eq_iff [THEN iffD2])
    have d: "drop_bit 32 l = drop_bit 26 n" "drop_bit 26 n < 2 ^ 32"
      using assms by (simp_all add: l_def drop_bit_eq_div)
    have "unat (drop_bit 32 ?w) = drop_bit 26 n"
      using l d by (simp add: unat_drop_bit_eq unsigned_of_nat take_bit_nat_eq_self)
    then show "unat (drop_bit 26 (of_nat n) :: u32) = unat (ucast (drop_bit 32 ?w) :: u32)"
      using assms d by (simp add: unat_drop_bit_eq unsigned_of_nat unsigned_ucast_eq take_bit_nat_eq_self)
  qed
  have "\<not> push_bit 6 (of_nat n) + of_nat c < (push_bit 6 (of_nat n) :: u32)"
    using assms(2) ul by (simp add: word_less_nat_alt unat_word_ariths unat_of_nat)
  then have "msb = push_bit 3 (ucast (drop_bit 32 ?w)) OR drop_bit 29 (ucast ?w)" "lsb = push_bit 3 (ucast ?w)"
    using assms(3) lsb msb by (simp_all add: sha_bits_def Let_def)
  then have "msb = ucast (drop_bit 32 (push_bit 3 ?w))" "lsb = ucast (push_bit 3 ?w)"
    by (simp_all only: bits_shift(1)) (simp only: bits_shift(2))
  moreover have "push_bit 3 ?w = 8 * ?w"
    by (simp add: push_bit_eq_mult)
  ultimately show ?thesis
    using be_long_bytes [of "push_bit 3 ?w"] by (simp only: l_def)
qed

lemma fips_pad_split:
  assumes "length m = 64 * n + c" "c < 64"
  shows "fips_pad m = m @ [0x80] @ (if c < 56 then replicate (55 - c) 0 else replicate (63 - c) 0 @ replicate 56 0)
      @ rev (long_bytes (8 * of_nat (length m)))"
    and "length (fips_pad m) mod 64 = 0"
proof -
  have "length m mod 64 = c"
    using assms by simp
  then have z: "(119 - length m mod 64) mod 64 = (if c < 56 then 55 - c else (63 - c) + 56)"
    using assms(2) by (auto simp: mod_if)
  show p: "fips_pad m = m @ [0x80] @ (if c < 56 then replicate (55 - c) 0 else replicate (63 - c) 0 @ replicate 56 0)
      @ rev (long_bytes (8 * of_nat (length m)))"
    unfolding fips_pad_def z by (simp add: replicate_add)
  have "length (fips_pad m) = 64 * (if c < 56 then n + 1 else n + 2)"
    unfolding p using assms by (auto simp: long_bytes_def)
  then show "length (fips_pad m) mod 64 = 0"
    by simp
qed

text \<open>The two ways to fill the last block, up to its length field.\<close>

lemma sha_rep_last:
  assumes "sha_rep m ctx" "sha_count ctx < 64"
    and "ctx1 = (if sha_count ctx < 56 then sha_pad 56 (sha_put 0x80 ctx)
       else let c = SHA1_update (sha_pad 64 (sha_put 0x80 ctx)) None in c\<lparr>sha_buf := replicate 56 0 @ drop 56 (sha_buf c)\<rparr>)"
  shows "sha_rep (m @ [0x80] @ (if sha_count ctx < 56 then replicate (55 - sha_count ctx) 0 else replicate (63 - sha_count ctx) 0 @ replicate 56 0))
    (ctx1\<lparr>sha_count := 56\<rparr>)"
proof -
  have p: "sha_rep (m @ [0x80]) (sha_put 0x80 ctx)" "sha_count (sha_put 0x80 ctx) = sha_count ctx + 1"
    using sha_rep_put [OF assms(1,2)] by (simp_all add: sha_put_def)
  show ?thesis
  proof (cases "sha_count ctx < 56")
    case True
    have r: "sha_rep ((m @ [0x80]) @ replicate (56 - (sha_count ctx + 1)) 0) ctx1" "sha_count ctx1 = 56"
      using True sha_pad_rep [OF p(1), of 56] by (simp_all add: assms(3) p(2))
    have "56 - (sha_count ctx + 1) = 55 - sha_count ctx" "ctx1\<lparr>sha_count := 56\<rparr> = ctx1"
      using r(2) by (simp, cases ctx1, simp)
    then show ?thesis
      using True r(1) by simp
  next
    case False
    let ?f = "sha_pad 64 (sha_put 0x80 ctx)"
    let ?c = "SHA1_update ?f None"
    have "64 - (sha_count ctx + 1) = 63 - sha_count ctx"
      by simp
    then have f: "sha_rep ((m @ [0x80]) @ replicate (63 - sha_count ctx) 0) ?f" "sha_count ?f = 64"
      using assms(2) sha_pad_rep [OF p(1), of 64] by (simp_all only: p(2))
    have c: "sha_rep ((m @ [0x80]) @ replicate (63 - sha_count ctx) 0) ?c" "sha_count ?c = 0" "length (sha_buf ?c) = 64"
      using sha_rep_flush [OF f(1)] f(2) by (simp_all add: SHA1_update_def sha_rep_def)
    have "ctx1\<lparr>sha_count := 56\<rparr> = ?c\<lparr>sha_buf := replicate 56 0 @ drop 56 (sha_buf ?c), sha_count := 56\<rparr>"
      using False by (simp add: assms(3) Let_def)
    then show ?thesis
      using False c sha_rep_store [OF c(1), of 56 "replicate 56 0 @ drop 56 (sha_buf ?c)"] by simp
  qed
qed

lemma transform_chain:
  assumes "sha_rep z (ctx\<lparr>sha_buf := b, sha_count := 64\<rparr>)" "length b = 64"
  shows "chain (transform (ctx\<lparr>sha_buf := b\<rparr>) b) = hash_blocks (length z div 64) z chain_init"
proof -
  let ?c = "ctx\<lparr>sha_buf := b, sha_count := 64\<rparr>"
  have "sha_rep z (sha_flush ?c)" "sha_count (sha_flush ?c) = 0"
    using sha_rep_flush [OF assms(1)] by simp_all
  then have "chain (sha_flush ?c) = hash_blocks (length z div 64) z chain_init"
    by (auto simp: sha_rep_def)
  moreover have "chain (sha_flush ?c) = chain (transform (ctx\<lparr>sha_buf := b\<rparr>) b)"
    using assms(2) by (simp add: sha_flush_def transform_compress)
  ultimately show ?thesis
    by simp
qed

lemma chain_bytes_chain:
  "chain_bytes (chain ctx) = be_bytes32 (h0 ctx) @ be_bytes32 (h1 ctx) @ be_bytes32 (h2 ctx) @ be_bytes32 (h3 ctx) @ be_bytes32 (h4 ctx)"
  by (simp add: chain_def)

lemma length_be_bytes32 [simp]: "length (be_bytes32 w) = 4"
  by (simp add: be_bytes32_def)

lemma length_fips_sha1 [simp]: "length (fips_sha1 m) = 20"
  by (cases "hash_blocks (length (fips_pad m) div 64) (fips_pad m) chain_init") (simp add: fips_sha1_def)

lemma SHA1_final_rep:
  assumes "sha_rep m ctx0" "length m < 2 ^ 38"
  shows "fst (SHA1_final ctx0) = fips_sha1 m"
proof -
  define ctx where "ctx = SHA1_update ctx0 None"
  have ctx: "sha_rep m ctx" "sha_count ctx < 64"
    using SHA1_update_None [OF assms(1)] by (simp_all add: ctx_def)
  obtain n where n: "length m = 64 * n + sha_count ctx" "nblocks ctx = of_nat n" "n < 2 ^ 32"
    using ctx assms(2) by (auto simp: sha_rep_def)
  obtain msb lsb where b: "sha_bits (nblocks ctx) (sha_count ctx) = (msb, lsb)"
    by fastforce
  let ?t = "be_bytes32 msb @ be_bytes32 lsb"
  have t: "?t = rev (long_bytes (8 * of_nat (length m)))"
    using sha_bits_length [OF n(3) ctx(2)] b by (simp add: n)
  define ctx1 where "ctx1 = (if sha_count ctx < 56 then sha_pad 56 (sha_put 0x80 ctx)
       else let c = SHA1_update (sha_pad 64 (sha_put 0x80 ctx)) None in c\<lparr>sha_buf := replicate 56 0 @ drop 56 (sha_buf c)\<rparr>)"
  note r = sha_rep_last [OF ctx ctx1_def]
  let ?b = "take 56 (sha_buf ctx1) @ ?t"
  have lb: "length (sha_buf ctx1) = 64"
    using r by (simp add: sha_rep_def)
  have "sha_rep (fips_pad m) (ctx1\<lparr>sha_buf := ?b, sha_count := 64\<rparr>)"
    using sha_rep_store [OF r, of 64 ?b] lb fips_pad_split(1) [OF n(1) ctx(2)] by (simp add: t split del: if_split)
  then have "chain (transform (ctx1\<lparr>sha_buf := ?b\<rparr>) ?b) = hash_blocks (length (fips_pad m) div 64) (fips_pad m) chain_init"
    using lb by (intro transform_chain) simp_all
  then have "chain_bytes (chain (transform (ctx1\<lparr>sha_buf := ?b\<rparr>) ?b)) = fips_sha1 m"
    by (simp add: fips_sha1_def Let_def)
  then show ?thesis
    unfolding SHA1_final_def Let_def ctx_def [symmetric] b prod.case ctx1_def [unfolded Let_def, symmetric]
    by (simp add: chain_bytes_chain)
qed

section \<open>Hashing in pieces\<close>

text \<open>What the rest of the daemon relies on: a context is initialised, given the message in pieces and asked for the digest.\<close>

locale digest_calls =
  fixes init :: "'k \<Rightarrow> 'c outcome" and update :: "'c \<Rightarrow> byte list \<Rightarrow> 'c" and fin :: "'k \<Rightarrow> 'c \<Rightarrow> byte list"
    and ready :: "'k \<Rightarrow> bool" and rep :: "'k \<Rightarrow> byte list \<Rightarrow> 'c \<Rightarrow> bool" and bound :: nat and ref :: "'k \<Rightarrow> byte list \<Rightarrow> byte list"
  assumes init_rep: "ready k \<Longrightarrow> \<exists>c. init k = Done c \<and> rep k [] c"
    and update_rep: "rep k m c \<Longrightarrow> rep k (m @ bs) (update c bs)"
    and fin_ref: "ready k \<Longrightarrow> rep k m c \<Longrightarrow> length m < bound \<Longrightarrow> fin k c = ref k m"
begin

lemma updates_rep: "rep k m c \<Longrightarrow> rep k (m @ concat ps) (fold (\<lambda>p c. update c p) ps c)"
proof (induction ps arbitrary: m c)
  case (Cons p ps)
  then show ?case
    using Cons.IH [OF update_rep [OF Cons.prems, of p]] by simp
qed simp

lemma pieces:
  assumes "ready k" "length (concat ps) < bound"
  shows "andThen (init k) (\<lambda>c. Done (fin k (fold (\<lambda>p c. update c p) ps c))) = Done (ref k (concat ps))"
proof -
  obtain c where "init k = Done c" "rep k [] c"
    using init_rep assms(1) by blast
  then show ?thesis
    using fin_ref [OF assms(1) updates_rep] assms(2) by fastforce
qed

end

interpretation sha: digest_calls "\<lambda>c. Done (SHA1_init c)" "\<lambda>c b. SHA1_update c (Some b)" "\<lambda>_ c. fst (SHA1_final c)"
  "\<lambda>c. length (sha_buf c) = 64" "\<lambda>_. sha_rep" "2 ^ 38" "\<lambda>_. fips_sha1"
  by unfold_locales (auto intro: sha_rep_init SHA1_update_rep SHA1_final_rep)

lemma xor_key_map:
  assumes "length key \<le> 64"
  shows "xor_key b key = map (\<lambda>k. k XOR b) (key @ replicate (64 - length key) 0)"
proof -
  let ?f = "\<lambda>n. fold (\<lambda>i p. p[i := p ! i XOR key ! i]) [0..<n] (replicate 64 b)"
  have f: "length (?f n) = 64 \<and> (\<forall>i < 64. ?f n ! i = (if i < n then key ! i XOR b else b))" if "n \<le> length key" for n
    using that by (induction n) (use assms in \<open>auto simp: nth_list_update less_Suc_eq xor.commute\<close>)
  show ?thesis
    unfolding xor_key_def by (rule nth_equalityI) (use assms f [of "length key"] in \<open>auto simp: nth_append\<close>)
qed

definition hmac_rep :: "byte list \<Rightarrow> byte list \<Rightarrow> HMAC_SHA1_CTX \<Rightarrow> bool" where
  "hmac_rep key m ctx \<longleftrightarrow>
     sha_rep (map (\<lambda>b. b XOR 0x36) (rfc_key key) @ m) (ictx ctx) \<and> hmac_pad ctx = map (\<lambda>b. b XOR 0x5c) (rfc_key key)"

lemma length_rfc_key [simp]: "length (rfc_key key) = 64"
  by (simp add: rfc_key_def Let_def)

lemma HMAC_SHA1_init_rep:
  assumes "length key \<le> 20" "length (sha_buf (ictx ctx)) = 64"
  shows "\<exists>c. HMAC_SHA1_init tctx ctx key = Done c \<and> hmac_rep key [] c"
proof -
  have "rfc_key key = key @ replicate (64 - length key) 0"
    using assms by (simp add: rfc_key_def)
  then show ?thesis
    using assms SHA1_update_rep [OF sha_rep_init [OF assms(2)]]
    by (simp add: HMAC_SHA1_init_def hmac_rep_def xor_key_map del: map_append map_replicate)
qed

lemma HMAC_SHA1_final_rep:
  assumes "hmac_rep key m ctx" "length m < 2 ^ 38 - 64" "length (sha_buf octx) = 64"
  shows "HMAC_SHA1_final octx ctx = rfc_hmac key m"
proof -
  have i: "fst (SHA1_final (ictx ctx)) = fips_sha1 (map (\<lambda>b. b XOR 0x36) (rfc_key key) @ m)"
    using assms by (intro SHA1_final_rep) (simp_all add: hmac_rep_def)
  let ?o = "SHA1_update (SHA1_update (SHA1_init octx) (Some (hmac_pad ctx))) (Some (fst (SHA1_final (ictx ctx))))"
  have "sha_rep (hmac_pad ctx @ fst (SHA1_final (ictx ctx))) ?o"
    using SHA1_update_rep [OF SHA1_update_rep [OF sha_rep_init [OF assms(3)]]] by simp
  then show ?thesis
    using assms(1) i SHA1_final_rep unfolding HMAC_SHA1_final_def by (auto simp: rfc_hmac_def hmac_rep_def)
qed

interpretation hmac: digest_calls "\<lambda>(junk, c, key). HMAC_SHA1_init junk c key" HMAC_SHA1_update "\<lambda>(junk, c, key). HMAC_SHA1_final junk"
  "\<lambda>(junk, c, key). length (sha_buf junk) = 64 \<and> length (sha_buf (ictx c)) = 64 \<and> length key \<le> 20"
  "\<lambda>(junk, c, key). hmac_rep key" "2 ^ 38 - 64" "\<lambda>(junk, c, key). rfc_hmac key"
  by unfold_locales
    (auto intro: HMAC_SHA1_init_rep HMAC_SHA1_final_rep simp: hmac_rep_def HMAC_SHA1_update_def simp flip: append_assoc intro: SHA1_update_rep)

lemmas hmac_pieces = hmac.pieces [of "(junk, ctx, key)" for junk ctx key, unfolded prod.case]

text \<open>A key of more than twenty bytes is written past the end of the array, whether or not it is hashed afterwards.\<close>

lemma long_key_overflow:
  "HMAC_SHA1_init tctx ctx (k # replicate 20 0) = Fault OutOfBounds" "HMAC_SHA1_init tctx ctx (replicate 65 k) = Fault OutOfBounds"
  by (simp_all add: HMAC_SHA1_init_def)

lemma random_bytes_hmac:
  assumes "length (sha_buf junk) = 64" "length (sha_buf (ictx ctx)) = 64" "1 \<le> num" "nat (min num 20) \<le> length buffer"
  shows "random_bytes junk ctx key msg buffer num
    = Done (0, take (nat (min num 20)) (rfc_hmac (long_bytes key) (long_bytes msg)) @ drop (nat (min num 20)) buffer)"
proof -
  let ?k = "long_bytes key"
  obtain c where "HMAC_SHA1_init junk ctx ?k = Done c" "hmac_rep ?k [] c"
    using HMAC_SHA1_init_rep [of ?k ctx junk] assms by auto
  moreover from this have "HMAC_SHA1_final junk (HMAC_SHA1_update c (long_bytes msg)) = rfc_hmac ?k (long_bytes msg)"
    using hmac_pieces [of junk ctx ?k "[long_bytes msg]"] assms by simp
  ultimately show ?thesis
    using assms by (auto simp: random_bytes_def Let_def min_def)
qed

text \<open>The parameter of the models of \<open>keygen.c\<close> and \<open>mh.c\<close>, for a daemon built with \<open>crypto.c\<close>.\<close>

definition builtin_crypto :: crypto where
  "builtin_crypto = \<lparr>hmac_sha1 = rfc_hmac, sha1 = fips_sha1\<rparr>"

lemma builtin_crypto_length: "length (hmac_sha1 builtin_crypto k m) = 20" "length (sha1 builtin_crypto m) = 20"
  by (simp_all add: builtin_crypto_def rfc_hmac_def)

section \<open>Properties\<close>

definition raw_ctx :: SHA1_CTX where
  "raw_ctx = \<lparr>h0 = 0, h1 = 0, h2 = 0, h3 = 0, h4 = 0, nblocks = 9, sha_buf = replicate 64 7, sha_count = 3\<rparr>"

text \<open>C20: However a message is split over the calls of \<open>SHA1_update\<close>, and whatever the context held before, \<open>SHA1_final\<close> yields the
  SHA-1 digest of the whole message as FIPS 180-4 defines it, up to \<open>2 ^ 38\<close> bytes, for which the block counter of the context has room.\<close>

theorem sha1_pieces:
  assumes "length (sha_buf ctx) = SHA_BLOCKSIZE" "length (concat ps) < 2 ^ 38"
  shows "fst (SHA1_final (fold (\<lambda>p c. SHA1_update c (Some p)) ps (SHA1_init ctx))) = fips_sha1 (concat ps)"
  using sha.pieces [of ctx ps] assms by simp

lemma rol_eval: "n \<le> 32 \<Longrightarrow> rol x n = push_bit n (take_bit (32 - n) x) OR drop_bit (32 - n) x"
  unfolding rol_def by (rule bit_word_eqI) (auto simp: bit_simps)

lemma sha_round_eval:
  "sha_round i (v, x) = (case if i < 16 then (x ! i, x) else sha_M i x of (m, x') \<Rightarrow>
     (sha_R (sha_regs ! (i mod 5)) (fst (sha_fk i)) (snd (sha_fk i)) m v, x'))"
  by (simp add: sha_round_def split_beta)

lemmas sha_eval = sha_round_eval sha_fk_def sha_regs_def rol_eval F1_def F2_def F3_def sha_M_def upt_conv_Cons

lemma rounds_abc:
  "fst (fold sha_round [0..<80] ([0x67452301, 0xefcdab89, 0x98badcfe, 0x10325476, 0xc3d2e1f0], [0x61626380, 0, 0, 0, 0, 0, 0, 0, 0, 0, 0, 0, 0, 0, 0, 24]))
   = [0x42541B35, 0x5738D5E1, 0x21834873, 0x681E6DF6, 0xD8FDF6AD]"
  by (simp add: sha_eval)

lemma sha_load_abc: "sha_load (fips_pad [97, 98, 99]) = [0x61626380, 0, 0, 0, 0, 0, 0, 0, 0, 0, 0, 0, 0, 0, 0, 24]"
  by (simp add: sha_load_def fips_pad_def long_bytes_def le32_def upt_conv_Cons nth_append)

lemma fips_sha1_abc:
  "fips_sha1 [97, 98, 99] = [0xA9, 0x99, 0x3E, 0x36, 0x47, 0x06, 0x81, 0x6A, 0xBA, 0x3E, 0x25, 0x71, 0x78, 0x50, 0xC2, 0x6C, 0x9C, 0xD0, 0xD8, 0x9D]"
proof -
  let ?p = "fips_pad [97, 98, 99]" and ?c = "SHA1_init raw_ctx"
  have l: "length ?p = 64"
    by (simp add: fips_pad_def)
  have "hash_blocks 1 ?p chain_init = compress ?p chain_init"
    using l by simp
  moreover have "chain_init = chain ?c"
    by (simp add: chain_init_def chain_def SHA1_init_def)
  ultimately have "fips_sha1 [97, 98, 99] = chain_bytes (compress ?p (chain ?c))"
    using l by (simp add: fips_sha1_def Let_def)
  also have "compress ?p (chain ?c) = chain (transform ?c ?p)"
    using l by (simp add: transform_compress)
  also have "chain (transform ?c ?p) = (0xA9993E36, 0x4706816A, 0xBA3E2571, 0x7850C26C, 0x9CD0D89D)"
    using rounds_abc by (simp add: transform_def split_beta sha_load_abc SHA1_init_def raw_ctx_def chain_def Let_def del: upt.simps)
  finally show ?thesis
    by (simp add: be_bytes32_def)
qed

theorem sha1_pieces_witness:
  "length (sha_buf raw_ctx) = 64 \<and> length (concat [[97 :: byte], [98, 99]]) < (2 :: nat) ^ 38 \<and>
   fst (SHA1_final (fold (\<lambda>p c. SHA1_update c (Some p)) [[97], [98, 99]] (SHA1_init raw_ctx)))
   = [0xA9, 0x99, 0x3E, 0x36, 0x47, 0x06, 0x81, 0x6A, 0xBA, 0x3E, 0x25, 0x71, 0x78, 0x50, 0xC2, 0x6C, 0x9C, 0xD0, 0xD8, 0x9D]"
proof -
  have r: "length (sha_buf raw_ctx) = 64" "length (concat [[97 :: byte], [98, 99]]) < (2 :: nat) ^ 38"
    by (simp_all add: raw_ctx_def)
  have "concat [[97 :: byte], [98, 99]] = [97, 98, 99]"
    by simp
  then show ?thesis
    using r sha1_pieces [OF r] fips_sha1_abc by presburger
qed

text \<open>C19: A daemon built with \<open>crypto.c\<close> computes what the models of \<open>keygen.c\<close> and \<open>mh.c\<close> say, with HMAC-SHA1 of RFC 2104 and SHA-1
  of FIPS 180-4 for their parameter: the token from the address, the nonce and the type, the key of the binding from one or two tokens,
  and the authorization data from the two addresses and the vectors of a message, each given to the library piece by piece.  No
  call faults, as the keys have twenty bytes.\<close>

theorem builtin_calls:
  assumes "length (sha_buf junk) = SHA_BLOCKSIZE" "length (sha_buf (ictx ctx)) = SHA_BLOCKSIZE" "length key = 20" "length n = NONCE_LENGTH"
    and "length (concat iov) \<le> 65536"
  shows "kgen_token_builtin junk ctx key addr n ident = Done (build_kgen_token builtin_crypto key addr n ident)
    \<and> calc_Kbm_builtin junk keygen_hoa keygen_coa = rr_mn_calc_Kbm builtin_crypto keygen_hoa keygen_coa
    \<and> auth_data_builtin junk ctx iov coa cn key = Done (calculate_auth_data builtin_crypto iov coa cn key)"
proof (intro conjI)
  obtain c where c: "HMAC_SHA1_init junk ctx key = Done c"
    using HMAC_SHA1_init_rep [of key ctx junk] assms by auto
  have h: "HMAC_SHA1_final junk (fold (\<lambda>p c. HMAC_SHA1_update c p) ps c) = rfc_hmac key (concat ps)" if "length (concat ps) < 2 ^ 38 - 64" for ps
    using hmac_pieces [of junk ctx key ps] assms c that by simp
  show "kgen_token_builtin junk ctx key addr n ident = Done (build_kgen_token builtin_crypto key addr n ident)"
    using h [of "[s6_addr addr, n, [ident]]"] assms c by (simp add: kgen_token_builtin_def build_kgen_token_def builtin_crypto_def)
  show "calc_Kbm_builtin junk keygen_hoa keygen_coa = rr_mn_calc_Kbm builtin_crypto keygen_hoa keygen_coa"
    using sha.pieces [of junk "take 8 keygen_hoa # (case keygen_coa of None \<Rightarrow> [] | Some k \<Rightarrow> [take 8 k])"] assms(1)
    by (cases keygen_coa) (simp_all add: calc_Kbm_builtin_def rr_mn_calc_Kbm_def builtin_crypto_def)
  show "auth_data_builtin junk ctx iov coa cn key = Done (calculate_auth_data builtin_crypto iov coa cn key)"
    using h [of "s6_addr coa # s6_addr cn # iov"] assms c
    by (simp add: auth_data_builtin_def calculate_auth_data_def builtin_crypto_def)
qed

theorem builtin_calls_witness:
  "kgen_token_builtin raw_ctx \<lparr>ictx = raw_ctx, hmac_pad = []\<rparr> (replicate 20 1) in6addr_any (replicate 8 2) 1
     = Done (build_kgen_token builtin_crypto (replicate 20 1) in6addr_any (replicate 8 2) 1)
   \<and> calc_Kbm_builtin raw_ctx (replicate 8 3) (Some (replicate 8 4)) = rr_mn_calc_Kbm builtin_crypto (replicate 8 3) (Some (replicate 8 4))
   \<and> auth_data_builtin raw_ctx \<lparr>ictx = raw_ctx, hmac_pad = []\<rparr> [[59, 3], [5, 0]] in6addr_any in6addr_any (replicate 20 1)
     = Done (calculate_auth_data builtin_crypto [[59, 3], [5, 0]] in6addr_any in6addr_any (replicate 20 1))"
  by (rule builtin_calls) (simp_all add: raw_ctx_def)

end
