(* ===== verification/Prefix_List.thy ===== *)
theory Prefix_List
  imports Prelude
begin

text \<open>
  \<open>src/src/prefix.h\<close>, \<open>prefix.c\<close> and \<open>util.c\<close>: address prefixes, lists of prefixes and the Internet checksum.  The meaning of a prefix
  is given by the bits of an address, the first of which is the most significant bit of the first byte.  A read behind the sixteen
  bytes of an address is the fault \<open>OutOfBounds\<close>.
\<close>

section \<open>Model\<close>

record prefix_list_entry =
  ple_timestamp :: timespec
  ple_plen :: u8
  ple_flags :: u8
  ple_valid_time :: u32
  ple_prefd_time :: u32
  ple_prefix :: in6_addr

text \<open>Of \<open>memcmp\<close> the sign of the result is fixed.\<close>

fun memcmp :: "byte list \<Rightarrow> byte list \<Rightarrow> int" where
  "memcmp (x # xs) (y # ys) = (if x = y then memcmp xs ys else if x < y then - 1 else 1)"
| "memcmp _ _ = 0"

text \<open>The masks \<open>0xff00 >> b\<close> and \<open>0x00ff >> b\<close>, of which the low byte is used.\<close>

definition high_mask :: "nat \<Rightarrow> byte" where
  "high_mask b = ucast (drop_bit b (0xff00 :: u16))"

definition low_mask :: "nat \<Rightarrow> byte" where
  "low_mask b = ucast (drop_bit b (0x00ff :: u16))"

definition ipv6_addr_prefix :: "in6_addr \<Rightarrow> int \<Rightarrow> in6_addr" where
  "ipv6_addr_prefix addr plen0 =
     (let plen = (if plen0 < 0 then 0 else if plen0 > 128 then 128 else nat plen0);
          q = drop_bit 3 plen; b = take_bit 3 plen;
          mid = (if b \<noteq> 0 then [s6_addr addr ! q AND high_mask b] else []);
          q' = q + length mid
      in in6_of (take q (s6_addr addr) @ mid @ replicate (16 - q') 0))"

definition ipv6_addr_create :: "in6_addr \<Rightarrow> in6_addr \<Rightarrow> int \<Rightarrow> in6_addr" where
  "ipv6_addr_create pfx sfx plen0 =
     (let plen = (if plen0 > 128 \<or> plen0 < 0 then 0 else nat plen0);
          q = drop_bit 3 plen; b = take_bit 3 plen;
          mid = (if b \<noteq> 0 then [(s6_addr pfx ! q AND high_mask b) OR (s6_addr sfx ! q AND low_mask b)] else []);
          q' = q + length mid
      in in6_of (take q (s6_addr pfx) @ mid @ drop q' (s6_addr sfx)))"

definition ipv6_pfx_cmp :: "in6_addr \<Rightarrow> in6_addr \<Rightarrow> nat \<Rightarrow> int outcome" where
  "ipv6_pfx_cmp p1 p2 plen =
     (let q = drop_bit 3 plen; b = take_bit 3 plen in
      if 16 < q then Fault OutOfBounds
      else let res = memcmp (take q (s6_addr p1)) (take q (s6_addr p2)) in
        if res \<noteq> 0 \<or> b = 0 then Done res
        else if 16 \<le> q then Fault OutOfBounds
        else Done (uint ((s6_addr p1 ! q XOR s6_addr p2 ! q) AND high_mask b)))"

fun get_loop :: "prefix_list_entry list \<Rightarrow> in6_addr \<Rightarrow> int \<Rightarrow> prefix_list_entry option \<Rightarrow> prefix_list_entry option outcome" where
  "get_loop [] addr plen p1 = Done p1"
| "get_loop (p2 # pl) addr plen p1 =
     andThen (ipv6_pfx_cmp (ple_prefix p2) addr (unat (ple_plen p2))) (\<lambda>r.
       if r = 0 then
         if plen > 0 then
           if uint (ple_plen p2) = plen then Done (Some p2) else get_loop pl addr plen p1
         else if p1 = None \<or> ple_plen (the p1) < ple_plen p2 then get_loop pl addr plen (Some p2)
         else get_loop pl addr plen p1
       else get_loop pl addr plen p1)"

definition prefix_list_get :: "prefix_list_entry list \<Rightarrow> in6_addr \<Rightarrow> int \<Rightarrow> prefix_list_entry option outcome" where
  "prefix_list_get pl addr plen = get_loop pl addr plen None"

definition prefix_list_find :: "prefix_list_entry list \<Rightarrow> in6_addr \<Rightarrow> int \<Rightarrow> bool outcome" where
  "prefix_list_find pl addr plen = andThen (prefix_list_get pl addr plen) (\<lambda>p. Done (p \<noteq> None))"

fun cmp_inner :: "prefix_list_entry \<Rightarrow> prefix_list_entry list \<Rightarrow> bool outcome" where
  "cmp_inner p1 [] = Done False"
| "cmp_inner p1 (p2 # pl) =
     (if ple_plen p1 \<noteq> ple_plen p2 then cmp_inner p1 pl
      else andThen (ipv6_pfx_cmp (ple_prefix p1) (ple_prefix p2) (unat (ple_plen p1))) (\<lambda>r.
        if r \<noteq> 0 then cmp_inner p1 pl else Done True))"

fun cmp_outer :: "prefix_list_entry list \<Rightarrow> prefix_list_entry list \<Rightarrow> bool outcome" where
  "cmp_outer [] pl2 = Done True"
| "cmp_outer (p1 # pl1) pl2 = andThen (cmp_inner p1 pl2) (\<lambda>m. if m then cmp_outer pl1 pl2 else Done False)"

definition prefix_list_cmp :: "prefix_list_entry list \<Rightarrow> prefix_list_entry list \<Rightarrow> bool outcome" where
  "prefix_list_cmp pl1 pl2 = (if length pl1 \<noteq> length pl2 then Done False else cmp_outer pl1 pl2)"

text \<open>\<open>mem\<close> says how many of the allocations succeed; the copies are added at the end of the second list, which is freed when memory runs out.\<close>

definition prefix_list_copy :: "nat \<Rightarrow> prefix_list_entry list \<Rightarrow> prefix_list_entry list \<Rightarrow> int \<times> prefix_list_entry list" where
  "prefix_list_copy mem pl1 pl2 = (if mem < length pl1 then (- 1, []) else (int (length pl1), pl2 @ pl1))"

type_synonym u64 = "64 word"

definition mpd_curr_lft :: "timespec \<Rightarrow> timespec \<Rightarrow> u64 \<Rightarrow> u64" where
  "mpd_curr_lft now tstamp lft =
     (if (ucast lft :: u32) = 0xFFFFFFFF then lft
      else let tmp = tssub now tstamp;
               diff = of_int (tv_sec tmp) + (if tv_nsec tmp > 0 then 1 else 0)
           in if lft > diff then lft - diff else 0)"

definition mpd_sanitize_lft :: "timespec \<Rightarrow> timespec" where
  "mpd_sanitize_lft lft = TS (uint (min (of_int (tv_sec lft)) (0x3fffc :: u64) AND 0x3fffc)) 0"

definition dhaad_gen_suffix :: in6_addr where
  "dhaad_gen_suffix = In6 0xff 0xff 0xff 0xff 0xff 0xff 0xff 0xff 0xff 0xff 0xff 0xff 0xff 0xff 0xff 0xfe"

definition dhaad_eui64_suffix :: in6_addr where
  "dhaad_eui64_suffix = In6 0 0 0 0 0 0 0 0 0xfd 0xff 0xff 0xff 0xff 0xff 0xff 0xfe"

definition dhaad_gen_ha_anycast :: "in6_addr \<Rightarrow> int \<Rightarrow> in6_addr" where
  "dhaad_gen_ha_anycast pfx plen = ipv6_addr_create pfx (if plen = 64 then dhaad_eui64_suffix else dhaad_gen_suffix) plen"

text \<open>The sum of the sixteen-bit words, in an \<open>unsigned long\<close>; an odd last byte is left out.\<close>

fun cksum_words :: "byte list \<Rightarrow> u64 \<Rightarrow> u64" where
  "cksum_words (b0 # b1 # bs) acc = cksum_words bs (acc + ucast (le16 b0 b1))"
| "cksum_words _ acc = acc"

lemma unat_cksum_step: "unat ((s AND 0xffff) + drop_bit 16 s) = unat s mod 65536 + unat s div 65536" for s :: u64
proof -
  have "s AND 0xffff = take_bit 16 s"
    by (simp add: take_bit_eq_mask mask_numeral flip: and.commute)
  then have "unat (s AND 0xffff) = take_bit 16 (unat s)"
    by (simp only: unsigned_take_bit_eq)
  then have m: "unat (s AND 0xffff) = unat s mod 65536"
    by (simp add: take_bit_eq_mod)
  have "unat (drop_bit 16 s) = drop_bit 16 (unat s)"
    by (simp only: unat_drop_bit_eq)
  then have d: "unat (drop_bit 16 s) = unat s div 65536"
    by (simp add: drop_bit_eq_div)
  have "unat s < 2 ^ LENGTH(64)"
    by (rule unsigned_less)
  then have "unat s mod 65536 + unat s div 65536 < 2 ^ 64"
    using mult_div_mod_eq [of 65536 "unat s"] by simp
  then show ?thesis
    using m d by (simp add: unat_word_ariths)
qed

function cksum_fold :: "u64 \<Rightarrow> u64" where
  "cksum_fold acc = (if drop_bit 16 acc \<noteq> 0 then cksum_fold ((acc AND 0xffff) + drop_bit 16 acc) else acc)"
  by pat_completeness auto
termination
proof (relation "measure unat", simp)
  fix acc :: u64 assume "drop_bit 16 acc \<noteq> 0"
  then have "0 < drop_bit 16 (unat acc)"
    by (simp add: unat_gt_0 flip: unat_drop_bit_eq)
  then have "0 < unat acc div 65536"
    by (simp add: drop_bit_eq_div)
  moreover have "unat acc = 65536 * (unat acc div 65536) + unat acc mod 65536"
    by simp
  ultimately have "unat acc mod 65536 + unat acc div 65536 < unat acc"
    by linarith
  then show "((acc AND 0xffff) + drop_bit 16 acc, acc) \<in> measure unat"
    by (simp add: unat_cksum_step)
qed

declare cksum_fold.simps [simp del]

definition cksum_phdr :: "in6_addr \<Rightarrow> in6_addr \<Rightarrow> u32 \<Rightarrow> byte \<Rightarrow> byte list" where
  "cksum_phdr src dst datalen nh = s6_addr src @ s6_addr dst @ rev (bytes32 datalen) @ [0, 0, 0, nh]"

definition in6_cksum :: "in6_addr \<Rightarrow> in6_addr \<Rightarrow> byte list \<Rightarrow> byte \<Rightarrow> u16" where
  "in6_cksum src dst data nh =
     NOT (ucast (cksum_fold (cksum_words data (cksum_words (cksum_phdr src dst (of_nat (length data)) nh) 0))))"

section \<open>The bits of an address\<close>

definition addr_bit :: "in6_addr \<Rightarrow> nat \<Rightarrow> bool" where
  "addr_bit a i = bit (s6_addr a ! (i div 8)) (7 - i mod 8)"

definition same_prefix :: "nat \<Rightarrow> in6_addr \<Rightarrow> in6_addr \<Rightarrow> bool" where
  "same_prefix plen a b \<longleftrightarrow> (\<forall>i < plen. addr_bit a i = addr_bit b i)"

lemma byte_eqI: "(\<And>k. k < 8 \<Longrightarrow> bit x (7 - k) = bit y (7 - k)) \<Longrightarrow> x = y" for x y :: byte
proof (rule bit_word_eqI)
  fix n assume h: "\<And>k. k < 8 \<Longrightarrow> bit x (7 - k) = bit y (7 - k)" and "n < LENGTH(8)"
  then show "bit x n = bit y n"
    using h [of "7 - n"] by simp
qed

lemma addr_byte_eq: "j < 16 \<Longrightarrow> (\<forall>i. i div 8 = j \<longrightarrow> addr_bit a i = addr_bit b i) \<longleftrightarrow> s6_addr a ! j = s6_addr b ! j"
proof
  assume h: "\<forall>i. i div 8 = j \<longrightarrow> addr_bit a i = addr_bit b i"
  show "s6_addr a ! j = s6_addr b ! j"
  proof (rule byte_eqI)
    fix k :: nat assume "k < 8"
    then show "bit (s6_addr a ! j) (7 - k) = bit (s6_addr b ! j) (7 - k)"
      using h [rule_format, of "8 * j + k"] by (simp add: addr_bit_def)
  qed
qed (auto simp: addr_bit_def)

lemma bit_high_mask: "b \<le> 8 \<Longrightarrow> bit (high_mask b) k \<longleftrightarrow> k < 8 \<and> 8 \<le> k + b"
proof -
  have m: "(0xff00 :: u16) = push_bit 8 (mask 8)"
    by (simp add: mask_numeral)
  show "b \<le> 8 \<Longrightarrow> bit (high_mask b) k \<longleftrightarrow> k < 8 \<and> 8 \<le> k + b"
    unfolding high_mask_def m by (auto simp: bit_simps)
qed

lemma bit_low_mask: "bit (low_mask b) k \<longleftrightarrow> k + b < 8"
proof -
  have m: "(0x00ff :: u16) = mask 8"
    by (simp add: mask_numeral)
  show ?thesis
    unfolding low_mask_def m by (auto simp: bit_simps)
qed

lemma bit_mask_at:
  "b \<le> 8 \<Longrightarrow> bit (high_mask b) (7 - i mod 8) \<longleftrightarrow> i mod 8 < b" "bit (low_mask b) (7 - i mod 8) \<longleftrightarrow> b \<le> i mod 8"
  using mod_less_divisor [of 8 i] by (simp_all add: bit_high_mask bit_low_mask) linarith+

lemma addr_bit_in6_of: "length bs = 16 \<Longrightarrow> addr_bit (in6_of bs) i = bit (bs ! (i div 8)) (7 - i mod 8)"
  by (simp add: addr_bit_def s6_addr_in6_of)

lemma octet_split:
  fixes plen :: nat
  assumes "plen \<le> 128"
  obtains q b where "drop_bit 3 plen = q" "take_bit 3 plen = b" "plen = 8 * q + b" "b < 8" "q \<le> 16" "b \<noteq> 0 \<Longrightarrow> q < 16"
proof -
  have "drop_bit 3 plen = plen div 8" "take_bit 3 plen = plen mod 8"
    by (simp_all add: drop_bit_eq_div take_bit_eq_mod)
  moreover have "plen = 8 * (plen div 8) + plen mod 8" "plen mod 8 < 8"
    by simp_all
  ultimately show thesis
    using assms that [of "plen div 8" "plen mod 8"] by linarith
qed

text \<open>An address made of a prefix and a suffix has the first bits of the one and the other bits of the other.\<close>

lemma ipv6_addr_create_bits:
  assumes "plen \<le> 128" "i < 128"
  shows "addr_bit (ipv6_addr_create pfx sfx (int plen)) i = (if i < plen then addr_bit pfx i else addr_bit sfx i)"
proof -
  obtain q b where q: "drop_bit 3 plen = q" "take_bit 3 plen = b" "plen = 8 * q + b" "b < 8" "q \<le> 16" "b \<noteq> 0 \<Longrightarrow> q < 16"
    using octet_split [OF assms(1)] by metis
  let ?mid = "if b \<noteq> 0 then [(s6_addr pfx ! q AND high_mask b) OR (s6_addr sfx ! q AND low_mask b)] else []"
  let ?l = "take q (s6_addr pfx) @ ?mid @ drop (q + length ?mid) (s6_addr sfx)"
  have l: "length ?l = 16"
    using q by auto
  have "ipv6_addr_create pfx sfx (int plen) = in6_of ?l"
    using assms(1) q(1,2) unfolding ipv6_addr_create_def Let_def by simp
  then have c: "addr_bit (ipv6_addr_create pfx sfx (int plen)) i = bit (?l ! (i div 8)) (7 - i mod 8)"
    using addr_bit_in6_of [OF l] by simp
  have "i < 8 * (i div 8) + b \<longleftrightarrow> i mod 8 < b"
    using mult_div_mod_eq [of 8 i] by linarith
  then consider "i div 8 < q" "i < plen" | "i div 8 = q" "b \<noteq> 0" "i mod 8 < b \<longleftrightarrow> i < plen" | "q + length ?mid \<le> i div 8" "\<not> i < plen"
    using q(3,4) div_mult_mod_eq [of i 8] mod_less_divisor [of 8 i] by (cases "b = 0"; cases "i div 8" q rule: linorder_cases) auto
  then show ?thesis
    unfolding c
  proof cases
    case 2
    then show "bit (?l ! (i div 8)) (7 - i mod 8) = (if i < plen then addr_bit pfx i else addr_bit sfx i)"
      using q assms(2) by (auto simp: nth_append addr_bit_def bit_and_iff bit_or_iff bit_mask_at)
  qed (use q assms(2) in \<open>auto simp: nth_append addr_bit_def\<close>)
qed

lemma same_prefix_add: "same_prefix (m + b) x y \<longleftrightarrow> same_prefix m x y \<and> (\<forall>k < b. addr_bit x (m + k) = addr_bit y (m + k))"
  by (induction b) (auto simp: same_prefix_def less_Suc_eq)

lemma memcmp_0: "length xs = length ys \<Longrightarrow> memcmp xs ys = 0 \<longleftrightarrow> xs = ys"
  by (induction xs ys rule: list_induct2) auto

text \<open>Comparing prefixes is comparing their first bits; more than 128 bits cannot be compared.\<close>

lemma ipv6_pfx_cmp_bits:
  assumes "plen \<le> 128"
  shows "\<exists>r. ipv6_pfx_cmp p1 p2 plen = Done r \<and> (r = 0 \<longleftrightarrow> same_prefix plen p1 p2)"
proof -
  obtain q b where q: "drop_bit 3 plen = q" "take_bit 3 plen = b" "plen = 8 * q + b" "b < 8" "q \<le> 16" "b \<noteq> 0 \<Longrightarrow> q < 16"
    using octet_split [OF assms] by metis
  let ?x = "(s6_addr p1 ! q XOR s6_addr p2 ! q) AND high_mask b"
  have d: "i < 8 * q \<longleftrightarrow> i div 8 < q" for i
    by (simp add: div_less_iff_less_mult mult.commute)
  have "take q (s6_addr p1) = take q (s6_addr p2) \<longleftrightarrow> (\<forall>j < q. s6_addr p1 ! j = s6_addr p2 ! j)"
    using q(5) by (auto simp: list_eq_iff_nth_eq)
  also have "\<dots> \<longleftrightarrow> same_prefix (8 * q) p1 p2"
    using q(5) by (auto simp: same_prefix_def d simp flip: addr_byte_eq)
  finally have t: "memcmp (take q (s6_addr p1)) (take q (s6_addr p2)) = 0 \<longleftrightarrow> same_prefix (8 * q) p1 p2"
    by (simp add: memcmp_0)
  have x: "?x = 0 \<longleftrightarrow> (\<forall>k < b. bit (s6_addr p1 ! q) (7 - k) = bit (s6_addr p2 ! q) (7 - k))"
  proof
    assume "?x = 0"
    then have "\<not> bit ?x (7 - k)" for k
      by simp
    then show "\<forall>k < b. bit (s6_addr p1 ! q) (7 - k) = bit (s6_addr p2 ! q) (7 - k)"
      using q(4) by (fastforce simp: bit_and_iff bit_xor_iff bit_high_mask)
  next
    assume h: "\<forall>k < b. bit (s6_addr p1 ! q) (7 - k) = bit (s6_addr p2 ! q) (7 - k)"
    show "?x = 0"
    proof (rule byte_eqI)
      fix k :: nat assume "k < 8"
      then show "bit ?x (7 - k) = bit 0 (7 - k)"
        using h [rule_format, of k] q(4) by (auto simp: bit_and_iff bit_xor_iff bit_high_mask)
    qed
  qed
  have "same_prefix plen p1 p2 \<longleftrightarrow> same_prefix (8 * q) p1 p2 \<and> (\<forall>k < b. addr_bit p1 (8 * q + k) = addr_bit p2 (8 * q + k))"
    unfolding q(3) by (rule same_prefix_add)
  then have s: "same_prefix plen p1 p2 \<longleftrightarrow> same_prefix (8 * q) p1 p2 \<and> ?x = 0"
    unfolding x using q(4) by (auto simp: addr_bit_def)
  have u: "?x = 0" if "b = 0"
    unfolding x using that by simp
  let ?m = "memcmp (take q (s6_addr p1)) (take q (s6_addr p2))"
  show ?thesis
  proof (cases "?m \<noteq> 0 \<or> b = 0")
    case True
    then have "ipv6_pfx_cmp p1 p2 plen = Done ?m"
      using q(5) by (simp add: ipv6_pfx_cmp_def Let_def q(1,2))
    then show ?thesis
      using True s t u by auto
  next
    case False
    then have "ipv6_pfx_cmp p1 p2 plen = Done (uint ?x)"
      using q(5,6) by (simp add: ipv6_pfx_cmp_def Let_def q(1,2))
    then show ?thesis
      using False s t by (auto simp: uint_0_iff)
  qed
qed

lemma same_prefix_create: "plen \<le> 128 \<Longrightarrow> same_prefix plen (ipv6_addr_create pfx sfx (int plen)) pfx"
  by (simp add: same_prefix_def ipv6_addr_create_bits)

section \<open>Lists of prefixes\<close>

abbreviation covers :: "prefix_list_entry \<Rightarrow> in6_addr \<Rightarrow> bool" where
  "covers p a \<equiv> same_prefix (unat (ple_plen p)) (ple_prefix p) a"

definition prefixes_ok :: "prefix_list_entry list \<Rightarrow> bool" where
  "prefixes_ok pl \<longleftrightarrow> (\<forall>p \<in> set pl. ple_plen p \<le> 128)"

lemma prefixes_ok_cmp:
  assumes "ple_plen p \<le> 128"
  obtains r where "ipv6_pfx_cmp (ple_prefix p) a (unat (ple_plen p)) = Done r" "r = 0 \<longleftrightarrow> covers p a"
  using ipv6_pfx_cmp_bits [of "unat (ple_plen p)"] assms by (auto simp: word_le_nat_alt)

lemma get_loop_exact:
  assumes "prefixes_ok pl" "0 < plen"
  shows "get_loop pl addr plen p1 = Done (case find (\<lambda>p. covers p addr \<and> uint (ple_plen p) = plen) pl of None \<Rightarrow> p1 | Some p \<Rightarrow> Some p)"
  using assms
proof (induction pl)
  case (Cons p pl)
  then obtain r where "ipv6_pfx_cmp (ple_prefix p) addr (unat (ple_plen p)) = Done r" "r = 0 \<longleftrightarrow> covers p addr"
    using prefixes_ok_cmp [of p addr] by (auto simp: prefixes_ok_def)
  then show ?case
    using Cons by (auto simp: prefixes_ok_def)
qed simp

definition longest :: "prefix_list_entry list \<Rightarrow> in6_addr \<Rightarrow> prefix_list_entry option \<Rightarrow> bool" where
  "longest pl a r \<longleftrightarrow> (case r of
       None \<Rightarrow> \<forall>p \<in> set pl. \<not> covers p a
     | Some p \<Rightarrow> p \<in> set pl \<and> covers p a \<and> (\<forall>p' \<in> set pl. covers p' a \<longrightarrow> ple_plen p' \<le> ple_plen p))"

lemma get_loop_longest:
  assumes "prefixes_ok pl" "longest done addr p1" "plen \<le> 0"
  shows "\<exists>r. get_loop pl addr plen p1 = Done r \<and> longest (done @ pl) addr r"
  using assms
proof (induction pl arbitrary: p1 "done")
  case (Cons p pl)
  then obtain r where r: "ipv6_pfx_cmp (ple_prefix p) addr (unat (ple_plen p)) = Done r" "r = 0 \<longleftrightarrow> covers p addr"
    using prefixes_ok_cmp [of p addr] by (auto simp: prefixes_ok_def)
  let ?p1 = "if covers p addr \<and> (p1 = None \<or> ple_plen (the p1) < ple_plen p) then Some p else p1"
  have "get_loop (p # pl) addr plen p1 = get_loop pl addr plen ?p1"
    using r Cons.prems by auto
  moreover have "longest (done @ [p]) addr ?p1"
    using Cons.prems(2) by (auto simp: longest_def split: option.splits)
  ultimately show ?case
    using Cons.IH [of "done @ [p]" ?p1] Cons.prems by (simp add: prefixes_ok_def)
qed simp

lemma cmp_inner_ex:
  assumes "ple_plen p1 \<le> 128"
  shows "cmp_inner p1 pl = Done (\<exists>p2 \<in> set pl. ple_plen p2 = ple_plen p1 \<and> covers p1 (ple_prefix p2))"
proof (induction pl)
  case (Cons p2 pl)
  obtain r where "ipv6_pfx_cmp (ple_prefix p1) (ple_prefix p2) (unat (ple_plen p1)) = Done r" "r = 0 \<longleftrightarrow> covers p1 (ple_prefix p2)"
    using prefixes_ok_cmp [OF assms] by blast
  then show ?case
    using Cons by auto
qed simp

lemma cmp_outer_all:
  assumes "prefixes_ok pl1"
  shows "cmp_outer pl1 pl2 = Done (\<forall>p1 \<in> set pl1. \<exists>p2 \<in> set pl2. ple_plen p2 = ple_plen p1 \<and> covers p1 (ple_prefix p2))"
  using assms by (induction pl1) (auto simp: prefixes_ok_def cmp_inner_ex)

section \<open>The checksum\<close>

fun word_sum :: "byte list \<Rightarrow> nat" where
  "word_sum (b0 # b1 # bs) = unat b0 + 256 * unat b1 + word_sum bs"
| "word_sum _ = 0"

lemma unat_byte: "unat b < 256" for b :: byte
proof -
  have "unat b < 2 ^ LENGTH(8)"
    by (rule unsigned_less)
  then show ?thesis
    by simp
qed

lemma unat_le16: "unat (le16 b0 b1) = unat b0 + 256 * unat b1"
proof -
  have "(ucast b0 + push_bit 8 (ucast b1) :: u16) = ucast b0 OR push_bit 8 (ucast b1)"
    by (rule disjunctive_add_eq_or) (rule bit_word_eqI, auto simp: bit_simps dest: bit_imp_le_length)
  then have "le16 b0 b1 = ucast b0 + 256 * ucast b1"
    by (simp add: le16_def push_bit_eq_mult mult.commute)
  then show ?thesis
    using unat_byte [of b0] unat_byte [of b1] by (simp add: unat_word_ariths unsigned_ucast_eq take_bit_nat_eq_self)
qed

lemma word_sum_append: "even (length xs) \<Longrightarrow> word_sum (xs @ ys) = word_sum xs + word_sum ys"
  by (induction xs rule: word_sum.induct) auto

lemma word_sum_bound: "word_sum bs \<le> 65535 * length bs"
proof (induction bs rule: word_sum.induct)
  case (1 b0 b1 bs)
  then show ?case
    using unat_byte [of b0] unat_byte [of b1] by simp
qed auto

lemma cksum_words_sum: "unat acc + word_sum bs < 2 ^ 64 \<Longrightarrow> unat (cksum_words bs acc) = unat acc + word_sum bs"
proof (induction bs acc rule: cksum_words.induct)
  case (1 b0 b1 bs acc)
  have "unat (ucast (le16 b0 b1) :: u64) = unat b0 + 256 * unat b1"
    using unat_byte [of b0] unat_byte [of b1] by (simp add: unsigned_ucast_eq unat_le16 take_bit_nat_eq_self)
  then have "unat (acc + ucast (le16 b0 b1)) = unat acc + (unat b0 + 256 * unat b1)"
    using 1 by (simp add: unat_word_ariths)
  then show ?case
    using 1 by simp
qed auto

lemma cksum_fold_mod:
  "unat (cksum_fold s) < 65536 \<and> unat (cksum_fold s) mod 65535 = unat s mod 65535 \<and> (unat (cksum_fold s) = 0 \<longleftrightarrow> unat s = 0)"
proof (induction s rule: cksum_fold.induct)
  case (1 s)
  show ?case
  proof (cases "drop_bit 16 s = 0")
    case True
    then have "drop_bit 16 (unat s) = 0"
      by (simp flip: unat_drop_bit_eq)
    then show ?thesis
      using True by (simp add: cksum_fold.simps [of s] drop_bit_eq_div)
  next
    case False
    let ?n = "unat s"
    have n: "?n = 65536 * (?n div 65536) + ?n mod 65536"
      by simp
    then have "?n = (?n mod 65536 + ?n div 65536) + 65535 * (?n div 65536)"
      by linarith
    then have "?n mod 65535 = (?n mod 65536 + ?n div 65536) mod 65535"
      by (metis mod_mult_self2)
    moreover have "?n mod 65536 + ?n div 65536 = 0 \<longleftrightarrow> ?n = 0"
      using n by linarith
    ultimately show ?thesis
      using 1 [OF False] False unfolding cksum_fold.simps [of s] unat_cksum_step by presburger
  qed
qed

lemma unat_not16: "unat (NOT w) = 65535 - unat w" for w :: u16
proof -
  have "NOT w = 65535 - w"
    by (simp add: not_eq_complement)
  moreover have "unat w < 2 ^ LENGTH(16)"
    by (rule unsigned_less)
  then have "w \<le> 65535"
    by (simp add: word_le_nat_alt)
  ultimately show ?thesis
    by (simp add: unat_sub)
qed

lemma in6_cksum_sum:
  assumes "length data < 2 ^ 32"
  obtains f where "unat (in6_cksum src dst data nh) = 65535 - f" "f < 65536"
    "f mod 65535 = (word_sum (cksum_phdr src dst (of_nat (length data)) nh) + word_sum data) mod 65535"
    "f = 0 \<longleftrightarrow> word_sum (cksum_phdr src dst (of_nat (length data)) nh) + word_sum data = 0"
proof -
  let ?h = "cksum_phdr src dst (of_nat (length data)) nh"
  have "length ?h = 40"
    by (simp add: cksum_phdr_def)
  then have b: "word_sum ?h \<le> 65535 * 40" "word_sum data \<le> 65535 * length data"
    using word_sum_bound [of ?h] word_sum_bound [of data] by simp_all
  then have "unat (cksum_words ?h 0) = word_sum ?h"
    using cksum_words_sum [of 0 ?h] by simp
  then have s: "unat (cksum_words data (cksum_words ?h 0)) = word_sum ?h + word_sum data"
    using b assms cksum_words_sum [of "cksum_words ?h 0" data] by simp
  note f = cksum_fold_mod [of "cksum_words data (cksum_words ?h 0)", unfolded s]
  have "unat (in6_cksum src dst data nh) = 65535 - unat (cksum_fold (cksum_words data (cksum_words ?h 0)))"
    using f by (simp add: in6_cksum_def unat_not16 unsigned_ucast_eq take_bit_nat_eq_self)
  then show thesis
    by (rule that) (use f in simp_all)
qed

text \<open>The reference, after RFC 1071 and RFC 8200: the ones' complement sum of the sixteen-bit words, the first byte of
  each being the high one, of the pseudo header and the message.\<close>

definition oc_add :: "nat \<Rightarrow> nat \<Rightarrow> nat" where
  "oc_add x y = (if x + y < 65536 then x + y else x + y - 65535)"

fun be_words :: "byte list \<Rightarrow> nat list" where
  "be_words (b0 # b1 # bs) = (256 * unat b0 + unat b1) # be_words bs"
| "be_words [b] = [256 * unat b]"
| "be_words [] = []"

definition pseudo_header :: "in6_addr \<Rightarrow> in6_addr \<Rightarrow> nat \<Rightarrow> byte \<Rightarrow> byte list" where
  "pseudo_header src dst n nh = s6_addr src @ s6_addr dst
     @ [of_nat (n div 2 ^ 24), of_nat (n div 2 ^ 16), of_nat (n div 2 ^ 8), of_nat n] @ [0, 0, 0, nh]"

definition internet_sum :: "in6_addr \<Rightarrow> in6_addr \<Rightarrow> byte list \<Rightarrow> byte \<Rightarrow> nat" where
  "internet_sum src dst data nh = foldr oc_add (be_words (pseudo_header src dst (length data) nh @ data)) 0"

lemma be_words_bound: "w \<in> set (be_words bs) \<Longrightarrow> w < 65536"
proof (induction bs rule: be_words.induct)
  case (1 b0 b1 bs)
  then show ?case using unat_byte [of b0] unat_byte [of b1] by auto
next
  case (2 b)
  then show ?case using unat_byte [of b] by simp
qed simp

lemma be_words_append: "even (length xs) \<Longrightarrow> be_words (xs @ ys) = be_words xs @ be_words ys"
  by (induction xs rule: be_words.induct) auto

lemma oc_add_mod:
  assumes "x < 65536" "y < 65536"
  shows "oc_add x y < 65536 \<and> oc_add x y mod 65535 = (x + y) mod 65535 \<and> (oc_add x y = 0 \<longleftrightarrow> x + y = 0)"
proof (cases "x + y < 65536")
  case False
  then have "(x + y) mod 65535 = (x + y - 65535) mod 65535" by (simp add: le_mod_geq)
  then show ?thesis using False assms by (auto simp: oc_add_def)
qed (simp add: oc_add_def)

lemma oc_sum_mod:
  "\<forall>w \<in> set ws. w < 65536 \<Longrightarrow> foldr oc_add ws 0 < 65536 \<and> foldr oc_add ws 0 mod 65535 = sum_list ws mod 65535
    \<and> (foldr oc_add ws 0 = 0 \<longleftrightarrow> sum_list ws = 0)"
proof (induction ws)
  case (Cons w ws)
  then have IH: "foldr oc_add ws 0 < 65536" "foldr oc_add ws 0 mod 65535 = sum_list ws mod 65535" "foldr oc_add ws 0 = 0 \<longleftrightarrow> sum_list ws = 0"
    by simp_all
  have "w < 65536" using Cons.prems by simp
  from oc_add_mod [OF this IH(1)] show ?case using IH(3) mod_add_right_eq [of w _ 65535, unfolded IH(2)]
    by (simp add: mod_add_right_eq [of w "foldr oc_add ws 0" 65535, symmetric] IH(2) mod_add_right_eq)
qed simp

text \<open>Two sums below \<open>2^16\<close> that agree modulo \<open>2^16 - 1\<close> are equal unless one is zero and the other is all ones.\<close>

lemma oc_complement:
  fixes F G S :: nat
  assumes "F < 65536 \<and> F mod 65535 = S mod 65535 \<and> (F = 0 \<longleftrightarrow> S = 0)"
    and "G < 65536 \<and> G mod 65535 = (S + (65535 - F)) mod 65535 \<and> (G = 0 \<longleftrightarrow> S + (65535 - F) = 0)"
  shows "G = 65535"
proof -
  have "(S + (65535 - F)) mod 65535 = (F mod 65535 + (65535 - F)) mod 65535" using assms(1) by (metis mod_add_left_eq)
  also have "\<dots> = 0" using assms(1) by (subst mod_add_left_eq) simp
  finally show ?thesis using assms by (cases "G < 65535") auto
qed

lemma oc_eqI: "x < 65536 \<Longrightarrow> y < 65536 \<Longrightarrow> x mod 65535 = y mod 65535 \<Longrightarrow> (x = 0 \<longleftrightarrow> y = 0) \<Longrightarrow> x = y" for x y :: nat
  by (cases "x = 65535"; cases "y = 65535") auto

text \<open>Summing words with the bytes exchanged gives the sum with the bytes exchanged.\<close>

definition swap16 :: "nat \<Rightarrow> nat" where
  "swap16 n = 256 * (n mod 256) + n div 256"

lemma swap16_mod:
  assumes "n < 65536"
  shows "swap16 n < 65536" "swap16 n mod 65535 = 256 * n mod 65535" "swap16 n = 0 \<longleftrightarrow> n = 0"
proof -
  define h l where "h = n div 256" and "l = n mod 256"
  have n: "n = 256 * h + l" "l < 256" "h < 256" using assms by (simp_all add: h_def l_def)
  have s: "swap16 n = 256 * l + h" by (simp add: swap16_def h_def l_def)
  show "swap16 n < 65536" "swap16 n = 0 \<longleftrightarrow> n = 0" unfolding s using n by auto
  have "256 * n = swap16 n + 65535 * h" unfolding s using n(1) by simp
  then show "swap16 n mod 65535 = 256 * n mod 65535" by simp
qed

lemma be_sum_le_sum:
  "even (length bs) \<Longrightarrow> sum_list (be_words bs) mod 65535 = 256 * word_sum bs mod 65535 \<and> (sum_list (be_words bs) = 0 \<longleftrightarrow> word_sum bs = 0)"
proof (induction bs rule: word_sum.induct)
  case (1 b0 b1 bs)
  then have IH: "sum_list (be_words bs) mod 65535 = 256 * word_sum bs mod 65535" "sum_list (be_words bs) = 0 \<longleftrightarrow> word_sum bs = 0" by simp_all
  have "256 * (unat b0 + 256 * unat b1 + word_sum bs) = (256 * unat b0 + unat b1 + 256 * word_sum bs) + 65535 * unat b1" by simp
  then have "256 * (unat b0 + 256 * unat b1 + word_sum bs) mod 65535 = (256 * unat b0 + unat b1 + 256 * word_sum bs) mod 65535"
    by (metis mod_mult_self2)
  also have "\<dots> = (256 * unat b0 + unat b1 + sum_list (be_words bs)) mod 65535" using IH(1) by (metis mod_add_right_eq)
  finally show ?case using IH(2) by auto
qed auto

lemma phdr_reference: "n < 2 ^ 32 \<Longrightarrow> cksum_phdr src dst (of_nat n) nh = pseudo_header src dst n nh"
proof -
  assume n: "n < 2 ^ 32"
  have "ucast (drop_bit k (of_nat n :: u32)) = (of_nat (n div 2 ^ k) :: byte)" if "k < 32" for k
  proof -
    have "unat (drop_bit k (of_nat n :: u32)) = n div 2 ^ k"
      unfolding unat_drop_bit_eq using n by (simp add: drop_bit_eq_div unat_of_nat)
    then show ?thesis by (simp add: word_unat_eq_iff unsigned_ucast_eq unat_of_nat take_bit_eq_mod)
  qed
  from this [of 0] this [of 8] this [of 16] this [of 24] show ?thesis
    by (simp add: cksum_phdr_def pseudo_header_def bytes32_def)
qed

lemma in6_cksum_reference:
  assumes "even (length data)" "length data < 2 ^ 32"
  shows "bytes16 (in6_cksum src dst data nh) = [of_nat ((65535 - internet_sum src dst data nh) div 256), of_nat ((65535 - internet_sum src dst data nh) mod 256)]"
    "be_words (bytes16 (in6_cksum src dst data nh)) = [65535 - internet_sum src dst data nh]"
proof -
  let ?p = "pseudo_header src dst (length data) nh"
  let ?F = "internet_sum src dst data nh" and ?c = "in6_cksum src dst data nh"
  have p: "even (length ?p)" by (simp add: pseudo_header_def)
  obtain f where f: "unat ?c = 65535 - f" "f < 65536" "f mod 65535 = (word_sum ?p + word_sum data) mod 65535" "f = 0 \<longleftrightarrow> word_sum ?p + word_sum data = 0"
    using in6_cksum_sum [OF assms(2)] unfolding phdr_reference [OF assms(2)] by metis
  have w: "word_sum (?p @ data) = word_sum ?p + word_sum data" by (rule word_sum_append [OF p])
  note S = be_sum_le_sum [of "?p @ data", unfolded w] and O = oc_sum_mod [of "be_words (?p @ data)", folded internet_sum_def]
  have m: "256 * f mod 65535 = 256 * (word_sum ?p + word_sum data) mod 65535" using f(3) by (metis mod_mult_right_eq)
  have F: "?F = swap16 f"
  proof (rule oc_eqI)
    show "?F < 65536" "swap16 f < 65536" using O be_words_bound swap16_mod(1) [OF f(2)] by blast+
    show "?F mod 65535 = swap16 f mod 65535" using O S m be_words_bound swap16_mod(2) [OF f(2)] p assms(1) by simp
    show "?F = 0 \<longleftrightarrow> swap16 f = 0" using O S be_words_bound swap16_mod(3) [OF f(2)] f(4) p assms(1) by (metis even_add length_append)
  qed
  define h l where "h = f div 256" and "l = f mod 256"
  have d: "f = 256 * h + l" "l < 256" "h < 256" using f(2) by (simp_all add: h_def l_def)
  have c: "unat ?c = 256 * (255 - h) + (255 - l)" "65535 - ?F = 256 * (255 - l) + (255 - h)"
    using f(1) d by (simp_all add: F swap16_def flip: h_def l_def)
  have "255 - l < 256" "255 - h < 256" by simp_all
  then have q: "unat ?c mod 256 = 255 - l" "unat ?c div 256 = 255 - h" "(65535 - ?F) mod 256 = 255 - h" "(65535 - ?F) div 256 = 255 - l"
    unfolding c by (simp_all only: mod_mult_self3 mod_mult_self4 div_mult_self3 mod_less div_less)
  have "unat (drop_bit 8 ?c) = 255 - h" unfolding unat_drop_bit_eq using q(2) by (simp add: drop_bit_eq_div)
  then have b: "unat (ucast ?c :: byte) = 255 - l" "unat (ucast (drop_bit 8 ?c) :: byte) = 255 - h"
    using q(1) by (simp_all add: unsigned_ucast_eq take_bit_eq_mod)
  show "be_words (bytes16 ?c) = [65535 - ?F]" by (simp add: bytes16_def b c(2))
  have "ucast ?c = (of_nat ((65535 - ?F) div 256) :: byte)" "ucast (drop_bit 8 ?c) = (of_nat ((65535 - ?F) mod 256) :: byte)"
    unfolding q(3,4) by (simp_all add: word_unat_eq_iff unat_of_nat b)
  then show "bytes16 ?c = [of_nat ((65535 - ?F) div 256), of_nat ((65535 - ?F) mod 256)]" by (simp add: bytes16_def)
qed

text \<open>C22: for a message of even length the two bytes that \<open>in6_cksum\<close> stores are the Internet checksum of RFC 1071 over the
  pseudo header of RFC 8200 (both addresses, the length and the next header in network byte order) and the
  message, high byte first; written at an even offset into the checksum field, zero before, they make
  the ones' complement sum that a receiver takes all ones.\<close>

theorem checksum_verifies:
  assumes "even (length a)" "even (length b)" "length (a @ [0, 0] @ b) < 2 ^ 32"
  shows "bytes16 (in6_cksum src dst (a @ [0, 0] @ b) nh) =
      [of_nat ((65535 - internet_sum src dst (a @ [0, 0] @ b) nh) div 256), of_nat ((65535 - internet_sum src dst (a @ [0, 0] @ b) nh) mod 256)]
    \<and> internet_sum src dst (a @ bytes16 (in6_cksum src dst (a @ [0, 0] @ b) nh) @ b) nh = 65535"
proof -
  let ?d = "a @ [0, 0] @ b" and ?c = "bytes16 (in6_cksum src dst (a @ [0, 0] @ b) nh)"
  let ?p = "pseudo_header src dst (length ?d) nh" and ?F = "internet_sum src dst ?d nh" and ?G = "internet_sum src dst (a @ ?c @ b) nh"
  have e: "even (length ?d)" "even (length ?p)" "length ?c = 2" using assms(1,2) by (simp_all add: pseudo_header_def bytes16_def)
  note R = in6_cksum_reference [OF e(1) assms(3), of src dst nh]
  let ?S = "sum_list (be_words ?p) + sum_list (be_words a) + sum_list (be_words b)"
  have F: "?F < 65536 \<and> ?F mod 65535 = ?S mod 65535 \<and> (?F = 0 \<longleftrightarrow> ?S = 0)"
  proof -
    have "sum_list (be_words (?p @ ?d)) = ?S" using e(2) assms(1) by (simp add: be_words_append)
    then show ?thesis using oc_sum_mod [of "be_words (?p @ ?d)"] be_words_bound unfolding internet_sum_def by metis
  qed
  have "length (a @ ?c @ b) = length ?d" using e(3) by simp
  then have G: "?G < 65536 \<and> ?G mod 65535 = (?S + (65535 - ?F)) mod 65535 \<and> (?G = 0 \<longleftrightarrow> ?S + (65535 - ?F) = 0)"
  proof -
    have "sum_list (be_words (?p @ a @ ?c @ b)) = ?S + (65535 - ?F)" using e(2,3) assms(1) R(2) by (simp add: be_words_append)
    moreover have "?G = foldr oc_add (be_words (?p @ a @ ?c @ b)) 0" unfolding internet_sum_def using e(3) by simp
    ultimately show ?thesis using oc_sum_mod [of "be_words (?p @ a @ ?c @ b)"] be_words_bound by metis
  qed
  from oc_complement [OF F G] show ?thesis using R(1) by blast
qed

theorem checksum_verifies_witness:
  "even (length [143 :: byte, 0]) \<and>
   internet_sum in6addr_any in6addr_any ([143, 0] @ bytes16 (in6_cksum in6addr_any in6addr_any ([143, 0] @ [0, 0] @ [1, 2, 3, 4]) 58) @ [1, 2, 3, 4]) 58 = 65535
   \<and> internet_sum in6addr_any in6addr_any ([143, 0] @ [0, 0] @ [1, 2, 3, 4]) 58 = 37704
   \<and> bytes16 (in6_cksum in6addr_any in6addr_any ([143, 0] @ [0, 0] @ [1, 2, 3, 4]) 58) = [108, 183]"
proof -
  have s: "internet_sum in6addr_any in6addr_any ([143, 0] @ [0, 0] @ [1, 2, 3, 4]) 58 = 37704"
    by (simp add: internet_sum_def pseudo_header_def in6addr_any_def oc_add_def)
  from checksum_verifies [of "[143, 0]" "[1, 2, 3, 4]" in6addr_any in6addr_any 58, unfolded s] s show ?thesis by auto
qed

text \<open>A search in a list of prefixes finds, without a wanted length, an entry that covers the address and is the longest of those that do, and
  with a wanted length the first entry of that length that covers it; no entry is found only when there is none.\<close>

lemma prefix_list_get_match:
  assumes "prefixes_ok pl"
  shows "\<exists>r. prefix_list_get pl addr plen = Done r
    \<and> (if 0 < plen then r = find (\<lambda>p. covers p addr \<and> uint (ple_plen p) = plen) pl else longest pl addr r)"
proof (cases "0 < plen")
  case True
  then show ?thesis
    using get_loop_exact [OF assms, of plen addr None] by (simp add: prefix_list_get_def split: option.splits)
next
  case False
  then show ?thesis
    using get_loop_longest [OF assms, of "[]" addr None plen] by (simp add: prefix_list_get_def longest_def)
qed

definition ple_ex :: "u8 \<Rightarrow> byte \<Rightarrow> prefix_list_entry" where
  "ple_ex plen b = \<lparr>ple_timestamp = tszero, ple_plen = plen, ple_flags = 0, ple_valid_time = 0, ple_prefd_time = 0,
     ple_prefix = In6 0x20 1 b 0 0 0 0 0 0 0 0 0 0 0 0 0\<rparr>"

lemma ple_ex_simps: "ple_plen (ple_ex n b) = n" "s6_addr (ple_prefix (ple_ex n b)) = [0x20, 1, b, 0, 0, 0, 0, 0, 0, 0, 0, 0, 0, 0, 0, 0]"
  by (simp_all add: ple_ex_def)

lemma prefix_list_get_match_example:
  "prefixes_ok [ple_ex 16 0, ple_ex 20 0xa0, ple_ex 24 0xab] \<and>
   (\<exists>r. prefix_list_get [ple_ex 16 0, ple_ex 20 0xa0, ple_ex 24 0xab] (ple_prefix (ple_ex 0 0xac)) 0 = Done r
     \<and> r = Some (ple_ex 20 0xa0) \<and> longest [ple_ex 16 0, ple_ex 20 0xa0, ple_ex 24 0xab] (ple_prefix (ple_ex 0 0xac)) r)"
proof -
  let ?pl = "[ple_ex 16 0, ple_ex 20 0xa0, ple_ex 24 0xab]" and ?a = "ple_prefix (ple_ex 0 0xac)"
  have "prefixes_ok ?pl"
    by (simp add: prefixes_ok_def ple_ex_simps)
  moreover have "prefix_list_get ?pl ?a 0 = Done (Some (ple_ex 20 0xa0))"
    by (simp add: prefix_list_get_def ipv6_pfx_cmp_def ple_ex_simps high_mask_def Let_def drop_bit_eq_div take_bit_eq_mod)
  ultimately show ?thesis
    using prefix_list_get_match [of ?pl ?a 0] by simp
qed

text \<open>Two lists of the same length count as equal when every prefix of the first is in the second: with a prefix twice in the first, prefixes of
  the second go unnoticed, and the other way round they do not.\<close>

lemma prefix_list_cmp_duplicate:
  assumes "prefixes_ok [p, q]" "ple_plen p \<noteq> ple_plen q"
  shows "prefix_list_cmp [p, p] [p, q] = Done True" "prefix_list_cmp [p, q] [p, p] = Done False"
  using assms cmp_outer_all [of "[p, p]" "[p, q]"] cmp_outer_all [of "[p, q]" "[p, p]"]
  by (auto simp: prefix_list_cmp_def prefixes_ok_def same_prefix_def)

text \<open>What is left of a lifetime, rounded down to seconds.\<close>

lemma mpd_curr_lft_left:
  assumes "ts_norm now" "ts_norm ts" "ts_ns ts \<le> ts_ns now" "tv_sec now - tv_sec ts < 2 ^ 32" "uint lft < 2 ^ 32 - 1"
  shows "uint (mpd_curr_lft now ts lft) = max 0 ((uint lft * TIME_SEC_NSEC - (ts_ns now - ts_ns ts)) div TIME_SEC_NSEC)"
proof -
  obtain sec ns where t: "tssub now ts = TS sec ns"
    by (cases "tssub now ts")
  define d where "d = sec + (if ns > 0 then 1 else 0)"
  have n: "ts_ns now - ts_ns ts = sec * TIME_SEC_NSEC + ns" "0 \<le> ns" "ns < TIME_SEC_NSEC"
    using tssub_ns [of now ts] tssub_norm [OF assms(1,2)] by (simp_all add: t ts_ns_def ts_norm_def)
  have "0 \<le> sec" "sec < 2 ^ 32"
    using n assms(1-4) t by (auto simp: ts_simps Let_def split: if_splits)
  then have "0 \<le> d" "d \<le> 2 ^ 32"
    by (auto simp: d_def)
  then have d: "uint (of_int d :: u64) = d"
    by (simp add: unsigned_of_int take_bit_int_eq_self_iff)
  have "uint (ucast lft :: u32) = uint lft"
    using assms(5) by (simp add: unsigned_ucast_eq take_bit_int_eq_self_iff)
  then have f: "(ucast lft :: u32) \<noteq> 0xFFFFFFFF"
    using assms(5) by (auto dest: arg_cong [where f = uint])
  have m: "mpd_curr_lft now ts lft = (if lft > of_int d then lft - of_int d else 0)"
    using f by (simp add: mpd_curr_lft_def t Let_def d_def)
  have q: "(uint lft * TIME_SEC_NSEC - (sec * TIME_SEC_NSEC + ns)) div TIME_SEC_NSEC = uint lft - d"
    using n(2,3) by (auto simp: d_def intro!: int_div_pos_eq [where r = "if ns > 0 then TIME_SEC_NSEC - ns else 0"])
  show ?thesis
  proof (cases "d < uint lft")
    case True
    then have "lft > of_int d"
      using d by (simp add: word_less_def)
    then show ?thesis
      using m d True q by (simp add: n(1) uint_sub_lem [THEN iffD1] word_less_def order_less_imp_le)
  next
    case False
    then have "\<not> lft > of_int d"
      using d by (simp add: word_less_def)
    then show ?thesis
      using m False q by (simp add: n(1))
  qed
qed

end
