(* ===== verification/Bind_Policy.thy ===== *)
theory Bind_Policy
  imports Addr_Hash Mobility_Header Prefix_List
begin

text \<open>
  \<open>src/src/policy.c\<close>: the default policy module, which decides about binding updates by a table of the configured home addresses, together
  with \<open>mh_opt_next\<close> of \<open>mh.h\<close>.  The table is the one of \<open>Addr_Hash\<close> with a single address as key.  Each function holds the lock of the module
  from its beginning to its end.
\<close>

section \<open>Model\<close>

abbreviation (input) POLICY_ACL_HASHSIZE :: nat where "POLICY_ACL_HASHSIZE \<equiv> 32"
abbreviation (input) IP6_MH_BAS_ACCEPTED :: int where "IP6_MH_BAS_ACCEPTED \<equiv> 0"
abbreviation (input) IP6_MH_BAS_UNSPECIFIED :: int where "IP6_MH_BAS_UNSPECIFIED \<equiv> 128"
abbreviation (input) IP6_MH_BAS_PROHIBIT :: int where "IP6_MH_BAS_PROHIBIT \<equiv> 129"
abbreviation (input) IP6_MH_BAS_MR_OP_NOT_PERMITTED :: int where "IP6_MH_BAS_MR_OP_NOT_PERMITTED \<equiv> 140"
abbreviation (input) IP6_MH_BAS_NOT_AUTH_FOR_PRFX :: int where "IP6_MH_BAS_NOT_AUTH_FOR_PRFX \<equiv> 142"
abbreviation (input) IP6_MH_BU_HOME :: u16 where "IP6_MH_BU_HOME \<equiv> 0x0040"
abbreviation (input) IP6_MH_BU_MR :: u16 where "IP6_MH_BU_MR \<equiv> 0x0004"
abbreviation (input) MIP6_ENTITY_NO :: int where "MIP6_ENTITY_NO \<equiv> - 1"
abbreviation (input) MIP6_ENTITY_MN :: int where "MIP6_ENTITY_MN \<equiv> 1"

record policy_bind_acl_entry =
  acl_hoa :: in6_addr
  acl_plen :: int
  bind_policy :: int
  mnp_count :: int
  mob_net_prefixes :: "prefix_list_entry list"

record net_iface =
  nif_ifindex :: int
  mip6_if_entity :: int
  mn_if_preference :: int

record policy_conf =
  mip6_entity :: int
  HaMaxBindingLife :: int
  HaAcceptMobRtr :: bool
  KeyMngMobCapability :: int
  net_ifaces :: "net_iface list"
  MnUseAllInterfaces :: int
  DefaultBindingAclPolicy :: int
  bind_acl :: "policy_bind_acl_entry list"

record policy_state =
  policy_bind_acl_hash :: "policy_bind_acl_entry hash"
  def_bind_policy :: int

abbreviation acl_rd :: "policy_bind_acl_entry \<Rightarrow> in6_addr \<times> in6_addr" where
  "acl_rd e \<equiv> (in6addr_any, acl_hoa e)"

definition acl_get :: "policy_state \<Rightarrow> in6_addr \<Rightarrow> policy_bind_acl_entry option" where
  "acl_get s hoa = hash_get acl_rd (policy_bind_acl_hash s) in6addr_any hoa"

definition default_max_binding_life :: "policy_conf \<Rightarrow> byte list \<Rightarrow> timespec option outcome" where
  "default_max_binding_life cf bu =
     andThen (read_u16 bu 8) (\<lambda>flags. Done (if flags AND IP6_MH_BU_HOME \<noteq> 0 then Some (TS (HaMaxBindingLife cf) 0) else None))"

text \<open>The options of a type after a first one: \<open>opts_end\<close> has the position of the last, or zero.\<close>

definition opt_skip :: "byte list \<Rightarrow> nat \<Rightarrow> nat outcome" where
  "opt_skip data i =
     andThen (read_u8 data i) (\<lambda>x. if x = IP6_MHOPT_PAD1 then Done (i + 1) else andThen (read_u8 data (i + 1)) (\<lambda>l. Done (i + (unat l + 2))))"

lemma opt_skip_forward: "opt_skip data i = Done j \<Longrightarrow> i < j"
  by (auto simp: opt_skip_def andThen_Done_iff split: if_splits)

function opt_next_loop :: "byte list \<Rightarrow> nat \<Rightarrow> u8 \<Rightarrow> nat \<Rightarrow> nat option outcome" where
  "opt_next_loop data final t i =
     (if i < final then
        case opt_skip data i of
          Fault e \<Rightarrow> Fault e
        | Done j \<Rightarrow>
            if j \<le> final then
              case read_u8 data j of
                Fault e \<Rightarrow> Fault e
              | Done y \<Rightarrow> if y = t then Done (Some j) else opt_next_loop data final t j
            else opt_next_loop data final t j
      else Done None)"
  by pat_completeness auto
termination
  by (relation "measure (\<lambda>(data, final, t, i). final - i)") (auto dest: opt_skip_forward)

declare opt_next_loop.simps [simp del]

definition mh_opt_next :: "byte list \<Rightarrow> mh_options \<Rightarrow> nat \<Rightarrow> nat option outcome" where
  "mh_opt_next data mh_opts opt = andThen (read_u8 data opt) (\<lambda>t. opt_next_loop data (opts_end mh_opts (unat t)) t opt)"

lemma opt_next_loop_found: "opt_next_loop data final t i = Done (Some j) \<Longrightarrow> i < j \<and> j \<le> final \<and> j < length data \<and> data ! j = t"
proof (induction data final t i rule: opt_next_loop.induct)
  case (1 data final t i)
  then show ?case
    by (subst (asm) opt_next_loop.simps)
      (fastforce simp: read_u8_def dest: opt_skip_forward split: outcome.splits if_splits)
qed

lemma mh_opt_next_found: "mh_opt_next data mo i = Done (Some j) \<Longrightarrow> i < j \<and> j \<le> opts_end mo (unat (data ! i)) \<and> data ! j = data ! i"
  by (auto simp: mh_opt_next_def andThen_Done_iff read_u8_def dest: opt_next_loop_found split: if_splits)

function check_mnps :: "policy_bind_acl_entry \<Rightarrow> byte list \<Rightarrow> mh_options \<Rightarrow> nat option \<Rightarrow> int outcome" where
  "check_mnps acl bu mo None = Done IP6_MH_BAS_ACCEPTED"
| "check_mnps acl bu mo (Some op) =
     (case andThen (read_u8 bu (op + 3)) (\<lambda>l. andThen (read_bytes bu (op + 4) 16) (\<lambda>a.
             prefix_list_get (mob_net_prefixes acl) (in6_of a) (uint l))) of
        Fault e \<Rightarrow> Fault e
      | Done None \<Rightarrow> Done IP6_MH_BAS_NOT_AUTH_FOR_PRFX
      | Done (Some p) \<Rightarrow>
          case mh_opt_next bu mo op of
            Fault e \<Rightarrow> Fault e
          | Done next \<Rightarrow> check_mnps acl bu mo next)"
  by pat_completeness auto
termination
  by (relation "measure (\<lambda>(acl, bu, mo, op). case op of None \<Rightarrow> 0 | Some i \<Rightarrow> Suc (opts_end mo (unat (bu ! i)) - i))")
    (auto split: option.splits dest: mh_opt_next_found)

definition policy_check_mob_net_prefix :: "policy_bind_acl_entry \<Rightarrow> byte list \<Rightarrow> mh_options \<Rightarrow> int outcome" where
  "policy_check_mob_net_prefix acl bu mo = check_mnps acl bu mo (mh_opt mo IP6_MHOPT_MOB_NET_PRFX)"

definition default_discard_binding :: "policy_conf \<Rightarrow> policy_state \<Rightarrow> in6_addr \<Rightarrow> byte list \<Rightarrow> nat \<Rightarrow> int outcome" where
  "default_discard_binding cf s remote_hoa bu len =
     andThen (read_u16 bu 8) (\<lambda>flags.
       if flags AND IP6_MH_BU_MR \<noteq> 0 \<and> \<not> HaAcceptMobRtr cf then Done IP6_MH_BAS_MR_OP_NOT_PERMITTED
       else case acl_get s remote_hoa of
         None \<Rightarrow> Done (def_bind_policy s)
       | Some acl \<Rightarrow>
           if bind_policy acl < IP6_MH_BAS_UNSPECIFIED \<and> flags AND IP6_MH_BU_MR \<noteq> 0 then
             andThen (mh_opt_parse bu len 12) (\<lambda>(_, mo). policy_check_mob_net_prefix acl bu mo)
           else Done (bind_policy acl))"

definition default_use_bradv :: "timespec \<Rightarrow> timespec option" where
  "default_use_bradv lft = None"

definition default_use_keymgm :: "policy_conf \<Rightarrow> int" where
  "default_use_keymgm cf = KeyMngMobCapability cf"

definition is_if_mn :: "policy_conf \<Rightarrow> net_iface \<Rightarrow> bool" where
  "is_if_mn cf i \<longleftrightarrow> mip6_entity cf = MIP6_ENTITY_MN \<and> (mip6_if_entity i = MIP6_ENTITY_NO \<or> mip6_if_entity i = MIP6_ENTITY_MN)"

definition default_accept_inet6_iface :: "policy_conf \<Rightarrow> int \<Rightarrow> int" where
  "default_accept_inet6_iface cf iif =
     (case find (\<lambda>i. nif_ifindex i = iif) (net_ifaces cf) of
        Some i \<Rightarrow> if is_if_mn cf i then mn_if_preference i else 0
      | None \<Rightarrow> MnUseAllInterfaces cf)"

definition default_get_mnp_count :: "policy_state \<Rightarrow> in6_addr \<Rightarrow> int" where
  "default_get_mnp_count s hoa = (case acl_get s hoa of None \<Rightarrow> 0 | Some acl \<Rightarrow> mnp_count acl)"

text \<open>The prefixes written to the array; their number is the result.\<close>

definition default_get_mnps :: "policy_state \<Rightarrow> in6_addr \<Rightarrow> int \<Rightarrow> prefix_list_entry list" where
  "default_get_mnps s hoa n = (case acl_get s hoa of None \<Rightarrow> [] | Some acl \<Rightarrow> take (nat n) (mob_net_prefixes acl))"

definition policy_bind_acl_cleanup :: "policy_state \<Rightarrow> policy_state" where
  "policy_bind_acl_cleanup s =
     s\<lparr>def_bind_policy := IP6_MH_BAS_PROHIBIT, policy_bind_acl_hash := (policy_bind_acl_hash s)\<lparr>buckets := 0, hash_buckets := []\<rparr>\<rparr>"

definition policy_bind_acl_add :: "bool \<Rightarrow> policy_bind_acl_entry \<Rightarrow> policy_state \<Rightarrow> int \<times> policy_state" where
  "policy_bind_acl_add mem acl s =
     (let (err, h) = hash_add mem acl_rd (policy_bind_acl_hash s) acl in (err, s\<lparr>policy_bind_acl_hash := h\<rparr>))"

definition policy_bind_acl_rem :: "policy_bind_acl_entry \<Rightarrow> policy_state \<Rightarrow> int \<times> policy_state" where
  "policy_bind_acl_rem acl s =
     (0, s\<lparr>policy_bind_acl_hash := hash_delete acl_rd (policy_bind_acl_hash s) in6addr_any (acl_hoa acl)\<rparr>)"

text \<open>\<open>mem i\<close> says whether the allocation for entry \<open>i\<close> succeeds, and \<open>mem0\<close> that of the table.\<close>

fun acl_config_loop :: "(nat \<Rightarrow> bool) \<Rightarrow> nat \<Rightarrow> policy_bind_acl_entry list \<Rightarrow> int \<Rightarrow> policy_state \<Rightarrow> int \<times> policy_state" where
  "acl_config_loop mem i [] err s = (err, s)"
| "acl_config_loop mem i (acl # acls) err s =
     (let (e, s') = policy_bind_acl_add (mem i) acl s in
      if e < 0 then (e, policy_bind_acl_cleanup s') else acl_config_loop mem (i + 1) acls e s')"

definition policy_bind_acl_config :: "bool \<Rightarrow> (nat \<Rightarrow> bool) \<Rightarrow> policy_conf \<Rightarrow> policy_state \<Rightarrow> (int \<times> policy_state) outcome" where
  "policy_bind_acl_config mem0 mem cf s =
     andThen (hash_init mem0 SINGLE_ADDR POLICY_ACL_HASHSIZE) (\<lambda>(err, h). case h of
         None \<Rightarrow> Done (err, s)
       | Some h \<Rightarrow> Done (acl_config_loop mem 0 (bind_acl cf) err (s\<lparr>policy_bind_acl_hash := h, def_bind_policy := DefaultBindingAclPolicy cf\<rparr>)))"

text \<open>\<open>lock\<close> says whether the lock could be initialised.\<close>

definition policy_init :: "bool \<Rightarrow> bool \<Rightarrow> (nat \<Rightarrow> bool) \<Rightarrow> policy_conf \<Rightarrow> policy_state \<Rightarrow> (int \<times> policy_state) outcome" where
  "policy_init lock mem0 mem cf s = (if \<not> lock then Done (- 1, s) else policy_bind_acl_config mem0 mem cf s)"

section \<open>The table of home addresses\<close>

definition acl_wf :: "policy_state \<Rightarrow> bool" where
  "acl_wf s \<longleftrightarrow> hash_type (policy_bind_acl_hash s) = SINGLE_ADDR \<and> sgl.cinv acl_rd (policy_bind_acl_hash s)"

lemma acl_get_cget: "acl_wf s \<Longrightarrow> acl_get s hoa = sgl.cget acl_rd (policy_bind_acl_hash s) hoa"
  by (simp add: acl_get_def acl_wf_def hash_single)

lemma policy_bind_acl_add_fresh:
  assumes "acl_wf s" "acl_get s (acl_hoa a) = None"
  obtains s' where "policy_bind_acl_add True a s = (0, s')" "acl_wf s'" "acl_get s' = (acl_get s)(acl_hoa a \<mapsto> a)"
    "def_bind_policy s' = def_bind_policy s"
proof -
  let ?h = "policy_bind_acl_hash s"
  obtain h' where h: "sgl.cadd acl_rd ?h a = Some h'" "sgl.cinv acl_rd h'" "sgl.cget acl_rd h' = (sgl.cget acl_rd ?h)(acl_hoa a \<mapsto> a)"
    using sgl.cadd_fresh [of acl_rd ?h a] assms acl_get_cget [OF assms(1)] by (auto simp: acl_wf_def)
  have add: "hash_add True acl_rd ?h a = (0, h')"
    using h(1) assms(1) by (simp add: hash_single acl_wf_def)
  then have "hash_type h' = SINGLE_ADDR"
    using hash_add_type [of True acl_rd ?h a] assms(1) by (simp add: acl_wf_def)
  then have w: "acl_wf (s\<lparr>policy_bind_acl_hash := h'\<rparr>)"
    using h(2) by (simp add: acl_wf_def)
  show thesis
  proof
    show "policy_bind_acl_add True a s = (0, s\<lparr>policy_bind_acl_hash := h'\<rparr>)"
      by (simp add: policy_bind_acl_add_def add)
    show "acl_get (s\<lparr>policy_bind_acl_hash := h'\<rparr>) = (acl_get s)(acl_hoa a \<mapsto> a)"
      using h(3) by (simp add: fun_eq_iff acl_get_cget [OF w] acl_get_cget [OF assms(1)])
  qed (use w in simp_all)
qed

lemma acl_config_loop_all:
  assumes "acl_wf s" "distinct (map acl_hoa as)" "\<And>a. a \<in> set as \<Longrightarrow> acl_get s (acl_hoa a) = None"
  shows "\<exists>s'. acl_config_loop (\<lambda>_. True) i as 0 s = (0, s') \<and> acl_wf s' \<and> def_bind_policy s' = def_bind_policy s
    \<and> acl_get s' = (\<lambda>k. case find (\<lambda>a. acl_hoa a = k) as of None \<Rightarrow> acl_get s k | Some a \<Rightarrow> Some a)"
  using assms
proof (induction as arbitrary: i s)
  case (Cons a as)
  obtain s1 where s1: "policy_bind_acl_add True a s = (0, s1)" "acl_wf s1" "acl_get s1 = (acl_get s)(acl_hoa a \<mapsto> a)"
    "def_bind_policy s1 = def_bind_policy s"
    using policy_bind_acl_add_fresh Cons.prems by (metis list.set_intros(1))
  have "acl_get s1 (acl_hoa b) = None" if "b \<in> set as" for b
    using that Cons.prems by (auto simp: s1(3)) (metis imageI)
  then obtain s' where "acl_config_loop (\<lambda>_. True) (i + 1) as 0 s1 = (0, s')" "acl_wf s'" "def_bind_policy s' = def_bind_policy s"
    "acl_get s' = (\<lambda>k. case find (\<lambda>a. acl_hoa a = k) as of None \<Rightarrow> acl_get s1 k | Some a \<Rightarrow> Some a)"
    using Cons.IH [OF s1(2), of "i + 1"] Cons.prems(2) s1(4) by auto
  moreover have "find (\<lambda>b. acl_hoa b = acl_hoa a) as = None"
    using Cons.prems(2) by (simp add: find_None_iff) (metis imageI)
  ultimately show ?case
    using s1 by (auto simp: fun_eq_iff split: option.splits)
qed simp

lemma find_distinct_key: "a \<in> set as \<Longrightarrow> distinct (map acl_hoa as) \<Longrightarrow> find (\<lambda>b. acl_hoa b = acl_hoa a) as = Some a"
  by (induction as) force+

lemma policy_init_table:
  assumes "distinct (map acl_hoa (bind_acl cf))"
  shows "\<exists>s'. policy_init True True (\<lambda>_. True) cf s = Done (0, s') \<and> acl_wf s' \<and> def_bind_policy s' = DefaultBindingAclPolicy cf
    \<and> (\<forall>hoa. acl_get s' hoa = find (\<lambda>a. acl_hoa a = hoa) (bind_acl cf))"
proof -
  let ?h = "\<lparr>buckets = 32, hash_buckets = replicate 32 [], hash_type = SINGLE_ADDR\<rparr> :: policy_bind_acl_entry hash"
  let ?s = "s\<lparr>policy_bind_acl_hash := ?h, def_bind_policy := DefaultBindingAclPolicy cf\<rparr>"
  have i: "sgl.cinv acl_rd ?h"
    by (rule sgl.cinv_empty [where n = 32]) simp_all
  then have w: "acl_wf ?s"
    by (simp add: acl_wf_def)
  have e: "acl_get ?s hoa = None" for hoa
    using sgl.cget_find [OF i, of hoa] by (simp add: acl_get_cget [OF w] table_elems_def)
  obtain s' where s': "acl_config_loop (\<lambda>_. True) 0 (bind_acl cf) 0 ?s = (0, s')" "acl_wf s'" "def_bind_policy s' = DefaultBindingAclPolicy cf"
    "acl_get s' = (\<lambda>k. case find (\<lambda>a. acl_hoa a = k) (bind_acl cf) of None \<Rightarrow> acl_get ?s k | Some a \<Rightarrow> Some a)"
    using acl_config_loop_all [OF w assms, of 0] e by auto
  have "acl_get s' hoa = find (\<lambda>a. acl_hoa a = hoa) (bind_acl cf)" for hoa
    unfolding s'(4) by (simp add: e split: option.split)
  then show ?thesis
    using s' by (auto simp: policy_init_def policy_bind_acl_config_def hash_init_def)
qed

section \<open>Prefixes of mobile routers\<close>

text \<open>A binding update that carries one mobile network prefix.\<close>

abbreviation mnp_update :: "byte list \<Rightarrow> byte \<Rightarrow> byte \<Rightarrow> in6_addr \<Rightarrow> byte list" where
  "mnp_update hdr res l a \<equiv> hdr @ [IP6_MHOPT_MOB_NET_PRFX, 18, res, l] @ s6_addr a"

lemma mnp_update_parse:
  assumes "length hdr = 12"
  shows "mh_opt_parse (mnp_update hdr res l a) 32 12 = Done (1, \<lparr>opts = (\<lambda>_. 0)(6 := 12), opts_end = (\<lambda>_. 0)\<rparr>)"
  using assms by (simp add: mh_opt_parse_def mh_opt_loop.simps mh_opt_step_def read_u8_def mh_opt_len_chk_def mh_options_zero_def nth_append Let_def)

lemma prefix_get_some:
  assumes "prefixes_ok pl"
  shows "\<exists>r. prefix_list_get pl a (uint l) = Done r \<and> (r \<noteq> None \<longleftrightarrow> (\<exists>p \<in> set pl. covers p a \<and> (l = 0 \<or> ple_plen p = l)))"
proof (cases "l = 0")
  case True
  then show ?thesis
    using get_loop_longest [OF assms, of "[]" a None 0]
    by (fastforce simp: prefix_list_get_def longest_def split: option.split_asm)
next
  case False
  then have l: "0 < uint l"
    using uint_0_iff [of l] unsigned_greater_eq [of l] by (metis order_le_less)
  have e: "uint (ple_plen p) = uint l \<longleftrightarrow> ple_plen p = l" for p :: prefix_list_entry
    by (simp add: word_uint_eq_iff)
  show ?thesis
    using get_loop_exact [OF assms l, of a None, unfolded e] False find_None_iff [of "\<lambda>p. covers p a \<and> ple_plen p = l" pl]
    by (cases "find (\<lambda>p. covers p a \<and> ple_plen p = l) pl") (auto simp: prefix_list_get_def)
qed

lemma mnp_update_checked:
  assumes "length hdr = 12" "prefixes_ok (mob_net_prefixes acl)"
  shows "policy_check_mob_net_prefix acl (mnp_update hdr res l a) \<lparr>opts = (\<lambda>_. 0)(6 := 12), opts_end = (\<lambda>_. 0)\<rparr>
    = Done (if \<exists>p \<in> set (mob_net_prefixes acl). covers p a \<and> (l = 0 \<or> ple_plen p = l) then IP6_MH_BAS_ACCEPTED else IP6_MH_BAS_NOT_AUTH_FOR_PRFX)"
proof -
  let ?bu = "mnp_update hdr res l a" and ?mo = "\<lparr>opts = (\<lambda>_. 0)(6 := 12), opts_end = (\<lambda>_. 0)\<rparr>"
  obtain r where r: "prefix_list_get (mob_net_prefixes acl) a (uint l) = Done r"
    "r \<noteq> None \<longleftrightarrow> (\<exists>p \<in> set (mob_net_prefixes acl). covers p a \<and> (l = 0 \<or> ple_plen p = l))"
    using prefix_get_some [OF assms(2), of a l] by (elim exE conjE)
  have "read_u8 ?bu 15 = Done l" "read_bytes ?bu 16 16 = Done (s6_addr a)"
    using assms(1) by (simp_all add: read_u8_def read_bytes_def nth_append)
  moreover have "mh_opt_next ?bu ?mo 12 = Done None"
    using assms(1) by (simp add: mh_opt_next_def read_u8_def opt_next_loop.simps nth_append)
  ultimately show ?thesis
    using r by (cases r) (simp_all add: policy_check_mob_net_prefix_def mh_opt_def)
qed

text \<open>C21: after the start of the policy module, with a configured table in which every home address occurs once, a binding update for an
  address of the table is decided by its entry, and one for any other address by the default policy.  An update of a mobile router is refused
  with status 140 when the configuration does not accept mobile routers; else it is decided in the same way, except that for an accepting entry its mobile network
  prefix options count: without any it is accepted, and with one it is accepted when the entry lists exactly this prefix, and refused
  with status 142 when it does not.  But with a prefix length of zero, for which no entry needs to be listed, it is accepted as soon as any listed
  prefix covers the address in the option, so that the router is authorised for all addresses.\<close>

theorem policy_decides:
  assumes "distinct (map acl_hoa (bind_acl cf))" "\<forall>acl \<in> set (bind_acl cf). prefixes_ok (mob_net_prefixes acl)"
  shows "\<exists>s'. policy_init True True (\<lambda>_. True) cf s = Done (0, s')
    \<and> (\<forall>hoa bu len flags. read_u16 bu 8 = Done flags \<and> flags AND IP6_MH_BU_MR = 0 \<longrightarrow>
        default_discard_binding cf s' hoa bu len
          = Done (case find (\<lambda>a. acl_hoa a = hoa) (bind_acl cf) of None \<Rightarrow> DefaultBindingAclPolicy cf | Some acl \<Rightarrow> bind_policy acl))
    \<and> (\<forall>hoa bu len flags. read_u16 bu 8 = Done flags \<and> flags AND IP6_MH_BU_MR \<noteq> 0 \<longrightarrow>
        (if \<not> HaAcceptMobRtr cf then default_discard_binding cf s' hoa bu len = Done IP6_MH_BAS_MR_OP_NOT_PERMITTED
         else case find (\<lambda>a. acl_hoa a = hoa) (bind_acl cf) of
             None \<Rightarrow> default_discard_binding cf s' hoa bu len = Done (DefaultBindingAclPolicy cf)
           | Some acl \<Rightarrow> if IP6_MH_BAS_UNSPECIFIED \<le> bind_policy acl then default_discard_binding cf s' hoa bu len = Done (bind_policy acl)
               else \<forall>r mo. mh_opt_parse bu len 12 = Done (r, mo) \<and> mh_opt mo IP6_MHOPT_MOB_NET_PRFX = None \<longrightarrow>
                 default_discard_binding cf s' hoa bu len = Done IP6_MH_BAS_ACCEPTED))
    \<and> (\<forall>hoa hdr res l a acl. length hdr = 12 \<and> le16 (hdr ! 8) (hdr ! 9) AND IP6_MH_BU_MR \<noteq> 0 \<and> HaAcceptMobRtr cf
          \<and> acl \<in> set (bind_acl cf) \<and> acl_hoa acl = hoa \<and> bind_policy acl < IP6_MH_BAS_UNSPECIFIED \<longrightarrow>
        default_discard_binding cf s' hoa (mnp_update hdr res l a) 32
          = Done (if \<exists>p \<in> set (mob_net_prefixes acl). covers p a \<and> (l = 0 \<or> ple_plen p = l)
                  then IP6_MH_BAS_ACCEPTED else IP6_MH_BAS_NOT_AUTH_FOR_PRFX))"
proof -
  obtain s' where s': "policy_init True True (\<lambda>_. True) cf s = Done (0, s')" "def_bind_policy s' = DefaultBindingAclPolicy cf"
    "\<And>hoa. acl_get s' hoa = find (\<lambda>a. acl_hoa a = hoa) (bind_acl cf)"
    using policy_init_table [OF assms(1), of s] by blast
  have "find (\<lambda>a. acl_hoa a = acl_hoa acl) (bind_acl cf) = Some acl" if "acl \<in> set (bind_acl cf)" for acl
    using that assms(1) by (rule find_distinct_key)
  then have "default_discard_binding cf s' (acl_hoa acl) (mnp_update hdr res l a) 32
      = Done (if \<exists>p \<in> set (mob_net_prefixes acl). covers p a \<and> (l = 0 \<or> ple_plen p = l)
              then IP6_MH_BAS_ACCEPTED else IP6_MH_BAS_NOT_AUTH_FOR_PRFX)"
    if "length hdr = 12" "le16 (hdr ! 8) (hdr ! 9) AND IP6_MH_BU_MR \<noteq> 0" "HaAcceptMobRtr cf" "acl \<in> set (bind_acl cf)"
      "bind_policy acl < IP6_MH_BAS_UNSPECIFIED" for hdr res l a acl
    using that mnp_update_parse mnp_update_checked [OF that(1) assms(2) [rule_format, OF that(4)]]
    by (simp add: default_discard_binding_def s'(3) read_u16_def nth_append)
  moreover have "default_discard_binding cf s' hoa bu len
      = Done (case find (\<lambda>a. acl_hoa a = hoa) (bind_acl cf) of None \<Rightarrow> DefaultBindingAclPolicy cf | Some acl \<Rightarrow> bind_policy acl)"
    if "read_u16 bu 8 = Done flags" "flags AND IP6_MH_BU_MR = 0" for hoa bu len flags
    using that by (simp add: default_discard_binding_def s'(2,3) split: option.split)
  moreover have "if \<not> HaAcceptMobRtr cf then default_discard_binding cf s' hoa bu len = Done IP6_MH_BAS_MR_OP_NOT_PERMITTED
      else case find (\<lambda>a. acl_hoa a = hoa) (bind_acl cf) of
          None \<Rightarrow> default_discard_binding cf s' hoa bu len = Done (DefaultBindingAclPolicy cf)
        | Some acl \<Rightarrow> if IP6_MH_BAS_UNSPECIFIED \<le> bind_policy acl then default_discard_binding cf s' hoa bu len = Done (bind_policy acl)
            else \<forall>r mo. mh_opt_parse bu len 12 = Done (r, mo) \<and> mh_opt mo IP6_MHOPT_MOB_NET_PRFX = None \<longrightarrow>
              default_discard_binding cf s' hoa bu len = Done IP6_MH_BAS_ACCEPTED"
    if "read_u16 bu 8 = Done flags" "flags AND IP6_MH_BU_MR \<noteq> 0" for hoa bu len flags
    using that by (auto simp: default_discard_binding_def s'(2,3) policy_check_mob_net_prefix_def split: option.split)
  ultimately show ?thesis
    using s'(1) by (intro exI [of _ s'] conjI) blast+
qed

definition acl_ex :: policy_bind_acl_entry where
  "acl_ex = \<lparr>acl_hoa = In6 0x20 1 0xd 0xb8 0 0 0 0 0 0 0 0 0 0 0 1, acl_plen = 128, bind_policy = 0, mnp_count = 1, mob_net_prefixes = [ple_ex 16 0]\<rparr>"

definition policy_conf_ex :: policy_conf where
  "policy_conf_ex = \<lparr>mip6_entity = 2, HaMaxBindingLife = 3600, HaAcceptMobRtr = True, KeyMngMobCapability = 0, net_ifaces = [],
     MnUseAllInterfaces = 0, DefaultBindingAclPolicy = 129, bind_acl = [acl_ex]\<rparr>"

definition policy_state_ex :: policy_state where
  "policy_state_ex = \<lparr>policy_bind_acl_hash = \<lparr>buckets = 0, hash_buckets = [], hash_type = SINGLE_ADDR\<rparr>, def_bind_policy = 129\<rparr>"

lemma covers_ex: "covers (ple_ex 16 0) (ple_prefix (ple_ex 0 5))"
proof -
  have "ipv6_pfx_cmp (ple_prefix (ple_ex 16 0)) (ple_prefix (ple_ex 0 5)) 16 = Done 0"
    by (simp add: ipv6_pfx_cmp_def ple_ex_simps Let_def drop_bit_eq_div take_bit_eq_mod)
  then show ?thesis
    using ipv6_pfx_cmp_bits [of 16 "ple_prefix (ple_ex 16 0)" "ple_prefix (ple_ex 0 5)"] by (simp add: ple_ex_simps)
qed

theorem policy_decides_witness:
  "\<exists>s'. policy_init True True (\<lambda>_. True) policy_conf_ex policy_state_ex = Done (0, s')
    \<and> default_discard_binding policy_conf_ex s' (acl_hoa acl_ex) (mnp_update (replicate 8 0 @ [4, 0, 0, 9]) 0 16 (ple_prefix (ple_ex 0 5))) 32 = Done 0
    \<and> default_discard_binding policy_conf_ex s' (acl_hoa acl_ex) (mnp_update (replicate 8 0 @ [4, 0, 0, 9]) 0 8 (ple_prefix (ple_ex 0 5))) 32 = Done 142
    \<and> default_discard_binding policy_conf_ex s' (acl_hoa acl_ex) (mnp_update (replicate 8 0 @ [4, 0, 0, 9]) 0 0 (ple_prefix (ple_ex 0 5))) 32 = Done 0
    \<and> default_discard_binding policy_conf_ex s' (acl_hoa acl_ex) (replicate 8 0 @ [4, 0, 0, 9]) 12 = Done 0
    \<and> default_discard_binding policy_conf_ex s' in6addr_any (replicate 12 0) 12 = Done 129"
proof -
  let ?hdr = "replicate 8 0 @ [4, 0, 0, 9] :: byte list"
  have hyp: "distinct (map acl_hoa (bind_acl policy_conf_ex))" "\<forall>acl \<in> set (bind_acl policy_conf_ex). prefixes_ok (mob_net_prefixes acl)"
    by (simp_all add: policy_conf_ex_def acl_ex_def prefixes_ok_def ple_ex_simps)
  have h: "length ?hdr = 12" "le16 (?hdr ! 8) (?hdr ! 9) AND IP6_MH_BU_MR \<noteq> 0" "HaAcceptMobRtr policy_conf_ex"
    "acl_ex \<in> set (bind_acl policy_conf_ex)" "bind_policy acl_ex < IP6_MH_BAS_UNSPECIFIED" "mob_net_prefixes acl_ex = [ple_ex 16 0]"
    by (simp_all add: policy_conf_ex_def acl_ex_def nth_append le16_def)
  have f: "read_u16 (replicate 12 0) 8 = Done 0" "find (\<lambda>a. acl_hoa a = in6addr_any) (bind_acl policy_conf_ex) = None"
    "DefaultBindingAclPolicy policy_conf_ex = 129"
    by (simp_all add: read_u16_def le16_def policy_conf_ex_def acl_ex_def in6addr_any_def)
  show ?thesis
    using policy_decides [OF hyp, of policy_state_ex]
  proof (elim exE conjE, goal_cases)
    case (1 s')
    have r: "default_discard_binding policy_conf_ex s' (acl_hoa acl_ex) (mnp_update ?hdr 0 l (ple_prefix (ple_ex 0 5))) 32
        = Done (if l = 0 \<or> l = 16 then 0 else 142)" for l
      using 1(4) [rule_format, of ?hdr acl_ex "acl_hoa acl_ex" 0 l "ple_prefix (ple_ex 0 5)"] h covers_ex by (auto simp: ple_ex_simps)
    have "default_discard_binding policy_conf_ex s' in6addr_any (replicate 12 0) 12 = Done 129"
      using 1(2) [rule_format, of "replicate 12 0" 0 in6addr_any 12] f by simp
    moreover have "read_u16 ?hdr 8 = Done (le16 (?hdr ! 8) (?hdr ! 9))" "mh_opt_parse ?hdr 12 12 = Done (0, mh_options_zero)"
      "mh_opt mh_options_zero IP6_MHOPT_MOB_NET_PRFX = None" "find (\<lambda>a. acl_hoa a = acl_hoa acl_ex) (bind_acl policy_conf_ex) = Some acl_ex"
      by (simp_all add: read_u16_def nth_append mh_opt_parse_def mh_opt_loop.simps mh_opt_def mh_options_zero_def policy_conf_ex_def)
    then have "default_discard_binding policy_conf_ex s' (acl_hoa acl_ex) ?hdr 12 = Done 0"
      using 1(3) [rule_format, of ?hdr _ "acl_hoa acl_ex" 12] h by auto
    ultimately show ?thesis
      using 1(1) r [of 16] r [of 8] r [of 0] by (intro exI [of _ s']) simp
  qed
qed

end
