(* ===== verification/Bcache.thy ===== *)
theory Bcache
  imports Mh_Send Addr_Hash
begin

text \<open>
  \<open>src/src/bcache.c\<close>: the Mobile IPv6 binding cache of the correspondent node, which every instance of the daemon runs.
  Entries live in a heap; the table of \<open>src/src/hash.c\<close> holds their addresses in it.  A binding of a
  mobile node is cached, is about to expire (a refresh is asked for), and then blocks its home nonce
  until that nonce ends.  The fields of an entry that only the home agent uses are left out.  Transformations given to the kernel and messages are recorded in \<open>bc_out\<close>.  The function
  \<open>cleanup\<close> of an entry, which only the home agent sets, is recorded as well.
\<close>

section \<open>Model\<close>

abbreviation (input) BCE_NONCE_BLOCK :: u16 where "BCE_NONCE_BLOCK \<equiv> 0"
abbreviation (input) BCE_HOMEREG :: u16 where "BCE_HOMEREG \<equiv> 1"
abbreviation (input) BCE_CACHED :: u16 where "BCE_CACHED \<equiv> 2"
abbreviation (input) BCE_CACHE_DYING :: u16 where "BCE_CACHE_DYING \<equiv> 3"
abbreviation (input) BCE_DAD :: u16 where "BCE_DAD \<equiv> 4"
abbreviation (input) CN_BRR_BEFORE_EXPIRY_TS :: timespec where "CN_BRR_BEFORE_EXPIRY_TS \<equiv> TS 2 0"
abbreviation (input) CN_BRR_TIME_THRESH :: int where "CN_BRR_TIME_THRESH \<equiv> 60"
abbreviation (input) BCACHE_BUCKETS :: nat where "BCACHE_BUCKETS \<equiv> 32"

record bcentry =
  b_our_addr :: in6_addr
  b_peer_addr :: in6_addr
  b_coa :: in6_addr
  b_add_time :: timespec
  b_lifetime :: timespec
  b_seqno :: u16
  b_flags :: u16
  b_nonce_coa :: u16
  b_nonce_hoa :: u16
  b_type :: u16
  b_unreach :: int
  b_cleanup :: bool

definition bcentry_zero :: bcentry where
  "bcentry_zero = \<lparr>b_our_addr = in6addr_any, b_peer_addr = in6addr_any, b_coa = in6addr_any, b_add_time = tszero, b_lifetime = tszero,
     b_seqno = 0, b_flags = 0, b_nonce_coa = 0, b_nonce_hoa = 0, b_type = 0, b_unreach = 0, b_cleanup = False\<rparr>"

datatype bc_effect =
    XfrmAdd in6_addr in6_addr in6_addr bool
  | XfrmDel in6_addr in6_addr
  | Cleanup nat
  | CnSend in6_addr_bundle "byte list"

datatype bc_lock = BcLock | BceLock nat

record bc_state = kg_state +
  bc_heap :: "nat \<Rightarrow> bcentry"
  bc_alive :: "nat set"
  bc_brk :: nat
  bc_hash :: "nat hash"
  bc_out :: "bc_effect list"
  bc_held :: "bc_lock list"

text \<open>The clock, the allocator (for structures and for the nodes of the hash table), the time a transformation was last used (negative when there
  is none), and the cryptographic library.\<close>

record cn_env =
  cn_now :: timespec
  cn_mem :: bool
  cn_mem_node :: bool
  xfrm_last_used :: "in6_addr \<Rightarrow> in6_addr \<Rightarrow> int"
  cn_crypto :: crypto

definition bc_emit :: "bc_effect \<Rightarrow> bc_state \<Rightarrow> bc_state" where
  "bc_emit e s = s\<lparr>bc_out := bc_out s @ [e]\<rparr>"

definition bc_acquire :: "bc_lock \<Rightarrow> bc_state \<Rightarrow> bc_state outcome" where
  "bc_acquire l s = (if l \<in> set (bc_held s) then Fault Deadlock else Done (s\<lparr>bc_held := l # bc_held s\<rparr>))"

definition bc_release :: "bc_lock \<Rightarrow> bc_state \<Rightarrow> bc_state" where
  "bc_release l s = s\<lparr>bc_held := remove1 l (bc_held s)\<rparr>"

definition bc_deref :: "nat \<Rightarrow> bc_state \<Rightarrow> bcentry outcome" where
  "bc_deref p s = (if p \<in> bc_alive s then Done (bc_heap s p) else Fault UseAfterFree)"

definition bc_modify :: "nat \<Rightarrow> (bcentry \<Rightarrow> bcentry) \<Rightarrow> bc_state \<Rightarrow> bc_state outcome" where
  "bc_modify p f s = (if p \<in> bc_alive s then Done (s\<lparr>bc_heap := (bc_heap s)(p := f (bc_heap s p))\<rparr>) else Fault UseAfterFree)"

definition bc_rd :: "bc_state \<Rightarrow> nat \<Rightarrow> in6_addr \<times> in6_addr" where
  "bc_rd s p = (b_our_addr (bc_heap s p), b_peer_addr (bc_heap s p))"

definition bcache_alloc :: "cn_env \<Rightarrow> bc_state \<Rightarrow> nat option \<times> bc_state" where
  "bcache_alloc en s =
     (if \<not> cn_mem en then (None, s)
      else (Some (bc_brk s), s\<lparr>bc_heap := (bc_heap s)(bc_brk s := bcentry_zero), bc_alive := insert (bc_brk s) (bc_alive s), bc_brk := bc_brk s + 1\<rparr>))"

definition bcache_free :: "nat \<Rightarrow> bc_state \<Rightarrow> bc_state" where
  "bcache_free bce s = s\<lparr>bc_alive := bc_alive s - {bce}\<rparr>"

definition bcache_get :: "in6_addr \<Rightarrow> in6_addr \<Rightarrow> bc_state \<Rightarrow> (nat option \<times> bc_state) outcome" where
  "bcache_get our_addr peer_addr s =
     andThen (bc_acquire BcLock s) (\<lambda>s.
       case hash_get (bc_rd s) (bc_hash s) our_addr peer_addr of
         Some bce \<Rightarrow> andThen (bc_deref bce s) (\<lambda>_. andThen (bc_acquire (BceLock bce) s) (\<lambda>s. Done (Some bce, s)))
       | None \<Rightarrow> Done (None, bc_release BcLock s))"

definition bcache_release_entry :: "nat \<Rightarrow> bc_state \<Rightarrow> bc_state" where
  "bcache_release_entry bce s = bc_release BcLock (bc_release (BceLock bce) s)"

definition bce_type :: "in6_addr \<Rightarrow> in6_addr \<Rightarrow> bc_state \<Rightarrow> (int \<times> bc_state) outcome" where
  "bce_type our_addr peer_addr s =
     andThen (bcache_get our_addr peer_addr s) (\<lambda>(bce, s). case bce of
         None \<Rightarrow> Done (- ENOENT, s)
       | Some bce \<Rightarrow> andThen (bc_deref bce s) (\<lambda>e. Done (uint (b_type e), bcache_release_entry bce s)))"

definition bce_exists :: "in6_addr \<Rightarrow> in6_addr \<Rightarrow> bc_state \<Rightarrow> (bool \<times> bc_state) outcome" where
  "bce_exists our_addr peer_addr s = andThen (bce_type our_addr peer_addr s) (\<lambda>(t, s). Done (t \<ge> uint BCE_NONCE_BLOCK, s))"

definition bcache_insert :: "cn_env \<Rightarrow> nat \<Rightarrow> bc_state \<Rightarrow> int \<times> bc_state" where
  "bcache_insert en bce s =
     (case hash_add (cn_mem_node en) (bc_rd s) (bc_hash s) bce of (ret, h) \<Rightarrow> if ret \<noteq> 0 then (ret, s) else (0, s\<lparr>bc_hash := h\<rparr>))"

definition bcache_start :: "cn_env \<Rightarrow> nat \<Rightarrow> bc_state \<Rightarrow> bc_state outcome" where
  "bcache_start en bce s =
     andThen (bc_modify bce (b_add_time_update (\<lambda>_. cn_now en)) s) (\<lambda>s.
       let e = bc_heap s bce; tmp = tssub (b_lifetime e) CN_BRR_BEFORE_EXPIRY_TS;
           expires = tsadd (b_add_time e) (if b_type e = BCE_HOMEREG then b_lifetime e else tmp) in
       Done (bc_emit (XfrmAdd (b_our_addr e) (b_peer_addr e) (b_coa e) False)
         (s\<lparr>cn_tq := add_task_abs expires (TqBc bce) Bc_expire (cn_tq s)\<rparr>)))"

definition bcache_add :: "cn_env \<Rightarrow> nat \<Rightarrow> bc_state \<Rightarrow> (int \<times> bc_state) outcome" where
  "bcache_add en bce s =
     andThen (bc_modify bce (b_unreach_update (\<lambda>_. 0)) s) (\<lambda>s.
     andThen (bc_acquire BcLock s) (\<lambda>s.
       case bcache_insert en bce s of (ret, s) \<Rightarrow>
         if ret \<noteq> 0 then Done (ret, bc_release BcLock s)
         else andThen (bcache_start en bce s) (\<lambda>s. Done (0, bc_release BcLock s))))"

definition bcache_add_homereg :: "cn_env \<Rightarrow> nat \<Rightarrow> bc_state \<Rightarrow> (int \<times> bc_state) outcome" where
  "bcache_add_homereg en bce s =
     andThen (bc_deref bce s) (\<lambda>e.
       if b_type e \<noteq> BCE_DAD then Fault AssertFail
       else andThen (bc_modify bce (b_unreach_update (\<lambda>_. 0)) s) (\<lambda>s.
            andThen (bc_acquire BcLock s) (\<lambda>s.
              case bcache_insert en bce s of (ret, s) \<Rightarrow> Done (ret, bc_release BcLock s))))"

definition bcache_complete_homereg :: "cn_env \<Rightarrow> nat \<Rightarrow> bc_state \<Rightarrow> bc_state outcome" where
  "bcache_complete_homereg en bce s = bcache_start en bce s"

definition bcache_update_expire :: "cn_env \<Rightarrow> nat \<Rightarrow> bc_state \<Rightarrow> bc_state outcome" where
  "bcache_update_expire en bce s =
     andThen (bc_modify bce (b_add_time_update (\<lambda>_. cn_now en)) s) (\<lambda>s.
     andThen (if b_type (bc_heap s bce) = BCE_HOMEREG then Done s else bc_modify bce (b_type_update (\<lambda>_. BCE_CACHED)) s) (\<lambda>s.
       let e = bc_heap s bce;
           expires = (if b_type e = BCE_HOMEREG then b_lifetime e else tssub (b_lifetime e) CN_BRR_BEFORE_EXPIRY_TS) in
       Done (bc_emit (XfrmAdd (b_our_addr e) (b_peer_addr e) (b_coa e) True)
         (s\<lparr>cn_tq := add_task_abs (tsadd expires (b_add_time e)) (TqBc bce) Bc_expire (cn_tq s)\<rparr>))))"

definition bce_delete :: "nat \<Rightarrow> bool \<Rightarrow> bc_state \<Rightarrow> bc_state outcome" where
  "bce_delete bce flush s =
     andThen (bc_deref bce s) (\<lambda>e.
     andThen (bc_acquire (BceLock bce) s) (\<lambda>s.
       let s = (if b_type e \<noteq> BCE_DAD then
                  let s = s\<lparr>cn_tq := del_task (TqBc bce) (cn_tq s)\<rparr> in
                  if b_type e \<noteq> BCE_NONCE_BLOCK then bc_emit (XfrmDel (b_our_addr e) (b_peer_addr e)) s else s
                else s);
           s = (if b_cleanup e then bc_emit (Cleanup bce) s else s);
           minlft = (if \<not> flush \<and> (b_type e = BCE_CACHED \<or> b_type e = BCE_CACHE_DYING) then rr_cn_nonce_lft (b_nonce_hoa e) s else None)
       in case minlft of
            Some t \<Rightarrow>
              andThen (bc_modify bce (b_type_update (\<lambda>_. BCE_NONCE_BLOCK)) s) (\<lambda>s.
                Done (bc_release (BceLock bce) (s\<lparr>cn_tq := add_task_abs t (TqBc bce) Bc_expire (cn_tq s)\<rparr>)))
          | None \<Rightarrow>
              Done (bcache_free bce (bc_release (BceLock bce)
                (s\<lparr>bc_hash := hash_delete (bc_rd s) (bc_hash s) (b_our_addr e) (b_peer_addr e)\<rparr>)))))"

definition bcache_delete :: "in6_addr \<Rightarrow> in6_addr \<Rightarrow> bc_state \<Rightarrow> bc_state outcome" where
  "bcache_delete our_addr peer_addr s =
     andThen (bc_acquire BcLock s) (\<lambda>s.
     andThen (case hash_get (bc_rd s) (bc_hash s) our_addr peer_addr of None \<Rightarrow> Done s | Some bce \<Rightarrow> bce_delete bce False s) (\<lambda>s.
       Done (bc_release BcLock s)))"

definition mh_send_brr :: "cn_env \<Rightarrow> in6_addr \<Rightarrow> in6_addr \<Rightarrow> bc_state \<Rightarrow> bc_state outcome" where
  "mh_send_brr en mn_addr local s =
     (let last_used = xfrm_last_used en mn_addr local;
          addrs = \<lparr>ab_src = local, ab_dst = mn_addr, ab_local_coa = None, ab_remote_coa = None, ab_bind_coa = None\<rparr> in
      if last_used < 0 then Done s
      else if last_used > CN_BRR_TIME_THRESH then Done s
      else andThen (mh_create (cn_mem en) IP6_MH_TYPE_BRR) (\<lambda>v. case v of
          None \<Rightarrow> Done s
        | Some v \<Rightarrow> andThen (mh_send (cn_crypto en) addrs [v] None) (\<lambda>pkt. Done (bc_emit (CnSend addrs pkt) s))))"

text \<open>\<open>_expire\<close>, called by the runner of the timer queue.\<close>

definition bc_expire :: "cn_env \<Rightarrow> nat \<Rightarrow> bc_state \<Rightarrow> bc_state outcome" where
  "bc_expire en bce s =
     andThen (bc_acquire BcLock s) (\<lambda>s.
       if task_interrupted (cn_tq s) then Done (bc_release BcLock s)
       else andThen (bc_deref bce s) (\<lambda>e. andThen (bc_acquire (BceLock bce) s) (\<lambda>s.
         if b_type e = BCE_CACHED then
           andThen (mh_send_brr en (b_peer_addr e) (b_our_addr e) s) (\<lambda>s.
           andThen (bc_modify bce (b_type_update (\<lambda>_. BCE_CACHE_DYING)) s) (\<lambda>s.
             Done (bc_release BcLock (bc_release (BceLock bce)
               (s\<lparr>cn_tq := add_task_rel (cn_now en) CN_BRR_BEFORE_EXPIRY_TS (TqBc bce) Bc_expire (cn_tq s)\<rparr>)))))
         else andThen (bce_delete bce False (bc_release (BceLock bce) s)) (\<lambda>s. Done (bc_release BcLock s)))))"

definition bcache_init :: "cn_env \<Rightarrow> bc_state \<Rightarrow> (int \<times> bc_state) outcome" where
  "bcache_init en s =
     andThen (bc_acquire BcLock s) (\<lambda>s. andThen (hash_init (cn_mem en) DOUBLE_ADDR BCACHE_BUCKETS) (\<lambda>(ret, h).
       Done (ret, bc_release BcLock (case h of None \<Rightarrow> s | Some h \<Rightarrow> s\<lparr>bc_hash := h\<rparr>))))"

definition bce_cleanup :: "nat \<Rightarrow> bc_state outcome \<Rightarrow> int \<times> bc_state outcome" where
  "bce_cleanup data m = (0, andThen m (bce_delete data True))"

definition bcache_flush :: "bc_state \<Rightarrow> bc_state outcome" where
  "bcache_flush s =
     andThen (bc_acquire BcLock s) (\<lambda>s.
     andThen (snd (hash_iterate (bc_hash s) bce_cleanup (Done s))) (\<lambda>s. Done (bc_release BcLock s)))"

section \<open>The invariant\<close>

abbreviation bc_entries :: "bc_state \<Rightarrow> nat set" where
  "bc_entries s \<equiv> set (table_elems (bc_hash s))"

definition bc_inv :: "bc_state \<Rightarrow> bool" where
  "bc_inv s \<longleftrightarrow> hash_wf (bc_rd s) (bc_hash s) \<and> bc_entries s \<subseteq> bc_alive s \<and> (\<forall>p \<in> bc_alive s. p < bc_brk s)
     \<and> tq_inv (cn_tq s) \<and> bc_held s = []
     \<and> (\<forall>p. pending (cn_tq s) (TqBc p) \<noteq> None \<longleftrightarrow> p \<in> bc_entries s \<and> b_type (bc_heap s p) \<noteq> BCE_DAD)"

definition bc_lookup :: "bc_state \<Rightarrow> in6_addr \<times> in6_addr \<Rightarrow> nat option" where
  "bc_lookup s k = hash_get (bc_rd s) (bc_hash s) (fst k) (snd k)"

text \<open>The cache as a map from address pairs to bindings.\<close>

definition bindings :: "bc_state \<Rightarrow> in6_addr \<times> in6_addr \<rightharpoonup> bcentry" where
  "bindings s k = map_option (bc_heap s) (bc_lookup s k)"

definition same_nonces :: "bc_state \<Rightarrow> bc_state \<Rightarrow> bool" where
  "same_nonces s s' \<longleftrightarrow> nonces s' = nonces s \<and> min_nce s' = min_nce s \<and> max_nce s' = max_nce s \<and> key_cn s' = key_cn s
     \<and> (\<forall>i. pending (cn_tq s') (TqNonce i) = pending (cn_tq s) (TqNonce i))"

lemma bc_invD:
  assumes "bc_inv s"
  shows "hash_wf (bc_rd s) (bc_hash s)" "p \<in> bc_entries s \<Longrightarrow> p \<in> bc_alive s" "p \<in> bc_alive s \<Longrightarrow> p < bc_brk s" "tq_inv (cn_tq s)" "bc_held s = []"
    "pending (cn_tq s) (TqBc p) \<noteq> None \<longleftrightarrow> p \<in> bc_entries s \<and> b_type (bc_heap s p) \<noteq> BCE_DAD"
  using assms unfolding bc_inv_def by blast+

lemma bc_lookup_iff:
  assumes "bc_inv s"
  shows "bc_lookup s k = Some p \<longleftrightarrow> p \<in> bc_entries s \<and> bc_rd s p = k"
  using bc_invD(1) [OF assms] dbl.cget_Some_iff [of "bc_rd s" "bc_hash s"] hash_double(1) [of "bc_hash s" "bc_rd s"]
  by (simp add: bc_lookup_def hash_wf_def)

lemma bc_lookup_alive: "bc_inv s \<Longrightarrow> bc_lookup s k = Some p \<Longrightarrow> p \<in> bc_alive s \<and> p \<in> bc_entries s \<and> bc_rd s p = k"
  using bc_lookup_iff bc_invD(2) by blast

lemma bc_rd_upd: "bc_rd (s\<lparr>bc_heap := (bc_heap s)(p := e)\<rparr>) = (bc_rd s)(p := (b_our_addr e, b_peer_addr e))"
  by (auto simp: bc_rd_def fun_eq_iff)

lemma bc_rd_cong: "bc_heap s' = bc_heap s \<Longrightarrow> bc_rd s' = bc_rd s"
  by (simp add: bc_rd_def fun_eq_iff)

text \<open>A change of one binding that keeps its key and arms its timer.\<close>

lemma bc_update:
  assumes "bc_inv s" "bc_lookup s k = Some p" "(b_our_addr e, b_peer_addr e) = k" "b_type e \<noteq> BCE_DAD" "tsisset t"
    and "s' = s\<lparr>bc_heap := (bc_heap s)(p := e), cn_tq := q, bc_out := os\<rparr>"
    and "tq_inv q" "pending q = (pending (cn_tq s))(TqBc p \<mapsto> t)"
  shows "bc_inv s'" "bindings s' = (bindings s)(k \<mapsto> e)" "same_nonces s s'" "bc_lookup s' = bc_lookup s"
proof -
  note p = bc_lookup_alive [OF assms(1,2)]
  have r: "bc_rd s' = bc_rd s" using p assms(3) by (auto simp: assms(6) bc_rd_def fun_eq_iff)
  have "bc_hash s' = bc_hash s" by (simp add: assms(6))
  then show l: "bc_lookup s' = bc_lookup s" by (simp add: bc_lookup_def [abs_def] r)
  show "bc_inv s'" using assms(1,4,7,8) p r by (auto simp: bc_inv_def assms(6))
  have "bindings s' k' = ((bindings s)(k \<mapsto> e)) k'" for k'
  proof (cases "k' = k")
    case True
    then show ?thesis using assms(2) by (simp add: bindings_def l assms(6) [THEN arg_cong, of bc_heap])
  next
    case False
    then have "bc_lookup s k' \<noteq> Some p" using bc_lookup_iff [OF assms(1), of k'] p by auto
    with False show ?thesis by (cases "bc_lookup s k'") (auto simp: bindings_def l assms(6) [THEN arg_cong, of bc_heap])
  qed
  then show "bindings s' = (bindings s)(k \<mapsto> e)" by blast
  show "same_nonces s s'" using assms(8) by (simp add: same_nonces_def assms(6))
qed

text \<open>Removal of one binding.\<close>

lemma bc_remove:
  assumes "bc_inv s" "bc_lookup s k = Some p"
    and "s' = s\<lparr>bc_hash := hash_delete (bc_rd s) (bc_hash s) (fst k) (snd k), bc_alive := bc_alive s - {p}, cn_tq := q, bc_out := os\<rparr>"
    and "tq_inv q" "pending q = (pending (cn_tq s))(TqBc p := None)"
  shows "bc_inv s'" "bindings s' = (bindings s)(k := None)" "same_nonces s s'"
proof -
  note p = bc_lookup_alive [OF assms(1,2)]
  have r: "bc_rd s' = bc_rd s" by (rule bc_rd_cong) (simp add: assms(3))
  have w: "hash_wf (bc_rd s) (bc_hash s')" and
    g: "bc_lookup s' k' = (if k' = k then None else bc_lookup s k')" for k'
    using hash_delete_get [OF bc_invD(1) [OF assms(1)], of "fst k" "snd k"] by (auto simp: assms(3) bc_lookup_def r [unfolded assms(3)] prod_eq_iff)
  have wf': "bc_lookup s' k' = Some q' \<longleftrightarrow> q' \<in> bc_entries s' \<and> bc_rd s' q' = k'" for k' q'
    using w dbl.cget_Some_iff [of "bc_rd s'" "bc_hash s'"] hash_double(1) [of "bc_hash s'" "bc_rd s'"] by (simp add: bc_lookup_def hash_wf_def r)
  have "q' \<in> bc_entries s' \<longleftrightarrow> q' \<in> bc_entries s \<and> q' \<noteq> p" for q'
  proof -
    have "q' \<in> bc_entries s' \<longleftrightarrow> bc_lookup s' (bc_rd s q') = Some q'" using wf' r by simp
    also have "\<dots> \<longleftrightarrow> bc_rd s q' \<noteq> k \<and> q' \<in> bc_entries s" using g bc_lookup_iff [OF assms(1)] by auto
    also have "\<dots> \<longleftrightarrow> q' \<in> bc_entries s \<and> q' \<noteq> p" using bc_lookup_iff [OF assms(1), of k q'] bc_lookup_iff [OF assms(1), of k p] assms(2) by auto
    finally show ?thesis .
  qed
  then have en: "bc_entries s' = bc_entries s - {p}" by blast
  show "bc_inv s'" using assms(1,4,5) w r en by (auto simp: bc_inv_def assms(3))
  show "bindings s' = (bindings s)(k := None)" by (auto simp: bindings_def g fun_eq_iff) (simp add: assms(3))
  show "same_nonces s s'" using assms(5) by (simp add: same_nonces_def assms(3))
qed

text \<open>Insertion of a new binding.\<close>

lemma bc_insert:
  assumes "bc_inv s" "k = (b_our_addr e, b_peer_addr e)" "bc_lookup s k = None" "b_type e \<noteq> BCE_DAD" "p \<notin> bc_alive s" "p < b" "bc_brk s \<le> b"
    and "hash_add True ((bc_rd s)(p := k)) (bc_hash s) p = (r, h)"
    and "s' = s\<lparr>bc_heap := (bc_heap s)(p := e), bc_alive := insert p (bc_alive s), bc_brk := b, bc_hash := h, cn_tq := q, bc_out := os\<rparr>"
    and "tq_inv q" "pending q = (pending (cn_tq s))(TqBc p \<mapsto> t)"
  shows "r = 0" "bc_inv s'" "bindings s' = (bindings s)(k \<mapsto> e)" "same_nonces s s'"
proof -
  note I = bc_invD [OF assms(1)]
  let ?rd = "(bc_rd s)(p := k)"
  have pe: "p \<notin> bc_entries s" using assms(5) I(2) by blast
  have ty: "hash_type (bc_hash s) = DOUBLE_ADDR" "dbl.cinv (bc_rd s) (bc_hash s)" using I(1) by (simp_all add: hash_wf_def)
  have w: "dbl.cinv ?rd (bc_hash s)" by (rule dbl.cinv_cong [OF ty(2)]) (use pe in auto)
  have c: "dbl.cget ?rd (bc_hash s) k' = bc_lookup s k'" for k'
  proof -
    have "dbl.cget ?rd (bc_hash s) k' = dbl.cget (bc_rd s) (bc_hash s) k'" by (rule dbl.cget_cong [OF ty(2)]) (use pe in auto)
    then show ?thesis by (simp add: bc_lookup_def hash_double(1) [OF ty(1)])
  qed
  obtain h' where h': "dbl.cadd ?rd (bc_hash s) p = Some h'" "dbl.cinv ?rd h'" "mset (table_elems h') = add_mset p (mset (table_elems (bc_hash s)))"
      "dbl.cget ?rd h' = (dbl.cget ?rd (bc_hash s))(k \<mapsto> p)"
    using dbl.table.add_fresh [OF w, of p] c [of k] assms(3) by auto
  have "hash_add True ?rd (bc_hash s) p = (0, h')" using h'(1) by (simp add: hash_double(3) [OF ty(1)])
  then have h: "r = 0" "h = h'" "hash_type h = DOUBLE_ADDR" using assms(8) hash_add_type [of True ?rd "bc_hash s" p] ty(1) by auto
  then show "r = 0" by simp
  have rd: "bc_rd s' = ?rd" by (auto simp: assms(2,9) bc_rd_def fun_eq_iff)
  have en: "bc_entries s' = insert p (bc_entries s)" using arg_cong [OF h'(3), of set_mset] h(2) by (simp add: assms(9))
  show "bc_inv s'" using assms(1,4-7,10,11) h h'(2) rd en by (auto simp: bc_inv_def hash_wf_def assms(9))
  have l: "bc_lookup s' k' = (if k' = k then Some p else bc_lookup s k')" for k'
  proof -
    have "bc_lookup s' k' = dbl.cget ?rd h' k'" using h(2) hash_double(1) [OF h(3), of ?rd "fst k'" "snd k'"] by (simp add: bc_lookup_def rd) (simp add: assms(9))
    then show ?thesis by (simp add: h'(4) c)
  qed
  have "bindings s' k' = ((bindings s)(k \<mapsto> e)) k'" for k'
    using bc_lookup_iff [OF assms(1), of k'] pe by (cases "bc_lookup s k'") (auto simp: bindings_def l assms(9) [THEN arg_cong, of bc_heap])
  then show "bindings s' = (bindings s)(k \<mapsto> e)" by blast
  show "same_nonces s s'" using assms(11) by (simp add: same_nonces_def assms(9))
qed

section \<open>The operations\<close>

lemma bcache_get_eq:
  assumes "bc_inv s"
  shows "bcache_get a p s = Done (case bc_lookup s (a, p) of None \<Rightarrow> (None, s) | Some b \<Rightarrow> (Some b, s\<lparr>bc_held := [BceLock b, BcLock]\<rparr>))"
proof -
  have r: "bc_rd (s\<lparr>bc_held := h\<rparr>) = bc_rd s" for h by (rule bc_rd_cong) simp
  have "s\<lparr>bc_held := []\<rparr> = s" using bc_invD(5) [OF assms] by simp
  then show ?thesis using bc_invD(5) [OF assms] bc_lookup_alive [OF assms, of "(a, p)"]
    by (auto simp: bcache_get_def bc_acquire_def bc_release_def bc_deref_def bc_lookup_def r split: option.splits)
qed

lemma bcache_release_eq: "bc_held s = [BceLock b, BcLock] \<Longrightarrow> bcache_release_entry b s = s\<lparr>bc_held := []\<rparr>"
  by (simp add: bcache_release_entry_def bc_release_def)

lemma idle: "bc_inv s \<Longrightarrow> s\<lparr>bc_held := []\<rparr> = s"
  using bc_invD(5) by simp

lemma bce_exists_eq:
  assumes "bc_inv s"
  shows "bce_exists a p s = Done (bc_lookup s (a, p) \<noteq> None, s)"
  using assms bc_lookup_alive [OF assms, of "(a, p)"] idle [OF assms]
  by (auto simp: bce_exists_def bce_type_def bcache_get_eq bc_deref_def bcache_release_eq split: option.splits)

lemma timer_armed:
  assumes "bc_inv s" "tsisset t"
  shows "tq_inv (add_task_abs t i x (cn_tq s))" "pending (add_task_abs t i x (cn_tq s)) = (pending (cn_tq s))(i \<mapsto> t)"
  using add_task_abs_inv [OF bc_invD(4) [OF assms(1)] assms(2)] add_task_abs_pending [OF bc_invD(4) [OF assms(1)]] by simp_all

text \<open>Renewal of a binding under its lock.\<close>

lemma bcache_update_expire_eq:
  assumes "bc_inv s" "bc_lookup s k = Some p" "(b_our_addr e, b_peer_addr e) = k" "b_type e = BCE_CACHED"
    and "t = tsadd (tssub (b_lifetime e) CN_BRR_BEFORE_EXPIRY_TS) (cn_now en)" "tsisset t"
    and "s0 = s\<lparr>bc_held := [BceLock p, BcLock], bc_heap := (bc_heap s)(p := e)\<rparr>"
  obtains s' where "bcache_update_expire en p s0 = Done (s'\<lparr>bc_held := [BceLock p, BcLock]\<rparr>)" "bc_inv s'"
    "bindings s' = (bindings s)(k \<mapsto> e\<lparr>b_add_time := cn_now en\<rparr>)" "same_nonces s s'"
    "pending (cn_tq s') (TqBc p) = Some t" "bc_out s' = bc_out s @ [XfrmAdd (fst k) (snd k) (b_coa e) True]"
proof -
  let ?e = "e\<lparr>b_add_time := cn_now en\<rparr>" and ?q = "add_task_abs t (TqBc p) Bc_expire (cn_tq s)"
  let ?s = "s\<lparr>bc_heap := (bc_heap s)(p := ?e), cn_tq := ?q, bc_out := bc_out s @ [XfrmAdd (fst k) (snd k) (b_coa e) True]\<rparr>"
  have p: "p \<in> bc_alive s" using bc_lookup_alive [OF assms(1,2)] by blast
  have q: "tq_inv ?q" "pending ?q = (pending (cn_tq s))(TqBc p \<mapsto> t)"
    by (rule timer_armed [OF assms(1,6)])+
  have k: "(b_our_addr ?e, b_peer_addr ?e) = k" "b_type ?e \<noteq> BCE_DAD" using assms(3,4) by simp_all
  note U = bc_update [OF assms(1,2) k assms(6) refl q]
  have f: "fst k = b_our_addr e" "snd k = b_peer_addr e" using assms(3) by auto
  have ty: "e\<lparr>b_add_time := cn_now en, b_type := BCE_CACHED\<rparr> = ?e" using assms(4) by (cases e) simp
  let ?s1 = "s0\<lparr>bc_heap := (bc_heap s)(p := ?e)\<rparr>"
  have m: "bc_modify p (b_add_time_update (\<lambda>_. cn_now en)) s0 = Done ?s1" "bc_modify p (b_type_update (\<lambda>_. BCE_CACHED)) ?s1 = Done ?s1"
    using p ty by (simp_all add: bc_modify_def assms(7))
  have h1: "bc_heap ?s1 p = ?e" by simp
  have "bcache_update_expire en p s0 = Done (bc_emit (XfrmAdd (b_our_addr ?e) (b_peer_addr ?e) (b_coa ?e) True)
      (?s1\<lparr>cn_tq := add_task_abs (tsadd (tssub (b_lifetime ?e) CN_BRR_BEFORE_EXPIRY_TS) (b_add_time ?e)) (TqBc p) Bc_expire (cn_tq ?s1)\<rparr>))"
    using assms(4) unfolding bcache_update_expire_def m andThen_simps h1 Let_def by simp
  also have "\<dots> = Done (?s\<lparr>bc_held := [BceLock p, BcLock]\<rparr>)" by (simp add: bc_emit_def assms(5,7) f)
  finally have "bcache_update_expire en p s0 = Done (?s\<lparr>bc_held := [BceLock p, BcLock]\<rparr>)" .
  then show thesis by (rule that) (use U q in simp_all)
qed

text \<open>A new binding: allocation, the fields, insertion.\<close>

lemma bcache_add_eq:
  assumes "bc_inv s" "k = (b_our_addr e, b_peer_addr e)" "bc_lookup s k = None" "b_type e = BCE_CACHED" "b_unreach e = 0" "cn_mem en" "cn_mem_node en"
    and "t = tsadd (cn_now en) (tssub (b_lifetime e) CN_BRR_BEFORE_EXPIRY_TS)" "tsisset t"
    and "bcache_alloc en s = (Some p, s0)" "s1 = s0\<lparr>bc_heap := (bc_heap s0)(p := e)\<rparr>"
  obtains s' where "bcache_add en p s1 = Done (0, s')" "bc_inv s'" "bindings s' = (bindings s)(k \<mapsto> e\<lparr>b_add_time := cn_now en\<rparr>)" "same_nonces s s'"
    "pending (cn_tq s') (TqBc p) = Some t" "bc_out s' = bc_out s @ [XfrmAdd (fst k) (snd k) (b_coa e) False]" "bc_lookup s' k = Some p"
proof -
  let ?e = "e\<lparr>b_add_time := cn_now en\<rparr>" and ?q = "add_task_abs t (TqBc p) Bc_expire (cn_tq s)"
  have a: "p = bc_brk s" "s0 = s\<lparr>bc_heap := (bc_heap s)(p := bcentry_zero), bc_alive := insert p (bc_alive s), bc_brk := bc_brk s + 1\<rparr>"
    using assms(6,10) by (auto simp: bcache_alloc_def)
  have pa: "p \<notin> bc_alive s" using bc_invD(3) [OF assms(1)] a(1) by blast
  obtain r h where h: "hash_add True ((bc_rd s)(p := k)) (bc_hash s) p = (r, h)" by fastforce
  let ?s = "s\<lparr>bc_heap := (bc_heap s)(p := ?e), bc_alive := insert p (bc_alive s), bc_brk := bc_brk s + 1, bc_hash := h, cn_tq := ?q,
      bc_out := bc_out s @ [XfrmAdd (fst k) (snd k) (b_coa e) False]\<rparr>"
  have q: "tq_inv ?q" "pending ?q = (pending (cn_tq s))(TqBc p \<mapsto> t)" by (rule timer_armed [OF assms(1,9)])+
  have k: "k = (b_our_addr ?e, b_peer_addr ?e)" "b_type ?e \<noteq> BCE_DAD" using assms(2,4) by simp_all
  note I = bc_insert [OF assms(1) k(1) assms(3) k(2) pa, of "bc_brk s + 1", OF _ _ h refl q]
  have i: "r = 0" "bc_inv ?s" "bindings ?s = (bindings s)(k \<mapsto> ?e)" "same_nonces s ?s" using I a(1) by simp_all
  have s1: "s1 = s\<lparr>bc_heap := (bc_heap s)(p := e), bc_alive := insert p (bc_alive s), bc_brk := bc_brk s + 1\<rparr>" by (simp add: assms(11) a(2))
  have u: "e\<lparr>b_unreach := 0\<rparr> = e" using assms(5) by (cases e) simp
  have rd: "bc_rd (s1\<lparr>bc_held := [BcLock]\<rparr>) = (bc_rd s)(p := k)" by (auto simp: s1 bc_rd_def assms(2) fun_eq_iff)
  have m: "bc_modify p (b_unreach_update (\<lambda>_. 0)) s1 = Done s1" using u by (simp add: bc_modify_def s1)
  have ac: "bc_acquire BcLock s1 = Done (s1\<lparr>bc_held := [BcLock]\<rparr>)" using bc_invD(5) [OF assms(1)] by (simp add: bc_acquire_def s1)
  have ins: "bcache_insert en p (s1\<lparr>bc_held := [BcLock]\<rparr>) = (0, s1\<lparr>bc_held := [BcLock], bc_hash := h\<rparr>)"
    using h i(1) assms(7) by (simp add: bcache_insert_def rd) (simp add: s1)
  have st: "bcache_start en p (s1\<lparr>bc_held := [BcLock], bc_hash := h\<rparr>) = Done (?s\<lparr>bc_held := [BcLock]\<rparr>)"
    using assms(4) by (simp add: bcache_start_def bc_modify_def s1 bc_emit_def Let_def assms(2,8))
  have "bcache_add en p s1 = Done (0, ?s)"
    unfolding bcache_add_def m andThen_simps ac ins using idle [OF i(2)] by (simp add: st bc_release_def)
  moreover have "bc_lookup ?s k = Some p"
  proof -
    have "p \<in> bc_entries ?s" using bc_invD(6) [OF i(2), of p] q(2) by simp
    then show ?thesis using bc_lookup_iff [OF i(2), of k p] k(1) by (simp add: bc_rd_def)
  qed
  ultimately show thesis by (intro that) (use i q in simp_all)
qed

text \<open>Deletion, which leaves a block on the nonce of a cached binding when the nonce is still there.\<close>

definition blocked :: "bcentry \<Rightarrow> bc_state \<Rightarrow> timespec option" where
  "blocked e s = (if b_type e = BCE_CACHED \<or> b_type e = BCE_CACHE_DYING then rr_cn_nonce_lft (b_nonce_hoa e) s else None)"

definition after_delete :: "bcentry \<Rightarrow> bc_state \<Rightarrow> bcentry option" where
  "after_delete e s = (if blocked e s = None then None else Some (e\<lparr>b_type := BCE_NONCE_BLOCK\<rparr>))"

text \<open>The queue may lack the timer of the binding, as it does while that timer runs.\<close>

definition tq_but :: "cn_timer \<Rightarrow> bc_state \<Rightarrow> (cn_timer, cn_task) tqueue \<Rightarrow> bool" where
  "tq_but i s q \<longleftrightarrow> tq_inv q \<and> (\<forall>x. (pending q)(i := x) = (pending (cn_tq s))(i := x))"

lemma tq_but_same: "bc_inv s \<Longrightarrow> tq_but i s (cn_tq s)"
  by (simp add: tq_but_def bc_invD(4))

lemma tq_but_pop:
  assumes "bc_inv s" "runner_pop now (cn_tq s) = Some (i, q)"
  shows "tq_but i s q" "\<not> task_interrupted q" "\<exists>e. pending (cn_tq s) i = Some e \<and> e \<le> now"
proof -
  show "tq_but i s q"
    using runner_pop_pending [OF bc_invD(4) [OF assms(1)] assms(2)] runner_pop_inv [OF bc_invD(4) [OF assms(1)] assms(2)] by (auto simp: tq_but_def)
  show "\<not> task_interrupted q" using assms(2) by (auto simp: runner_pop_def task_interrupted_def split: list.splits if_splits)
  show "\<exists>e. pending (cn_tq s) i = Some e \<and> e \<le> now"
    using runner_pop_pending [OF bc_invD(4) [OF assms(1)] assms(2)] by blast
qed

lemma tq_but_add:
  assumes "tq_but i s q" "tsisset t"
  shows "tq_inv (add_task_abs t i x q)" "pending (add_task_abs t i x q) = (pending (cn_tq s))(i \<mapsto> t)"
  using assms add_task_abs_inv [of q t i x] add_task_abs_pending [of q t i x] by (simp_all add: tq_but_def)

lemma tq_but_del:
  assumes "tq_but i s q"
  shows "tq_but i s (del_task i q)" "pending (del_task i q) = (pending (cn_tq s))(i := None)"
  using assms del_task_inv [of q i] del_task_pending [of q i] by (simp_all add: tq_but_def)

lemma bce_delete_eq:
  assumes "bc_inv s" "bc_lookup s k = Some p" "e = bc_heap s p" "b_type e \<noteq> BCE_DAD" "\<not> b_cleanup e"
    and "\<And>t. b = Some t \<Longrightarrow> tsisset t" "b = (if fl then None else blocked e s)" "tq_but (TqBc p) s q0"
  obtains s' where "bce_delete p fl (s\<lparr>cn_tq := q0, bc_held := [BcLock]\<rparr>) = Done (s'\<lparr>bc_held := [BcLock]\<rparr>)" "bc_inv s'"
    "bindings s' = (bindings s)(k := (if b = None then None else Some (e\<lparr>b_type := BCE_NONCE_BLOCK\<rparr>)))" "same_nonces s s'"
    "pending (cn_tq s') = (pending (cn_tq s))(TqBc p := b)"
    "bc_out s' = bc_out s @ (if b_type e = BCE_NONCE_BLOCK then [] else [XfrmDel (fst k) (snd k)])"
proof -
  note p = bc_lookup_alive [OF assms(1,2)]
  have k: "b_our_addr e = fst k" "b_peer_addr e = snd k" using p by (auto simp: bc_rd_def assms(3))
  let ?q = "del_task (TqBc p) q0" and ?o = "bc_out s @ (if b_type e = BCE_NONCE_BLOCK then [] else [XfrmDel (fst k) (snd k)])"
  let ?s1 = "s\<lparr>bc_held := [BceLock p, BcLock], cn_tq := ?q, bc_out := ?o\<rparr>"
  note q = tq_but_del [OF assms(8)]
  have b: "(if \<not> fl \<and> (b_type e = BCE_CACHED \<or> b_type e = BCE_CACHE_DYING) then rr_cn_nonce_lft (b_nonce_hoa e) ?s1 else None) = b"
    by (simp add: assms(7) blocked_def rr_cn_nonce_lft_def get_nonce_def)
  have start: "bce_delete p fl (s\<lparr>cn_tq := q0, bc_held := [BcLock]\<rparr>) = (case b of
      Some t \<Rightarrow> andThen (bc_modify p (b_type_update (\<lambda>_. BCE_NONCE_BLOCK)) ?s1) (\<lambda>s.
                Done (bc_release (BceLock p) (s\<lparr>cn_tq := add_task_abs t (TqBc p) Bc_expire (cn_tq s)\<rparr>)))
    | None \<Rightarrow> Done (bcache_free p (bc_release (BceLock p) (?s1\<lparr>bc_hash := hash_delete (bc_rd ?s1) (bc_hash ?s1) (b_our_addr e) (b_peer_addr e)\<rparr>))))"
    unfolding b [symmetric] using p assms(4,5)
    by (simp add: bce_delete_def bc_deref_def bc_acquire_def bc_emit_def Let_def k assms(3) [symmetric] cong: option.case_cong)
  show thesis
  proof (cases b)
    case None
    let ?s = "s\<lparr>bc_hash := hash_delete (bc_rd s) (bc_hash s) (fst k) (snd k), bc_alive := bc_alive s - {p}, cn_tq := ?q, bc_out := ?o\<rparr>"
    have "tq_inv ?q" using q(1) by (simp add: tq_but_def)
    note R = bc_remove [OF assms(1,2) refl this q(2), of ?o]
    have "bc_rd ?s1 = bc_rd s" by (rule bc_rd_cong) simp
    then have "bce_delete p fl (s\<lparr>cn_tq := q0, bc_held := [BcLock]\<rparr>) = Done (?s\<lparr>bc_held := [BcLock]\<rparr>)"
      unfolding start None by (simp add: bcache_free_def bc_release_def k)
    then show thesis by (rule that) (use R q None in simp_all)
  next
    case (Some t)
    let ?e = "e\<lparr>b_type := BCE_NONCE_BLOCK\<rparr>" and ?q2 = "add_task_abs t (TqBc p) Bc_expire ?q"
    let ?s = "s\<lparr>bc_heap := (bc_heap s)(p := ?e), cn_tq := ?q2, bc_out := ?o\<rparr>"
    have t: "tsisset t" using assms(6) Some by blast
    note q2 = tq_but_add [OF q(1) t, of Bc_expire]
    have ke: "(b_our_addr ?e, b_peer_addr ?e) = k" "b_type ?e \<noteq> BCE_DAD" using k by simp_all
    note U = bc_update [OF assms(1,2) ke t refl q2, of ?o]
    have "bce_delete p fl (s\<lparr>cn_tq := q0, bc_held := [BcLock]\<rparr>) = Done (?s\<lparr>bc_held := [BcLock]\<rparr>)"
      unfolding start Some using p by (simp add: bc_modify_def bc_release_def assms(3))
    then show thesis by (rule that) (use U q2 Some in simp_all)
  qed
qed

section \<open>The cache of a correspondent node\<close>

text \<open>No binding belongs to a home agent, and the home nonce of a binding has been made valid (or has been replaced).\<close>

definition cn_entry :: "bc_state \<Rightarrow> bcentry \<Rightarrow> bool" where
  "cn_entry s e \<longleftrightarrow> b_type e \<in> {BCE_NONCE_BLOCK, BCE_CACHED, BCE_CACHE_DYING} \<and> \<not> b_cleanup e \<and> (\<forall>t. blocked e s = Some t \<longrightarrow> tsisset t)"

definition cn_inv :: "bc_state \<Rightarrow> bool" where
  "cn_inv s \<longleftrightarrow> bc_inv s \<and> (\<forall>k e. bindings s k = Some e \<longrightarrow> cn_entry s e)"

lemma cn_entry_cong: "same_nonces s s' \<Longrightarrow> cn_entry s' e = cn_entry s e"
  by (simp add: cn_entry_def blocked_def rr_cn_nonce_lft_def get_nonce_def same_nonces_def)

lemma cn_invI:
  assumes "cn_inv s" "same_nonces s s'" "bc_inv s'" "bindings s' = (bindings s)(k := x)" "\<And>e. x = Some e \<Longrightarrow> cn_entry s e"
  shows "cn_inv s'"
  using assms by (auto simp: cn_inv_def cn_entry_cong split: if_splits)

lemma cn_entry_block: "cn_entry s e \<Longrightarrow> after_delete e s = Some e' \<Longrightarrow> cn_entry s e'"
  by (auto simp: after_delete_def cn_entry_def blocked_def split: if_splits)

lemma cn_lookup:
  assumes "cn_inv s" "bc_lookup s k = Some p"
  shows "bindings s k = Some (bc_heap s p)" "cn_entry s (bc_heap s p)" "b_type (bc_heap s p) \<noteq> BCE_DAD" "\<not> b_cleanup (bc_heap s p)"
    "\<And>t. blocked (bc_heap s p) s = Some t \<Longrightarrow> tsisset t"
proof -
  show "bindings s k = Some (bc_heap s p)" using assms(2) by (simp add: bindings_def)
  then show "cn_entry s (bc_heap s p)" using assms(1) unfolding cn_inv_def by blast
  then show "b_type (bc_heap s p) \<noteq> BCE_DAD" "\<not> b_cleanup (bc_heap s p)" "\<And>t. blocked (bc_heap s p) s = Some t \<Longrightarrow> tsisset t"
    by (auto simp: cn_entry_def)
qed

lemma bcache_delete_eq:
  assumes "cn_inv s"
  obtains s' where "bcache_delete (fst k) (snd k) s = Done s'" "cn_inv s'" "same_nonces s s'"
    "bindings s' = (bindings s)(k := Option.bind (bindings s k) (\<lambda>e. after_delete e s))" "\<exists>es. bc_out s' = bc_out s @ es"
proof -
  have I: "bc_inv s" using assms by (simp add: cn_inv_def)
  have r: "bc_rd (s\<lparr>bc_held := h\<rparr>) = bc_rd s" for h by (rule bc_rd_cong) simp
  show thesis
  proof (cases "bc_lookup s k")
    case None
    then have "bcache_delete (fst k) (snd k) s = Done s" using idle [OF I] bc_invD(5) [OF I]
      by (simp add: bcache_delete_def bc_acquire_def bc_release_def r bc_lookup_def)
    then show thesis by (rule that) (use assms None in \<open>auto simp: same_nonces_def bindings_def\<close>)
  next
    case (Some p)
    note L = cn_lookup [OF assms Some]
    obtain s' where d: "bce_delete p False (s\<lparr>cn_tq := cn_tq s, bc_held := [BcLock]\<rparr>) = Done (s'\<lparr>bc_held := [BcLock]\<rparr>)" "bc_inv s'"
        "bindings s' = (bindings s)(k := after_delete (bc_heap s p) s)" "same_nonces s s'"
        "bc_out s' = bc_out s @ (if b_type (bc_heap s p) = BCE_NONCE_BLOCK then [] else [XfrmDel (fst k) (snd k)])"
      using bce_delete_eq [where fl = False, OF I Some refl L(3-5) if_False [symmetric] tq_but_same [OF I], folded after_delete_def] by blast
    have "bcache_delete (fst k) (snd k) s = Done s'" using Some d(1) idle [OF d(2)] bc_invD(5) [OF I]
      by (simp add: bcache_delete_def bc_acquire_def bc_release_def r bc_lookup_def)
    then show thesis by (rule that) (use d L cn_invI [OF assms d(4,2,3)] cn_entry_block in auto)
  qed
qed

text \<open>The message that asks a mobile node for a refresh.\<close>

definition refresh_request :: "cn_env \<Rightarrow> in6_addr \<times> in6_addr \<Rightarrow> bc_effect list" where
  "refresh_request en k = (if cn_mem en \<and> xfrm_last_used en (snd k) (fst k) \<in> {0..60}
     then [CnSend \<lparr>ab_src = fst k, ab_dst = snd k, ab_local_coa = None, ab_remote_coa = None, ab_bind_coa = None\<rparr> [IPPROTO_NONE, 0, 0, 0, 0, 0, 0, 0]] else [])"

lemma mh_send_brr_eq: "mh_send_brr en (snd k) (fst k) s = Done (s\<lparr>bc_out := bc_out s @ refresh_request en k\<rparr>)"
proof -
  have "mh_create m IP6_MH_TYPE_BRR = Done (if m then Some [IPPROTO_NONE, 0, 0, 0, 0, 0, 0, 0] else None)" for m
    by (simp add: mh_create_def mh_len_def numeral_eq_Suc)
  moreover have "mh_send cr a [[IPPROTO_NONE, 0, 0, 0, 0, 0, 0, 0]] None = Done [IPPROTO_NONE, 0, 0, 0, 0, 0, 0, 0]" for cr a
    by (simp add: mh_send_def mh_fill_def mh_try_pad_def try_pad_def optpad_def create_opt_pad_def mh_length_def Let_def)
  ultimately show ?thesis by (auto simp: mh_send_brr_def refresh_request_def bc_emit_def Let_def)
qed

text \<open>C40: the life of a binding refines a small machine.  When the timer of a binding runs, a cached binding becomes a dying one, the mobile node
  is asked to refresh it when traffic has used it in the last minute, and the timer runs again after two seconds;
  a dying binding blocks its home nonce until that nonce ends (and vanishes at once when it has ended); a block vanishes.
  No other binding and no nonce changes, no lock stays held, and the cache stays well-formed.\<close>

theorem cached_binding_expires:
  assumes "cn_inv s" "bc_lookup s k = Some p" "bindings s k = Some e" "runner_pop (cn_now en) (cn_tq s) = Some (TqBc p, q)" "0 < tv_sec (cn_now en)"
  shows "\<exists>s'. bc_expire en p (s\<lparr>cn_tq := q\<rparr>) = Done s' \<and> cn_inv s' \<and> same_nonces s s'
    \<and> bindings s' = (bindings s)(k := (if b_type e = BCE_CACHED then Some (e\<lparr>b_type := BCE_CACHE_DYING\<rparr>) else after_delete e s))
    \<and> pending (cn_tq s') (TqBc p) = (if b_type e = BCE_CACHED then Some (tsadd (cn_now en) (TS 2 0)) else blocked e s)
    \<and> bc_out s' = bc_out s @ (if b_type e = BCE_CACHED then refresh_request en k
                               else if b_type e = BCE_NONCE_BLOCK then [] else [XfrmDel (fst k) (snd k)])"
proof -
  have I: "bc_inv s" using assms(1) by (simp add: cn_inv_def)
  note L = cn_lookup [OF assms(1,2)] and Q = tq_but_pop [OF I assms(4)] and p = bc_lookup_alive [OF I assms(2)]
  have e: "e = bc_heap s p" using L(1) assms(3) by simp
  have k: "b_our_addr e = fst k" "b_peer_addr e = snd k" using p by (auto simp: bc_rd_def e)
  show ?thesis
  proof (cases "b_type e = BCE_CACHED")
    case True
    let ?e = "e\<lparr>b_type := BCE_CACHE_DYING\<rparr>" and ?t = "tsadd (cn_now en) (TS 2 0)"
    let ?o = "bc_out s @ refresh_request en k" and ?q = "add_task_rel (cn_now en) (TS 2 0) (TqBc p) Bc_expire q"
    let ?s = "s\<lparr>bc_heap := (bc_heap s)(p := ?e), cn_tq := ?q, bc_out := ?o\<rparr>"
    have t: "tsisset ?t" using tsadd_sec(3) [OF assms(5), of 2] by simp
    have q: "tq_inv ?q" "pending ?q = (pending (cn_tq s))(TqBc p \<mapsto> ?t)" using tq_but_add [OF Q(1) t] by (simp_all add: add_task_rel_def)
    have ke: "(b_our_addr ?e, b_peer_addr ?e) = k" "b_type ?e \<noteq> BCE_DAD" using k by simp_all
    note U = bc_update [OF I assms(2) ke t refl q, of ?o]
    have c: "cn_entry s ?e" using L(2) True by (auto simp: cn_entry_def e blocked_def)
    have "bc_expire en p (s\<lparr>cn_tq := q\<rparr>) = Done ?s"
      using True Q(2) p bc_invD(5) [OF I]
      by (auto simp: bc_expire_def bc_acquire_def bc_deref_def bc_modify_def mh_send_brr_eq bc_release_def e [symmetric] k Let_def)
    moreover have "cn_inv ?s" by (rule cn_invI [OF assms(1) U(3,1,2)]) (use c in auto)
    ultimately show ?thesis using U q True by auto
  next
    case False
    obtain s' where d: "bce_delete p False (s\<lparr>cn_tq := q, bc_held := [BcLock]\<rparr>) = Done (s'\<lparr>bc_held := [BcLock]\<rparr>)" "bc_inv s'"
        "bindings s' = (bindings s)(k := after_delete e s)" "same_nonces s s'"
        "pending (cn_tq s') = (pending (cn_tq s))(TqBc p := blocked e s)"
        "bc_out s' = bc_out s @ (if b_type e = BCE_NONCE_BLOCK then [] else [XfrmDel (fst k) (snd k)])"
      using bce_delete_eq [where fl = False, OF I assms(2) e L(3-5) [folded e] if_False [symmetric] Q(1), folded after_delete_def] by blast
    have "bc_expire en p (s\<lparr>cn_tq := q\<rparr>) = Done s'" using False d(1) Q(2) p bc_invD(5) [OF I] idle [OF d(2)]
      by (simp add: bc_expire_def bc_acquire_def bc_deref_def bc_release_def e)
    moreover have "cn_inv s'" by (rule cn_invI [OF assms(1) d(4,2,3)]) (use cn_entry_block L(2) e in auto)
    ultimately show ?thesis using d False by simp
  qed
qed

section \<open>Starting and flushing\<close>

lemma bcache_init_inv:
  assumes "tq_inv (cn_tq s)" "\<forall>p. pending (cn_tq s) (TqBc p) = None" "bc_held s = []" "\<forall>p \<in> bc_alive s. p < bc_brk s" "cn_mem en"
  obtains s' where "bcache_init en s = Done (0, s')" "cn_inv s'" "bindings s' = Map.empty" "same_nonces s s'" "cn_tq s' = cn_tq s"
proof -
  obtain h :: "nat hash" where h: "hash_init True DOUBLE_ADDR BCACHE_BUCKETS = Done (0, Some h)" "table_elems h = []"
    by (simp add: hash_init_def table_elems_def)
  have w: "hash_wf rd h" for rd by (rule hash_init_wf [OF h(1)])
  let ?s = "s\<lparr>bc_hash := h\<rparr>"
  have I: "bc_inv ?s" using assms w h(2) by (simp add: bc_inv_def)
  have "bcache_init en s = Done (0, ?s)" using assms(3,5) h(1) idle [OF I] by (simp add: bcache_init_def bc_acquire_def bc_release_def)
  moreover have b: "bindings ?s = Map.empty" using bc_lookup_iff [OF I] h(2) by (auto simp: bindings_def fun_eq_iff not_Some_eq [symmetric])
  ultimately show thesis by (intro that [of ?s]) (use I b in \<open>simp_all add: cn_inv_def same_nonces_def\<close>)
qed

lemma flush_fold:
  assumes "cn_inv s" "distinct ps" "set ps \<subseteq> bc_entries s"
  obtains s' where "fold (\<lambda>p s. snd (bce_cleanup p s)) ps (Done (s\<lparr>bc_held := [BcLock]\<rparr>)) = Done (s'\<lparr>bc_held := [BcLock]\<rparr>)"
    "cn_inv s'" "bc_entries s' = bc_entries s - set ps" "same_nonces s s'"
  using assms
proof (induction ps arbitrary: s thesis)
  case Nil
  show ?case by (rule Nil(1) [of s]) (use Nil(2) in \<open>simp_all add: same_nonces_def\<close>)
next
  case (Cons p ps)
  have I: "bc_inv s" using Cons.prems(2) by (simp add: cn_inv_def)
  have l: "bc_lookup s (bc_rd s p) = Some p" using Cons.prems(4) bc_lookup_iff [OF I] by simp
  note L = cn_lookup [OF Cons.prems(2) l]
  obtain s1 where s1: "bce_delete p True (s\<lparr>cn_tq := cn_tq s, bc_held := [BcLock]\<rparr>) = Done (s1\<lparr>bc_held := [BcLock]\<rparr>)" "bc_inv s1"
      "bindings s1 = (bindings s)(bc_rd s p := None)" "same_nonces s s1" "pending (cn_tq s1) = (pending (cn_tq s))(TqBc p := None)"
    using bce_delete_eq [where fl = True and b = None, OF I l refl L(3,4) _ _ tq_but_same [OF I]] by auto
  have c: "cn_inv s1" by (rule cn_invI [OF Cons.prems(2) s1(4,2,3)]) simp
  have dad: "b_type (bc_heap s q) \<noteq> BCE_DAD" if "bc_inv s" "cn_inv s" "q \<in> bc_entries s" for s q
    using cn_lookup(3) [OF that(2)] bc_lookup_iff [OF that(1)] that(3) by blast
  have "q \<in> bc_entries s1 \<longleftrightarrow> q \<in> bc_entries s - {p}" for q
    using bc_invD(6) [OF I, of q] bc_invD(6) [OF s1(2), of q] dad [OF I Cons.prems(2), of q] dad [OF s1(2) c, of q] s1(5) by (auto split: if_splits)
  then have en: "bc_entries s1 = bc_entries s - {p}" by blast
  obtain s' where s': "fold (\<lambda>p s. snd (bce_cleanup p s)) ps (Done (s1\<lparr>bc_held := [BcLock]\<rparr>)) = Done (s'\<lparr>bc_held := [BcLock]\<rparr>)"
      "cn_inv s'" "bc_entries s' = bc_entries s1 - set ps" "same_nonces s1 s'"
    using Cons.IH [OF _ c] Cons.prems(3,4) en by (metis Diff_insert_absorb Diff_mono distinct.simps(2) list.simps(15) order_refl)
  show ?case
  proof (rule Cons.prems(1))
    show "fold (\<lambda>p s. snd (bce_cleanup p s)) (p # ps) (Done (s\<lparr>bc_held := [BcLock]\<rparr>)) = Done (s'\<lparr>bc_held := [BcLock]\<rparr>)"
      using s1(1) s'(1) by (simp add: bce_cleanup_def)
  qed (use s' s1(4) en in \<open>auto simp: same_nonces_def\<close>)
qed

text \<open>A flush leaves no binding, no timer of a binding and no lock.\<close>

lemma bcache_flush_eq:
  assumes "cn_inv s"
  obtains s' where "bcache_flush s = Done s'" "cn_inv s'" "bindings s' = Map.empty" "\<forall>p. pending (cn_tq s') (TqBc p) = None" "same_nonces s s'"
proof -
  have I: "bc_inv s" using assms by (simp add: cn_inv_def)
  have "distinct (table_elems (bc_hash s))" using bc_invD(1) [OF I] dbl.cinv_distinct by (auto simp: hash_wf_def)
  then obtain s' where s': "fold (\<lambda>p s. snd (bce_cleanup p s)) (table_elems (bc_hash s)) (Done (s\<lparr>bc_held := [BcLock]\<rparr>)) = Done (s'\<lparr>bc_held := [BcLock]\<rparr>)"
      "cn_inv s'" "bc_entries s' = {}" "same_nonces s s'"
    using flush_fold [OF assms, of "table_elems (bc_hash s)"] by (metis Diff_cancel order_refl)
  have I': "bc_inv s'" using s'(2) by (simp add: cn_inv_def)
  have z: "fst (bce_cleanup p m) = 0" for p m by (simp add: bce_cleanup_def)
  have "bcache_flush s = Done s'" using s'(1) idle [OF I'] bc_invD(5) [OF I]
    by (simp add: bcache_flush_def bc_acquire_def bc_release_def hash_iterate_def table_iterate_elems chain_iterate_total [OF z])
  moreover have "bindings s' = Map.empty" using bc_lookup_iff [OF I'] s'(3) by (auto simp: bindings_def fun_eq_iff not_Some_eq [symmetric])
  ultimately show thesis by (intro that [of s']) (use s' bc_invD(6) [OF I'] in auto)
qed

section \<open>An example\<close>

definition bc_boot :: bc_state where
  "bc_boot = kg_state.extend (kg_at 1) \<lparr>bc_heap = \<lambda>_. bcentry_zero, bc_alive = {}, bc_brk = 0,
     bc_hash = \<lparr>buckets = BCACHE_BUCKETS, hash_buckets = replicate BCACHE_BUCKETS [], hash_type = DOUBLE_ADDR\<rparr>, bc_out = [], bc_held = []\<rparr>"

definition cn_env_example :: cn_env where
  "cn_env_example = \<lparr>cn_now = TS 100 0, cn_mem = True, cn_mem_node = True, xfrm_last_used = \<lambda>_ _. 7, cn_crypto = \<lparr>hmac_sha1 = \<lambda>k m. take 20 (k @ m @ replicate 20 0), sha1 = \<lambda>m. take 20 (m @ replicate 20 0)\<rparr>\<rparr>"

lemma bc_boot_inv: "cn_inv bc_boot" "bindings bc_boot = Map.empty" "pending (cn_tq bc_boot) i = None" "bc_lookup bc_boot k = None"
proof -
  have f: "cn_tq bc_boot = tq_init" "bc_held bc_boot = []" "bc_alive bc_boot = {}" by (simp_all add: bc_boot_def kg_at_def kg_state.defs)
  have p: "pending (cn_tq bc_boot) i = None" for i by (simp add: f pending_def tq_init_def)
  then show "pending (cn_tq bc_boot) i = None" .
  obtain s' where "bcache_init cn_env_example bc_boot = Done (0, s')" "cn_inv s'" "bindings s' = Map.empty"
    by (rule bcache_init_inv [of bc_boot cn_env_example]) (use f p in \<open>simp_all add: tq_inv_init cn_env_example_def\<close>)
  moreover have "bcache_init cn_env_example bc_boot = Done (0, bc_boot)"
    by (simp add: bcache_init_def bc_acquire_def bc_release_def hash_init_def cn_env_example_def bc_boot_def kg_state.defs)
  ultimately show b: "cn_inv bc_boot" "bindings bc_boot = Map.empty" by auto
  show "bc_lookup bc_boot k = None" using fun_cong [OF b(2), of k] by (simp add: bindings_def [of bc_boot])
qed

theorem cached_binding_expires_witness:
  "\<exists>en s k p e q s'. cn_inv s \<and> bindings s k = Some e \<and> b_type e = BCE_CACHED \<and> runner_pop (cn_now en) (cn_tq s) = Some (TqBc p, q)
    \<and> bc_expire en p (s\<lparr>cn_tq := q\<rparr>) = Done s' \<and> cn_inv s' \<and> bindings s' k = Some (e\<lparr>b_type := BCE_CACHE_DYING\<rparr>)
    \<and> bc_out s' = bc_out s @ refresh_request en k \<and> refresh_request en k \<noteq> []"
proof -
  let ?en = "cn_env_example" and ?en' = "cn_env_example\<lparr>cn_now := TS 600 0\<rparr>"
  let ?e = "bcentry_zero\<lparr>b_type := BCE_CACHED, b_lifetime := TS 420 0\<rparr>" and ?k = "(in6addr_any, in6addr_any)"
  have I: "bc_inv bc_boot" using bc_boot_inv(1) by (simp add: cn_inv_def)
  obtain p s0 where a: "bcache_alloc ?en bc_boot = (Some p, s0)" by (simp add: bcache_alloc_def cn_env_example_def)
  have t: "TS 518 0 = tsadd (cn_now ?en) (tssub (b_lifetime ?e) (TS 2 0))" "tsisset (TS 518 0)" "TS 518 0 \<le> TS 600 0"
    by (simp_all add: cn_env_example_def ts_simps less_eq_timespec_def del: tsafter_less)
  obtain s where s: "bcache_add ?en p (s0\<lparr>bc_heap := (bc_heap s0)(p := ?e)\<rparr>) = Done (0, s)" "bc_inv s"
      "bindings s = (bindings bc_boot)(?k \<mapsto> ?e\<lparr>b_add_time := cn_now ?en\<rparr>)" "same_nonces bc_boot s"
      "pending (cn_tq s) (TqBc p) = Some (TS 518 0)" "bc_lookup s ?k = Some p"
    by (rule bcache_add_eq [OF I _ bc_boot_inv(4) _ _ _ _ t(1,2) a refl, of ?k]) (simp_all add: bcentry_zero_def cn_env_example_def)
  have c: "cn_inv s"
    by (rule cn_invI [OF bc_boot_inv(1) s(4,2,3)])
      (auto simp: cn_entry_def bcentry_zero_def blocked_def rr_cn_nonce_lft_def get_nonce_def bc_boot_def kg_at_def kg_state.defs)
  have only: "j = TqBc p" if "pending (cn_tq s) j \<noteq> None" for j
  proof (cases j)
    case (TqNonce i)
    then show ?thesis using that s(4) bc_boot_inv(3) by (simp add: same_nonces_def)
  next
    case (TqBc p')
    then have "bc_lookup s (bc_rd s p') = Some p'" using that bc_invD(6) [OF s(2)] bc_lookup_iff [OF s(2)] by simp
    then have "bindings s (bc_rd s p') \<noteq> None" by (simp add: bindings_def)
    then have "bc_rd s p' = ?k" using s(3) bc_boot_inv(2) by (simp split: if_splits)
    then show ?thesis using \<open>bc_lookup s (bc_rd s p') = Some p'\<close> s(6) TqBc by simp
  qed
  have "runner_pop (TS 600 0) (cn_tq s) \<noteq> None" using runner_pop_None_iff [OF bc_invD(4) [OF s(2)]] s(5) t(3) by (auto simp: not_less)
  then obtain j q where "runner_pop (TS 600 0) (cn_tq s) = Some (j, q)" by auto
  then have q: "runner_pop (cn_now ?en') (cn_tq s) = Some (TqBc p, q)"
    using only [of j] runner_pop_pending [OF bc_invD(4) [OF s(2)], of "TS 600 0" j q] by auto
  have e: "bindings s ?k = Some (?e\<lparr>b_add_time := cn_now ?en\<rparr>)" using s(3) by simp
  from cached_binding_expires [OF c s(6) e q] obtain s' where
    "bc_expire ?en' p (s\<lparr>cn_tq := q\<rparr>) = Done s'" "cn_inv s'" "bindings s' ?k = Some (?e\<lparr>b_add_time := cn_now ?en, b_type := BCE_CACHE_DYING\<rparr>)"
    "bc_out s' = bc_out s @ refresh_request ?en' ?k" "refresh_request ?en' ?k \<noteq> []"
    by (auto simp: cn_env_example_def refresh_request_def)
  then show ?thesis using c e q by (intro exI [of _ ?en'] exI [of _ s] exI [of _ ?k] exI [of _ p] exI [of _ "?e\<lparr>b_add_time := cn_now ?en\<rparr>"] exI [of _ q] exI [of _ s']) simp
qed

end
