(* ===== verification/Cn.thy ===== *)
theory Cn
  imports Bcache
begin

text \<open>
  \<open>src/src/cn.c\<close>: the correspondent node, with the parser of binding updates and the senders of \<open>src/src/mh.c\<close>: the binding
  policy, home and care-of test messages, binding updates, and unreachable destinations reported by ICMP with the
  parser of \<open>src/src/icmp6.c\<close>.  The lock of the policy table is taken and released inside one function and is left out.
\<close>

section \<open>Binding policy\<close>

abbreviation (input) IP6_MH_BAS_ACCEPTED :: int where "IP6_MH_BAS_ACCEPTED \<equiv> 0"
abbreviation (input) IP6_MH_BAS_UNSPECIFIED :: int where "IP6_MH_BAS_UNSPECIFIED \<equiv> 128"
abbreviation (input) IP6_MH_BAS_PROHIBIT :: int where "IP6_MH_BAS_PROHIBIT \<equiv> 129"
abbreviation (input) IP6_MH_BAS_INSUFFICIENT :: int where "IP6_MH_BAS_INSUFFICIENT \<equiv> 130"
abbreviation (input) IP6_MH_BAS_HA_NOT_SUPPORTED :: int where "IP6_MH_BAS_HA_NOT_SUPPORTED \<equiv> 131"
abbreviation (input) IP6_MH_BAS_SEQNO_BAD :: int where "IP6_MH_BAS_SEQNO_BAD \<equiv> 135"
abbreviation (input) IP6_MH_BAS_REG_NOT_ALLOWED :: int where "IP6_MH_BAS_REG_NOT_ALLOWED \<equiv> 139"
abbreviation (input) IP6_MH_BU_ACK :: u16 where "IP6_MH_BU_ACK \<equiv> 0x0080"
abbreviation (input) IP6_MH_BU_HOME :: u16 where "IP6_MH_BU_HOME \<equiv> 0x0040"
abbreviation (input) MAX_RR_BINDING_LIFETIME_TS :: timespec where "MAX_RR_BINDING_LIFETIME_TS \<equiv> TS 420 0"
abbreviation (input) CN_BINDING_POL_HASHSIZE :: nat where "CN_BINDING_POL_HASHSIZE \<equiv> 16"
abbreviation (input) ICMP_ERROR_PERSISTENT_THRESHOLD :: int where "ICMP_ERROR_PERSISTENT_THRESHOLD \<equiv> 3"

record cn_binding_pol_entry =
  remote_hoa :: in6_addr
  local_addr :: in6_addr
  bind_policy :: int

record cn_conf =
  DoRouteOptimizationCN :: int
  cn_binding_pol_hash :: "cn_binding_pol_entry hash"

definition pol_rd :: "cn_binding_pol_entry \<Rightarrow> in6_addr \<times> in6_addr" where
  "pol_rd pol = (in6addr_any, remote_hoa pol)"

definition cn_binding_pol_get :: "cn_conf \<Rightarrow> in6_addr \<Rightarrow> in6_addr \<Rightarrow> int" where
  "cn_binding_pol_get cf remote local =
     (case hash_get pol_rd (cn_binding_pol_hash cf) in6addr_any remote of
        None \<Rightarrow> DoRouteOptimizationCN cf
      | Some pol \<Rightarrow> if local_addr pol = in6addr_any \<or> local_addr pol = local then bind_policy pol else DoRouteOptimizationCN cf)"

definition cn_binding_pol_add :: "bool \<Rightarrow> cn_binding_pol_entry \<Rightarrow> cn_binding_pol_entry hash \<Rightarrow> int \<times> cn_binding_pol_entry hash" where
  "cn_binding_pol_add mem pol h = hash_add mem pol_rd h pol"

text \<open>The loop over the configured entries; an error frees the table.\<close>

fun pol_loop :: "bool \<Rightarrow> cn_binding_pol_entry list \<Rightarrow> cn_binding_pol_entry hash \<Rightarrow> int \<times> cn_binding_pol_entry hash option" where
  "pol_loop mem [] h = (0, Some h)"
| "pol_loop mem (pol # pols) h = (case cn_binding_pol_add mem pol h of (err, h) \<Rightarrow> if err < 0 then (err, None) else pol_loop mem pols h)"

definition cn_binding_pol_init :: "bool \<Rightarrow> cn_binding_pol_entry list \<Rightarrow> (int \<times> cn_binding_pol_entry hash option) outcome" where
  "cn_binding_pol_init mem pols =
     andThen (hash_init mem SINGLE_ADDR CN_BINDING_POL_HASHSIZE) (\<lambda>(err, h).
       Done (if err < 0 then (err, None) else pol_loop mem pols (the h)))"

section \<open>Test messages\<close>

definition cn_send :: "cn_env \<Rightarrow> in6_addr_bundle \<Rightarrow> iovec list \<Rightarrow> bc_state \<Rightarrow> bc_state outcome" where
  "cn_send en addrs vec s = andThen (mh_send (cn_crypto en) addrs vec None) (\<lambda>pkt. Done (bc_emit (CnSend addrs pkt) s))"

text \<open>\<open>cn_recv_hoti\<close> and \<open>cn_recv_coti\<close> differ in the type of the answer and the bit of the token.  The result is \<open>None\<close> when the search
  for a nonce does not end.\<close>

definition recv_test_init :: "nat \<Rightarrow> byte \<Rightarrow> cn_env \<Rightarrow> byte list \<Rightarrow> nat \<Rightarrow> in6_addr_bundle \<Rightarrow> bc_state \<Rightarrow> bc_state outcome option" where
  "recv_test_init type kbit en msg len inb s =
     (if len < 16 \<or> ab_remote_coa inb \<noteq> None then Some (Done s)
      else let out = \<lparr>ab_src = ab_dst inb, ab_dst = ab_src inb, ab_local_coa = None, ab_remote_coa = None, ab_bind_coa = None\<rparr> in
           map_option (\<lambda>r. andThen (mh_create (cn_mem en) type) (\<lambda>h. andThen r (\<lambda>(idx, keygen_token, s). case h of
               None \<Rightarrow> Fault NullDeref
             | Some h \<Rightarrow> andThen (read_bytes msg 8 8) (\<lambda>cookie.
                 cn_send en out [take 6 h @ bytes16 (htons idx) @ cookie @ keygen_token] s))))
           (rr_cn_keygen_token (cn_crypto en) (cn_now en) (ab_src inb) kbit s))"

definition cn_recv_hoti :: "cn_env \<Rightarrow> byte list \<Rightarrow> nat \<Rightarrow> in6_addr_bundle \<Rightarrow> bc_state \<Rightarrow> bc_state outcome option" where
  "cn_recv_hoti = recv_test_init IP6_MH_TYPE_HOT 0"

definition cn_recv_coti :: "cn_env \<Rightarrow> byte list \<Rightarrow> nat \<Rightarrow> in6_addr_bundle \<Rightarrow> bc_state \<Rightarrow> bc_state outcome option" where
  "cn_recv_coti = recv_test_init IP6_MH_TYPE_COT 1"

section \<open>Binding updates\<close>

definition in6_is_addr_routable_unicast :: "in6_addr \<Rightarrow> bool" where
  "in6_is_addr_routable_unicast a \<longleftrightarrow> \<not> IN6_IS_ADDR_UNSPECIFIED a \<and> a \<noteq> In6 0 0 0 0 0 0 0 0 0 0 0 0 0 0 0 1
     \<and> s6_addr a ! 0 \<noteq> 0xFF \<and> \<not> (s6_addr a ! 0 = 0xFE \<and> s6_addr a ! 1 AND 0xC0 = 0x80)"

definition MIP6_SEQ_GT :: "u16 \<Rightarrow> u16 \<Rightarrow> bool" where
  "MIP6_SEQ_GT x y \<longleftrightarrow> sint (x - y) > 0"

text \<open>The bundle for the answer, the options and the lifetime, or nothing when the update is dropped.\<close>

definition mh_bu_parse :: "byte list \<Rightarrow> nat \<Rightarrow> in6_addr_bundle \<Rightarrow> bc_state \<Rightarrow> ((in6_addr_bundle \<times> mh_options \<times> timespec) option \<times> bc_state) outcome" where
  "mh_bu_parse bu len in_addrs s =
     (if len < 12 then Done (None, s)
      else andThen (mh_opt_parse bu len 12) (\<lambda>(ret, mh_opts).
        let peer_addr = ab_src in_addrs; our_addr = ab_dst in_addrs in
        if ret < 0 then Done (None, s)
        else if \<not> in6_is_addr_routable_unicast peer_addr then Done (None, s)
        else andThen (case mh_opt mh_opts IP6_MHOPT_ALTCOA of
                        Some p \<Rightarrow> andThen (read_bytes bu (p + 2) 16) (\<lambda>b. Done (Some (in6_of b)))
                      | None \<Rightarrow> Done (ab_remote_coa in_addrs)) (\<lambda>bind_coa.
          let out = \<lparr>ab_src = our_addr, ab_dst = peer_addr, ab_local_coa = None,
                ab_remote_coa = (if ab_remote_coa in_addrs \<noteq> Some peer_addr then ab_remote_coa in_addrs else None),
                ab_bind_coa = Some (case bind_coa of None \<Rightarrow> peer_addr | Some c \<Rightarrow> c)\<rparr> in
          case bind_coa of
            None \<Rightarrow> Done (Some (out, mh_opts, tszero), s)
          | Some c \<Rightarrow>
              if \<not> in6_is_addr_routable_unicast c then Done (None, s)
              else if c = peer_addr then Done (Some (out, mh_opts, tszero), s)
              else andThen (bce_exists our_addr c s) (\<lambda>(circular, s).
                if circular then Done (None, s)
                else andThen (read_u16 bu 10) (\<lambda>l. Done (Some (out, mh_opts, TS (4 * uint (ntohs l)) 0), s))))))"

text \<open>A status (negative when the update is to be dropped), and the key the update is authenticated with.\<close>

definition nonce_indices :: "byte list \<Rightarrow> nat \<Rightarrow> (u16 \<times> u16) outcome" where
  "nonce_indices bu p = andThen (read_u16 bu (p + 2)) (\<lambda>h. andThen (read_u16 bu (p + 4)) (\<lambda>c. Done (ntohs h, ntohs c)))"

definition clear_cksum :: "byte list \<Rightarrow> byte list" where
  "clear_cksum bu = bu[4 := 0, 5 := 0]"

definition cn_bu_check :: "cn_env \<Rightarrow> byte list \<Rightarrow> nat \<Rightarrow> mh_options \<Rightarrow> in6_addr \<Rightarrow> in6_addr \<Rightarrow> in6_addr \<Rightarrow> timespec \<Rightarrow> bc_state
    \<Rightarrow> (int \<times> byte list option \<times> bc_state) outcome" where
  "cn_bu_check en bu len mh_opts peer_addr our_addr bind_coa lifetime s =
     andThen (read_u16 bu 8) (\<lambda>flags.
       if flags AND IP6_MH_BU_HOME \<noteq> 0 then
         if mh_opt mh_opts IP6_MHOPT_NONCEID \<noteq> None then Done (- 1, None, s)
         else andThen (bce_exists our_addr peer_addr s) (\<lambda>(ex, s).
                Done (if ex then IP6_MH_BAS_REG_NOT_ALLOWED else IP6_MH_BAS_HA_NOT_SUPPORTED, None, s))
       else case mh_opt mh_opts IP6_MHOPT_NONCEID of
         None \<Rightarrow> Done (- 1, None, s)
       | Some p \<Rightarrow> andThen (nonce_indices bu p) (\<lambda>(home_nonce, coa_nonce).
           case (if tsisset lifetime then rr_cn_calc_Kbm (cn_crypto en) (cn_now en) home_nonce coa_nonce peer_addr (Some bind_coa) s
                 else rr_cn_calc_Kbm (cn_crypto en) (cn_now en) home_nonce 0 peer_addr None s) of (ret, key) \<Rightarrow>
             if ret \<noteq> 0 then Done (ret, key, s)
             else case mh_opt mh_opts IP6_MHOPT_BAUTH of
               None \<Rightarrow> Done (- 1, key, s)
             | Some b \<Rightarrow> andThen (mh_verify_auth_data (cn_crypto en) (clear_cksum bu) len b bind_coa our_addr (the key)) (\<lambda>r.
                 Done (if r < 0 then - 1 else IP6_MH_BAS_ACCEPTED, key, s))))"

text \<open>Sending an acknowledgement, and the label \<open>send_nack\<close>.\<close>

definition cn_send_ba :: "cn_env \<Rightarrow> in6_addr_bundle \<Rightarrow> int \<Rightarrow> u16 \<Rightarrow> timespec \<Rightarrow> byte list option \<Rightarrow> bc_state \<Rightarrow> bc_state outcome" where
  "cn_send_ba en out status seqno lft key s =
     andThen (mh_send_ba (cn_mem en) (cn_crypto en) out (of_int status) 0 seqno lft key) (\<lambda>pkt.
       Done (case pkt of None \<Rightarrow> s | Some pkt \<Rightarrow> bc_emit (CnSend out pkt) s))"

definition send_nack :: "cn_env \<Rightarrow> in6_addr_bundle \<Rightarrow> nat option \<Rightarrow> int \<Rightarrow> u16 \<Rightarrow> byte list option \<Rightarrow> bc_state \<Rightarrow> bc_state outcome" where
  "send_nack en out bce status seqno pkey s =
     andThen (case bce of None \<Rightarrow> Done s | Some b \<Rightarrow> bcache_delete (ab_src out) (ab_dst out) (bcache_release_entry b s)) (\<lambda>s.
       cn_send_ba en out status seqno tszero pkey s)"

text \<open>What the update asks for: sequence number, flags, the two nonce indices, and the lifetime.\<close>

record bu_info =
  u_seqno :: u16
  u_flags :: u16
  u_nonce_hoa :: u16
  u_nonce_coa :: u16
  u_lft :: timespec

text \<open>The comparison with a binding that is there: go on with it, or give up with a status.\<close>

datatype cn_stage = Go "nat option" bc_state | Nack int u16 "byte list option" bc_state

definition bu_against :: "in6_addr_bundle \<Rightarrow> bu_info \<Rightarrow> byte list option \<Rightarrow> nat option \<Rightarrow> bc_state \<Rightarrow> cn_stage outcome" where
  "bu_against out u key bce s =
     (case bce of
        None \<Rightarrow> Done (Go None s)
      | Some b \<Rightarrow> andThen (bc_deref b s) (\<lambda>e.
          if \<not> MIP6_SEQ_GT (u_seqno u) (b_seqno e) \<and> b_type e \<noteq> BCE_NONCE_BLOCK
          then Done (Nack IP6_MH_BAS_SEQNO_BAD (b_seqno e) key (bcache_release_entry b s))
          else if \<not> MIP6_SEQ_GT (u_seqno u) (b_seqno e) \<and> b_nonce_hoa e = u_nonce_hoa u
          then Done (Nack IP6_MH_BAS_NI_EXPIRED (u_seqno u) None (bcache_release_entry b s))
          else if b_type e = BCE_NONCE_BLOCK then
            let s = bcache_release_entry b s in
            if \<not> tsisset (u_lft u) then Done (Nack IP6_MH_BAS_UNSPECIFIED (u_seqno u) None s)
            else andThen (bcache_delete (ab_src out) (ab_dst out) s) (\<lambda>s. Done (Go None s))
          else Done (Go (Some b) s)))"

definition bu_fill :: "in6_addr \<Rightarrow> bu_info \<Rightarrow> timespec \<Rightarrow> bcentry \<Rightarrow> bcentry" where
  "bu_fill coa u lft e = e\<lparr>b_coa := coa, b_seqno := u_seqno u, b_flags := u_flags u, b_unreach := 0, b_type := BCE_CACHED,
     b_nonce_coa := u_nonce_coa u, b_nonce_hoa := u_nonce_hoa u, b_lifetime := lft\<rparr>"

definition bu_register :: "cn_env \<Rightarrow> in6_addr_bundle \<Rightarrow> bu_info \<Rightarrow> byte list option \<Rightarrow> timespec \<Rightarrow> nat option \<Rightarrow> bc_state \<Rightarrow> (bool \<times> bc_state) outcome" where
  "bu_register en out u key lft bce s =
     (case bce of
        Some b \<Rightarrow>
          andThen (bc_modify b (bu_fill (the (ab_bind_coa out)) u lft) s) (\<lambda>s.
          andThen (bcache_update_expire en b s) (\<lambda>s. Done (True, bcache_release_entry b s)))
      | None \<Rightarrow>
          case bcache_alloc en s of
            (None, s) \<Rightarrow> andThen (send_nack en out None IP6_MH_BAS_INSUFFICIENT (u_seqno u) key s) (\<lambda>s. Done (False, s))
          | (Some b, s) \<Rightarrow>
              andThen (bc_modify b (\<lambda>e. bu_fill (the (ab_bind_coa out)) u lft (e\<lparr>b_our_addr := ab_src out, b_peer_addr := ab_dst out\<rparr>)) s) (\<lambda>s.
              andThen (bcache_add en b s) (\<lambda>(ret, s).
                if ret < 0 then andThen (send_nack en out None IP6_MH_BAS_INSUFFICIENT (u_seqno u) key (bcache_free b s)) (\<lambda>s. Done (False, s))
                else Done (True, s))))"

text \<open>The lifetime that is granted.\<close>

definition granted_lft :: "bu_info \<Rightarrow> timespec" where
  "granted_lft u = (if tsisset (u_lft u) \<and> tsbefore (u_lft u) MAX_RR_BINDING_LIFETIME_TS then MAX_RR_BINDING_LIFETIME_TS else u_lft u)"

definition bu_finish :: "cn_env \<Rightarrow> cn_conf \<Rightarrow> in6_addr_bundle \<Rightarrow> bu_info \<Rightarrow> byte list option \<Rightarrow> nat option \<Rightarrow> bc_state \<Rightarrow> bc_state outcome" where
  "bu_finish en cf out u key bce s =
     (let status = (if cn_binding_pol_get cf (ab_dst out) (ab_src out) \<noteq> 0 then IP6_MH_BAS_ACCEPTED else IP6_MH_BAS_PROHIBIT) in
      if status \<ge> IP6_MH_BAS_UNSPECIFIED then send_nack en out bce status (u_seqno u) key s
      else
        let lft = granted_lft u in
        andThen (if tsisset (u_lft u) then bu_register en out u key lft bce s
                 else case bce of
                   None \<Rightarrow> andThen (send_nack en out None IP6_MH_BAS_UNSPECIFIED (u_seqno u) None s) (\<lambda>s. Done (False, s))
                 | Some b \<Rightarrow> andThen (bcache_delete (ab_src out) (ab_dst out) (bcache_release_entry b s)) (\<lambda>s. Done (True, s))) (\<lambda>(ok, s).
          if ok \<and> u_flags u AND IP6_MH_BU_ACK \<noteq> 0 then cn_send_ba en out IP6_MH_BAS_ACCEPTED (u_seqno u) lft key s else Done s))"

definition cn_recv_bu :: "cn_env \<Rightarrow> cn_conf \<Rightarrow> byte list \<Rightarrow> nat \<Rightarrow> in6_addr_bundle \<Rightarrow> bc_state \<Rightarrow> bc_state outcome" where
  "cn_recv_bu en cf bu len inb s =
     andThen (mh_bu_parse bu len inb s) (\<lambda>(r, s). case r of
         None \<Rightarrow> Done s
       | Some (out, mh_opts, lft) \<Rightarrow>
           andThen (cn_bu_check en bu len mh_opts (ab_dst out) (ab_src out) (the (ab_bind_coa out)) lft s) (\<lambda>(status, key, s).
             if status < 0 then Done s
             else andThen (read_u16 bu 6) (\<lambda>q.
               if status \<ge> IP6_MH_BAS_UNSPECIFIED then send_nack en out None status (ntohs q) None s
               else case mh_opt mh_opts IP6_MHOPT_NONCEID of
                 None \<Rightarrow> Fault NullDeref
               | Some p \<Rightarrow>
                   andThen (read_u16 bu 8) (\<lambda>flags. andThen (nonce_indices bu p) (\<lambda>(nh, nc).
                   let u = \<lparr>u_seqno = ntohs q, u_flags = flags, u_nonce_hoa = nh, u_nonce_coa = nc, u_lft = lft\<rparr> in
                   andThen (bcache_get (ab_src out) (ab_dst out) s) (\<lambda>(bce, s).
                   andThen (bu_against out u key bce s) (\<lambda>st. case st of
                       Nack status seqno pkey s \<Rightarrow> send_nack en out None status seqno pkey s
                     | Go bce s \<Rightarrow> bu_finish en cf out u key bce s)))))))"

section \<open>Unreachable destinations\<close>

text \<open>\<open>icmp6_parse_data\<close> walks over the extension headers of the packet an ICMP error quotes; the results are the positions of the home address of this
  node and of the peer, which start as the addresses of the quoted header.\<close>

abbreviation (input) IPPROTO_HOPOPTS :: byte where "IPPROTO_HOPOPTS \<equiv> 0"
abbreviation (input) IPPROTO_ROUTING :: byte where "IPPROTO_ROUTING \<equiv> 43"
abbreviation (input) IPPROTO_DSTOPTS :: byte where "IPPROTO_DSTOPTS \<equiv> 60"
abbreviation (input) IP6OPT_HOME_ADDRESS :: byte where "IP6OPT_HOME_ADDRESS \<equiv> 0xC9"

text \<open>The loop over the options of one header at \<open>h\<close> with \<open>hlen\<close> bytes.\<close>

function hao_scan :: "byte list \<Rightarrow> nat \<Rightarrow> nat \<Rightarrow> nat \<Rightarrow> nat \<Rightarrow> nat outcome" where
  "hao_scan d h hlen ooff lhoa =
     (if ooff < hlen then
        andThen (read_u8 d (h + ooff)) (\<lambda>t.
          if t = 0 then hao_scan d h hlen (ooff + 1) lhoa
          else if hlen < ooff + 2 then Done lhoa
          else andThen (read_u8 d (h + ooff + 1)) (\<lambda>l.
            if hlen < ooff + 2 + unat l then Done lhoa
            else if t = IP6OPT_HOME_ADDRESS \<and> unat l = 16 then Done (h + ooff + 2)
            else hao_scan d h hlen (ooff + 2 + unat l) lhoa))
      else Done lhoa)"
  by pat_completeness auto

termination hao_scan
  by (relation "measure (\<lambda>(d, h, hlen, ooff, _). hlen - ooff)") auto

function ext_walk :: "byte list \<Rightarrow> nat \<Rightarrow> nat \<Rightarrow> byte \<Rightarrow> nat \<Rightarrow> nat \<Rightarrow> (int \<times> nat \<times> nat) outcome" where
  "ext_walk d len hoff htype lhoa rhoa =
     (if hoff + 8 < len then
        andThen (read_u8 d (hoff + 1)) (\<lambda>l. let hlen = (unat l + 1) * 8 in
          if htype \<noteq> IPPROTO_DSTOPTS \<and> htype \<noteq> IPPROTO_ROUTING \<and> htype \<noteq> IPPROTO_HOPOPTS then Done (0, lhoa, rhoa)
          else if len < hoff + hlen then Done (- 1, lhoa, rhoa)
          else andThen (if htype = IPPROTO_DSTOPTS then andThen (hao_scan d hoff hlen 2 lhoa) (\<lambda>lhoa. Done (lhoa, rhoa))
                        else if htype = IPPROTO_ROUTING then
                          andThen (read_u8 d (hoff + 2)) (\<lambda>ty. andThen (read_u8 d (hoff + 3)) (\<lambda>sl.
                            Done (lhoa, if ty = 2 \<and> l = 2 \<and> sl = 1 then hoff + 8 else rhoa)))
                        else Done (lhoa, rhoa)) (\<lambda>(lhoa, rhoa).
            andThen (read_u8 d hoff) (\<lambda>nxt. ext_walk d len (hoff + hlen) nxt lhoa rhoa)))
      else Done (0, lhoa, rhoa))"
  by pat_completeness auto

termination ext_walk
  by (relation "measure (\<lambda>(d, len, hoff, _). len - hoff)") auto

declare hao_scan.simps [simp del] ext_walk.simps [simp del]

definition icmp6_parse_data :: "byte list \<Rightarrow> nat \<Rightarrow> (int \<times> nat \<times> nat) outcome" where
  "icmp6_parse_data d len =
     (if len < 40 then Done (- 1, 8, 24) else andThen (read_u8 d 6) (\<lambda>htype. ext_walk d len 40 htype 8 24))"

text \<open>\<open>ih\<close> is the ICMP message; its header has eight bytes, which the listener has checked to be there.\<close>

definition cn_recv_dst_unreach :: "byte list \<Rightarrow> nat \<Rightarrow> bc_state \<Rightarrow> bc_state outcome" where
  "cn_recv_dst_unreach ih len s =
     (let ip6h = drop 8 ih; optlen = len - 8 in
      andThen (icmp6_parse_data ip6h optlen) (\<lambda>(ret, l, r).
        if ret < 0 then Done s
        else andThen (read_bytes ip6h l 16) (\<lambda>la. andThen (read_bytes ip6h r 16) (\<lambda>ra.
          let laddr = in6_of la; raddr = in6_of ra in
          andThen (bcache_get laddr raddr s) (\<lambda>(bce, s). case bce of
              None \<Rightarrow> Done s
            | Some b \<Rightarrow> andThen (bc_modify b (\<lambda>e. e\<lparr>b_unreach := b_unreach e + 1\<rparr>) s) (\<lambda>s. andThen (bc_deref b s) (\<lambda>e.
                if b_unreach e > ICMP_ERROR_PERSISTENT_THRESHOLD \<and> b_type e \<noteq> BCE_HOMEREG
                then bcache_delete laddr raddr (bcache_release_entry b s)
                else Done (bcache_release_entry b s))))))))"

section \<open>Messages change nothing but the output\<close>

lemma bc_out_frame [simp]:
  "bc_inv (s\<lparr>bc_out := os\<rparr>) = bc_inv s" "bindings (s\<lparr>bc_out := os\<rparr>) = bindings s" "bc_lookup (s\<lparr>bc_out := os\<rparr>) = bc_lookup s"
  "same_nonces s' (s\<lparr>bc_out := os\<rparr>) = same_nonces s' s" "cn_inv (s\<lparr>bc_out := os\<rparr>) = cn_inv s"
proof -
  have r: "bc_rd (s\<lparr>bc_out := os\<rparr>) = bc_rd s" by (rule bc_rd_cong) simp
  show i: "bc_inv (s\<lparr>bc_out := os\<rparr>) = bc_inv s" by (simp add: bc_inv_def r)
  show l: "bc_lookup (s\<lparr>bc_out := os\<rparr>) = bc_lookup s" by (simp add: bc_lookup_def r fun_eq_iff)
  show b: "bindings (s\<lparr>bc_out := os\<rparr>) = bindings s" by (simp add: bindings_def l fun_eq_iff)
  show "same_nonces s' (s\<lparr>bc_out := os\<rparr>) = same_nonces s' s" by (simp add: same_nonces_def)
  have "same_nonces s (s\<lparr>bc_out := os\<rparr>)" by (simp add: same_nonces_def)
  then show "cn_inv (s\<lparr>bc_out := os\<rparr>) = cn_inv s" by (simp add: cn_inv_def i b cn_entry_cong)
qed

text \<open>The acknowledgement as an effect; none without memory.\<close>

definition ba_packets :: "cn_env \<Rightarrow> in6_addr_bundle \<Rightarrow> int \<Rightarrow> u16 \<Rightarrow> timespec \<Rightarrow> byte list option \<Rightarrow> bc_effect list" where
  "ba_packets en out status seqno lft key =
     (case mh_send_ba (cn_mem en) (cn_crypto en) out (of_int status) 0 seqno lft key of Done (Some pkt) \<Rightarrow> [CnSend out pkt] | _ \<Rightarrow> [])"

lemma mh_send_ba_Done: "ab_bind_coa out \<noteq> None \<Longrightarrow> \<exists>p. mh_send_ba mem cr out st fl sq l key = Done p"
proof -
  assume "ab_bind_coa out \<noteq> None"
  moreover have "\<not> length (mh_fill [v, w]) \<le> Suc 0" for v w using mh_fill_last [of v "[]" w] by auto
  ultimately show ?thesis
    by (cases key) (auto simp: mh_send_ba_def mh_create_def mh_len_def mh_send_def Let_def)
qed

lemma cn_send_ba_eq:
  assumes "ab_bind_coa out \<noteq> None"
  shows "cn_send_ba en out st sq l key s = Done (s\<lparr>bc_out := bc_out s @ ba_packets en out st sq l key\<rparr>)"
  using mh_send_ba_Done [OF assms, of "cn_mem en" "cn_crypto en" "of_int st" 0 sq l key]
  by (auto simp: cn_send_ba_def ba_packets_def bc_emit_def split: option.splits)

lemma send_nack_None:
  "ab_bind_coa out \<noteq> None \<Longrightarrow> send_nack en out None st sq key s = Done (s\<lparr>bc_out := bc_out s @ ba_packets en out st sq tszero key\<rparr>)"
  by (simp add: send_nack_def cn_send_ba_eq)

section \<open>Reading an update\<close>

lemma andThen_DoneE:
  assumes "andThen m f = Done y"
  obtains x where "m = Done x" "f x = Done y"
  using assms by (auto simp: andThen_Done_iff)

lemma mh_bu_parse_state:
  assumes "bc_inv s" "mh_bu_parse bu len inb s = Done (r, s')"
  shows "s' = s"
  using assms(2) unfolding mh_bu_parse_def Let_def bce_exists_eq [OF assms(1)] by (auto elim!: andThen_DoneE split: if_split_asm option.split_asm prod.split_asm)

lemma mh_bu_parse_out:
  assumes "bc_inv s" "mh_bu_parse bu len inb s = Done (Some (out, mo, lft), s')"
  shows "ab_src out = ab_dst inb" "ab_dst out = ab_src inb" "ab_bind_coa out \<noteq> None" "4 dvd tv_sec lft" "0 \<le> tv_sec lft" "tv_nsec lft = 0"
    "tsisset lft \<Longrightarrow> bindings s (ab_dst inb, the (ab_bind_coa out)) = None" "mh_opt_parse bu len 12 = Done (r, mo) \<Longrightarrow> 0 \<le> r" "\<exists>r. mh_opt_parse bu len 12 = Done (r, mo)"
  using assms(2) unfolding mh_bu_parse_def Let_def bce_exists_eq [OF assms(1)]
  by (auto simp: bindings_def tszero_def tsisset_def elim!: andThen_DoneE split: if_split_asm option.split_asm prod.split_asm)

lemma cn_bu_check_state:
  assumes "bc_inv s" "cn_bu_check en bu len mo peer our coa lft s = Done (st, key, s')"
  shows "s' = s"
  using assms(2) unfolding cn_bu_check_def bce_exists_eq [OF assms(1)] by (auto elim!: andThen_DoneE split: if_split_asm option.split_asm prod.split_asm)

lemma cn_bu_check_status:
  assumes "bc_inv s" "cn_bu_check en bu len mo peer our coa lft s = Done (st, key, s')"
  shows "st = - 1 \<or> st = 0 \<or> 128 \<le> st"
    "st = 0 \<Longrightarrow> \<exists>p nh nc f. mh_opt mo IP6_MHOPT_NONCEID = Some p \<and> nonce_indices bu p = Done (nh, nc) \<and> read_u16 bu 8 = Done f \<and> key \<noteq> None"
  using assms(2) unfolding cn_bu_check_def bce_exists_eq [OF assms(1)]
  by (auto simp: rr_cn_calc_Kbm_def Let_def elim!: andThen_DoneE split: if_split_asm option.split_asm prod.split_asm)

text \<open>An update that is well formed and authenticated by the key of its nonces.\<close>

definition authentic :: "cn_env \<Rightarrow> byte list \<Rightarrow> nat \<Rightarrow> in6_addr_bundle \<Rightarrow> bc_state \<Rightarrow> in6_addr_bundle \<Rightarrow> bu_info \<Rightarrow> byte list \<Rightarrow> bool" where
  "authentic en bu len inb s out u key \<longleftrightarrow> (\<exists>mo p q.
     mh_bu_parse bu len inb s = Done (Some (out, mo, u_lft u), s)
     \<and> cn_bu_check en bu len mo (ab_dst out) (ab_src out) (the (ab_bind_coa out)) (u_lft u) s = Done (IP6_MH_BAS_ACCEPTED, Some key, s)
     \<and> mh_opt mo IP6_MHOPT_NONCEID = Some p \<and> nonce_indices bu p = Done (u_nonce_hoa u, u_nonce_coa u)
     \<and> read_u16 bu 6 = Done q \<and> u_seqno u = ntohs q \<and> read_u16 bu 8 = Done (u_flags u))"

lemma admitted_nonce:
  assumes "authentic en bu len inb s out u key" "0 < tv_sec (cn_now en)" "rr_cn_nonce_lft (u_nonce_hoa u) s = Some t"
  shows "tsisset t"
proof -
  from assms(1) obtain mo p where c: "cn_bu_check en bu len mo (ab_dst out) (ab_src out) (the (ab_bind_coa out)) (u_lft u) s = Done (0, Some key, s)"
      "mh_opt mo IP6_MHOPT_NONCEID = Some p" "nonce_indices bu p = Done (u_nonce_hoa u, u_nonce_coa u)"
    unfolding authentic_def by blast
  then have "validate_nonce (cn_now en) s (u_nonce_hoa u) \<noteq> None"
    by (auto simp: cn_bu_check_def rr_cn_calc_Kbm_def Let_def elim!: andThen_DoneE split: if_split_asm option.split_asm prod.split_asm)
  then have "0 \<le> tv_sec (tssub t (cn_now en))" using assms(3)
    by (auto simp: validate_nonce_def rr_cn_nonce_lft_def split: option.split_asm if_split_asm)
  then show ?thesis using assms(2) by (auto simp: ts_simps Let_def split: if_split_asm)
qed

text \<open>The handler on an authentic update.\<close>

definition bu_respond :: "cn_env \<Rightarrow> cn_conf \<Rightarrow> in6_addr_bundle \<Rightarrow> bu_info \<Rightarrow> byte list \<Rightarrow> nat option \<Rightarrow> bc_state \<Rightarrow> bc_state outcome" where
  "bu_respond en cf out u key bce s = andThen (bu_against out u (Some key) bce s) (\<lambda>st. case st of
       Nack status seqno pkey s \<Rightarrow> send_nack en out None status seqno pkey s
     | Go bce s \<Rightarrow> bu_finish en cf out u (Some key) bce s)"

lemma cn_recv_bu_admitted:
  assumes "bc_inv s" "authentic en bu len inb s out u key"
  shows "cn_recv_bu en cf bu len inb s = (case bc_lookup s (ab_src out, ab_dst out) of
      None \<Rightarrow> bu_respond en cf out u key None s | Some b \<Rightarrow> bu_respond en cf out u key (Some b) (s\<lparr>bc_held := [BceLock b, BcLock]\<rparr>))"
proof -
  from assms(2) obtain mo p q where c: "mh_bu_parse bu len inb s = Done (Some (out, mo, u_lft u), s)"
      "cn_bu_check en bu len mo (ab_dst out) (ab_src out) (the (ab_bind_coa out)) (u_lft u) s = Done (0, Some key, s)"
      "mh_opt mo IP6_MHOPT_NONCEID = Some p" "nonce_indices bu p = Done (u_nonce_hoa u, u_nonce_coa u)"
      "read_u16 bu 6 = Done q" "u_seqno u = ntohs q" "read_u16 bu 8 = Done (u_flags u)"
    unfolding authentic_def by blast
  have u: "\<lparr>u_seqno = ntohs q, u_flags = u_flags u, u_nonce_hoa = u_nonce_hoa u, u_nonce_coa = u_nonce_coa u, u_lft = u_lft u\<rparr> = u"
    using c(6) by (cases u) simp
  show ?thesis using c(1-5,7) by (simp add: cn_recv_bu_def u bcache_get_eq [OF assms(1)] bu_respond_def split: option.split)
qed

text \<open>An update that is not authentic changes no binding.\<close>

lemma not_admitted:
  assumes "bc_inv s" "cn_recv_bu en cf bu len inb s = Done s'" "\<nexists>out u key. authentic en bu len inb s out u key"
  shows "\<exists>os. s' = s\<lparr>bc_out := os\<rparr>"
proof -
  from assms(2) obtain r s1 where p: "mh_bu_parse bu len inb s = Done (r, s1)" unfolding cn_recv_bu_def by (auto elim!: andThen_DoneE)
  note s1 = mh_bu_parse_state [OF assms(1) p]
  show ?thesis
  proof (cases r)
    case None
    then show ?thesis using assms(2) p s1 by (auto simp: cn_recv_bu_def intro: exI [of _ "bc_out s"])
  next
    case (Some t)
    obtain out mo lft where t: "t = (out, mo, lft)" by (cases t)
    note P = mh_bu_parse_out [OF assms(1) p [unfolded Some t]]
    obtain st key s2 where c: "cn_bu_check en bu len mo (ab_dst out) (ab_src out) (the (ab_bind_coa out)) lft s = Done (st, key, s2)"
      using assms(2) p s1 unfolding cn_recv_bu_def Some t by (auto elim!: andThen_DoneE)
    note s2 = cn_bu_check_state [OF assms(1) c]
    consider "st < 0" | "128 \<le> st" | "st = 0" using cn_bu_check_status(1) [OF assms(1) c] by linarith
    then show ?thesis
    proof cases
      case 1
      then have "s' = s" using assms(2) p c by (simp add: cn_recv_bu_def Some t s1 s2)
      then show ?thesis by (auto intro: exI [of _ "bc_out s"])
    next
      case 2
      then show ?thesis using assms(2) p c P(3) by (auto simp: cn_recv_bu_def Some t s1 s2 send_nack_None elim!: andThen_DoneE)
    next
      case 3
      obtain q where q: "read_u16 bu 6 = Done q" using assms(2) p c 3 by (auto simp: cn_recv_bu_def Some t s1 s2 elim!: andThen_DoneE)
      obtain x nh nc f k where x: "mh_opt mo IP6_MHOPT_NONCEID = Some x" "nonce_indices bu x = Done (nh, nc)" "read_u16 bu 8 = Done f" "key = Some k"
        using cn_bu_check_status(2) [OF assms(1) c 3] by blast
      have "authentic en bu len inb s out \<lparr>u_seqno = ntohs q, u_flags = f, u_nonce_hoa = nh, u_nonce_coa = nc, u_lft = lft\<rparr> k"
        using p c x q 3 by (simp add: authentic_def Some t s1 s2)
      then show ?thesis using assms(3) by blast
    qed
  qed
qed

section \<open>What an update does to the binding of its node\<close>

text \<open>The status for an update, given what the policy says and the binding that is there.\<close>

definition bu_status :: "bool \<Rightarrow> bu_info \<Rightarrow> bcentry option \<Rightarrow> int" where
  "bu_status allowed u b =
     (let stale = (\<exists>e. b = Some e \<and> \<not> MIP6_SEQ_GT (u_seqno u) (b_seqno e)); block = (\<exists>e. b = Some e \<and> b_type e = BCE_NONCE_BLOCK) in
      if stale \<and> \<not> block then IP6_MH_BAS_SEQNO_BAD
      else if stale \<and> b_nonce_hoa (the b) = u_nonce_hoa u then IP6_MH_BAS_NI_EXPIRED
      else if block \<and> \<not> tsisset (u_lft u) then IP6_MH_BAS_UNSPECIFIED
      else if \<not> allowed then IP6_MH_BAS_PROHIBIT
      else if b = None \<and> \<not> tsisset (u_lft u) then IP6_MH_BAS_UNSPECIFIED
      else IP6_MH_BAS_ACCEPTED)"

text \<open>The binding a registration makes out of the one that is there, if that is not a block.\<close>

definition bound_entry :: "cn_env \<Rightarrow> in6_addr_bundle \<Rightarrow> bu_info \<Rightarrow> bcentry option \<Rightarrow> bcentry" where
  "bound_entry en out u b = (bu_fill (the (ab_bind_coa out)) u (granted_lft u)
     (case b of Some e \<Rightarrow> if b_type e = BCE_NONCE_BLOCK then bcentry_zero\<lparr>b_our_addr := ab_src out, b_peer_addr := ab_dst out\<rparr> else e
      | None \<Rightarrow> bcentry_zero\<lparr>b_our_addr := ab_src out, b_peer_addr := ab_dst out\<rparr>))\<lparr>b_add_time := cn_now en\<rparr>"

definition bu_result :: "cn_env \<Rightarrow> bc_state \<Rightarrow> in6_addr_bundle \<Rightarrow> bool \<Rightarrow> bu_info \<Rightarrow> bcentry option \<Rightarrow> bcentry option" where
  "bu_result en s out allowed u b =
     (let st = bu_status allowed u b in
      if st = IP6_MH_BAS_ACCEPTED \<and> tsisset (u_lft u) then Some (bound_entry en out u b)
      else if st = IP6_MH_BAS_ACCEPTED \<or> st = IP6_MH_BAS_PROHIBIT then Option.bind b (\<lambda>e. after_delete e s)
      else b)"

definition bu_answer :: "cn_env \<Rightarrow> in6_addr_bundle \<Rightarrow> bool \<Rightarrow> bu_info \<Rightarrow> byte list \<Rightarrow> bcentry option \<Rightarrow> bc_effect list" where
  "bu_answer en out allowed u key b =
     (let st = bu_status allowed u b in
      if st = IP6_MH_BAS_ACCEPTED \<and> u_flags u AND IP6_MH_BU_ACK = 0 then []
      else ba_packets en out st (if st = IP6_MH_BAS_SEQNO_BAD then b_seqno (the b) else u_seqno u)
             (if st = IP6_MH_BAS_ACCEPTED then granted_lft u else tszero)
             (if st = IP6_MH_BAS_ACCEPTED \<or> st = IP6_MH_BAS_SEQNO_BAD \<or> st = IP6_MH_BAS_PROHIBIT then Some key else None))"

text \<open>A step of the handler: no fault, the binding of one key becomes \<open>x\<close>, messages are \<open>es\<close> after others.\<close>

definition cn_step_to :: "bc_state \<Rightarrow> in6_addr \<times> in6_addr \<Rightarrow> bcentry option \<Rightarrow> bc_effect list \<Rightarrow> bc_state \<Rightarrow> bool" where
  "cn_step_to s k x es s' \<longleftrightarrow> cn_inv s' \<and> same_nonces s s' \<and> bindings s' = (bindings s)(k := x) \<and> (\<exists>os. bc_out s' = bc_out s @ os @ es)"

lemma cn_step_same: "cn_inv s \<Longrightarrow> cn_step_to s k (bindings s k) es (s\<lparr>bc_out := bc_out s @ es\<rparr>)"
  by (auto simp: cn_step_to_def same_nonces_def intro: exI [of _ "[]"])

lemma cn_step_out: "cn_step_to s k x [] s' \<Longrightarrow> cn_step_to s k x es (s'\<lparr>bc_out := bc_out s' @ es\<rparr>)"
  by (auto simp: cn_step_to_def)

lemma same_nonces_trans: "same_nonces s s1 \<Longrightarrow> same_nonces s1 s2 \<Longrightarrow> same_nonces s s2"
  by (simp add: same_nonces_def)

lemma cn_step_trans: "cn_step_to s k y [] s1 \<Longrightarrow> cn_step_to s1 k x es s' \<Longrightarrow> cn_step_to s k x es s'"
  unfolding cn_step_to_def using same_nonces_trans by (auto simp: fun_upd_upd)

lemma delete_step:
  assumes "cn_inv s"
  obtains s' where "bcache_delete (fst k) (snd k) s = Done s'" "cn_step_to s k (Option.bind (bindings s k) (\<lambda>e. after_delete e s)) [] s'"
  using bcache_delete_eq [OF assms, of k] by (auto simp: cn_step_to_def)

text \<open>What is needed of an update to store it.\<close>

definition storable :: "bc_state \<Rightarrow> bu_info \<Rightarrow> bool" where
  "storable s u \<longleftrightarrow> 4 dvd tv_sec (u_lft u) \<and> 0 \<le> tv_sec (u_lft u) \<and> tv_nsec (u_lft u) = 0
     \<and> (\<forall>t. rr_cn_nonce_lft (u_nonce_hoa u) s = Some t \<longrightarrow> tsisset t)"

lemma admitted_storable:
  assumes "bc_inv s" "authentic en bu len inb s out u key" "0 < tv_sec (cn_now en)"
  shows "storable s u" "ab_bind_coa out \<noteq> None" "ab_src out = ab_dst inb" "ab_dst out = ab_src inb"
proof -
  obtain mo where "mh_bu_parse bu len inb s = Done (Some (out, mo, u_lft u), s)" using assms(2) by (auto simp: authentic_def)
  note P = mh_bu_parse_out [OF assms(1) this]
  show "storable s u" using P(4-6) admitted_nonce [OF assms(2,3)] by (simp add: storable_def)
  show "ab_bind_coa out \<noteq> None" "ab_src out = ab_dst inb" "ab_dst out = ab_src inb" by (fact P)+
qed

lemma storable_cong: "same_nonces s s' \<Longrightarrow> storable s' u = storable s u"
  by (simp add: storable_def rr_cn_nonce_lft_def get_nonce_def same_nonces_def)

lemma bound_entry_ok:
  assumes "cn_inv s" "storable s u" "b = bindings s k"
  shows "cn_entry s (bound_entry en out u b)"
proof -
  have "\<not> b_cleanup e" if "b = Some e" for e
    using assms(1,3) that unfolding cn_inv_def cn_entry_def by (metis (no_types))
  then show ?thesis using assms(2)
    by (auto simp: storable_def cn_entry_def bound_entry_def bu_fill_def blocked_def bcentry_zero_def split: option.split)
qed

lemma granted_deadline:
  assumes "4 dvd tv_sec (u_lft u)" "0 \<le> tv_sec (u_lft u)" "tv_nsec (u_lft u) = 0" "tsisset (u_lft u)" "0 < tv_sec now"
  shows "tsisset (tsadd now (tssub (granted_lft u) (TS 2 0)))" "tsisset (tsadd (tssub (granted_lft u) (TS 2 0)) now)"
proof -
  obtain n where "u_lft u = TS n 0" "0 < n" "4 dvd n" using assms by (cases "u_lft u") (auto simp: tsisset_def)
  moreover from this have "4 \<le> n" by (auto simp: dvd_def)
  ultimately show "tsisset (tsadd now (tssub (granted_lft u) (TS 2 0)))" "tsisset (tsadd (tssub (granted_lft u) (TS 2 0)) now)"
    using assms(5) by (auto simp: granted_lft_def ts_simps Let_def)
qed

lemma register_step:
  assumes "cn_inv s" "storable s u" "k = (ab_src out, ab_dst out)" "0 < tv_sec (cn_now en)" "cn_mem en" "cn_mem_node en" "tsisset (u_lft u)"
    and "\<And>e. bindings s k = Some e \<Longrightarrow> b_type e \<noteq> BCE_NONCE_BLOCK"
  obtains s' where "bu_register en out u (Some key) (granted_lft u) (bc_lookup s k)
      (case bc_lookup s k of None \<Rightarrow> s | Some b \<Rightarrow> s\<lparr>bc_held := [BceLock b, BcLock]\<rparr>) = Done (True, s')"
    "cn_step_to s k (Some (bound_entry en out u (bindings s k))) [] s'"
proof -
  have I: "bc_inv s" using assms(1) by (simp add: cn_inv_def)
  have T: "tsisset (tsadd (cn_now en) (tssub (granted_lft u) (TS 2 0)))" "tsisset (tsadd (tssub (granted_lft u) (TS 2 0)) (cn_now en))"
    using granted_deadline [OF _ _ _ assms(7,4)] assms(2) by (auto simp: storable_def)
  note R = bound_entry_ok [OF assms(1,2) refl, where k = k]
  show thesis
  proof (cases "bc_lookup s k")
    case None
    let ?e = "bu_fill (the (ab_bind_coa out)) u (granted_lft u) (bcentry_zero\<lparr>b_our_addr := ab_src out, b_peer_addr := ab_dst out\<rparr>)"
    have b: "bindings s k = None" by (simp add: bindings_def None)
    obtain p s0 where a: "bcache_alloc en s = (Some p, s0)" using assms(5) by (simp add: bcache_alloc_def)
    have m: "bc_modify p (\<lambda>e. bu_fill (the (ab_bind_coa out)) u (granted_lft u) (e\<lparr>b_our_addr := ab_src out, b_peer_addr := ab_dst out\<rparr>)) s0
        = Done (s0\<lparr>bc_heap := (bc_heap s0)(p := ?e)\<rparr>)"
      using a by (auto simp: bc_modify_def bcache_alloc_def split: if_split_asm)
    have t: "tsadd (cn_now en) (tssub (granted_lft u) (TS 2 0)) = tsadd (cn_now en) (tssub (b_lifetime ?e) (TS 2 0))" by (simp add: bu_fill_def)
    obtain s' where s': "bcache_add en p (s0\<lparr>bc_heap := (bc_heap s0)(p := ?e)\<rparr>) = Done (0, s')" "bc_inv s'"
        "bindings s' = (bindings s)(k \<mapsto> ?e\<lparr>b_add_time := cn_now en\<rparr>)" "same_nonces s s'"
        "bc_out s' = bc_out s @ [XfrmAdd (fst k) (snd k) (b_coa ?e) False]"
      by (rule bcache_add_eq [OF I _ None _ _ assms(5,6) t T(1) a refl]) (simp_all add: bu_fill_def assms(3))
    have r: "bound_entry en out u (bindings s k) = ?e\<lparr>b_add_time := cn_now en\<rparr>" by (simp add: bound_entry_def b)
    have "cn_inv s'" by (rule cn_invI [OF assms(1) s'(4,2,3)]) (metis R r option.inject)
    with s' have "cn_step_to s k (Some (bound_entry en out u (bindings s k))) [] s'" by (simp add: cn_step_to_def r)
    moreover have "bu_register en out u (Some key) (granted_lft u) (bc_lookup s k)
      (case bc_lookup s k of None \<Rightarrow> s | Some b \<Rightarrow> s\<lparr>bc_held := [BceLock b, BcLock]\<rparr>) = Done (True, s')"
      by (simp add: bu_register_def None a m s'(1))
    ultimately show thesis by (intro that)
  next
    case (Some p)
    note L = cn_lookup [OF assms(1) Some]
    let ?e = "bu_fill (the (ab_bind_coa out)) u (granted_lft u) (bc_heap s p)" and ?s0 = "s\<lparr>bc_held := [BceLock p, BcLock]\<rparr>"
    have al: "p \<in> bc_alive s" "bc_rd s p = k" using bc_lookup_alive [OF I Some] by auto
    have ke: "(b_our_addr ?e, b_peer_addr ?e) = k" "b_type ?e = BCE_CACHED" using al(2) by (auto simp: bu_fill_def bc_rd_def)
    have t: "tsadd (tssub (granted_lft u) (TS 2 0)) (cn_now en) = tsadd (tssub (b_lifetime ?e) (TS 2 0)) (cn_now en)" by (simp add: bu_fill_def)
    obtain s' where s': "bcache_update_expire en p (s\<lparr>bc_held := [BceLock p, BcLock], bc_heap := (bc_heap s)(p := ?e)\<rparr>) = Done (s'\<lparr>bc_held := [BceLock p, BcLock]\<rparr>)"
        "bc_inv s'" "bindings s' = (bindings s)(k \<mapsto> ?e\<lparr>b_add_time := cn_now en\<rparr>)" "same_nonces s s'"
        "bc_out s' = bc_out s @ [XfrmAdd (fst k) (snd k) (b_coa ?e) True]"
      by (rule bcache_update_expire_eq [OF I Some ke t T(2) refl]) (rule that)
    have r: "bound_entry en out u (bindings s k) = ?e\<lparr>b_add_time := cn_now en\<rparr>" using assms(8) L(1) by (simp add: bound_entry_def)
    have "cn_inv s'" by (rule cn_invI [OF assms(1) s'(4,2,3)]) (metis R r option.inject)
    with s' have "cn_step_to s k (Some (bound_entry en out u (bindings s k))) [] s'" by (simp add: cn_step_to_def r)
    moreover have "bu_register en out u (Some key) (granted_lft u) (Some p) ?s0 = Done (True, s')"
      using al(1) s'(1) idle [OF s'(2)] by (simp add: bu_register_def bc_modify_def bcache_release_eq)
    ultimately show thesis using Some by (intro that) simp_all
  qed
qed

text \<open>The entry with its lock, as \<open>bcache_get\<close> returns it.\<close>

abbreviation with_lock :: "bc_state \<Rightarrow> in6_addr \<times> in6_addr \<Rightarrow> bc_state" where
  "with_lock s k \<equiv> (case bc_lookup s k of None \<Rightarrow> s | Some b \<Rightarrow> s\<lparr>bc_held := [BceLock b, BcLock]\<rparr>)"

lemma release_locked: "cn_inv s \<Longrightarrow> bcache_release_entry b (s\<lparr>bc_held := [BceLock b, BcLock]\<rparr>) = s"
  using idle [of s] by (simp add: bcache_release_eq cn_inv_def)

lemma finish_step:
  assumes "cn_inv s" "storable s u" "k = (ab_src out, ab_dst out)" "0 < tv_sec (cn_now en)" "cn_mem en" "cn_mem_node en" "ab_bind_coa out \<noteq> None"
    and "b = bindings s k" "\<And>e. b = Some e \<Longrightarrow> b_type e \<noteq> BCE_NONCE_BLOCK \<and> MIP6_SEQ_GT (u_seqno u) (b_seqno e)"
    and "allowed \<longleftrightarrow> cn_binding_pol_get cf (ab_dst out) (ab_src out) \<noteq> 0"
  obtains s' where "bu_finish en cf out u (Some key) (bc_lookup s k) (with_lock s k) = Done s'"
    "cn_step_to s k (bu_result en s out allowed u b) (bu_answer en out allowed u key b) s'"
proof -
  obtain d where d: "bcache_delete (ab_src out) (ab_dst out) s = Done d" "cn_step_to s k (Option.bind b (\<lambda>e. after_delete e s)) [] d"
    using delete_step [OF assms(1), of k] assms(3,8) by auto
  have del: "(case bc_lookup s k of None \<Rightarrow> Done (with_lock s k) | Some p \<Rightarrow> bcache_delete (ab_src out) (ab_dst out) (bcache_release_entry p (with_lock s k))) = Done d" if "b \<noteq> None"
    using that d(1) release_locked [OF assms(1)] assms(8) by (auto simp: bindings_def split: option.split)
  have nb: "bc_lookup s k = None \<longleftrightarrow> b = None" by (simp add: assms(8) bindings_def)
  show thesis
  proof (cases "allowed")
    case False
    then have st: "bu_status allowed u b = IP6_MH_BAS_PROHIBIT" using assms(9) by (auto simp: bu_status_def Let_def)
    then have r: "bu_result en s out allowed u b = Option.bind b (\<lambda>e. after_delete e s)" "bu_answer en out allowed u key b = ba_packets en out 129 (u_seqno u) tszero (Some key)"
      by (simp_all add: bu_result_def bu_answer_def)
    show thesis
    proof (cases "b = None")
      case True
      then have "bu_finish en cf out u (Some key) (bc_lookup s k) (with_lock s k) = Done (s\<lparr>bc_out := bc_out s @ ba_packets en out 129 (u_seqno u) tszero (Some key)\<rparr>)"
        using nb False assms(10) send_nack_None [OF assms(7)] by (simp add: bu_finish_def)
      then show thesis using cn_step_same [OF assms(1)] True r assms(8) that by (metis bind.bind_lzero)
    next
      case False
      then have "bu_finish en cf out u (Some key) (bc_lookup s k) (with_lock s k) = Done (d\<lparr>bc_out := bc_out d @ ba_packets en out 129 (u_seqno u) tszero (Some key)\<rparr>)"
        using \<open>\<not> allowed\<close> assms(10) del cn_send_ba_eq [OF assms(7)] by (simp add: bu_finish_def send_nack_def)
      then show thesis using cn_step_out [OF d(2)] r that by metis
    qed
  next
    case True
    then have pol: "cn_binding_pol_get cf (ab_dst out) (ab_src out) \<noteq> 0" using assms(10) by simp
    show thesis
    proof (cases "tsisset (u_lft u)")
      case lft: True
      have st: "bu_status allowed u b = IP6_MH_BAS_ACCEPTED" using assms(9) True lft by (auto simp: bu_status_def Let_def)
      obtain s1 where s1: "bu_register en out u (Some key) (granted_lft u) (bc_lookup s k) (with_lock s k) = Done (True, s1)"
          "cn_step_to s k (Some (bound_entry en out u b)) [] s1"
        using register_step [OF assms(1-6) lft, of key] assms(8,9) by blast
      have "bu_finish en cf out u (Some key) (bc_lookup s k) (with_lock s k) = Done (s1\<lparr>bc_out := bc_out s1 @ bu_answer en out allowed u key b\<rparr>)"
        using pol lft s1(1) st cn_send_ba_eq [OF assms(7)] by (simp add: bu_finish_def bu_answer_def Let_def)
      then show thesis using cn_step_out [OF s1(2)] st lft that by (simp add: bu_result_def)
    next
      case lft: False
      show thesis
      proof (cases "b = None")
        case True
        then have st: "bu_status allowed u b = IP6_MH_BAS_UNSPECIFIED" using \<open>allowed\<close> lft by (auto simp: bu_status_def Let_def)
        have "bu_finish en cf out u (Some key) (bc_lookup s k) (with_lock s k) = Done (s\<lparr>bc_out := bc_out s @ bu_answer en out allowed u key b\<rparr>)"
          using nb True pol lft st send_nack_None [OF assms(7)] by (simp add: bu_finish_def bu_answer_def)
        then show thesis using cn_step_same [OF assms(1), of k] st that assms(8) by (simp add: bu_result_def)
      next
        case False
        then have st: "bu_status allowed u b = IP6_MH_BAS_ACCEPTED" using \<open>allowed\<close> lft assms(9) by (auto simp: bu_status_def Let_def)
        have "bu_finish en cf out u (Some key) (bc_lookup s k) (with_lock s k) = Done (d\<lparr>bc_out := bc_out d @ bu_answer en out allowed u key b\<rparr>)"
          using nb False pol lft st del cn_send_ba_eq [OF assms(7)] by (auto simp: bu_finish_def bu_answer_def Let_def split: option.split)
        then show thesis using cn_step_out [OF d(2)] st lft that by (simp add: bu_result_def)
      qed
    qed
  qed
qed

lemma update_step:
  assumes "cn_inv s" "authentic en bu len inb s out u key" "k = (ab_src out, ab_dst out)" "0 < tv_sec (cn_now en)" "cn_mem en" "cn_mem_node en"
    and "b = bindings s k" "allowed \<longleftrightarrow> cn_binding_pol_get cf (ab_dst out) (ab_src out) \<noteq> 0"
  obtains s' where "cn_recv_bu en cf bu len inb s = Done s'"
    "cn_step_to s k (bu_result en s out allowed u b) (bu_answer en out allowed u key b) s'"
proof -
  have I: "bc_inv s" using assms(1) by (simp add: cn_inv_def)
  note A = admitted_storable [OF I assms(2,4)]
  have run: "cn_recv_bu en cf bu len inb s = bu_respond en cf out u key (bc_lookup s k) (with_lock s k)"
    by (simp add: cn_recv_bu_admitted [OF I assms(2)] assms(3) split: option.split)
  show thesis
  proof (cases "\<exists>e. b = Some e \<and> (b_type e = BCE_NONCE_BLOCK \<or> \<not> MIP6_SEQ_GT (u_seqno u) (b_seqno e))")
    case False
    then have g: "b_type e \<noteq> BCE_NONCE_BLOCK \<and> MIP6_SEQ_GT (u_seqno u) (b_seqno e)" if "b = Some e" for e using that by blast
    have "bu_against out u (Some key) (bc_lookup s k) (with_lock s k) = Done (Go (bc_lookup s k) (with_lock s k))"
    proof (cases "bc_lookup s k")
      case (Some p)
      then show ?thesis using g [of "bc_heap s p"] bc_lookup_alive [OF I Some] assms(7) by (simp add: bu_against_def bc_deref_def bindings_def)
    qed (simp add: bu_against_def)
    then have "bu_respond en cf out u key (bc_lookup s k) (with_lock s k) = bu_finish en cf out u (Some key) (bc_lookup s k) (with_lock s k)"
      by (simp add: bu_respond_def)
    then show thesis using finish_step [OF assms(1) A(1) assms(3-6) A(2) assms(7) g assms(8), of key] run that by metis
  next
    case True
    then obtain e where e: "b = Some e" "b_type e = BCE_NONCE_BLOCK \<or> \<not> MIP6_SEQ_GT (u_seqno u) (b_seqno e)" by blast
    then obtain p where p: "bc_lookup s k = Some p" "e = bc_heap s p" using assms(7) by (auto simp: bindings_def)
    note al = bc_lookup_alive [OF I p(1)]
    let ?l = "s\<lparr>bc_held := [BceLock p, BcLock]\<rparr>"
    have d: "bc_deref p ?l = Done e" using al by (simp add: bc_deref_def p(2))
    have R: "bcache_release_entry p ?l = s" by (rule release_locked [OF assms(1)])
    show thesis
    proof (cases "bu_status allowed u b \<in> {IP6_MH_BAS_SEQNO_BAD, IP6_MH_BAS_NI_EXPIRED, IP6_MH_BAS_UNSPECIFIED}")
      case True
      then have "bu_respond en cf out u key (Some p) ?l = Done (s\<lparr>bc_out := bc_out s @ bu_answer en out allowed u key b\<rparr>)"
        using e d R send_nack_None [OF A(2)] by (simp add: bu_respond_def bu_against_def bu_status_def bu_answer_def Let_def split: if_split_asm)
      moreover have "bu_result en s out allowed u b = b" using True by (auto simp: bu_result_def)
      ultimately show thesis using run p(1) cn_step_same [OF assms(1)] that assms(7) by simp
    next
      case False
      then have t: "b_type e = BCE_NONCE_BLOCK" "tsisset (u_lft u)" "\<not> (\<not> MIP6_SEQ_GT (u_seqno u) (b_seqno e) \<and> b_nonce_hoa e = u_nonce_hoa u)"
        using e by (auto simp: bu_status_def Let_def split: if_split_asm)
      obtain s1 where s1: "bcache_delete (fst k) (snd k) s = Done s1" "cn_step_to s k (Option.bind b (\<lambda>e. after_delete e s)) [] s1"
        using delete_step [OF assms(1), of k] assms(7) by auto
      have n: "after_delete e s = None" using t(1) by (simp add: after_delete_def blocked_def)
      then have b1: "bindings s1 k = None" "cn_inv s1" "same_nonces s s1" using s1(2) e(1) by (auto simp: cn_step_to_def)
      then have l1: "bc_lookup s1 k = None" by (simp add: bindings_def)
      have "bu_respond en cf out u key (Some p) ?l = bu_finish en cf out u (Some key) None s1"
        using d R t s1(1) assms(3) by (auto simp: bu_respond_def bu_against_def Let_def)
      moreover obtain s' where s': "bu_finish en cf out u (Some key) None s1 = Done s'"
          "cn_step_to s1 k (bu_result en s1 out allowed u None) (bu_answer en out allowed u key None) s'"
        using finish_step [OF b1(2) _ assms(3-6) A(2) b1(1) [symmetric] _ assms(8), of u key] storable_cong [OF b1(3)] A(1) l1 by auto
      moreover have "bu_result en s1 out allowed u None = bu_result en s out allowed u b" "bu_answer en out allowed u key None = bu_answer en out allowed u key b"
        using t e(1) n by (auto simp: bu_result_def bu_answer_def bu_status_def bound_entry_def Let_def)
      ultimately show thesis using cn_step_trans [OF s1(2)] run p(1) that by simp
    qed
  qed
qed

section \<open>An update as a mobile node builds it\<close>

text \<open>Header, nonce indices and authorization data; the kernel has written the checksum.\<close>

definition update_vec :: "u16 \<Rightarrow> u16 \<Rightarrow> u16 \<Rightarrow> u16 \<Rightarrow> u16 \<Rightarrow> iovec list" where
  "update_vec sq flags lft nh nc =
     [[IPPROTO_NONE, 0, 5, 0, 0, 0] @ bytes16 (htons sq) @ bytes16 flags @ bytes16 (htons lft), mh_create_opt_nonce_index nh nc, mh_create_opt_auth_data]"

definition with_cksum :: "u16 \<Rightarrow> byte list \<Rightarrow> byte list" where
  "with_cksum c m = m[4 := ucast c, 5 := ucast (drop_bit 8 c)]"

abbreviation (input) update_head :: "u16 \<Rightarrow> u16 \<Rightarrow> u16 \<Rightarrow> u16 \<Rightarrow> u16 \<Rightarrow> byte list" where
  "update_head sq flags lft nh nc \<equiv> [IPPROTO_NONE, 3, 5, 0, 0, 0, ucast (htons sq), ucast (drop_bit 8 (htons sq)), ucast flags, ucast (drop_bit 8 flags),
     ucast (htons lft), ucast (drop_bit 8 (htons lft)), IP6_MHOPT_NONCEID, 4, ucast (htons nh), ucast (drop_bit 8 (htons nh)), ucast (htons nc), ucast (drop_bit 8 (htons nc)),
     IP6_MHOPT_BAUTH, 12]"

lemma update_fill:
  "mh_fill (update_vec sq flags lft nh nc) =
    [[IPPROTO_NONE, 3, 5, 0, 0, 0] @ bytes16 (htons sq) @ bytes16 flags @ bytes16 (htons lft), mh_create_opt_nonce_index nh nc, mh_create_opt_auth_data]"
  by (simp add: mh_fill_def update_vec_def mh_try_pad_def try_pad_def mh_align_def optpad_def mh_length_def mh_create_opt_nonce_index_def
      mh_create_opt_auth_data_def bytes16_def Let_def)

lemma update_bytes:
  assumes "ab_bind_coa a = Some coa"
  shows "mh_send cr a (update_vec sq flags lft nh nc) (Some key) = Done (update_head sq flags lft nh nc
    @ calculate_auth_data cr [update_head sq flags lft nh nc] coa (ab_dst a) key)"
proof -
  have b: "take 2 mh_create_opt_auth_data = [IP6_MHOPT_BAUTH, 12]" "hd mh_create_opt_auth_data = IP6_MHOPT_BAUTH" "length mh_create_opt_auth_data = 14"
    by (simp_all add: mh_create_opt_auth_data_def numeral_eq_Suc)
  show ?thesis using assms b
    by (simp add: mh_send_def update_fill mh_sign_def Let_def calculate_auth_data_def bytes16_def mh_create_opt_nonce_index_def)
qed

lemma update_parse:
  assumes "length d = 12" "bu = with_cksum c (update_head sq flags lft nh nc @ d)"
  shows "mh_opt_parse bu 32 12 = Done (2, \<lparr>opts = (\<lambda>_. 0)(4 := 12, 5 := 18), opts_end = \<lambda>_. 0\<rparr>)"
proof -
  have n: "bu ! 12 = 4" "bu ! 13 = 4" "bu ! 18 = 5" "bu ! 19 = 12" "length bu = 32" using assms(1) by (simp_all add: assms(2) with_cksum_def)
  have s1: "mh_opt_step bu 12 20 False mh_options_zero = Done (Advance 6 False \<lparr>opts = (\<lambda>_. 0)(4 := 12), opts_end = \<lambda>_. 0\<rparr> True)"
    using n by (simp add: mh_opt_step_def read_u8_def mh_opt_len_chk_def mh_options_zero_def)
  have s2: "mh_opt_step bu 18 14 False \<lparr>opts = (\<lambda>_. 0)(4 := 12), opts_end = \<lambda>_. 0\<rparr> = Done (Advance 14 True \<lparr>opts = (\<lambda>_. 0)(4 := 12, 5 := 18), opts_end = \<lambda>_. 0\<rparr> True)"
    using n by (simp add: mh_opt_step_def read_u8_def mh_opt_len_chk_def)
  show ?thesis unfolding mh_opt_parse_def
    by (subst mh_opt_loop.simps, simp add: s1, subst mh_opt_loop.simps, simp add: s2, subst mh_opt_loop.simps, simp)
qed

text \<open>The bundles a packet from a home address through a care-of address arrives with and is answered with, and the contents of the update.\<close>

abbreviation (input) from_node :: "in6_addr \<Rightarrow> in6_addr \<Rightarrow> in6_addr \<Rightarrow> in6_addr_bundle" where
  "from_node our hoa coa \<equiv> \<lparr>ab_src = hoa, ab_dst = our, ab_local_coa = None, ab_remote_coa = Some coa, ab_bind_coa = None\<rparr>"

abbreviation (input) to_node :: "in6_addr \<Rightarrow> in6_addr \<Rightarrow> in6_addr \<Rightarrow> in6_addr_bundle" where
  "to_node our hoa coa \<equiv> \<lparr>ab_src = our, ab_dst = hoa, ab_local_coa = None, ab_remote_coa = Some coa, ab_bind_coa = Some coa\<rparr>"

abbreviation (input) update_info :: "u16 \<Rightarrow> u16 \<Rightarrow> u16 \<Rightarrow> u16 \<Rightarrow> u16 \<Rightarrow> bu_info" where
  "update_info sq flags lft nh nc \<equiv> \<lparr>u_seqno = sq, u_flags = flags, u_nonce_hoa = nh, u_nonce_coa = nc, u_lft = TS (4 * uint lft) 0\<rparr>"

text \<open>The key the correspondent node computes for an update.\<close>

definition update_key :: "cn_env \<Rightarrow> bc_state \<Rightarrow> in6_addr \<Rightarrow> in6_addr \<Rightarrow> u16 \<Rightarrow> u16 \<Rightarrow> u16 \<Rightarrow> int \<times> byte list option" where
  "update_key en s hoa coa lft nh nc =
     (if lft \<noteq> 0 then rr_cn_calc_Kbm (cn_crypto en) (cn_now en) nh nc hoa (Some coa) s else rr_cn_calc_Kbm (cn_crypto en) (cn_now en) nh 0 hoa None s)"

lemma update_admitted:
  assumes "bc_inv s" "\<And>k m. length (hmac_sha1 (cn_crypto en) k m) = 20" "in6_is_addr_routable_unicast hoa" "in6_is_addr_routable_unicast coa" "coa \<noteq> hoa"
    and "bindings s (our, coa) = None" "flags AND IP6_MH_BU_HOME = 0" "update_key en s hoa coa lft nh nc = (0, Some key)"
    and "bu = with_cksum c (update_head sq flags lft nh nc @ calculate_auth_data (cn_crypto en) [update_head sq flags lft nh nc] coa our key)"
  shows "authentic en bu 32 (from_node our hoa coa) s (to_node our hoa coa) (update_info sq flags lft nh nc) key"
proof -
  let ?h = "update_head sq flags lft nh nc" and ?mo = "\<lparr>opts = (\<lambda>_. 0)(4 := 12, 5 := 18), opts_end = \<lambda>_. 0\<rparr> :: mh_options"
  let ?d = "calculate_auth_data (cn_crypto en) [?h] coa our key"
  have d: "length ?d = 12" using assms(2) by (simp add: calculate_auth_data_def)
  have p: "mh_opt_parse bu 32 12 = Done (2, ?mo)" by (rule update_parse [OF d assms(9)])
  have o: "mh_opt ?mo IP6_MHOPT_ALTCOA = None" "mh_opt ?mo IP6_MHOPT_NONCEID = Some 12" "mh_opt ?mo IP6_MHOPT_BAUTH = Some 18" by (simp_all add: mh_opt_def)
  have l: "length bu = 32" using d by (simp add: assms(9) with_cksum_def)
  have r: "read_u16 bu 6 = Done (htons sq)" "read_u16 bu 8 = Done flags" "read_u16 bu 10 = Done (htons lft)" "nonce_indices bu 12 = Done (nh, nc)"
    using d by (simp_all add: assms(9) with_cksum_def read_u16_def nonce_indices_def)
  have c: "clear_cksum bu = ?h @ ?d" using d by (simp add: assms(9) with_cksum_def clear_cksum_def list_update_append)
  have v: "mh_verify_auth_data (cn_crypto en) (?h @ ?d) 32 18 coa our key = Done 0"
    using d by (simp add: mh_verify_auth_data_def read_u8_def read_bytes_def)
  note v = v [folded c]
  have t: "tsisset (TS (4 * uint lft) 0) \<longleftrightarrow> lft \<noteq> 0" by (simp add: tsisset_def unsigned_eq_0_iff)
  have e: "bce_exists our coa s = Done (False, s)" using bce_exists_eq [OF assms(1), of our coa] assms(6) by (simp add: bindings_def)
  have "mh_bu_parse bu 32 (from_node our hoa coa) s = Done (Some (to_node our hoa coa, ?mo, TS (4 * uint lft) 0), s)"
    using assms(3-5) by (simp add: mh_bu_parse_def p o(1) e r(3) Let_def)
  moreover have "cn_bu_check en bu 32 ?mo hoa our coa (TS (4 * uint lft) 0) s = Done (0, Some key, s)"
    using assms(7,8) by (simp add: cn_bu_check_def r o(2,3) t update_key_def v split: if_split_asm)
  ultimately show ?thesis using o(2) r by (auto simp: authentic_def)
qed

end
