(* ===== verification/Cn_Properties.thy ===== *)
theory Cn_Properties
  imports Cn
begin

text \<open>
  Properties of the correspondent node: binding updates refine updates of a map, changes need the key, replays are rejected (and one that is not), and
  the whole of route optimisation, from the two test messages to the binding.
\<close>

section \<open>Test messages\<close>

lemma activate_cn:
  assumes "cn_inv s" "n < MAX_NONCES" "length (nonces s) = MAX_NONCES" "0 < tv_sec now"
  shows "cn_inv (activate now n s)" "bindings (activate now n s) = bindings s" "bc_out (activate now n s) = bc_out s"
proof -
  let ?s = "activate now n s" and ?v = "tsadd now MAX_NONCE_LIFETIME_TS"
  have I: "bc_inv s" using assms(1) by (simp add: cn_inv_def)
  have v: "tsisset ?v" using tsadd_sec(3) [OF assms(4), of 240] by simp
  have q: "tq_inv (cn_tq ?s)" "pending (cn_tq ?s) = (pending (cn_tq s))(TqNonce n \<mapsto> ?v)"
    using timer_armed [OF I v, of "TqNonce n" Nonce_regen] by (simp_all add: activate_def Let_def)
  have f: "bc_heap ?s = bc_heap s" "bc_hash ?s = bc_hash s" "bc_alive ?s = bc_alive s" "bc_brk ?s = bc_brk s" "bc_held ?s = bc_held s" "bc_out ?s = bc_out s"
    by (simp_all add: activate_def Let_def)
  have r: "bc_rd ?s = bc_rd s" by (rule bc_rd_cong [OF f(1)])
  show "bc_out ?s = bc_out s" by (rule f)
  show b: "bindings ?s = bindings s" by (simp add: bindings_def bc_lookup_def r f fun_eq_iff)
  have i: "bc_inv ?s" using I q by (auto simp: bc_inv_def r f)
  have g: "get_nonce ?s j = get_nonce s j" for j using assms(2,3) by (simp add: get_nonce_def activate_fields Let_def)
  have "cn_entry ?s e" if "cn_entry s e" for e
    using that v assms(2,3) by (auto simp: cn_entry_def blocked_def rr_cn_nonce_lft_def g activate_fields split: if_split_asm)
  then show "cn_inv ?s" using assms(1) i by (auto simp: cn_inv_def b)
qed

lemma kg_out [simp]:
  "kg_inv (s\<lparr>bc_out := os\<rparr>) = kg_inv s" "prompt now (s\<lparr>bc_out := os\<rparr>) = prompt now s" "usable t (s\<lparr>bc_out := os\<rparr>) i x = usable t s i x"
  by (simp_all add: kg_inv_def ring_def kg_active_def nslot_def prompt_def usable_def get_nonce_def)

lemma test_bytes:
  assumes "length v = 24" "2 \<le> length h" "v = h @ w"
  shows "mh_send cr a [v] None = Done (v[1 := 2])"
  using assms(1) by (simp add: mh_send_def mh_fill_def mh_try_pad_def try_pad_def optpad_def create_opt_pad_def mh_length_def Let_def)

abbreviation (input) plain :: "in6_addr \<Rightarrow> in6_addr \<Rightarrow> in6_addr_bundle" where
  "plain src dst \<equiv> \<lparr>ab_src = src, ab_dst = dst, ab_local_coa = None, ab_remote_coa = None, ab_bind_coa = None\<rparr>"

lemma test_answered:
  assumes "kg_inv s" "cn_inv s" "prompt (cn_now en) s" "ts_norm (cn_now en)" "0 < tv_sec (cn_now en)" "cn_mem en" "unat (min_nce s) + 15 < 65536"
    and "\<And>k m. length (hmac_sha1 (cn_crypto en) k m) = 20" "length msg = 16" "ty = IP6_MH_TYPE_HOT \<or> ty = IP6_MH_TYPE_COT"
  obtains i x s' where "recv_test_init ty b en msg 16 (plain a our) s = Some (Done s')" "kg_inv s'" "cn_inv s'" "bindings s' = bindings s" "key_cn s' = key_cn s"
    "bc_out s' = bc_out s @ [CnSend (plain our a) ([IPPROTO_NONE, 2, of_nat ty, 0, 0, 0] @ bytes16 (htons i) @ drop 8 msg @ build_kgen_token (cn_crypto en) (key_cn s) a x b)]"
    "\<And>t. ts_norm t \<Longrightarrow> t < tsadd (cn_now en) (TS MAX_TOKEN_LIFETIME 0) \<Longrightarrow> usable t s' i x"
    "\<And>t j y. usable t s j y \<Longrightarrow> usable t s' j y" "prompt (cn_now en) s'" "min_nce s' = min_nce s"
proof -
  obtain i x s1 where t: "rr_cn_keygen_token (cn_crypto en) (cn_now en) a b s = Some (Done (i, build_kgen_token (cn_crypto en) (key_cn s) a x b, s1))" "kg_inv s1" "key_cn s1 = key_cn s"
      "\<And>t. ts_norm t \<Longrightarrow> t < tsadd (cn_now en) (TS MAX_TOKEN_LIFETIME 0) \<Longrightarrow> usable t s1 i x"
      "\<And>t j y. usable t s j y \<Longrightarrow> usable t s1 j y" "prompt (cn_now en) s1" "min_nce s1 = min_nce s" "s1 = s \<or> (\<exists>n < MAX_NONCES. s1 = activate (cn_now en) n s)"
    using token_issued [OF assms(1,3-5,7)] by metis
  have l: "length (nonces s) = MAX_NONCES" using assms(1) by (simp add: kg_inv_def ring_def)
  have c: "cn_inv s1" "bindings s1 = bindings s" "bc_out s1 = bc_out s" using t(8) activate_cn [OF assms(2) _ l assms(5)] assms(2) by auto
  let ?k = "build_kgen_token (cn_crypto en) (key_cn s) a x b"
  let ?p = "[IPPROTO_NONE, 2, of_nat ty, 0, 0, 0] @ bytes16 (htons i) @ drop 8 msg @ ?k"
  let ?s = "s1\<lparr>bc_out := bc_out s1 @ [CnSend (plain our a) ?p]\<rparr>"
  have k: "length ?k = 8" using assms(8) by (simp add: build_kgen_token_def)
  have h: "mh_create True ty = Done (Some ([IPPROTO_NONE, 0, of_nat ty, 0, 0, 0] @ replicate 18 0))" using assms(10) by (auto simp: mh_create_def mh_len_def)
  let ?v = "[IPPROTO_NONE, 0, of_nat ty, 0, 0, 0] @ bytes16 (htons i) @ drop 8 msg @ ?k"
  have "length ?v = 24" using k assms(9) by simp
  from test_bytes [OF this _ refl] have snd: "mh_send cr' a' [?v] None = Done ?p" for cr' a' by simp
  have "recv_test_init ty b en msg 16 (plain a our) s = Some (Done ?s)"
    using assms(6,9) snd by (simp add: recv_test_init_def t(1) h read_bytes_def cn_send_def bc_emit_def Let_def)
  then show thesis by (rule that [of _ i x]) (use t c in \<open>simp_all\<close>)
qed

text \<open>The care-of address an update is for: the alternate care-of address option, else the address the message came through, else the home
  address.\<close>

definition update_coa :: "byte list \<Rightarrow> mh_options \<Rightarrow> in6_addr_bundle \<Rightarrow> in6_addr" where
  "update_coa bu mo inb = (case mh_opt mo IP6_MHOPT_ALTCOA of
       Some q \<Rightarrow> in6_of (take 16 (drop (q + 2) bu))
     | None \<Rightarrow> (case ab_remote_coa inb of Some c \<Rightarrow> c | None \<Rightarrow> ab_src inb))"

lemma bytes_le16: "ucast (le16 b0 b1) = b0" "ucast (drop_bit 8 (le16 b0 b1)) = b1"
  unfolding le16_def by (rule bit_word_eqI, auto simp: bit_simps dest: bit_imp_le_length)+

lemma lifetime_zero: "uint (ntohs (le16 b0 b1)) = 0 \<longleftrightarrow> b0 = 0 \<and> b1 = 0"
proof -
  have "htons 0 = 0" by (simp add: htons_def)
  then have "ntohs (le16 b0 b1) = 0 \<longleftrightarrow> le16 b0 b1 = 0" using ntohs_htons [of "le16 b0 b1"] by metis
  also have "\<dots> \<longleftrightarrow> b0 = 0 \<and> b1 = 0" using bytes_le16 [of b0 b1] by (auto simp: le16_def)
  finally show ?thesis by (simp add: uint_0_iff)
qed

lemma mh_bu_parse_coa:
  assumes "bc_inv s" "mh_bu_parse bu len inb s = Done (Some (out, mo, lft), s')"
  shows "the (ab_bind_coa out) = update_coa bu mo inb" "tsisset lft \<longleftrightarrow> update_coa bu mo inb \<noteq> ab_src inb \<and> (bu ! 10 \<noteq> 0 \<or> bu ! 11 \<noteq> 0)"
  using assms(2) unfolding mh_bu_parse_def Let_def bce_exists_eq [OF assms(1)]
  by (auto simp: update_coa_def tszero_def tsisset_def read_bytes_def read_u16_def lifetime_zero
      elim!: andThen_DoneE split: if_split_asm option.split_asm prod.split_asm)

lemma htons_le16: "htons (le16 b0 b1) = le16 b1 b0"
  unfolding htons_def le16_def by (rule bit_word_eqI) (auto simp: bit_simps dest: bit_imp_le_length)

lemma nonce_indices_bytes:
  assumes "nonce_indices bu p = Done (nh, nc)"
  shows "nh = le16 (bu ! (p + 3)) (bu ! (p + 2))" "nc = le16 (bu ! (p + 5)) (bu ! (p + 4))"
  using assms by (auto simp: nonce_indices_def read_u16_def htons_le16 eval_nat_numeral elim!: andThen_DoneE split: if_split_asm)

lemma cn_bu_check_key:
  assumes "cn_bu_check en bu len mo peer our coa lft s = Done (0, Some key, s')"
  shows "\<exists>p nh nc b v. mh_opt mo IP6_MHOPT_NONCEID = Some p \<and> nonce_indices bu p = Done (nh, nc)
    \<and> (if tsisset lft then rr_cn_calc_Kbm (cn_crypto en) (cn_now en) nh nc peer (Some coa) s
        else rr_cn_calc_Kbm (cn_crypto en) (cn_now en) nh 0 peer None s) = (0, Some key)
    \<and> mh_opt mo IP6_MHOPT_BAUTH = Some b \<and> mh_verify_auth_data (cn_crypto en) (clear_cksum bu) len b coa our key = Done v \<and> 0 \<le> v"
  using assms unfolding cn_bu_check_def
  by (auto simp: not_less elim!: andThen_DoneE split: if_split_asm option.split_asm prod.split_asm)

section \<open>Properties\<close>

text \<open>Memory is there and the clock is past the first second.\<close>

definition live :: "cn_env \<Rightarrow> bool" where
  "live en \<longleftrightarrow> 0 < tv_sec (cn_now en) \<and> cn_mem en \<and> cn_mem_node en"

lemma update_step_live:
  assumes "cn_inv s" "authentic en bu len inb s out u key" "k = (ab_src out, ab_dst out)" "live en" "allowed \<longleftrightarrow> cn_binding_pol_get cf (ab_dst out) (ab_src out) \<noteq> 0"
  obtains s' where "cn_recv_bu en cf bu len inb s = Done s'"
    "cn_step_to s k (bu_result en s out allowed u (bindings s k)) (bu_answer en out allowed u key (bindings s k)) s'"
  using update_step [OF assms(1-3) _ _ _ refl assms(5)] assms(4) by (auto simp: live_def)

lemma update_done:
  assumes "cn_inv s" "authentic en bu len inb s out u key" "(ab_src out, ab_dst out) = k" "live en" "cn_binding_pol_get cf (snd k) (fst k) \<noteq> 0"
    and "bu_result en s out True u (bindings s k) = x"
  shows "\<exists>s'. cn_recv_bu en cf bu len inb s = Done s'"
    "cn_recv_bu en cf bu len inb s = Done s' \<Longrightarrow> cn_inv s' \<and> same_nonces s s' \<and> bindings s' k = x"
proof -
  have "True \<longleftrightarrow> cn_binding_pol_get cf (ab_dst out) (ab_src out) \<noteq> 0" using assms(3,5) by auto
  then obtain s1 where s1: "cn_recv_bu en cf bu len inb s = Done s1"
      "cn_step_to s k (bu_result en s out True u (bindings s k)) (bu_answer en out True u key (bindings s k)) s1"
    using update_step_live [OF assms(1,2) assms(3) [symmetric] assms(4)] by blast
  then show "\<exists>s'. cn_recv_bu en cf bu len inb s = Done s'" by blast
  have "cn_inv s1 \<and> same_nonces s s1 \<and> bindings s1 k = x" using s1(2) unfolding cn_step_to_def assms(6) by simp
  then show "cn_recv_bu en cf bu len inb s = Done s' \<Longrightarrow> cn_inv s' \<and> same_nonces s s' \<and> bindings s' k = x" using s1(1) by simp
qed

text \<open>C16: the handling of a well-formed and authenticated binding update refines the update of a map.  Whatever the cache holds for the home
  address, the handler ends without a fault, sends at most the acknowledgement with the status given by sequence number, nonce,
  lifetime and policy, and changes at most the binding of this home address: it stores or renews it, deletes it (leaving the block
  on its nonce), or keeps it.  The invariant of the cache and the nonces is kept.\<close>

theorem binding_update_refines:
  assumes "cn_inv s" "authentic en bu len inb s out u key" "k = (ab_src out, ab_dst out)" "live en"
    and "allowed \<longleftrightarrow> cn_binding_pol_get cf (ab_dst out) (ab_src out) \<noteq> 0"
  shows "\<exists>s' es. cn_recv_bu en cf bu len inb s = Done s' \<and> cn_inv s' \<and> same_nonces s s'
    \<and> bindings s' = (bindings s)(k := bu_result en s out allowed u (bindings s k))
    \<and> bc_out s' = bc_out s @ es @ bu_answer en out allowed u key (bindings s k)"
  using update_step_live [OF assms] by (metis cn_step_to_def)

text \<open>C17: nobody changes a binding without the key.  When a received message changes any binding, it carries a nonce indices option and an
  authorization data option.  The key is that of the home address the message came from: for a registration, an update with a
  nonzero lifetime and a care-of address other than the home address, it is made of both tokens, for the home nonce, the care-of nonce and the
  care-of address of this very message (its alternate care-of address option, else the address it came through); only a deregistration gets along with the
  home token alone.  The twelve bytes of authorization data are those computed with that key for that care-of address over the message up to them.\<close>

theorem binding_change_authenticated:
  assumes "bc_inv s" "len \<le> length bu" "cn_recv_bu en cf bu len inb s = Done s'" "bindings s' \<noteq> bindings s"
  shows "\<exists>r mo p b nh nc key. mh_opt_parse bu len 12 = Done (r, mo)
    \<and> mh_opt mo IP6_MHOPT_NONCEID = Some p \<and> nh = le16 (bu ! (p + 3)) (bu ! (p + 2)) \<and> nc = le16 (bu ! (p + 5)) (bu ! (p + 4))
    \<and> (if update_coa bu mo inb \<noteq> ab_src inb \<and> (bu ! 10 \<noteq> 0 \<or> bu ! 11 \<noteq> 0)
        then rr_cn_calc_Kbm (cn_crypto en) (cn_now en) nh nc (ab_src inb) (Some (update_coa bu mo inb)) s = (0, Some key)
        else rr_cn_calc_Kbm (cn_crypto en) (cn_now en) nh 0 (ab_src inb) None s = (0, Some key))
    \<and> mh_opt mo IP6_MHOPT_BAUTH = Some b \<and> 12 \<le> b \<and> b + 1 < len \<and> bu ! b = IP6_MHOPT_BAUTH \<and> bu ! (b + 1) = 12
    \<and> take 12 (drop (b + 2) bu) = calculate_auth_data (cn_crypto en) [take (len - 12) (clear_cksum bu)] (update_coa bu mo inb) (ab_dst inb) key"
proof -
  have "\<exists>out u key. authentic en bu len inb s out u key"
    using not_admitted [OF assms(1,3)] assms(4) bc_out_frame(2) by metis
  then obtain out key mo and u :: bu_info where a: "mh_bu_parse bu len inb s = Done (Some (out, mo, u_lft u), s)"
      "cn_bu_check en bu len mo (ab_dst out) (ab_src out) (the (ab_bind_coa out)) (u_lft u) s = Done (0, Some key, s)"
    unfolding authentic_def by blast
  note P = mh_bu_parse_out [OF assms(1) a(1)] and C = mh_bu_parse_coa [OF assms(1) a(1)] and K = cn_bu_check_key [OF a(2)]
  obtain r where r: "mh_opt_parse bu len 12 = Done (r, mo)" using P(9) by blast
  obtain p nh nc b v where c: "mh_opt mo IP6_MHOPT_NONCEID = Some p" "nonce_indices bu p = Done (nh, nc)"
      "(if tsisset (u_lft u) then rr_cn_calc_Kbm (cn_crypto en) (cn_now en) nh nc (ab_dst out) (Some (the (ab_bind_coa out))) s
        else rr_cn_calc_Kbm (cn_crypto en) (cn_now en) nh 0 (ab_dst out) None s) = (0, Some key)"
      "mh_opt mo IP6_MHOPT_BAUTH = Some b" "mh_verify_auth_data (cn_crypto en) (clear_cksum bu) len b (the (ab_bind_coa out)) (ab_src out) key = Done v" "0 \<le> v"
    using K by blast
  note N = nonce_indices_bytes [OF c(2)]
  note F = mh_opt_found(1) [OF r assms(2) _ c(4)]
  have b: "12 \<le> b" "b + 1 < len" "bu ! b = 5" "unat (bu ! (b + 1)) = 12" using F by (auto simp: mh_opt_len_chk_def)
  have l: "bu ! (b + 1) = 12" by (rule unsigned_word_eqI [where ?'a = nat]) (use b(4) in simp)
  have k: "clear_cksum bu ! (b + 1) = 12" "length (clear_cksum bu) = length bu" "drop (b + 2) (clear_cksum bu) = drop (b + 2) bu"
    using b l by (simp_all add: clear_cksum_def)
  have "take 12 (drop (b + 2) bu) = calculate_auth_data (cn_crypto en) [take (len - 12) (clear_cksum bu)] (the (ab_bind_coa out)) (ab_src out) key"
    using c(5,6) b(1,2) k by (auto simp: mh_verify_auth_data_def read_u8_def read_bytes_def calculate_auth_data_def split: if_split_asm)
  moreover have "if update_coa bu mo inb \<noteq> ab_src inb \<and> (bu ! 10 \<noteq> 0 \<or> bu ! 11 \<noteq> 0)
      then rr_cn_calc_Kbm (cn_crypto en) (cn_now en) nh nc (ab_src inb) (Some (update_coa bu mo inb)) s = (0, Some key)
      else rr_cn_calc_Kbm (cn_crypto en) (cn_now en) nh 0 (ab_src inb) None s = (0, Some key)"
    using c(3) unfolding C P(1,2) by (auto split: if_split_asm)
  ultimately show ?thesis using r c(1,4) N b(1-3) l unfolding C P(1,2)
    by - (rule exI [of _ r], rule exI [of _ mo], rule exI [of _ p], rule exI [of _ b], rule exI [of _ nh], rule exI [of _ nc], rule exI [of _ key], simp only: simp_thms)
qed

text \<open>C18: replays are rejected.  While the node holds a binding, cached or dying, with a sequence number that is not older than that of an
  update, or the block that such a binding left on the home nonce of the update, the update changes no binding and is answered by an error.\<close>

theorem replay_rejected:
  assumes "cn_inv s" "authentic en bu len inb s out u key" "live en" "bindings s (ab_src out, ab_dst out) = Some e"
    and "\<not> MIP6_SEQ_GT (u_seqno u) (b_seqno e)" "b_type e \<noteq> BCE_NONCE_BLOCK \<or> b_nonce_hoa e = u_nonce_hoa u"
  shows "\<exists>s'. cn_recv_bu en cf bu len inb s = Done s' \<and> cn_inv s' \<and> bindings s' = bindings s
    \<and> bc_out s' = bc_out s @ (if b_type e \<noteq> BCE_NONCE_BLOCK then ba_packets en out IP6_MH_BAS_SEQNO_BAD (b_seqno e) tszero (Some key)
                               else ba_packets en out IP6_MH_BAS_NI_EXPIRED (u_seqno u) tszero None)"
proof -
  let ?k = "(ab_src out, ab_dst out)"
  have I: "bc_inv s" "ab_bind_coa out \<noteq> None" using assms(1-3) admitted_storable(2) by (auto simp: cn_inv_def live_def)
  obtain p where p: "bc_lookup s ?k = Some p" "e = bc_heap s p" using assms(4) by (auto simp: bindings_def)
  have d: "bc_deref p (s\<lparr>bc_held := [BceLock p, BcLock]\<rparr>) = Done e" using bc_lookup_alive [OF I(1) p(1)] by (simp add: bc_deref_def p(2))
  have "cn_recv_bu en cf bu len inb s = Done (s\<lparr>bc_out := bc_out s @ (if b_type e \<noteq> BCE_NONCE_BLOCK
      then ba_packets en out IP6_MH_BAS_SEQNO_BAD (b_seqno e) tszero (Some key) else ba_packets en out IP6_MH_BAS_NI_EXPIRED (u_seqno u) tszero None)\<rparr>)"
    using assms(5,6) by (auto simp: cn_recv_bu_admitted [OF I(1) assms(2)] p(1) bu_respond_def bu_against_def d release_locked [OF assms(1)] send_nack_None [OF I(2)])
  then show ?thesis using assms(1) by simp
qed

lemma admitted_nonce_there:
  assumes "authentic en bu len inb s out u key"
  shows "rr_cn_nonce_lft (u_nonce_hoa u) s \<noteq> None"
proof -
  from assms obtain mo p where c: "cn_bu_check en bu len mo (ab_dst out) (ab_src out) (the (ab_bind_coa out)) (u_lft u) s = Done (0, Some key, s)"
      "mh_opt mo IP6_MHOPT_NONCEID = Some p" "nonce_indices bu p = Done (u_nonce_hoa u, u_nonce_coa u)"
    unfolding authentic_def by blast
  then have "validate_nonce (cn_now en) s (u_nonce_hoa u) \<noteq> None"
    by (auto simp: cn_bu_check_def rr_cn_calc_Kbm_def Let_def elim!: andThen_DoneE split: if_split_asm option.split_asm prod.split_asm)
  then show ?thesis by (auto simp: validate_nonce_def rr_cn_nonce_lft_def split: option.split_asm)
qed

lemma after_delete_cong: "same_nonces s s' \<Longrightarrow> after_delete e s' = after_delete e s"
  by (simp add: after_delete_def blocked_def rr_cn_nonce_lft_def get_nonce_def same_nonces_def)

text \<open>C24: the block protects one nonce only.  A node registers with one home nonce, renews its binding with a newer one, and deregisters.  The first
  update, sent again by anybody while its nonces are valid, is then accepted although its sequence number is older, and traffic for the node
  goes to the care-of address it has left.\<close>

theorem old_update_replayed:
  assumes "cn_inv s0" "live e1" "live e2" "live e3" "live e4" "bindings s0 k = None" "cn_binding_pol_get cf (snd k) (fst k) \<noteq> 0"
    and "authentic e1 m1 l1 i1 s0 o1 u1 k1" "cn_recv_bu e1 cf m1 l1 i1 s0 = Done s1" "tsisset (u_lft u1)"
    and "authentic e2 m2 l2 i2 s1 o2 u2 k2" "cn_recv_bu e2 cf m2 l2 i2 s1 = Done s2" "tsisset (u_lft u2)" "MIP6_SEQ_GT (u_seqno u2) (u_seqno u1)"
    and "authentic e3 m3 l3 i3 s2 o3 u3 k3" "cn_recv_bu e3 cf m3 l3 i3 s2 = Done s3" "\<not> tsisset (u_lft u3)" "MIP6_SEQ_GT (u_seqno u3) (u_seqno u2)"
    and "(ab_src o1, ab_dst o1) = k" "(ab_src o2, ab_dst o2) = k" "(ab_src o3, ab_dst o3) = k"
    and "u_nonce_hoa u1 \<noteq> u_nonce_hoa u2" "authentic e4 m1 l1 i1 s3 o1 u1 k4"
  shows "\<exists>s4 b. cn_recv_bu e4 cf m1 l1 i1 s3 = Done s4 \<and> bindings s4 k = Some b \<and> b_type b = BCE_CACHED
    \<and> b_coa b = the (ab_bind_coa o1) \<and> b_seqno b = u_seqno u1"
proof -
  let ?b1 = "bound_entry e1 o1 u1 None" and ?b2 = "bound_entry e2 o2 u2 (Some (bound_entry e1 o1 u1 None))"
  have f1: "b_type ?b1 = BCE_CACHED" "b_seqno ?b1 = u_seqno u1" by (simp_all add: bound_entry_def bu_fill_def)
  have f2: "b_type ?b2 = BCE_CACHED" "b_seqno ?b2 = u_seqno u2" "b_nonce_hoa ?b2 = u_nonce_hoa u2" by (simp_all add: bound_entry_def bu_fill_def)
  have "bu_result e1 s0 o1 True u1 (bindings s0 k) = Some ?b1" unfolding assms(6) using assms(10) by (simp add: bu_result_def bu_status_def)
  note 1 = update_done(2) [OF assms(1,8,19,2,7) this assms(9)]
  then have r: "bu_result e2 s1 o2 True u2 (bindings s1 k) = Some ?b2" using f1 assms(13,14) by (simp add: bu_result_def bu_status_def)
  note 2 = update_done(2) [OF conjunct1 [OF 1] assms(11,20,3,7) r assms(12)]
  have "rr_cn_nonce_lft (u_nonce_hoa u2) s2 \<noteq> None"
    using admitted_nonce_there [OF assms(11)] 2 by (simp add: rr_cn_nonce_lft_def get_nonce_def same_nonces_def)
  then have "after_delete ?b2 s2 = Some (?b2\<lparr>b_type := BCE_NONCE_BLOCK\<rparr>)" using f2(1,3) by (simp add: after_delete_def blocked_def)
  then have r: "bu_result e3 s2 o3 True u3 (bindings s2 k) = Some (?b2\<lparr>b_type := BCE_NONCE_BLOCK\<rparr>)"
    using 2 f2(1,2) assms(17,18) by (simp add: bu_result_def bu_status_def)
  note 3 = update_done(2) [OF conjunct1 [OF 2] assms(15,21,4,7) r assms(16)]
  let ?b4 = "bound_entry e4 o1 u1 (Some (?b2\<lparr>b_type := BCE_NONCE_BLOCK\<rparr>))"
  have r: "bu_result e4 s3 o1 True u1 (bindings s3 k) = Some ?b4" using 3 f2(3) assms(10,22) by (simp add: bu_result_def bu_status_def)
  note D = update_done [OF conjunct1 [OF 3] assms(23,19,5,7) r]
  obtain s4 where "cn_recv_bu e4 cf m1 l1 i1 s3 = Done s4" using D(1) by blast
  moreover have "b_type ?b4 = BCE_CACHED" "b_coa ?b4 = the (ab_bind_coa o1)" "b_seqno ?b4 = u_seqno u1" by (simp_all add: bound_entry_def bu_fill_def)
  ultimately show ?thesis using D(2) by blast
qed

text \<open>What a mobile node reads from a test message: the index of the nonce and the token.\<close>

definition test_index :: "byte list \<Rightarrow> u16" where
  "test_index m = ntohs (le16 (m ! 6) (m ! 7))"

definition test_token :: "byte list \<Rightarrow> byte list" where
  "test_token m = take 8 (drop 16 m)"

lemma test_read:
  assumes "length c = 8" "length k = 8"
  shows "test_index ([a0, a1, a2, a3, a4, a5] @ bytes16 (htons i) @ c @ k) = i" "test_token ([a0, a1, a2, a3, a4, a5] @ bytes16 (htons i) @ c @ k) = k"
    "take 8 (drop 8 ([a0, a1, a2, a3, a4, a5] @ bytes16 (htons i) @ c @ k)) = c"
  using assms by (simp_all add: test_index_def test_token_def bytes16_def)

lemma usable_key:
  assumes "usable t s nh x" "usable t s nc y" "now \<le> t" "ts_norm now"
  shows "rr_cn_calc_Kbm cr now nh nc hoa (Some coa) s
    = (0, Some (rr_mn_calc_Kbm cr (build_kgen_token cr (key_cn s) hoa x 0) (Some (build_kgen_token cr (key_cn s) coa y 1))))"
proof -
  obtain n m where "validate_nonce now s nh = Some n" "nonce (nonces s ! n) = x" "validate_nonce now s nc = Some m" "nonce (nonces s ! m) = y"
    using usable_valid [OF assms(1,3,4)] usable_valid [OF assms(2,3,4)] by blast
  then show ?thesis by (simp add: rr_cn_calc_Kbm_def)
qed

text \<open>C15: route optimisation works from end to end.  A mobile node sends the two test-init messages, takes nonce indices and tokens from
  the bytes of the two answers, which carry its cookies, computes the key from the tokens and sends a binding update authenticated with it within the 210
  seconds that tokens last.  The correspondent node, although the checksum was written into the message in between, accepts the
  update and stores exactly this binding with the care-of address.\<close>

theorem route_optimisation:
  assumes "kg_inv s" "cn_inv s" "prompt (cn_now en) s" "ts_norm (cn_now en)" "live en" "unat (min_nce s) + 15 < 65536"
    and "\<And>k m. length (hmac_sha1 (cn_crypto en) k m) = 20" "length hoti = 16" "length coti = 16"
    and "in6_is_addr_routable_unicast hoa" "in6_is_addr_routable_unicast coa" "coa \<noteq> hoa" "bindings s (our, coa) = None" "bindings s (our, hoa) = None"
    and "live en'" "cn_crypto en' = cn_crypto en" "ts_norm (cn_now en')" "cn_now en' < tsadd (cn_now en) (TS MAX_TOKEN_LIFETIME 0)"
    and "flags AND IP6_MH_BU_HOME = 0" "lft \<noteq> 0" "cn_binding_pol_get cf hoa our \<noteq> 0"
  shows "\<exists>s1 s2 s3 hot cot bu b.
      cn_recv_hoti en hoti 16 (plain hoa our) s = Some (Done s1) \<and> bc_out s1 = bc_out s @ [CnSend (plain our hoa) hot] \<and> take 8 (drop 8 hot) = drop 8 hoti
    \<and> cn_recv_coti en coti 16 (plain coa our) s1 = Some (Done s2) \<and> bc_out s2 = bc_out s1 @ [CnSend (plain our coa) cot] \<and> take 8 (drop 8 cot) = drop 8 coti
    \<and> mh_send (cn_crypto en) \<lparr>ab_src = hoa, ab_dst = our, ab_local_coa = Some coa, ab_remote_coa = None, ab_bind_coa = Some coa\<rparr>
        (update_vec sq flags lft (test_index hot) (test_index cot))
        (Some (rr_mn_calc_Kbm (cn_crypto en) (test_token hot) (Some (test_token cot)))) = Done bu
    \<and> cn_recv_bu en' cf (with_cksum c bu) 32 (from_node our hoa coa) s2 = Done s3
    \<and> bindings s3 = (bindings s)((our, hoa) \<mapsto> b) \<and> b_type b = BCE_CACHED \<and> b_coa b = coa \<and> b_seqno b = sq"
proof -
  let ?cr = "cn_crypto en" and ?t = "cn_now en'"
  have l: "0 < tv_sec (cn_now en)" "cn_mem en" using assms(5) by (simp_all add: live_def)
  obtain i x s1 where h: "recv_test_init IP6_MH_TYPE_HOT 0 en hoti 16 (plain hoa our) s = Some (Done s1)" "kg_inv s1" "cn_inv s1" "bindings s1 = bindings s" "key_cn s1 = key_cn s"
      "bc_out s1 = bc_out s @ [CnSend (plain our hoa) ([IPPROTO_NONE, 2, of_nat 3, 0, 0, 0] @ bytes16 (htons i) @ drop 8 hoti @ build_kgen_token ?cr (key_cn s) hoa x 0)]"
      "\<And>t. ts_norm t \<Longrightarrow> t < tsadd (cn_now en) (TS MAX_TOKEN_LIFETIME 0) \<Longrightarrow> usable t s1 i x" "prompt (cn_now en) s1" "min_nce s1 = min_nce s"
    using test_answered [OF assms(1-4) l assms(6,7,8) disjI1 [OF refl], where a = hoa and our = our and b = 0] by metis
  have m1: "unat (min_nce s1) + 15 < 65536" using assms(6) h(9) by simp
  obtain j y s2 where c: "recv_test_init IP6_MH_TYPE_COT 1 en coti 16 (plain coa our) s1 = Some (Done s2)" "cn_inv s2" "bindings s2 = bindings s1" "key_cn s2 = key_cn s1"
      "bc_out s2 = bc_out s1 @ [CnSend (plain our coa) ([IPPROTO_NONE, 2, of_nat 4, 0, 0, 0] @ bytes16 (htons j) @ drop 8 coti @ build_kgen_token ?cr (key_cn s1) coa y 1)]"
      "\<And>t. ts_norm t \<Longrightarrow> t < tsadd (cn_now en) (TS MAX_TOKEN_LIFETIME 0) \<Longrightarrow> usable t s2 j y" "\<And>t j y. usable t s1 j y \<Longrightarrow> usable t s2 j y"
    using test_answered [OF h(2,3,8) assms(4) l m1 assms(7,9) disjI2 [OF refl], where a = coa and our = our and b = 1] by metis
  define ht where "ht = build_kgen_token ?cr (key_cn s) hoa x 0"
  define ct where "ct = build_kgen_token ?cr (key_cn s) coa y 1"
  define hot where "hot = [IPPROTO_NONE, 2, of_nat 3, 0, 0, 0] @ bytes16 (htons i) @ drop 8 hoti @ ht"
  define cot where "cot = [IPPROTO_NONE, 2, of_nat 4, 0, 0, 0] @ bytes16 (htons j) @ drop 8 coti @ ct"
  have "length ht = 8" "length ct = 8" using assms(7) by (simp_all add: ht_def ct_def build_kgen_token_def)
  then have r: "test_index hot = i" "test_token hot = ht" "take 8 (drop 8 hot) = drop 8 hoti"
      "test_index cot = j" "test_token cot = ct" "take 8 (drop 8 cot) = drop 8 coti"
    unfolding hot_def cot_def using assms(8,9) by (simp_all only: test_read length_drop)
  define key where "key = rr_mn_calc_Kbm ?cr ht (Some ct)"
  have "rr_cn_calc_Kbm ?cr ?t i j hoa (Some coa) s2 = (0, Some key)"
    using usable_key [OF c(7) [OF h(7)] c(6) order.refl assms(17), OF assms(17,18,17,18)] c(4) h(5) by (simp add: key_def ht_def ct_def)
  then have uk: "update_key en' s2 hoa coa lft i j = (0, Some key)" using assms(16,20) by (simp add: update_key_def)
  let ?a = "\<lparr>ab_src = hoa, ab_dst = our, ab_local_coa = Some coa, ab_remote_coa = None, ab_bind_coa = Some coa\<rparr>"
  define bu where "bu = update_head sq flags lft i j @ calculate_auth_data (cn_crypto en') [update_head sq flags lft i j] coa our key"
  have snd: "mh_send ?cr ?a (update_vec sq flags lft i j) (Some key) = Done bu" using update_bytes [of ?a coa] assms(16) by (simp add: bu_def)
  have b2: "bindings s2 = bindings s" using c(3) h(4) by simp
  have I2: "bc_inv s2" using c(2) by (simp add: cn_inv_def)
  have A: "authentic en' (with_cksum c bu) 32 (from_node our hoa coa) s2 (to_node our hoa coa) (update_info sq flags lft i j) key" for c
    by (rule update_admitted [OF I2 _ assms(10-12) _ assms(19) uk]) (use assms(7,13,16) b2 in \<open>simp_all add: bu_def\<close>)
  let ?u = "update_info sq flags lft i j" and ?o = "to_node our hoa coa"
  have pol: "True \<longleftrightarrow> cn_binding_pol_get cf (ab_dst ?o) (ab_src ?o) \<noteq> 0" using assms(21) by simp
  have none: "bindings s2 (our, hoa) = None" using b2 assms(14) by simp
  have lf: "tsisset (TS (4 * uint lft) 0)" using assms(20) by (simp add: tsisset_def unsigned_eq_0_iff)
  obtain s3 where s3: "cn_recv_bu en' cf (with_cksum c bu) 32 (from_node our hoa coa) s2 = Done s3"
      "cn_step_to s2 (our, hoa) (bu_result en' s2 ?o True ?u None) (bu_answer en' ?o True ?u key None) s3"
    using update_step_live [OF c(2) A _ assms(15) pol, of "(our, hoa)" c] unfolding none by auto
  have "bu_result en' s2 ?o True ?u None = Some (bound_entry en' ?o ?u None)" using lf by (simp add: bu_result_def bu_status_def)
  then have "bindings s3 = (bindings s)((our, hoa) \<mapsto> bound_entry en' ?o ?u None)" using s3(2) b2 by (simp add: cn_step_to_def)
  moreover have "b_type (bound_entry en' ?o ?u None) = BCE_CACHED" "b_coa (bound_entry en' ?o ?u None) = coa" "b_seqno (bound_entry en' ?o ?u None) = sq"
    by (simp_all add: bound_entry_def bu_fill_def)
  moreover have "bc_out s1 = bc_out s @ [CnSend (plain our hoa) hot]" "bc_out s2 = bc_out s1 @ [CnSend (plain our coa) cot]"
    using h(6) c(5) h(5) by (simp_all only: hot_def cot_def ht_def ct_def)
  moreover have "mh_send ?cr ?a (update_vec sq flags lft (test_index hot) (test_index cot)) (Some (rr_mn_calc_Kbm ?cr (test_token hot) (Some (test_token cot)))) = Done bu"
    using snd by (simp only: r key_def)
  ultimately show ?thesis using h(1) c(1) s3(1) r(3,6) unfolding cn_recv_hoti_def cn_recv_coti_def by blast
qed

section \<open>Unreachable destinations\<close>

lemma hao_scan_bounded:
  assumes "h + hlen \<le> len" "len \<le> length d" "lhoa + 16 \<le> len"
  shows "\<exists>p. hao_scan d h hlen ooff lhoa = Done p \<and> p + 16 \<le> len"
  using assms
proof (induction d h hlen ooff lhoa rule: hao_scan.induct)
  case (1 d h hlen ooff lhoa)
  show ?case
  proof (cases "ooff < hlen")
    case True
    have r: "read_u8 d (h + ooff) = Done (d ! (h + ooff))" "hlen \<ge> ooff + 2 \<Longrightarrow> read_u8 d (h + ooff + 1) = Done (d ! (h + ooff + 1))"
      using True "1.prems" by (simp_all add: read_u8_def)
    show ?thesis
    proof (cases "d ! (h + ooff) = 0")
      case z: True
      then show ?thesis using "1.IH"(1) [OF True z "1.prems"] True r(1) by (subst hao_scan.simps) simp
    next
      case z: False
      show ?thesis
      proof (cases "hlen < ooff + 2")
        case False
        then have rd: "read_u8 d (h + ooff + 1) = Done (d ! (h + ooff + 1))" using r(2) by simp
        show ?thesis
        proof (cases "hlen < ooff + 2 + unat (d ! (h + ooff + 1)) \<or> (d ! (h + ooff) = IP6OPT_HOME_ADDRESS \<and> unat (d ! (h + ooff + 1)) = 16)")
          case e: True
          then show ?thesis using True r(1) z False rd "1.prems" by (subst hao_scan.simps) auto
        next
          case e: False
          then have "\<exists>p. hao_scan d h hlen (ooff + 2 + unat (d ! (h + ooff + 1))) lhoa = Done p \<and> p + 16 \<le> len"
            using "1.IH"(2) [OF True z False, of "d ! (h + ooff + 1)"] "1.prems" by blast
          then show ?thesis using True r(1) z False rd e by (subst hao_scan.simps) auto
        qed
      qed (use True r(1) z "1.prems" in \<open>subst hao_scan.simps, simp\<close>)
    qed
  qed (use "1.prems" in \<open>subst hao_scan.simps, simp\<close>)
qed

lemma ext_walk_bounded:
  assumes "len \<le> length d" "lhoa + 16 \<le> len" "rhoa + 16 \<le> len"
  shows "\<exists>ret l r. ext_walk d len hoff htype lhoa rhoa = Done (ret, l, r) \<and> l + 16 \<le> len \<and> r + 16 \<le> len"
  using assms
proof (induction "len - hoff" arbitrary: hoff htype lhoa rhoa rule: less_induct)
  case less
  show ?case
  proof (cases "hoff + 8 < len")
    case True
    let ?l = "d ! (hoff + 1)" and ?hlen = "(unat (d ! (hoff + 1)) + 1) * 8"
    have r: "read_u8 d (hoff + i) = Done (d ! (hoff + i))" if "i < 8" for i using that True less.prems(1) by (simp add: read_u8_def)
    have r0: "read_u8 d hoff = Done (d ! hoff)" "read_u8 d (Suc hoff) = Done ?l" using r [of 0] r [of 1] by simp_all
    have next_hdr: "\<exists>ret l r. ext_walk d len (hoff + ?hlen) nx l1 r1 = Done (ret, l, r) \<and> l + 16 \<le> len \<and> r + 16 \<le> len"
      if "l1 + 16 \<le> len" "r1 + 16 \<le> len" for nx l1 r1
      using less.hyps [of "hoff + ?hlen" l1 r1 nx] True less.prems(1) that by simp
    show ?thesis
    proof (cases "len < hoff + ?hlen \<or> (htype \<noteq> IPPROTO_DSTOPTS \<and> htype \<noteq> IPPROTO_ROUTING \<and> htype \<noteq> IPPROTO_HOPOPTS)")
      case out: True
      then show ?thesis using True r0 less.prems by (subst ext_walk.simps) (auto simp: Let_def)
    next
      case inside: False
      obtain p where p: "hao_scan d hoff ?hlen 2 lhoa = Done p" "p + 16 \<le> len"
        using hao_scan_bounded [of hoff ?hlen len d lhoa 2] inside less.prems by auto
      have q: "hoff + 24 \<le> len" if "?l = 2" using inside that by simp
      consider "htype = IPPROTO_DSTOPTS" | "htype = IPPROTO_ROUTING" | "htype = IPPROTO_HOPOPTS" using inside by blast
      then show ?thesis
      proof cases
        case 1
        then show ?thesis using True r0 inside p next_hdr [OF p(2) less.prems(3)] by (subst ext_walk.simps) (simp add: Let_def)
      next
        case 2
        let ?r = "if d ! (hoff + 2) = 2 \<and> ?l = 2 \<and> d ! (hoff + 3) = 1 then hoff + 8 else rhoa"
        have "?r + 16 \<le> len" using q less.prems(3) by auto
        then show ?thesis using 2 True r0 inside r [of 2] r [of 3] next_hdr [OF less.prems(2), of ?r] by (subst ext_walk.simps) (simp add: Let_def)
      next
        case 3
        then show ?thesis using True r0 inside next_hdr [OF less.prems(2,3)] by (subst ext_walk.simps) (simp add: Let_def)
      qed
    qed
  qed (use less.prems in \<open>subst ext_walk.simps, simp\<close>)
qed

text \<open>The quoted packet is read inside its bytes only, and the two addresses lie inside.\<close>

lemma icmp6_parse_data_bounded:
  assumes "len \<le> length d"
  shows "\<exists>ret l r. icmp6_parse_data d len = Done (ret, l, r) \<and> (0 \<le> ret \<longrightarrow> l + 16 \<le> len \<and> r + 16 \<le> len)"
proof (cases "len < 40")
  case False
  then have "read_u8 d 6 = Done (d ! 6)" using assms by (simp add: read_u8_def)
  then show ?thesis using False ext_walk_bounded [OF assms, of 8 24 40 "d ! 6"] by (auto simp: icmp6_parse_data_def)
qed (simp add: icmp6_parse_data_def)

lemma count_step:
  assumes "cn_inv s" "bc_lookup s k = Some p" "e = bc_heap s p" "e' = e\<lparr>b_unreach := n\<rparr>" "s1 = s\<lparr>bc_heap := (bc_heap s)(p := e')\<rparr>"
  shows "cn_inv s1" "same_nonces s s1" "bindings s1 = (bindings s)(k \<mapsto> e')"
proof -
  have I: "bc_inv s" using assms(1) by (simp add: cn_inv_def)
  note L = cn_lookup [OF assms(1,2), folded assms(3)] and al = bc_lookup_alive [OF I assms(2)]
  obtain t where t: "pending (cn_tq s) (TqBc p) = Some t" using bc_invD(6) [OF I, of p] al L(3) assms(3) by auto
  then have ts: "tsisset t" using bc_invD(4) [OF I] by (auto simp: pending_def tq_inv_def split: if_split_asm)
  have ke: "(b_our_addr e', b_peer_addr e') = k" "b_type e' \<noteq> BCE_DAD" using al L(3) by (auto simp: assms(3,4) bc_rd_def)
  have q: "pending (cn_tq s) = (pending (cn_tq s))(TqBc p \<mapsto> t)" using t by (simp add: fun_upd_idem)
  have s1: "s1 = s\<lparr>bc_heap := (bc_heap s)(p := e'), cn_tq := cn_tq s, bc_out := bc_out s\<rparr>" by (simp add: assms(5))
  note U = bc_update [OF I assms(2) ke ts s1 bc_invD(4) [OF I] q]
  show "same_nonces s s1" "bindings s1 = (bindings s)(k \<mapsto> e')" using U by simp_all
  have "cn_entry s e'" using L(2) by (simp add: cn_entry_def blocked_def assms(4))
  then show "cn_inv s1" using cn_invI [OF assms(1) U(3,1,2)] by auto
qed

text \<open>Which binding an error is about: this node is the source of the quoted packet, and the peer its destination, or the home address in its type 2
  routing header.\<close>

lemma quoted_plain:
  assumes "40 \<le> len" "len \<le> length d" "d ! 6 \<notin> {IPPROTO_HOPOPTS, IPPROTO_ROUTING, IPPROTO_DSTOPTS}"
  shows "icmp6_parse_data d len = Done (0, 8, 24)"
  using assms by (subst icmp6_parse_data_def, subst ext_walk.simps) (auto simp: read_u8_def Let_def)

lemma quoted_routed:
  assumes "64 \<le> len" "len \<le> length d" "d ! 6 = IPPROTO_ROUTING" "d ! 41 = 2" "d ! 42 = 2" "d ! 43 = 1"
    and "d ! 40 \<notin> {IPPROTO_HOPOPTS, IPPROTO_ROUTING, IPPROTO_DSTOPTS}"
  shows "icmp6_parse_data d len = Done (0, 8, 48)"
proof -
  have "ext_walk d len 64 (d ! 40) 8 48 = Done (0, 8, 48)" using assms(2,7) by (subst ext_walk.simps) (auto simp: read_u8_def Let_def)
  then have "ext_walk d len 40 IPPROTO_ROUTING 8 24 = Done (0, 8, 48)"
    using assms(1,2,4-6) by (subst ext_walk.simps) (simp add: read_u8_def Let_def)
  then show ?thesis using assms(1-3) by (simp add: icmp6_parse_data_def read_u8_def)
qed

text \<open>What the handler does to the binding of the quoted pair.\<close>

definition after_unreach :: "bc_state \<Rightarrow> bcentry \<Rightarrow> bcentry option" where
  "after_unreach s e = (if b_unreach e < 3 then Some (e\<lparr>b_unreach := b_unreach e + 1\<rparr>) else after_delete (e\<lparr>b_unreach := b_unreach e + 1\<rparr>) s)"

lemma unreach_step:
  assumes "cn_inv s" "icmp6_parse_data (drop 8 ih) (len - 8) = Done (ret, l, r)" "0 \<le> ret" "8 + l + 16 \<le> length ih" "8 + r + 16 \<le> length ih"
    and "k = (in6_of (take 16 (drop (8 + l) ih)), in6_of (take 16 (drop (8 + r) ih)))"
  shows "\<exists>s'. cn_recv_dst_unreach ih len s = Done s' \<and> cn_inv s' \<and> same_nonces s s'
    \<and> bindings s' = (case bindings s k of None \<Rightarrow> bindings s | Some e \<Rightarrow> (bindings s)(k := after_unreach s e))"
proof -
  have I: "bc_inv s" using assms(1) by (simp add: cn_inv_def)
  have rd: "read_bytes (drop 8 ih) l 16 = Done (take 16 (drop (8 + l) ih))" "read_bytes (drop 8 ih) r 16 = Done (take 16 (drop (8 + r) ih))"
    using assms(4,5) by (auto simp: read_bytes_def add.commute)
  have nneg: "\<not> ret < 0" using assms(3) by simp
  show ?thesis
  proof (cases "bc_lookup s k")
    case None
    then have "cn_recv_dst_unreach ih len s = Done s"
      using nneg rd by (simp add: cn_recv_dst_unreach_def assms(2,6) bcache_get_eq [OF I] Let_def)
    moreover have "bindings s k = None" using None by (simp add: bindings_def)
    ultimately show ?thesis using assms(1) by (simp add: same_nonces_def)
  next
    case (Some b)
    let ?e = "bc_heap s b" and ?e' = "(bc_heap s b)\<lparr>b_unreach := b_unreach (bc_heap s b) + 1\<rparr>"
    let ?s1 = "s\<lparr>bc_heap := (bc_heap s)(b := ?e')\<rparr>"
    note S = count_step [OF assms(1) Some refl refl refl, of "b_unreach ?e + 1"] and L = cn_lookup [OF assms(1) Some]
    have al: "b \<in> bc_alive s" using bc_lookup_alive [OF I Some] by blast
    have idle1: "bcache_release_entry b (s\<lparr>bc_held := [BceLock b, BcLock], bc_heap := (bc_heap s)(b := ?e')\<rparr>) = ?s1"
      using idle [of ?s1] S(1) by (simp add: bcache_release_eq cn_inv_def)
    have run: "cn_recv_dst_unreach ih len s = (if b_unreach ?e + 1 > 3 then bcache_delete (fst k) (snd k) ?s1 else Done ?s1)"
      using nneg rd Some al idle1 L(2)
      by (auto simp: cn_recv_dst_unreach_def assms(2,6) bcache_get_eq [OF I] Let_def bc_modify_def bc_deref_def cn_entry_def)
    show ?thesis
    proof (cases "b_unreach ?e < 3")
      case True
      then show ?thesis using run S L(1) by (intro exI [of _ ?s1]) (simp add: after_unreach_def)
    next
      case f: False
      obtain s2 where "bcache_delete (fst k) (snd k) ?s1 = Done s2" "cn_step_to ?s1 k (Option.bind (bindings ?s1 k) (\<lambda>e. after_delete e ?s1)) [] s2"
        using delete_step [OF S(1), of k] by blast
      moreover from this(2) have "bindings s2 = (bindings s)(k := after_delete ?e' s)" "cn_inv s2" "same_nonces s s2"
        using S(2,3) after_delete_cong [OF S(2)] same_nonces_trans [OF S(2)] by (simp_all add: cn_step_to_def)
      ultimately show ?thesis using run f L(1) by (intro exI [of _ s2]) (simp add: after_unreach_def)
    qed
  qed
qed

text \<open>C25: an ICMP error, whatever its bytes, is handled without a fault and without reading beyond it.  When the quoted packet cannot be parsed,
  or no binding is cached for the two addresses found in it, the bindings stay as they are; otherwise one error is counted for exactly that
  binding or, as the fourth error since its last update, it is deleted, leaving the block on its nonce.  The addresses are the source and the destination of
  the quoted packet when no extension header follows, and the source and the home address in the type 2 routing header when that is the only one.\<close>

theorem unreachable_handled:
  assumes "cn_inv s" "8 \<le> len" "len \<le> length ih"
  shows "\<exists>ret l r s'. icmp6_parse_data (drop 8 ih) (len - 8) = Done (ret, l, r) \<and> (0 \<le> ret \<longrightarrow> 8 + l + 16 \<le> len \<and> 8 + r + 16 \<le> len)
    \<and> cn_recv_dst_unreach ih len s = Done s' \<and> cn_inv s' \<and> same_nonces s s'
    \<and> bindings s' = (if ret < 0 then bindings s
        else let k = (in6_of (take 16 (drop (8 + l) ih)), in6_of (take 16 (drop (8 + r) ih))) in
          case bindings s k of None \<Rightarrow> bindings s
          | Some e \<Rightarrow> (bindings s)(k := (if b_unreach e < 3 then Some (e\<lparr>b_unreach := b_unreach e + 1\<rparr>) else after_delete (e\<lparr>b_unreach := b_unreach e + 1\<rparr>) s)))
    \<and> (48 \<le> len \<and> ih ! 14 \<notin> {IPPROTO_HOPOPTS, IPPROTO_ROUTING, IPPROTO_DSTOPTS} \<longrightarrow> (ret, l, r) = (0, 8, 24))
    \<and> (72 \<le> len \<and> ih ! 14 = IPPROTO_ROUTING \<and> ih ! 49 = 2 \<and> ih ! 50 = 2 \<and> ih ! 51 = 1
        \<and> ih ! 48 \<notin> {IPPROTO_HOPOPTS, IPPROTO_ROUTING, IPPROTO_DSTOPTS} \<longrightarrow> (ret, l, r) = (0, 8, 48))"
proof -
  let ?d = "drop 8 ih" and ?n = "len - 8"
  have d: "?n \<le> length ?d" "?d ! i = ih ! (8 + i)" if "8 \<le> length ih" for i using assms(2,3) that by simp_all
  have l8: "8 \<le> length ih" using assms(2,3) by simp
  obtain ret l r where p: "icmp6_parse_data ?d ?n = Done (ret, l, r)" "0 \<le> ret \<longrightarrow> l + 16 \<le> ?n \<and> r + 16 \<le> ?n"
    using icmp6_parse_data_bounded [OF d(1) [OF l8]] by blast
  have b: "0 \<le> ret \<longrightarrow> 8 + l + 16 \<le> len \<and> 8 + r + 16 \<le> len" using p(2) assms(2) by auto
  have q1: "(ret, l, r) = (0, 8, 24)" if "48 \<le> len" "ih ! 14 \<notin> {IPPROTO_HOPOPTS, IPPROTO_ROUTING, IPPROTO_DSTOPTS}"
    using quoted_plain [OF _ d(1) [OF l8]] that d(2) [OF l8, of 6] p(1) by simp
  have q2: "(ret, l, r) = (0, 8, 48)" if "72 \<le> len" "ih ! 14 = IPPROTO_ROUTING" "ih ! 49 = 2" "ih ! 50 = 2" "ih ! 51 = 1"
      "ih ! 48 \<notin> {IPPROTO_HOPOPTS, IPPROTO_ROUTING, IPPROTO_DSTOPTS}"
    using quoted_routed [OF _ d(1) [OF l8]] that d(2) [OF l8] p(1) by simp
  show ?thesis
  proof (cases "ret < 0")
    case True
    then have "cn_recv_dst_unreach ih len s = Done s" by (simp add: cn_recv_dst_unreach_def p(1) Let_def)
    then show ?thesis using p(1) True assms(1) q1 q2
      by - (rule exI [of _ ret], rule exI [of _ l], rule exI [of _ r], rule exI [of _ s], auto simp: same_nonces_def)
  next
    case False
    then have "0 \<le> ret" "8 + l + 16 \<le> length ih" "8 + r + 16 \<le> length ih" using b assms(3) by simp_all
    from unreach_step [OF assms(1) p(1) this refl] obtain s' where "cn_recv_dst_unreach ih len s = Done s'" "cn_inv s'" "same_nonces s s'"
        "bindings s' = (let k = (in6_of (take 16 (drop (8 + l) ih)), in6_of (take 16 (drop (8 + r) ih))) in
          case bindings s k of None \<Rightarrow> bindings s | Some e \<Rightarrow> (bindings s)(k := after_unreach s e))" unfolding Let_def by blast
    then show ?thesis using p(1) b False q1 q2 unfolding after_unreach_def
      by - (rule exI [of _ ret], rule exI [of _ l], rule exI [of _ r], rule exI [of _ s'], auto)
  qed
qed

section \<open>An example\<close>

definition hoa_ex :: in6_addr where "hoa_ex = In6 0x20 1 0 0 0 0 0 0 0 0 0 0 0 0 0 1"
definition coa_ex :: in6_addr where "coa_ex = In6 0x20 2 0 0 0 0 0 0 0 0 0 0 0 0 0 1"
definition coa2_ex :: in6_addr where "coa2_ex = In6 0x20 3 0 0 0 0 0 0 0 0 0 0 0 0 0 1"
definition our_ex :: in6_addr where "our_ex = In6 0x20 9 0 0 0 0 0 0 0 0 0 0 0 0 0 1"

definition conf_cn_ex :: cn_conf where
  "conf_cn_ex = \<lparr>DoRouteOptimizationCN = 1, cn_binding_pol_hash = \<lparr>buckets = 16, hash_buckets = replicate 16 [], hash_type = SINGLE_ADDR\<rparr>\<rparr>"

text \<open>Two nonces are valid, the second since forty seconds later.\<close>

definition cn_ex :: bc_state where
  "cn_ex = activate (TS 100 0) 2 (activate (TS 60 0) 1 bc_boot)"

lemma ex_facts:
  "live cn_env_example" "length (hmac_sha1 (cn_crypto cn_env_example) k m) = 20" "cn_binding_pol_get conf_cn_ex a b \<noteq> 0"
  "in6_is_addr_routable_unicast hoa_ex" "in6_is_addr_routable_unicast coa_ex" "in6_is_addr_routable_unicast coa2_ex" "coa_ex \<noteq> hoa_ex" "coa2_ex \<noteq> hoa_ex"
  by (simp_all add: live_def cn_env_example_def cn_binding_pol_get_def conf_cn_ex_def hash_get_def table_get_def calc_hash1_def hash_calc_def
      in6_is_addr_routable_unicast_def in6addr_any_def hoa_ex_def coa_ex_def coa2_ex_def)

lemma cn_ex_facts: "cn_inv cn_ex" "bindings cn_ex = Map.empty"
  "\<exists>i. validate_nonce (cn_now cn_env_example) cn_ex 1 = Some i" "\<exists>i. validate_nonce (cn_now cn_env_example) cn_ex 2 = Some i"
proof -
  have n: "length (nonces bc_boot) = MAX_NONCES" by (simp add: bc_boot_def kg_at_def kg_state.defs)
  have 1: "cn_inv (activate (TS 60 0) 1 bc_boot)" "bindings (activate (TS 60 0) 1 bc_boot) = Map.empty"
    using activate_cn [OF bc_boot_inv(1), of 1 "TS 60 0"] n bc_boot_inv(2) by simp_all
  have "length (nonces (activate (TS 60 0) 1 bc_boot)) = MAX_NONCES" using n by (simp add: activate_def Let_def)
  then show "cn_inv cn_ex" "bindings cn_ex = Map.empty" using activate_cn [OF 1(1), of 2 "TS 100 0"] 1(2) by (simp_all add: cn_ex_def)
  have m: "(1 :: u16) AND 15 = 1" "(2 :: u16) AND 15 = 2" by simp_all
  show "\<exists>i. validate_nonce (cn_now cn_env_example) cn_ex 1 = Some i" "\<exists>i. validate_nonce (cn_now cn_env_example) cn_ex 2 = Some i"
    by (simp_all add: validate_nonce_def get_nonce_def cn_ex_def activate_def bc_boot_def kg_at_def kg_state.defs cn_env_example_def m ts_simps Let_def nth_list_update)
qed

text \<open>In a state with the nonces of the example, an update with any of the two nonces is authentic when it is made with the right key.\<close>

lemma ex_admitted:
  assumes "cn_inv s" "same_nonces cn_ex s" "nh \<in> {1, 2}" "nc \<in> {1, 2}" "coa = coa_ex \<or> coa = coa2_ex" "bindings s (our_ex, coa) = None"
  obtains bu key where "length bu = 32" "\<And>s'. bc_inv s' \<Longrightarrow> same_nonces cn_ex s' \<Longrightarrow> bindings s' (our_ex, coa) = None \<Longrightarrow>
      authentic cn_env_example bu 32 (from_node our_ex hoa_ex coa) s' (to_node our_ex hoa_ex coa) (update_info sq 0x80 lft nh nc) key"
proof -
  have v: "validate_nonce now s' i = validate_nonce now s i" if "same_nonces cn_ex s'" for s' now i
    using that assms(2) by (simp add: validate_nonce_def get_nonce_def same_nonces_def Let_def)
  have "validate_nonce (cn_now cn_env_example) s nh \<noteq> None" "validate_nonce (cn_now cn_env_example) s nc \<noteq> None"
    using assms(3,4) cn_ex_facts(3,4) v [of cn_ex] by (auto simp: same_nonces_def)
  then have "\<exists>key. update_key cn_env_example s hoa_ex coa lft nh nc = (0, Some key)"
    by (auto simp: update_key_def rr_cn_calc_Kbm_def Let_def)
  then obtain key where key: "update_key cn_env_example s hoa_ex coa lft nh nc = (0, Some key)" by blast
  have k: "update_key cn_env_example s' hoa_ex coa lft nh nc = (0, Some key)" if "same_nonces cn_ex s'" for s'
    using key v [OF that] that assms(2) by (simp add: update_key_def rr_cn_calc_Kbm_def same_nonces_def cong: option.case_cong if_cong)
  have r: "in6_is_addr_routable_unicast coa" "coa \<noteq> hoa_ex" using assms(5) ex_facts(5-8) by auto
  show thesis
  proof (rule that)
    show "length (with_cksum 0 (update_head sq 0x80 lft nh nc @ calculate_auth_data (cn_crypto cn_env_example) [update_head sq 0x80 lft nh nc] coa our_ex key)) = 32"
      using ex_facts(2) by (simp add: with_cksum_def calculate_auth_data_def)
  qed (rule update_admitted [OF _ ex_facts(2,4) r _ _ _ refl], use k in auto)
qed

text \<open>A registration in the example, and its effect.\<close>

lemma ex_registered:
  obtains bu key s' where "length bu = 32"
    "\<And>s. bc_inv s \<Longrightarrow> same_nonces cn_ex s \<Longrightarrow> bindings s (our_ex, coa_ex) = None \<Longrightarrow>
       authentic cn_env_example bu 32 (from_node our_ex hoa_ex coa_ex) s (to_node our_ex hoa_ex coa_ex) (update_info 7 0x80 100 1 1) key"
    "cn_recv_bu cn_env_example conf_cn_ex bu 32 (from_node our_ex hoa_ex coa_ex) cn_ex = Done s'" "cn_inv s'" "same_nonces cn_ex s'"
    "bindings s' = [(our_ex, hoa_ex) \<mapsto> bound_entry cn_env_example (to_node our_ex hoa_ex coa_ex) (update_info 7 0x80 100 1 1) None]"
proof -
  let ?o = "to_node our_ex hoa_ex coa_ex" and ?u = "update_info 7 0x80 100 1 1" and ?k = "(our_ex, hoa_ex)"
  have I: "bc_inv cn_ex" "same_nonces cn_ex cn_ex" "bindings cn_ex (our_ex, coa_ex) = None" using cn_ex_facts(1,2) by (simp_all add: cn_inv_def same_nonces_def)
  obtain bu key where l: "length bu = 32" and a: "\<And>s. bc_inv s \<Longrightarrow> same_nonces cn_ex s \<Longrightarrow> bindings s (our_ex, coa_ex) = None \<Longrightarrow>
       authentic cn_env_example bu 32 (from_node our_ex hoa_ex coa_ex) s ?o ?u key"
    using ex_admitted [OF cn_ex_facts(1) I(2) _ _ _ I(3), of 1 1 7 100] by auto
  have pol: "True \<longleftrightarrow> cn_binding_pol_get conf_cn_ex (ab_dst ?o) (ab_src ?o) \<noteq> 0" using ex_facts(3) by simp
  obtain s' where s': "cn_recv_bu cn_env_example conf_cn_ex bu 32 (from_node our_ex hoa_ex coa_ex) cn_ex = Done s'"
      "cn_step_to cn_ex ?k (bu_result cn_env_example cn_ex ?o True ?u (bindings cn_ex ?k)) (bu_answer cn_env_example ?o True ?u key (bindings cn_ex ?k)) s'"
    using update_step_live [OF cn_ex_facts(1) a [OF I] _ ex_facts(1) pol, of ?k] by auto
  have "bu_result cn_env_example cn_ex ?o True ?u (bindings cn_ex ?k) = Some (bound_entry cn_env_example ?o ?u None)"
    unfolding cn_ex_facts(2) by (simp add: bu_result_def bu_status_def tsisset_def)
  then show thesis using s' a cn_ex_facts(2) by (intro that [OF l a s'(1)]) (auto simp: cn_step_to_def)
qed

theorem binding_update_refines_witness:
  "\<exists>bu s'. cn_recv_bu cn_env_example conf_cn_ex bu 32 (from_node our_ex hoa_ex coa_ex) cn_ex = Done s' \<and> cn_inv s'
    \<and> bindings s' (our_ex, hoa_ex) = Some (bound_entry cn_env_example (to_node our_ex hoa_ex coa_ex) (update_info 7 0x80 100 1 1) None)"
proof -
  let ?o = "to_node our_ex hoa_ex coa_ex" and ?u = "update_info 7 0x80 100 1 1" and ?k = "(our_ex, hoa_ex)"
  have I: "bc_inv cn_ex" "same_nonces cn_ex cn_ex" "bindings cn_ex (our_ex, coa_ex) = None" using cn_ex_facts(1,2) by (simp_all add: cn_inv_def same_nonces_def)
  obtain bu key where a: "authentic cn_env_example bu 32 (from_node our_ex hoa_ex coa_ex) cn_ex ?o ?u key"
    using ex_registered I by metis
  have pol: "True \<longleftrightarrow> cn_binding_pol_get conf_cn_ex (ab_dst ?o) (ab_src ?o) \<noteq> 0" using ex_facts(3) by simp
  have "bu_result cn_env_example cn_ex ?o True ?u (bindings cn_ex ?k) = Some (bound_entry cn_env_example ?o ?u None)"
    unfolding cn_ex_facts(2) by (simp add: bu_result_def bu_status_def tsisset_def)
  then obtain s' where "cn_recv_bu cn_env_example conf_cn_ex bu 32 (from_node our_ex hoa_ex coa_ex) cn_ex = Done s'" "cn_inv s'"
      "bindings s' = (bindings cn_ex)(?k \<mapsto> bound_entry cn_env_example ?o ?u None)"
    using binding_update_refines [OF cn_ex_facts(1) a _ ex_facts(1) pol, of ?k] by auto
  then show ?thesis by (intro exI [of _ bu] exI [of _ s']) simp
qed

theorem binding_change_authenticated_witness:
  "\<exists>bu s' r mo p b nh nc key. cn_recv_bu cn_env_example conf_cn_ex bu 32 (from_node our_ex hoa_ex coa_ex) cn_ex = Done s' \<and> bindings s' \<noteq> bindings cn_ex
    \<and> mh_opt_parse bu 32 12 = Done (r, mo) \<and> mh_opt mo IP6_MHOPT_NONCEID = Some p
    \<and> nh = le16 (bu ! (p + 3)) (bu ! (p + 2)) \<and> nc = le16 (bu ! (p + 5)) (bu ! (p + 4))
    \<and> rr_cn_calc_Kbm (cn_crypto cn_env_example) (cn_now cn_env_example) nh nc hoa_ex (Some coa_ex) cn_ex = (0, Some key)
    \<and> mh_opt mo IP6_MHOPT_BAUTH = Some b
    \<and> take 12 (drop (b + 2) bu) = calculate_auth_data (cn_crypto cn_env_example) [take 20 (clear_cksum bu)] coa_ex our_ex key"
proof -
  let ?i = "from_node our_ex hoa_ex coa_ex" and ?u = "update_info 7 0x80 100 1 1"
  obtain bu key s' where "length bu = 32" and a: "\<And>s. bc_inv s \<Longrightarrow> same_nonces cn_ex s \<Longrightarrow> bindings s (our_ex, coa_ex) = None \<Longrightarrow>
       authentic cn_env_example bu 32 ?i s (to_node our_ex hoa_ex coa_ex) ?u key"
    and b: "cn_recv_bu cn_env_example conf_cn_ex bu 32 ?i cn_ex = Done s'"
    "bindings s' = [(our_ex, hoa_ex) \<mapsto> bound_entry cn_env_example (to_node our_ex hoa_ex coa_ex) ?u None]"
    by (rule ex_registered, rule that; (assumption | blast))
  have n: "bindings s' \<noteq> bindings cn_ex" unfolding b(2) cn_ex_facts(2) by (metis fun_upd_same option.distinct(1))
  have I: "bc_inv cn_ex" "same_nonces cn_ex cn_ex" "bindings cn_ex (our_ex, coa_ex) = None" using cn_ex_facts(1,2) by (simp_all add: cn_inv_def same_nonces_def)
  obtain mo0 where m: "mh_bu_parse bu 32 ?i cn_ex = Done (Some (to_node our_ex hoa_ex coa_ex, mo0, u_lft ?u), cn_ex)"
    using a [OF I] by (auto simp: authentic_def)
  obtain r0 where r0: "mh_opt_parse bu 32 12 = Done (r0, mo0)" using mh_bu_parse_out(9) [OF I(1) m] by blast
  note C = mh_bu_parse_coa [OF I(1) m]
  have c: "update_coa bu mo0 ?i = coa_ex" "update_coa bu mo0 ?i \<noteq> ab_src ?i \<and> (bu ! 10 \<noteq> 0 \<or> bu ! 11 \<noteq> 0)"
    using C by (simp_all add: tsisset_def)
  obtain r mo p q nh nc key' where T: "mh_opt_parse bu 32 12 = Done (r, mo)" "mh_opt mo IP6_MHOPT_NONCEID = Some p"
      "nh = le16 (bu ! (p + 3)) (bu ! (p + 2)) \<and> nc = le16 (bu ! (p + 5)) (bu ! (p + 4))"
      "if update_coa bu mo ?i \<noteq> ab_src ?i \<and> (bu ! 10 \<noteq> 0 \<or> bu ! 11 \<noteq> 0)
       then rr_cn_calc_Kbm (cn_crypto cn_env_example) (cn_now cn_env_example) nh nc (ab_src ?i) (Some (update_coa bu mo ?i)) cn_ex = (0, Some key')
       else rr_cn_calc_Kbm (cn_crypto cn_env_example) (cn_now cn_env_example) nh 0 (ab_src ?i) None cn_ex = (0, Some key')"
      "mh_opt mo IP6_MHOPT_BAUTH = Some q"
      "take 12 (drop (q + 2) bu) = calculate_auth_data (cn_crypto cn_env_example) [take (32 - 12) (clear_cksum bu)] (update_coa bu mo ?i) (ab_dst ?i) key'"
    using binding_change_authenticated [OF I(1) _ b(1) n] \<open>length bu = 32\<close> by (metis order_refl)
  have mo: "mo = mo0" using T(1) r0 by simp
  have K: "rr_cn_calc_Kbm (cn_crypto cn_env_example) (cn_now cn_env_example) nh nc hoa_ex (Some coa_ex) cn_ex = (0, Some key')"
    using T(4) c unfolding mo by simp
  have A: "take 12 (drop (q + 2) bu) = calculate_auth_data (cn_crypto cn_env_example) [take 20 (clear_cksum bu)] coa_ex our_ex key'"
    using T(6) unfolding mo c(1) by simp
  from b(1) n T(1-3,5) K A show ?thesis by blast
qed

theorem replay_rejected_witness:
  "\<exists>bu s1 s2. cn_recv_bu cn_env_example conf_cn_ex bu 32 (from_node our_ex hoa_ex coa_ex) cn_ex = Done s1 \<and> bindings s1 \<noteq> bindings cn_ex
    \<and> cn_recv_bu cn_env_example conf_cn_ex bu 32 (from_node our_ex hoa_ex coa_ex) s1 = Done s2 \<and> bindings s2 = bindings s1"
proof -
  let ?b = "bound_entry cn_env_example (to_node our_ex hoa_ex coa_ex) (update_info 7 0x80 100 1 1) None"
  obtain bu key s' where "length bu = 32" and a: "\<And>s. bc_inv s \<Longrightarrow> same_nonces cn_ex s \<Longrightarrow> bindings s (our_ex, coa_ex) = None \<Longrightarrow>
       authentic cn_env_example bu 32 (from_node our_ex hoa_ex coa_ex) s (to_node our_ex hoa_ex coa_ex) (update_info 7 0x80 100 1 1) key"
    and b: "cn_recv_bu cn_env_example conf_cn_ex bu 32 (from_node our_ex hoa_ex coa_ex) cn_ex = Done s'" "cn_inv s'" "same_nonces cn_ex s'"
    "bindings s' = [(our_ex, hoa_ex) \<mapsto> ?b]"
    by (rule ex_registered, rule that; (assumption | blast))
  have n: "bindings s' \<noteq> bindings cn_ex" unfolding b(4) cn_ex_facts(2) by (metis fun_upd_same option.distinct(1))
  have I: "bc_inv s'" "bindings s' (our_ex, coa_ex) = None" using b(2,4) ex_facts(7) by (simp_all add: cn_inv_def)
  have e: "bindings s' (ab_src (to_node our_ex hoa_ex coa_ex), ab_dst (to_node our_ex hoa_ex coa_ex)) = Some ?b" using b(4) by simp
  have q: "\<not> MIP6_SEQ_GT (u_seqno (update_info 7 0x80 100 1 1)) (b_seqno ?b)" "b_type ?b \<noteq> BCE_NONCE_BLOCK \<or> b_nonce_hoa ?b = u_nonce_hoa (update_info 7 0x80 100 1 1)"
    by (simp_all add: bound_entry_def bu_fill_def MIP6_SEQ_GT_def)
  show ?thesis using replay_rejected [OF b(2) a [OF I(1) b(3) I(2)] ex_facts(1) e q, of conf_cn_ex] b(1) n by blast
qed

definition ex_ok :: "bc_state \<Rightarrow> bool" where
  "ex_ok s \<longleftrightarrow> cn_inv s \<and> same_nonces cn_ex s \<and> (\<forall>k. k \<noteq> (our_ex, hoa_ex) \<longrightarrow> bindings s k = None)"

lemma ex_step:
  assumes "ex_ok s" "coa = coa_ex \<or> coa = coa2_ex"
    and "\<And>s'. bc_inv s' \<Longrightarrow> same_nonces cn_ex s' \<Longrightarrow> bindings s' (our_ex, coa) = None \<Longrightarrow>
      authentic cn_env_example bu 32 (from_node our_ex hoa_ex coa) s' (to_node our_ex hoa_ex coa) u key"
  shows "authentic cn_env_example bu 32 (from_node our_ex hoa_ex coa) s (to_node our_ex hoa_ex coa) u key"
    "\<exists>s'. cn_recv_bu cn_env_example conf_cn_ex bu 32 (from_node our_ex hoa_ex coa) s = Done s' \<and> ex_ok s'"
proof -
  let ?o = "to_node our_ex hoa_ex coa" and ?k = "(our_ex, hoa_ex)"
  have "bindings s (our_ex, coa) = None" "bc_inv s" "same_nonces cn_ex s" "cn_inv s" using assms(1,2) ex_facts(7,8) by (auto simp: ex_ok_def cn_inv_def)
  note I = this
  show a: "authentic cn_env_example bu 32 (from_node our_ex hoa_ex coa) s ?o u key" by (rule assms(3) [OF I(2,3,1)])
  have pol: "True \<longleftrightarrow> cn_binding_pol_get conf_cn_ex (ab_dst ?o) (ab_src ?o) \<noteq> 0" using ex_facts(3) by simp
  obtain s' where "cn_recv_bu cn_env_example conf_cn_ex bu 32 (from_node our_ex hoa_ex coa) s = Done s'"
      "cn_step_to s ?k (bu_result cn_env_example s ?o True u (bindings s ?k)) (bu_answer cn_env_example ?o True u key (bindings s ?k)) s'"
    using update_step_live [OF I(4) a _ ex_facts(1) pol, of ?k] by auto
  moreover from this(2) have "ex_ok s'" using assms(1) same_nonces_trans by (auto simp: cn_step_to_def ex_ok_def)
  ultimately show "\<exists>s'. cn_recv_bu cn_env_example conf_cn_ex bu 32 (from_node our_ex hoa_ex coa) s = Done s' \<and> ex_ok s'" by blast
qed

theorem old_update_replayed_witness:
  "\<exists>m1 m2 m3 s1 s2 s3 s4 b.
      cn_recv_bu cn_env_example conf_cn_ex m1 32 (from_node our_ex hoa_ex coa_ex) cn_ex = Done s1
    \<and> cn_recv_bu cn_env_example conf_cn_ex m2 32 (from_node our_ex hoa_ex coa2_ex) s1 = Done s2
    \<and> cn_recv_bu cn_env_example conf_cn_ex m3 32 (from_node our_ex hoa_ex coa2_ex) s2 = Done s3
    \<and> cn_recv_bu cn_env_example conf_cn_ex m1 32 (from_node our_ex hoa_ex coa_ex) s3 = Done s4
    \<and> bindings s4 (our_ex, hoa_ex) = Some b \<and> b_type b = BCE_CACHED \<and> b_coa b = coa_ex"
proof -
  have I: "ex_ok cn_ex" "same_nonces cn_ex cn_ex" "bindings cn_ex k = None" for k using cn_ex_facts(1,2) by (simp_all add: ex_ok_def same_nonces_def)
  have c: "coa_ex = coa_ex \<or> coa_ex = coa2_ex" "coa2_ex = coa_ex \<or> coa2_ex = coa2_ex" by simp_all
  obtain m1 k1 where "length m1 = 32" and 1: "\<And>s. bc_inv s \<Longrightarrow> same_nonces cn_ex s \<Longrightarrow> bindings s (our_ex, coa_ex) = None \<Longrightarrow>
      authentic cn_env_example m1 32 (from_node our_ex hoa_ex coa_ex) s (to_node our_ex hoa_ex coa_ex) (update_info 1 0x80 100 1 1) k1"
    using ex_admitted [OF cn_ex_facts(1) I(2) _ _ c(1) I(3), of 1 1 1 100] by auto
  obtain m2 k2 where "length m2 = 32" and 2: "\<And>s. bc_inv s \<Longrightarrow> same_nonces cn_ex s \<Longrightarrow> bindings s (our_ex, coa2_ex) = None \<Longrightarrow>
      authentic cn_env_example m2 32 (from_node our_ex hoa_ex coa2_ex) s (to_node our_ex hoa_ex coa2_ex) (update_info 2 0x80 100 2 2) k2"
    using ex_admitted [OF cn_ex_facts(1) I(2) _ _ c(2) I(3), of 2 2 2 100] by auto
  obtain m3 k3 where "length m3 = 32" and 3: "\<And>s. bc_inv s \<Longrightarrow> same_nonces cn_ex s \<Longrightarrow> bindings s (our_ex, coa2_ex) = None \<Longrightarrow>
      authentic cn_env_example m3 32 (from_node our_ex hoa_ex coa2_ex) s (to_node our_ex hoa_ex coa2_ex) (update_info 3 0x80 0 2 2) k3"
    using ex_admitted [OF cn_ex_facts(1) I(2) _ _ c(2) I(3), of 2 2 3 0] by auto
  note A1 = ex_step [OF I(1) c(1) 1]
  obtain s1 where s1: "cn_recv_bu cn_env_example conf_cn_ex m1 32 (from_node our_ex hoa_ex coa_ex) cn_ex = Done s1" "ex_ok s1" using A1(2) by blast
  note A2 = ex_step [OF s1(2) c(2) 2]
  obtain s2 where s2: "cn_recv_bu cn_env_example conf_cn_ex m2 32 (from_node our_ex hoa_ex coa2_ex) s1 = Done s2" "ex_ok s2" using A2(2) by blast
  note A3 = ex_step [OF s2(2) c(2) 3]
  obtain s3 where s3: "cn_recv_bu cn_env_example conf_cn_ex m3 32 (from_node our_ex hoa_ex coa2_ex) s2 = Done s3" "ex_ok s3" using A3(2) by blast
  note A4 = ex_step(1) [OF s3(2) c(1) 1]
  note E = ex_facts(1)
  have p: "cn_binding_pol_get conf_cn_ex (snd (our_ex, hoa_ex)) (fst (our_ex, hoa_ex)) \<noteq> 0" using ex_facts(3) by simp
  have u: "tsisset (u_lft (update_info 1 0x80 100 1 1))" "tsisset (u_lft (update_info 2 0x80 100 2 2))" "\<not> tsisset (u_lft (update_info 3 0x80 0 2 2))"
      "MIP6_SEQ_GT (u_seqno (update_info 2 0x80 100 2 2)) (u_seqno (update_info 1 0x80 100 1 1))"
      "MIP6_SEQ_GT (u_seqno (update_info 3 0x80 0 2 2)) (u_seqno (update_info 2 0x80 100 2 2))"
      "u_nonce_hoa (update_info 1 0x80 100 1 1) \<noteq> u_nonce_hoa (update_info 2 0x80 100 2 2)"
    by (simp_all add: tsisset_def MIP6_SEQ_GT_def)
  have k: "(ab_src (to_node our_ex hoa_ex x), ab_dst (to_node our_ex hoa_ex x)) = (our_ex, hoa_ex)" for x by simp
  note R = old_update_replayed [OF cn_ex_facts(1) E E E E I(3) p A1(1) s1(1) u(1) A2(1) s2(1) u(2,4) A3(1) s3(1) u(3,5) k k k u(6) A4]
  obtain s4 b where "cn_recv_bu cn_env_example conf_cn_ex m1 32 (from_node our_ex hoa_ex coa_ex) s3 = Done s4" "bindings s4 (our_ex, hoa_ex) = Some b"
      "b_type b = BCE_CACHED" "b_coa b = the (ab_bind_coa (to_node our_ex hoa_ex coa_ex))"
    using R by blast
  then have "cn_recv_bu cn_env_example conf_cn_ex m1 32 (from_node our_ex hoa_ex coa_ex) s3 = Done s4 \<and> bindings s4 (our_ex, hoa_ex) = Some b
      \<and> b_type b = BCE_CACHED \<and> b_coa b = coa_ex" by simp
  then show ?thesis using s1(1) s2(1) s3(1) by blast
qed

theorem route_optimisation_witness:
  "\<exists>s1 s2 s3 hot cot bu b.
      cn_recv_hoti cn_env_example (replicate 16 1) 16 (plain hoa_ex our_ex) bc_boot = Some (Done s1) \<and> bc_out s1 = [CnSend (plain our_ex hoa_ex) hot]
    \<and> cn_recv_coti cn_env_example (replicate 16 2) 16 (plain coa_ex our_ex) s1 = Some (Done s2) \<and> bc_out s2 = bc_out s1 @ [CnSend (plain our_ex coa_ex) cot]
    \<and> cn_recv_bu (cn_env_example\<lparr>cn_now := TS 200 0\<rparr>) conf_cn_ex (with_cksum 0 bu) 32 (from_node our_ex hoa_ex coa_ex) s2 = Done s3
    \<and> bindings s3 = [(our_ex, hoa_ex) \<mapsto> b] \<and> b_coa b = coa_ex"
proof -
  have k: "kg_inv bc_boot" "prompt (cn_now cn_env_example) bc_boot" "unat (min_nce bc_boot) + 15 < 65536" "bc_out bc_boot = []"
    using kg_at_inv(1) [of 1] kg_at_inv(2) [where now = "cn_now cn_env_example" and mn = 1] by (simp_all add: bc_boot_def kg_state.defs kg_inv_def ring_def kg_active_def nslot_def prompt_def kg_at_def)
  have n: "ts_norm (cn_now cn_env_example)" by (simp add: cn_env_example_def ts_norm_def)
  let ?e = "cn_env_example\<lparr>cn_now := TS 200 0\<rparr>"
  have e: "live ?e" "cn_crypto ?e = cn_crypto cn_env_example" "ts_norm (cn_now ?e)" "cn_now ?e < tsadd (cn_now cn_env_example) (TS MAX_TOKEN_LIFETIME 0)"
    by (simp_all add: live_def cn_env_example_def ts_simps less_timespec_def del: tsafter_less)
  have l: "length (replicate 16 (1 :: byte)) = 16" "length (replicate 16 (2 :: byte)) = 16" "bindings bc_boot x = None" "(0x80 :: u16) AND IP6_MH_BU_HOME = 0" "(100 :: u16) \<noteq> 0" for x
    using bc_boot_inv(2) by simp_all
  from route_optimisation [where sq = 1 and c = 0, OF k(1) bc_boot_inv(1) k(2) n ex_facts(1) k(3) ex_facts(2) l(1,2) ex_facts(4,5,7) l(3,3) e l(4,5) ex_facts(3), of our_ex]
  obtain s1 s2 s3 hot cot bu b where "cn_recv_hoti cn_env_example (replicate 16 1) 16 (plain hoa_ex our_ex) bc_boot = Some (Done s1)"
      "bc_out s1 = bc_out bc_boot @ [CnSend (plain our_ex hoa_ex) hot]"
      "cn_recv_coti cn_env_example (replicate 16 2) 16 (plain coa_ex our_ex) s1 = Some (Done s2)" "bc_out s2 = bc_out s1 @ [CnSend (plain our_ex coa_ex) cot]"
      "cn_recv_bu ?e conf_cn_ex (with_cksum 0 bu) 32 (from_node our_ex hoa_ex coa_ex) s2 = Done s3"
      "bindings s3 = (bindings bc_boot)((our_ex, hoa_ex) \<mapsto> b)" "b_coa b = coa_ex"
    by blast
  then show ?thesis using bc_boot_inv(2) k(4) by (metis append_Nil)
qed

text \<open>An error that quotes a packet sent to the registered node through its care-of address.\<close>

theorem unreachable_handled_witness:
  "\<exists>s s' e. cn_inv s \<and> bindings s (our_ex, hoa_ex) = Some e \<and> b_unreach e = 0
    \<and> cn_recv_dst_unreach (replicate 8 0 @ [0x60, 0, 0, 0, 0, 24, 43, 64] @ s6_addr our_ex @ s6_addr coa_ex @ [59, 2, 2, 1, 0, 0, 0, 0] @ s6_addr hoa_ex) 72 s = Done s'
    \<and> bindings s' = (bindings s)((our_ex, hoa_ex) \<mapsto> e\<lparr>b_unreach := 1\<rparr>)"
proof -
  let ?ih = "replicate 8 0 @ [0x60, 0, 0, 0, 0, 24, 43, 64] @ s6_addr our_ex @ s6_addr coa_ex @ [59, 2, 2, 1, 0, 0, 0, 0] @ s6_addr hoa_ex :: byte list"
  let ?e = "bound_entry cn_env_example (to_node our_ex hoa_ex coa_ex) (update_info 7 0x80 100 1 1) None"
  obtain s where s: "cn_inv s" "bindings s = [(our_ex, hoa_ex) \<mapsto> ?e]" by (rule ex_registered)
  have l: "8 \<le> (72 :: nat)" "72 \<le> length ?ih" by simp_all
  have z: "replicate 8 (0 :: byte) = [0, 0, 0, 0, 0, 0, 0, 0]" by (simp add: numeral_eq_Suc)
  have h: "72 \<le> (72 :: nat) \<and> ?ih ! 14 = IPPROTO_ROUTING \<and> ?ih ! 49 = 2 \<and> ?ih ! 50 = 2 \<and> ?ih ! 51 = 1
      \<and> ?ih ! 48 \<notin> {IPPROTO_HOPOPTS, IPPROTO_ROUTING, IPPROTO_DSTOPTS}" by (simp add: z our_ex_def hoa_ex_def coa_ex_def)
  have k: "in6_of (take 16 (drop (8 + 8) ?ih)) = our_ex" "in6_of (take 16 (drop (8 + 48) ?ih)) = hoa_ex" by simp_all
  have u: "b_unreach ?e = 0" by (simp add: bound_entry_def bu_fill_def)
  have e: "bindings s (our_ex, hoa_ex) = Some ?e" unfolding s(2) by (rule fun_upd_same)
  show ?thesis
    using unreachable_handled [OF s(1) l]
  proof (elim exE conjE, goal_cases)
    case (1 ret l r s')
    have v: "ret = 0" "l = 8" "r = 48" using mp [OF 1(8) h] by simp_all
    have "bindings s' = (bindings s)((our_ex, hoa_ex) \<mapsto> ?e\<lparr>b_unreach := 1\<rparr>)"
      using 1(6) unfolding v k Let_def e option.case u by simp
    then show ?thesis using s(1) e u 1(3) by blast
  qed
qed

end
