(* ===== verification/Spec2Isabelle.thy ===== *)
theory Spec2Isabelle
  imports Prelude Chained_Hash Addr_Hash Pmip_Hash Flow_Hash Task_Queue Addr_Conv Hnp_Cache
    Mobility_Header Tunnel_Ctl Pmip_Types Pmip_Msgs Pmip_Tunnel Client_Route Pmip_Cache Flow_Scheduler
    Lma_Proc Mag_Proc Pmip_Fsm Pmip_Handler Entry_Frame Lma_Binding Pmip_Init Lma_Steps Mag_Binding Mag_Steps
    Mag_Attach Mag_Timers Mag_Reach Mag_Properties Handshake Packet_Queue Odtone
    Keygen Mh_Send Sha1 Prefix_List Bind_Policy Bcache Cn Cn_Properties
begin

text \<open>
  Verification of the Proxy Mobile IPv6 daemon with flow mobility (OAI PMIPv6, on top of the MIPL Mobile
  IPv6 sources).

  \<^bold>\<open>The program.\<close>  A mobile access gateway (MAG) notices that a node attaches to its link, sends a Proxy
  Binding Update to the local mobility anchor (LMA), and waits for the acknowledgement; the anchor
  keeps one binding per node and gateway, routes the prefix of the node to the gateway, through a tunnel when
  configured so, and answers.  Bindings have timers for retransmission and expiry.  With flow mobility the
  anchor knows all gateways of a node, schedules each new flow to one of them and marks its
  packets by firewall rules.  One process runs either role; the roles share the binding cache, the hash
  tables, the timer queue, the messages and the tunnels.  Besides its role every instance acts as a correspondent node of Mobile IPv6: it answers
  the test messages of return routability and keeps a cache of the bindings that mobile nodes register with it for route optimisation.

  \<^bold>\<open>State and faults.\<close>  The state of the daemon is the record \<open>sys\<close>, which \<open>tun_sys\<close> of \<open>Pmip_Tunnel\<close>,
  the cache of \<open>Pmip_Cache\<close> and the flows of \<open>Flow_Scheduler\<close> extend in turn: a heap of binding entries
  addressed by numbers, with the set of those allocated, the hash table of pointers into it, the timer queue, tunnels and
  their timers, the prefix cache, the routes of the clients, the flow cache, the locks held,
  and the list \<open>out\<close> of the routes, rules, packets and commands given to the kernel and the network.  What
  the environment answers during one activation (clock, allocator, kernel, random numbers, firewall, RADIUS
  server, the contents of uninitialised variables) is the record \<open>env\<close>.  An operation returns \<open>Done\<close> of its results or
  \<open>Fault\<close> of what left the language: a null or dangling pointer, a failed assertion, an access out of bounds, or a
  lock taken twice.  Machine integers are words of their width, and conversions with sign extension are written out.

  \<^bold>\<open>Theories and sources\<close> (under \<open>src/src\<close>).
  \<^item> \<open>Prelude\<close>: words, byte order, addresses, the time arithmetic of \<open>util.h\<close>.
  \<^item> \<open>Chained_Hash\<close>, \<open>Addr_Hash\<close>, \<open>Pmip_Hash\<close>, \<open>Flow_Hash\<close>: \<open>hash.c\<close>, \<open>pmip/pmip_hash.c\<close>,
    \<open>fmpmip_flowmob_hash.c\<close>.  The locale \<open>keyed_table\<close> is the contract of a table, the locale \<open>chained\<close> proves it
    for the loops, and each file's functions are shown to be an interpretation of it.  The lookup equals a search through
    the table; insertion misses a duplicate in the last place of a chain.
  \<^item> \<open>Task_Queue\<close>: \<open>tqueue.c\<close>.  Arming, re-arming and cancelling as updates of a map of deadlines; the runner
    fires in the order of the deadlines and ends when the queue drains.
  \<^item> \<open>Addr_Conv\<close>, \<open>Hnp_Cache\<close>: the identifiers and prefixes of nodes, \<open>pmip/pmip_hnp_cache.c\<close> with the mapping file
    and the RADIUS client, and the address helpers of \<open>pmip/pmip_handler.c\<close>.
  \<^item> \<open>Mobility_Header\<close>, \<open>Pmip_Types\<close>, \<open>Pmip_Msgs\<close>: \<open>mh.c\<close>, \<open>pmip/pmip_types.h\<close>, \<open>conf.h\<close>, \<open>pmip/pmip_msgs.c\<close>.
    The option parser stores the first option of each type, its type and length inside the message (its body is not tested, see \<open>truncated_option_stored\<close>); updates and acknowledgements as bytes are read back by the other side.
  \<^item> \<open>Tunnel_Ctl\<close>, \<open>Pmip_Tunnel\<close>: \<open>tunnelctl.c\<close>, \<open>pmip/pmip_tunnel.c\<close>.  Sharing and counting of tunnels refine a
    map from end points to users; the removal of an unused tunnel is delayed by a timer.
  \<^item> \<open>Pmip_Cache\<close>: \<open>pmip/pmip_cache.c\<close>.  The invariant \<open>cache_inv\<close>, the map \<open>lookup\<close> it stands for, and the refinement
    of insertion and deletion to updates of that map.
  \<^item> \<open>Client_Route\<close>, \<open>Flow_Scheduler\<close>, \<open>Packet_Queue\<close>: \<open>pmip/fmpmip\<close>.  A queued packet is parsed through its
    extension headers, its flow is recorded and marked; flows move when a gateway is lost or gained.
  \<^item> \<open>Lma_Proc\<close>, \<open>Mag_Proc\<close>, \<open>Pmip_Fsm\<close>, \<open>Pmip_Handler\<close>, \<open>Odtone\<close>, \<open>Pmip_Init\<close>: \<open>pmip/pmip_lma_proc.c\<close>,
    \<open>pmip/pmip_mag_proc.c\<close>, \<open>pmip/pmip_fsm.c\<close>, \<open>pmip/pmip_handler.c\<close>, \<open>pmip/pmip_odtone.c\<close>, \<open>pmip/pmip_init.c\<close> and the
    handlers of \<open>pmip/pmip_pcap.c\<close>: the procedures, the two state machines, and the messages and timers that drive them.
  \<^item> \<open>Entry_Frame\<close>, \<open>Lma_Binding\<close>, \<open>Lma_Steps\<close>: what a procedure may change, and the anchor as a step relation.  The
    locale \<open>daemon\<close> of \<open>Entry_Frame\<close> carries invariants from the start and the steps to every reachable state; it is interpreted for both roles.
  \<^item> \<open>Mag_Binding\<close>, \<open>Mag_Steps\<close>, \<open>Mag_Attach\<close>, \<open>Mag_Timers\<close>, \<open>Mag_Reach\<close>, \<open>Mag_Properties\<close>: the gateway in the same way.
  \<^item> \<open>Keygen\<close>: \<open>keygen.c\<close>.  The ring of sixteen nonces as a run of valid ones with their timers; tokens last as long as promised, and the keys of
    both sides agree.
  \<^item> \<open>Mh_Send\<close>, \<open>Bcache\<close>: the senders and the authorization data of \<open>mh.c\<close>, and \<open>bcache.c\<close>.  The cache with its heap, locks and timers
    stands for the map \<open>bindings\<close>; the life of a binding up to the block it leaves on its nonce.
  \<^item> \<open>Sha1\<close>: \<open>crypto.c\<close>, for builds without OpenSSL, and its calls in \<open>keygen.c\<close> and \<open>mh.c\<close>.  The eighty rounds over a window of sixteen words are the function of FIPS 180-4,
    a message may come in any pieces, HMAC is that of RFC 2104 for the keys the daemon uses.  The locale \<open>digest_calls\<close> is interpreted for both.
  \<^item> \<open>Prefix_List\<close>: \<open>prefix.h\<close>, \<open>prefix.c\<close> and \<open>util.c\<close>.  Prefixes by the bits of addresses, the longest match in a list, remaining lifetimes, and the checksum
    against the ones' complement sum of RFC 1071 over the pseudo header of RFC 8200.
  \<^item> \<open>Bind_Policy\<close>: \<open>policy.c\<close>, the default policy module, over the table of \<open>Addr_Hash\<close>: how the configuration decides about updates.
  \<^item> \<open>Cn\<close>, \<open>Cn_Properties\<close>: \<open>cn.c\<close>, \<open>mh_bu_parse\<close> of \<open>mh.c\<close> and \<open>icmp6_parse_data\<close> of \<open>icmp6.c\<close>.  Test messages, binding updates as updates of the
    map, authentication and replays, ICMP errors.
  \<^item> \<open>Handshake\<close> and this theory: both roles together, joined by the bytes they exchange.

  \<^bold>\<open>What is shown.\<close>  Every state an anchor or a gateway reaches from its start-up satisfies its invariant: the cache is well formed, no lock is
  held between activations, every cached binding has its timer and, at the anchor, its route.  Each
  event is described in full on the binding it concerns, with the frame that other bindings stay as they are:
  registration, renewal, expiry, attachment, acknowledgement, retransmission (at most as often as configured), detachment.
  An attachment leads, by two messages, to registered bindings on both sides with the same address.  At the correspondent node, two test messages and
  an authenticated update lead to a binding, no binding changes without the key, and a timer takes a binding through its stages.  Theorems of the kind
  \<open>error\<close> describe what the code does where it does not do what it means to; hypotheses elsewhere exclude exactly those cases.

  \<^bold>\<open>Bounds and termination.\<close>  There is no fuel.  Loops over lists and arrays are structural or have a measure; the extension headers of a packet
  end because each takes at least eight bytes; the runner of the timer queue, which may run forever, is a
  \<open>partial_function\<close> with the theorem that it ends when the queue drains; so are the decoders of \<open>Odtone\<close>, where
  \<open>None\<close> is a loop that does not end, with a theorem for a message on which that happens, and the search for a nonce in \<open>Keygen\<close>, which is
  shown to end with a nonce while the counter has not wrapped around.

  \<^bold>\<open>Restrictions.\<close>  Calls to the kernel, the firewall, the RADIUS library, the allocator and OpenSSL are parameters; the theorems about the correspondent node use of HMAC only the length of its
  result, so that they hold for OpenSSL and, by \<open>builtin_crypto_length\<close> and the refinement in \<open>Sha1\<close>, for \<open>crypto.c\<close>.  One activation runs at a time:
  the mutexes are modelled as the list of locks held, so that a lock taken twice or left held shows, but the
  interleaving of threads inside one activation is not.  The correspondent node has a state and a timer queue of its own, without the proxy
  entities; the two share no other data.  The step relation of the gateway is that of the build with the ODTONE client and without RADIUS.

  Where the model is stricter than the code or leaves something out:
  \<^item> Locks are exclusive and a lock taken twice is a fault, although the sources use read-write locks and \<open>bcache_get\<close> locks for reading.  The locks of
    \<open>fmpmip_client_route.c\<close> and of the flow cache, which guard the data of these modules only, are left out.
  \<^item> The buffer of a received message is exactly the received bytes: reading the body of an option behind the end is a fault, where the code reads what an
    earlier message left in the buffer.
  \<^item> A message given to the socket counts as sent: failures of \<open>sendmsg\<close> and of the allocation of its control data in \<open>mh_send\<close> are left out.  The
    acknowledgements of \<open>mh_send_ba\<close> are those of the default policy module, which gives no refresh advice.
  \<^item> In \<open>mh_verify_auth_data\<close> a length above twelve is a fault, where the code compares beyond its array; the parser has refused such a message before.
  \<^item> Addresses of freed entries are not used again; \<open>bcache_alloc\<close> has one failure for \<open>malloc\<close> and for the initialisation of the lock.
  \<^item> The removal of a tunnel device is the answer \<open>k_deltunnel\<close> of the kernel, which shows in the result of \<open>tunnel_del\<close>.
  \<^item> \<open>conf.HomeNetworkPrefix\<close>, which \<open>pmip_mag_init\<close> sets and nothing but debugging output reads, is left out.

  \<^bold>\<open>Not modelled.\<close>  The Mobile IPv6 mobile node (\<open>mn.c\<close>, \<open>movement.c\<close> and what they use), a role of its own, and the home agent (\<open>ha.c\<close>), whose handlers an anchor
  starts besides those of the proxy protocol; IPsec; the configuration parsers, which are generated; sockets, netlink, \<open>/proc\<close> and the capture of packets,
  which are input and output; the virtual terminal and debugging output.
\<close>

section \<open>The two entities together\<close>

text \<open>C1: a node that attaches to the gateway is registered with the anchor by the exchange of the two messages:
  the bytes the gateway sends make the anchor create a binding and answer, and the bytes of the
  answer complete the binding of the gateway.  Both then hold a registered binding with the same
  address of the node, their other bindings are as before, and the gateway's timer runs for three
  seconds less than the anchor's.\<close>

theorem registration_handshake:
  assumes "gateway_inv cg g" "anchor_inv ca a" "env_ok cg eg" "env_ok ca ea" "env_ok cg eg'" "tod eg = Some (sec, us)"
    and "length mac = 6" "hnp_entry (hnp g) (mac48_addr mac) = Some (prefix, nai)" "length nai = NAI_SIZE"
    and "lookup g (nai, OurAddress cg) = None" "lookup a (nai, MagAddressEgress cg 0) = None"
    and "LmaAddress ca = LmaAddress cg" "MagAddressEgress cg 0 \<noteq> in6addr_any"
    and "slot_ok cg (LmaAddress cg) g" "slot_ok ca (MagAddressEgress cg 0) a"
  shows "\<exists>g1 pbu a1 pba g2 es es' p q.
      msg_handler_associate cg eg mac (g_ingress_iif cg) g = Done g1 \<and> out g1 = out g @ [SendMH pbu]
    \<and> pmip_lma_recv_pbu ca ea (p_bytes pbu) (p_src pbu) (p_dst pbu) ia a = Done a1 \<and> out a1 = out a @ es @ SendMH pba # es'
    \<and> pmip_mag_recv_pba cg eg' (p_bytes pba) (p_src pba) (p_dst pba) ig g1 = Done g2
    \<and> gateway_inv cg g2 \<and> lookup g2 = (lookup g)((nai, OurAddress cg) \<mapsto> p) \<and> e_type (heap g2 p) = BCE_PMIP
    \<and> anchor_inv ca a1 \<and> lookup a1 = (lookup a)((nai, MagAddressEgress cg 0) \<mapsto> q) \<and> e_type (heap a1 q) = BCE_PMIP
    \<and> mn_addr (heap g2 p) = CONVERT_ID2ADDR prefix (EUI48_to_EUI64 (mac48_addr mac)) \<and> mn_addr (heap a1 q) = mn_addr (heap g2 p)
    \<and> pending (tqs g2) (TqBce p) = Some (tsadd (now eg') (TS 5 0)) \<and> pending (tqs a1) (TqBce q) = Some (tsadd (now ea) (TS 8 0))"
proof -
  let ?te = "temp_entry cg (link_event (hnp g) hasODTONELinkEvent mac (g_ingress_iif cg)) nai prefix" and ?p = "brk g"
  let ?iid = "EUI48_to_EUI64 (mac48_addr mac)"
  obtain g1 where g1: "msg_handler_associate cg eg mac (g_ingress_iif cg) g = Done g1" "gateway_inv cg g1"
      "lookup g1 = (lookup g)((nai, OurAddress cg) \<mapsto> ?p)" "g_tunnel_timer_table g1 = g_tunnel_timer_table g"
      "\<exists>e pkt. mh_send_pbu True (tod eg) (MagAddressEgress cg 0) (LmaAddress cg) (TS 10 0) 0 ?te (seq g) = Done (0, e, seq g + 1, Some pkt)
        \<and> out g1 = out g @ [SendMH pkt]
        \<and> heap g1 ?p = e\<lparr>e_add_time := now eg, e_BID := last_BID g + 1, e_n_rets_counter := MaxMessageRetransmissions cg\<rparr>"
      "\<exists>ts v. heap g1 ?p = ?te\<lparr>e_seqno_out := ucast (seq g), e_timestamp := ts, e_mh_vec := v, e_add_time := now eg,
         e_BID := last_BID g + 1, e_n_rets_counter := MaxMessageRetransmissions cg\<rparr>"
    by (rule associate_attaches [OF assms(1,3,7,8,10)]) (rule that)
  obtain e pbu where pbu: "mh_send_pbu True (tod eg) (MagAddressEgress cg 0) (LmaAddress cg) (TS 10 0) 0 ?te (seq g) = Done (0, e, seq g + 1, Some pbu)"
      "out g1 = out g @ [SendMH pbu]" "heap g1 ?p = e\<lparr>e_add_time := now eg, e_BID := last_BID g + 1, e_n_rets_counter := MaxMessageRetransmissions cg\<rparr>"
    using g1(5) by blast
  have te: "length (e_mn_nai ?te) = NAI_SIZE" "get_node_id (e_mn_suffix ?te) = e_mn_suffix ?te" "e_mn_suffix ?te = ?iid" "e_mn_prefix ?te = prefix"
      "e_mn_nai ?te = nai"
    using assms(9) node_id_eui by (simp_all add: temp_entry_def)
  note U = update_read [OF te(1) assms(12,6) te(2) pbu(1), unfolded te]
  obtain info where info: "mh_pbu_parse ca msg_info_zero (p_bytes pbu) (length (p_bytes pbu)) (p_src pbu) (p_dst pbu) ia = Done info"
      "read_update cg eg ?iid nai prefix (seq g) sec us ia info"
    using U(1) by blast
  from anchor_answers [OF assms(2,4) info(2) assms(13,9,11,15)] obtain q a1 x es es' where
    a1: "lma_fsm ca ea info a = Done a1" "anchor_inv ca a1" "lookup a1 = (lookup a)((nai, MagAddressEgress cg 0) \<mapsto> q)"
      "e_type (heap a1 q) = BCE_PMIP" "mn_addr (heap a1 q) = CONVERT_ID2ADDR prefix ?iid"
      "pending (tqs a1) (TqBce q) = Some (tsadd (now ea) (TS 8 0))" "out a1 = out a @ es @ SendMH (pba_packet (OurAddress ca) (TS 8 0) x) # es'"
    and x: "e_mn_nai x = nai" "e_mn_prefix x = prefix" "e_mn_suffix x = ?iid" "e_seqno_in x = ucast (seq g)" "e_timestamp x = timestamp_of sec us"
      "e_mn_serv_mag_addr x = MagAddressEgress cg 0"
    by blast
  let ?pba = "pba_packet (OurAddress ca) (TS 8 0) x"
  have "length (e_mn_nai x) = NAI_SIZE" "get_node_id (e_mn_suffix x) = e_mn_suffix x" using x(1,3) assms(9) node_id_eui by simp_all
  from acknowledgement_read [OF this] obtain ack where
    k: "mh_pba_parse (junk_info eg') (p_bytes ?pba) (length (p_bytes ?pba)) (p_src ?pba) (p_dst ?pba) ig = Done ack"
      "i_msg_event ack = hasPBA" "i_dst ack = p_dst ?pba" "tv_sec (i_lifetime ack) = 8" "i_mn_nai ack = nai" "i_mn_prefix ack = prefix"
      "i_mn_iid ack = ?iid" "i_seqno ack = ucast (seq g)" "i_timestamp ack = timestamp_of sec us"
    unfolding x by blast
  have h1: "e_type (heap g1 ?p) = BCE_TEMP" "mn_addr (heap g1 ?p) = CONVERT_ID2ADDR prefix ?iid" "tv_nsec (e_lifetime (heap g1 ?p)) = 0"
    using g1(6) by (auto simp: temp_entry_def mn_addr_def pmip_entry_zero_def tszero_def)
  have r: "is_pba_is_response_to_last_pbu_sent ack (heap g1 ?p)"
    using U(2-5) k by (simp add: is_pba_is_response_to_last_pbu_sent_def pbu(3))
  have l: "lookup g1 (i_mn_nai ack, OurAddress cg) = Some ?p" "i_dst ack = MagAddressEgress cg 0" "slot_ok cg (LmaAddress cg) g1"
    using g1(3) k(3,5) x(6) slot_ok_cong [OF g1(4)] assms(14) by (simp_all add: pba_packet_def)
  from gateway_completes [OF g1(2) assms(5) l(1) h1(1) k(2) l(2) k(4) r l(3)] obtain g2 where
    g2: "mag_fsm cg eg' ack g1 = Done g2" "gateway_inv cg g2" "lookup g2 = lookup g1" "e_type (heap g2 ?p) = BCE_PMIP"
      "mn_addr (heap g2 ?p) = CONVERT_ID2ADDR prefix ?iid" "pending (tqs g2) (TqBce ?p) = Some (tsadd (now eg') (TS 5 0))"
    unfolding h1 by blast
  have "pmip_lma_recv_pbu ca ea (p_bytes pbu) (p_src pbu) (p_dst pbu) ia a = Done a1" using info(1) a1(1) by (simp add: pmip_lma_recv_pbu_def)
  moreover have "pmip_mag_recv_pba cg eg' (p_bytes ?pba) (p_src ?pba) (p_dst ?pba) ig g1 = Done g2" using k(1) g2(1) by (simp add: pmip_mag_recv_pba_def)
  ultimately show ?thesis using g1(1) pbu(2) a1(2-7) g2(2-6) g1(3)
    by (intro exI [of _ g1] exI [of _ pbu] exI [of _ a1] exI [of _ ?pba] exI [of _ g2] exI [of _ es] exI [of _ es'] exI [of _ ?p] exI [of _ q]) simp
qed

theorem registration_handshake_witness:
  "\<exists>g1 pbu a1 pba g2 es es'. msg_handler_associate conf_gateway env_example mac_example (g_ingress_iif conf_gateway) gw_boot = Done g1
    \<and> out g1 = out gw_boot @ [SendMH pbu]
    \<and> pmip_lma_recv_pbu conf_anchor env_example (p_bytes pbu) (p_src pbu) (p_dst pbu) 1 lma_boot = Done a1
    \<and> out a1 = out lma_boot @ es @ SendMH pba # es'
    \<and> pmip_mag_recv_pba conf_gateway env_example (p_bytes pba) (p_src pba) (p_dst pba) 1 g1 = Done g2
    \<and> lookup g2 (nai_example, OurAddress conf_gateway) \<noteq> None \<and> lookup a1 (nai_example, OurAddress conf_gateway) \<noteq> None"
proof -
  have e: "tod env_example = Some (100, 0)" "length nai_example = NAI_SIZE" "LmaAddress conf_anchor = LmaAddress conf_gateway"
      "MagAddressEgress conf_gateway 0 \<noteq> in6addr_any"
    by (simp_all add: env_example_def nai_example_def conf_anchor_def conf_gateway_def conf_example_def in6addr_any_def)
  from registration_handshake [OF gw_boot_inv lma_boot_inv(1) gateway_ok(1) example_ok(1) gateway_ok(1) e(1) gateway_ok(2) gw_boot_hnp e(2)
      gw_boot_lookup lma_boot_inv(2) e(3,4) gateway_ok(6) example_ok(6), of 1 1]
  obtain g1 pbu a1 pba g2 es es' p q where r: "msg_handler_associate conf_gateway env_example mac_example (g_ingress_iif conf_gateway) gw_boot = Done g1"
      "out g1 = out gw_boot @ [SendMH pbu]" "pmip_lma_recv_pbu conf_anchor env_example (p_bytes pbu) (p_src pbu) (p_dst pbu) 1 lma_boot = Done a1"
      "out a1 = out lma_boot @ es @ SendMH pba # es'" "pmip_mag_recv_pba conf_gateway env_example (p_bytes pba) (p_src pba) (p_dst pba) 1 g1 = Done g2"
      "lookup g2 = (lookup gw_boot)((nai_example, OurAddress conf_gateway) \<mapsto> p)"
      "lookup a1 = (lookup lma_boot)((nai_example, MagAddressEgress conf_gateway 0) \<mapsto> q)"
    by blast
  then show ?thesis using gateway_ok(4)
    by (intro exI [of _ g1] exI [of _ pbu] exI [of _ a1] exI [of _ pba] exI [of _ g2] exI [of _ es] exI [of _ es']) simp
qed

end
